(* ===== verification/Calvin_Prelude.thy ===== *)
theory Calvin_Prelude
  imports Main "HOL-Library.Word" "HOL-Library.AList" "HOL-Library.List_Lexorder"
    "HOL-Library.Char_ord" "HOL-Library.Product_Lexorder"
begin

text \<open>
  Shared vocabulary of the development: the machine integers of \<open>common/types.h\<close>, the
  outcome of code that may abort (\<open>CHECK\<close>, \<open>LOG(FATAL)\<close>) or run into undefined
  behaviour, loops that stop at the first failure, and the ordered containers \<open>std::map\<close> and
  \<open>std::set\<close> (sorted lists, so that iteration order is the order of the code). An
  \<open>unordered_map\<close> whose size or order is not observed is a HOL map; one whose size is observed is an
  association list of HOL-Library.AList.
\<close>

unbundle bit_operations_syntax

named_theorems outcome_simps "unfolding of outcomes, binds and failing folds"
named_theorems container_simps "lookup, keys and membership of the ordered containers"
named_theorems config_simps "size and division facts of a well-formed cluster"

section \<open>Machine integers\<close>

type_synonym uint8 = "8 word"
type_synonym uint32 = "32 word"
type_synonym uint64 = "64 word"

text \<open>\<open>int\<close> and \<open>int64\<close> are the same words, read with \<^term>\<open>sint\<close>.\<close>

type_synonym int32 = "32 word"
type_synonym int64 = "64 word"

text \<open>A \<open>char\<close> is signed on the supported platform: widening it to an integer extends the sign.\<close>

definition char_to_int64 :: "char \<Rightarrow> uint64" where
  "char_to_int64 c = scast (of_char c :: uint8)"

section \<open>Outcomes\<close>

datatype failure =
    Check_failed          \<comment> \<open>a \<open>CHECK\<close> or \<open>LOG(FATAL)\<close> aborted the process\<close>
  | Undefined_behaviour   \<comment> \<open>the C++ standard gives the program no meaning\<close>

type_synonym 'a outcome = "failure + 'a"

definition bindE :: "'a outcome \<Rightarrow> ('a \<Rightarrow> 'b outcome) \<Rightarrow> 'b outcome" where
  "bindE m f = (case m of Inl e \<Rightarrow> Inl e | Inr a \<Rightarrow> f a)"

definition CHECK :: "bool \<Rightarrow> 'a outcome \<Rightarrow> 'a outcome" where
  "CHECK b m = (if b then m else Inl Check_failed)"

definition require_defined :: "bool \<Rightarrow> 'a outcome \<Rightarrow> 'a outcome" where
  "require_defined b m = (if b then m else Inl Undefined_behaviour)"

fun foldE :: "('a \<Rightarrow> 's \<Rightarrow> 's outcome) \<Rightarrow> 'a list \<Rightarrow> 's \<Rightarrow> 's outcome" where
  "foldE f [] s = Inr s"
| "foldE f (x # xs) s = bindE (f x s) (foldE f xs)"

lemma bindE_simps [simp, outcome_simps]:
  "bindE (Inl e) f = Inl e"
  "bindE (Inr a) f = f a"
  by (simp_all add: bindE_def)

lemma bindE_Inr_iff [outcome_simps]:
  "bindE m f = Inr b \<longleftrightarrow> (\<exists>a. m = Inr a \<and> f a = Inr b)"
  by (cases m) auto

lemma CHECK_Inr_iff [outcome_simps]: "CHECK b m = Inr a \<longleftrightarrow> b \<and> m = Inr a"
  by (simp add: CHECK_def)

lemma CHECK_True [simp, outcome_simps]: "CHECK True m = m"
  by (simp add: CHECK_def)

lemma CHECK_False [simp, outcome_simps]: "CHECK False m = Inl Check_failed"
  by (simp add: CHECK_def)

lemma require_defined_Inr_iff [outcome_simps]:
  "require_defined b m = Inr a \<longleftrightarrow> b \<and> m = Inr a"
  by (simp add: require_defined_def)

lemma require_defined_simps [simp, outcome_simps]:
  "require_defined True m = m"
  "require_defined False m = Inl Undefined_behaviour"
  by (simp_all add: require_defined_def)

lemma foldE_append: "foldE f (xs @ ys) s = bindE (foldE f xs s) (foldE f ys)"
proof (induction xs arbitrary: s)
  case (Cons x xs)
  then show ?case by (cases "f x s") simp_all
qed simp

lemma foldE_invariant:
  assumes "foldE f xs s = Inr t" and "P s"
    and "\<And>x u v. x \<in> set xs \<Longrightarrow> P u \<Longrightarrow> f x u = Inr v \<Longrightarrow> P v"
  shows "P t"
  using assms
proof (induction xs arbitrary: s)
  case (Cons x xs)
  from Cons.prems(1) obtain u where "f x s = Inr u" and u: "foldE f xs u = Inr t"
    by (auto simp: bindE_Inr_iff)
  with Cons.prems have "P u" by (meson list.set_intros(1))
  with u show ?case by (rule Cons.IH) (meson Cons.prems(3) list.set_intros(2))
qed simp

lemma foldE_Inr: "(\<And>x u. x \<in> set xs \<Longrightarrow> f x u = Inr (g x u)) \<Longrightarrow> foldE f xs s = Inr (fold g xs s)"
  by (induction xs arbitrary: s) auto

section \<open>Ordered containers\<close>

text \<open>\<open>std::map\<close>: an association list with strictly increasing keys.\<close>

type_synonym ('k, 'v) omap = "('k \<times> 'v) list"

fun om_insert :: "'k::linorder \<Rightarrow> 'v \<Rightarrow> ('k, 'v) omap \<Rightarrow> ('k, 'v) omap" where
  "om_insert k v [] = [(k, v)]"
| "om_insert k v ((a, b) # m) =
     (if k < a then (k, v) # (a, b) # m
      else if k = a then (k, v) # m
      else (a, b) # om_insert k v m)"

definition om_keys :: "('k, 'v) omap \<Rightarrow> 'k list" where
  "om_keys m = map fst m"

definition om_ok :: "('k::linorder, 'v) omap \<Rightarrow> bool" where
  "om_ok m = sorted_wrt (<) (om_keys m)"

text \<open>\<open>std::set\<close>: a strictly increasing list, filled by \<^const>\<open>insort_insert\<close>.\<close>

definition os_insert :: "'a::linorder \<Rightarrow> 'a list \<Rightarrow> 'a list" where
  "os_insert x xs = insort_insert x xs"

lemma om_insert_lookup [simp, container_simps]:
  "map_of (om_insert k v m) = (map_of m)(k \<mapsto> v)"
  by (induction k v m rule: om_insert.induct) (auto simp: fun_eq_iff)

lemma om_insert_keys [simp, container_simps]:
  "set (om_keys (om_insert k v m)) = insert k (set (om_keys m))"
  by (induction k v m rule: om_insert.induct) (auto simp: om_keys_def)

lemma om_empty_ok [simp, intro]: "om_ok []"
  by (simp add: om_ok_def om_keys_def)

lemma om_insert_ok [simp, intro]: "om_ok m \<Longrightarrow> om_ok (om_insert k v m)"
proof (induction k v m rule: om_insert.induct)
  case (2 k v a b m)
  have keys: "set (map fst (om_insert k v m)) = insert k (set (map fst m))"
    using om_insert_keys [of k v m] by (simp only: om_keys_def)
  show ?case
  proof (cases "k < a \<or> k = a")
    case True
    with 2 show ?thesis by (auto simp: om_ok_def om_keys_def)
  next
    case False
    with 2 have "om_ok (om_insert k v m)" by (simp add: om_ok_def om_keys_def)
    moreover have "\<forall>y \<in> set (map fst (om_insert k v m)). a < y"
      using 2(2) False keys by (auto simp: om_ok_def om_keys_def)
    ultimately show ?thesis using False by (simp add: om_ok_def om_keys_def)
  qed
qed (simp add: om_ok_def om_keys_def)

lemma om_ok_distinct: "om_ok m \<Longrightarrow> distinct (om_keys m)"
  unfolding om_ok_def by (rule strict_sorted_iff [THEN iffD1, THEN conjunct2])

lemma length_om_insert_new: "k \<notin> set (om_keys m) \<Longrightarrow> length (om_insert k v m) = Suc (length m)"
  by (induction k v m rule: om_insert.induct) (auto simp: om_keys_def)

lemma length_om_keys: "length (om_keys m) = length m"
  by (simp add: om_keys_def)

lemma om_lookup_None: "map_of m k = None \<longleftrightarrow> k \<notin> set (om_keys m)"
  by (simp add: om_keys_def map_of_eq_None_iff)

lemma os_insert_set [simp, container_simps]: "set (os_insert x xs) = insert x (set xs)"
  by (simp add: os_insert_def set_insort_insert)

lemma os_insert_Nil [simp]: "os_insert x [] = [x]"
  by (simp add: os_insert_def insort_insert_key_def)

lemma os_insert_sorted [simp, intro]: "sorted xs \<Longrightarrow> sorted (os_insert x xs)"
  by (simp add: os_insert_def sorted_insort_insert)

lemma os_insert_distinct [simp, intro]: "distinct xs \<Longrightarrow> distinct (os_insert x xs)"
  by (simp add: os_insert_def distinct_insort_insert)

text \<open>\<open>vector::resize\<close>: cut or fill with default values.\<close>

definition vec_resize :: "nat \<Rightarrow> 'a \<Rightarrow> 'a list \<Rightarrow> 'a list" where
  "vec_resize n d xs = take n xs @ replicate (n - length xs) d"

lemma length_vec_resize [simp]: "length (vec_resize n d xs) = n"
  by (simp add: vec_resize_def)

lemma nth_vec_resize: "i < length xs \<Longrightarrow> length xs \<le> n \<Longrightarrow> vec_resize n d xs ! i = xs ! i"
  by (simp add: vec_resize_def nth_append)

section \<open>Lists\<close>

lemma sorted_le_last: "sorted xs \<Longrightarrow> x \<in> set xs \<Longrightarrow> x \<le> last xs"
  by (cases xs rule: rev_cases) (auto simp: sorted_append)

lemma hd_le_sorted: "sorted xs \<Longrightarrow> x \<in> set xs \<Longrightarrow> hd xs \<le> x"
  by (cases xs) auto

lemma filter_eq_in_distinct: "distinct xs \<Longrightarrow> x \<in> set xs \<Longrightarrow> filter (\<lambda>y. y = x) xs = [x]"
proof (induction xs)
  case (Cons a xs)
  then show ?case by (cases "a = x") (auto simp: filter_empty_conv)
qed simp

end
