(* ===== verification/Utils.thy ===== *)
theory Utils
  imports Calvin_Prelude
begin

text \<open>
  \<open>common/utils.cc\<close> and \<open>common/utils.h\<close>: splitting, number formatting and parsing, the
  hash functions, the circular buffer \<open>AtomicQueue\<close> and the locked map \<open>AtomicMap\<close>. The
  methods of the last two run under their mutexes, so each is one atomic function on the state; the
  locale \<open>fifo_queue\<close> is the contract the rest of the system uses the queue under, and
  \<open>AtomicQueue\<close> is proved to meet it.
\<close>

section \<open>Strings\<close>

fun SplitString_loop :: "char \<Rightarrow> string \<Rightarrow> string list \<Rightarrow> string \<Rightarrow> string list" where
  "SplitString_loop d current result [] = result @ [current]"
| "SplitString_loop d current result (c # cs) =
     (if c = d then SplitString_loop d [] (result @ [current]) cs
      else SplitString_loop d (current @ [c]) result cs)"

definition SplitString :: "string \<Rightarrow> char \<Rightarrow> string list" where
  "SplitString input delimiter = SplitString_loop delimiter [] [] input"

text \<open>The inverse: the pieces with the delimiter between them.\<close>

fun join_with :: "char \<Rightarrow> string list \<Rightarrow> string" where
  "join_with d [] = []"
| "join_with d [x] = x"
| "join_with d (x # y # xs) = x @ d # join_with d (y # xs)"

lemma join_with_snoc: "xs \<noteq> [] \<Longrightarrow> join_with d (xs @ [y]) = join_with d xs @ d # y"
  by (induction d xs rule: join_with.induct) (auto simp: neq_Nil_conv)

lemma join_with_extend_last: "join_with d (xs @ [y @ zs]) = join_with d (xs @ [y]) @ zs"
  by (cases "xs = []") (simp_all add: join_with_snoc)

lemma join_SplitString_loop:
  "join_with d (SplitString_loop d cur res input) = join_with d (res @ [cur]) @ input"
proof (induction d cur res input rule: SplitString_loop.induct)
  case (2 d cur res c cs)
  have "join_with d ((res @ [cur]) @ [[]]) = join_with d (res @ [cur]) @ [d]"
    by (subst join_with_snoc) simp_all
  with 2 show ?case by (simp add: join_with_extend_last [of d res cur "[c]"])
qed simp

lemma SplitString_loop_pieces:
  "d \<notin> set cur \<Longrightarrow> \<forall>p \<in> set res. d \<notin> set p
    \<Longrightarrow> \<forall>p \<in> set (SplitString_loop d cur res input). d \<notin> set p"
  by (induction d cur res input rule: SplitString_loop.induct) auto

lemma length_SplitString_loop:
  "length (SplitString_loop d cur res input) = Suc (length res) + count_list input d"
  by (induction d cur res input rule: SplitString_loop.induct) auto

lemma SplitString_loop_piece:
  "d \<notin> set x \<Longrightarrow> SplitString_loop d cur res (x @ ys)
     = SplitString_loop d (cur @ x) res ys"
  by (induction x arbitrary: cur) auto

lemma SplitString_loop_join:
  "xs \<noteq> [] \<Longrightarrow> \<forall>p \<in> set xs. d \<notin> set p
    \<Longrightarrow> SplitString_loop d [] res (join_with d xs) = res @ xs"
proof (induction d xs arbitrary: res rule: join_with.induct)
  case (2 d x)
  then show ?case using SplitString_loop_piece [of d x "[]" res "[]"] by simp
next
  case (3 d x y xs)
  then show ?case by (simp add: SplitString_loop_piece)
qed simp

section \<open>Numbers as text\<close>

text \<open>The decimal digits \<open>snprintf\<close> prints for \<open>%u\<close>, \<open>%lu\<close>, and after the sign for \<open>%d\<close>.\<close>

definition digit_char :: "nat \<Rightarrow> char" where
  "digit_char n = char_of (48 + n)"

definition digit_value :: "char \<Rightarrow> nat" where
  "digit_value c = of_char c - 48"

definition isdigit_char :: "char \<Rightarrow> bool" where
  "isdigit_char c = (48 \<le> (of_char c :: nat) \<and> (of_char c :: nat) \<le> 57)"

fun decimal :: "nat \<Rightarrow> string" where
  "decimal n = (if n < 10 then [digit_char n] else decimal (n div 10) @ [digit_char (n mod 10)])"

declare decimal.simps [simp del]

definition decimal_int :: "int \<Rightarrow> string" where
  "decimal_int i = (if i < 0 then CHR ''-'' # decimal (nat (- i)) else decimal (nat i))"

definition Int32ToString :: "int32 \<Rightarrow> string" where
  "Int32ToString n = decimal_int (sint n)"

definition Int64ToString :: "int64 \<Rightarrow> string" where
  "Int64ToString n = decimal_int (sint n)"

definition UInt32ToString :: "uint32 \<Rightarrow> string" where
  "UInt32ToString n = decimal (unat n)"

definition UInt64ToString :: "uint64 \<Rightarrow> string" where
  "UInt64ToString n = decimal (unat n)"

definition IntToString :: "int32 \<Rightarrow> string" where
  "IntToString n = decimal_int (sint n)"

text \<open>
  \<open>atoi\<close>: skip white space, read an optional sign and then digits up to the first other
  character. The value is read as a \<open>long\<close>, saturating at its bounds, and cut to an \<open>int\<close>.
\<close>

definition isspace_char :: "char \<Rightarrow> bool" where
  "isspace_char c = ((of_char c :: nat) = 32 \<or> 9 \<le> (of_char c :: nat) \<and> (of_char c :: nat) \<le> 13)"

fun digits_value :: "nat \<Rightarrow> string \<Rightarrow> nat" where
  "digits_value acc [] = acc"
| "digits_value acc (c # cs) =
     (if isdigit_char c then digits_value (acc * 10 + digit_value c) cs else acc)"

definition strtol_value :: "string \<Rightarrow> int" where
  "strtol_value s =
     (case dropWhile isspace_char s of
        [] \<Rightarrow> 0
      | c # cs \<Rightarrow>
          if c = CHR ''-'' then - int (digits_value 0 cs)
          else if c = CHR ''+'' then int (digits_value 0 cs)
          else int (digits_value 0 (c # cs)))"

definition StringToInt :: "string \<Rightarrow> int32" where
  "StringToInt s = word_of_int (max (- (2 ^ 63)) (min (2 ^ 63 - 1) (strtol_value s)))"

lemma isdigit_facts:
  assumes "isdigit_char c"
  shows "\<not> isspace_char c" "c \<noteq> CHR ''-''" "c \<noteq> CHR ''+''"
  using assms by (auto simp: isdigit_char_def isspace_char_def)

lemma digit_char_facts:
  assumes "n < 10"
  shows "isdigit_char (digit_char n)" "digit_value (digit_char n) = n"
proof -
  have "(of_char (digit_char n) :: nat) = 48 + n"
    using assms by (simp add: digit_char_def)
  with assms show "isdigit_char (digit_char n)" "digit_value (digit_char n) = n"
    by (simp_all add: isdigit_char_def digit_value_def)
qed

lemma decimal_step: "10 \<le> n \<Longrightarrow> decimal n = decimal (n div 10) @ [digit_char (n mod 10)]"
  by (simp add: decimal.simps [of n])

lemma decimal_small: "n < 10 \<Longrightarrow> decimal n = [digit_char n]"
  by (simp add: decimal.simps [of n])

lemma digits_value_append:
  "\<forall>c \<in> set xs. isdigit_char c \<Longrightarrow> digits_value acc (xs @ ys) = digits_value (digits_value acc xs) ys"
  by (induction xs arbitrary: acc) auto

lemma decimal_digits: "\<forall>c \<in> set (decimal n). isdigit_char c"
proof (induction n rule: decimal.induct)
  case (1 n)
  then show ?case
    by (cases "n < 10") (auto simp: decimal_small decimal_step digit_char_facts)
qed

lemma decimal_nonempty: "decimal n \<noteq> []"
  by (cases "n < 10") (auto simp: decimal_small decimal_step)

lemma digits_value_decimal: "digits_value 0 (decimal n) = n"
proof (induction n rule: decimal.induct)
  case (1 n)
  show ?case
  proof (cases "n < 10")
    case True
    then show ?thesis by (simp add: decimal_small digit_char_facts)
  next
    case False
    then have "digits_value 0 (decimal n) = digits_value (n div 10) [digit_char (n mod 10)]"
      using 1 by (simp add: decimal_step digits_value_append decimal_digits)
    then show ?thesis by (simp add: digit_char_facts)
  qed
qed

lemma strtol_decimal: "strtol_value (decimal n) = int n"
proof -
  obtain c cs where d: "decimal n = c # cs" by (meson decimal_nonempty neq_Nil_conv)
  with decimal_digits [of n] have "isdigit_char c" by simp
  with d show ?thesis
    using digits_value_decimal [of n] by (simp add: strtol_value_def isdigit_facts)
qed

lemma strtol_decimal_int: "strtol_value (decimal_int i) = i"
proof (cases "i < 0")
  case True
  have "\<not> isspace_char (CHR ''-'')" by (simp add: isspace_char_def)
  with True show ?thesis by (simp add: decimal_int_def strtol_value_def digits_value_decimal)
next
  case False
  then show ?thesis by (simp add: decimal_int_def strtol_decimal)
qed

lemma decimal_inj: "decimal m = decimal n \<Longrightarrow> m = n"
  by (metis digits_value_decimal)

lemma decimal_int_inj: "decimal_int i = decimal_int j \<Longrightarrow> i = j"
  by (metis strtol_decimal_int)

lemma IntToString_inj [simp]: "IntToString a = IntToString b \<longleftrightarrow> a = b"
  by (metis IntToString_def decimal_int_inj signed_word_eqI)

lemma StringToInt_decimal_int: "StringToInt (decimal_int (sint n)) = n"
proof -
  have "- (2 ^ 63) \<le> sint n" "sint n \<le> 2 ^ 63 - 1"
    using sint_ge [of n] sint_lt [of n] by simp_all
  then have "max (- (2 ^ 63)) (min (2 ^ 63 - 1) (sint n)) = sint n" by simp
  then show ?thesis
    by (simp add: StringToInt_def strtol_decimal_int)
qed

text \<open>Printing an \<open>int\<close> and reading it back is the identity, for every \<open>int\<close>.\<close>

theorem StringToInt_IntToString: "StringToInt (IntToString n) = n"
  by (simp add: IntToString_def StringToInt_decimal_int)

section \<open>Hashing\<close>

text \<open>
  \<open>hash * 1099511628211\<close> is computed in 64 bits and the result is cut back to \<open>uint32\<close>; only
  the low 32 bits of the (overflowing) product reach the result.
\<close>

definition FNV_prime :: uint64 where
  "FNV_prime = 1099511628211"

definition FNVHash_step :: "uint32 \<Rightarrow> char \<Rightarrow> uint32" where
  "FNVHash_step hash c = ucast ((ucast hash * FNV_prime) XOR char_to_int64 c)"

definition FNVHash :: "string \<Rightarrow> uint32" where
  "FNVHash key = foldl FNVHash_step 2166136261 key"

definition FNVModHash_step :: "uint32 \<Rightarrow> char \<Rightarrow> uint32" where
  "FNVModHash_step hash c = ucast ((ucast (hash XOR scast (of_char c :: uint8)) :: uint64) * FNV_prime)"

definition FNVModHash :: "string \<Rightarrow> uint32" where
  "FNVModHash key = foldl FNVModHash_step 2166136261 key"

text \<open>The 32-bit FNV-1 step with the 32-bit FNV prime, which the comment in the header refers to.\<close>

definition FNV1_32_step :: "uint32 \<Rightarrow> char \<Rightarrow> uint32" where
  "FNV1_32_step hash c = (hash * 16777619) XOR ucast (of_char c :: uint8)"

section \<open>AtomicQueue\<close>

record 'a atomic_queue =
  aq_queue :: "'a list"   \<comment> \<open>\<open>queue_\<close>, the circular buffer\<close>
  aq_size :: uint32       \<comment> \<open>\<open>size_\<close>, its allocated size\<close>
  aq_front :: uint32
  aq_back :: uint32

text \<open>\<open>d\<close> is the default value of the element type, which \<open>resize\<close> fills new cells with.\<close>

definition AtomicQueue_new :: "'a \<Rightarrow> 'a atomic_queue" where
  "AtomicQueue_new d = \<lparr>aq_queue = replicate 256 d, aq_size = 256, aq_front = 0, aq_back = 0\<rparr>"

definition AtomicQueue_Size :: "'a atomic_queue \<Rightarrow> uint32" where
  "AtomicQueue_Size q = (aq_back q + aq_size q - aq_front q) mod aq_size q"

definition AtomicQueue_Empty :: "'a atomic_queue \<Rightarrow> bool" where
  "AtomicQueue_Empty q = (aq_front q = aq_back q)"

text \<open>The copy loop of \<open>Push\<close>: \<open>queue_[size_+i] = queue_[(front_+i) % size_]\<close>.\<close>

definition AtomicQueue_copy :: "uint32 \<Rightarrow> uint32 \<Rightarrow> uint32 \<Rightarrow> 'a list \<Rightarrow> 'a list" where
  "AtomicQueue_copy sz front count buf =
     fold (\<lambda>i b. b[unat (sz + of_nat i) := b ! unat ((front + of_nat i) mod sz)])
       [0 ..< unat count] buf"

definition AtomicQueue_grow :: "'a \<Rightarrow> 'a atomic_queue \<Rightarrow> 'a atomic_queue" where
  "AtomicQueue_grow d q =
     (let count = (aq_back q + aq_size q - aq_front q) mod aq_size q;
          buf = vec_resize (unat (aq_size q * 2)) d (aq_queue q)
      in q\<lparr>aq_queue := AtomicQueue_copy (aq_size q) (aq_front q) count buf,
           aq_front := aq_size q,
           aq_back := aq_size q + count,
           aq_size := aq_size q * 2\<rparr>)"

definition AtomicQueue_Push :: "'a \<Rightarrow> 'a \<Rightarrow> 'a atomic_queue \<Rightarrow> 'a atomic_queue" where
  "AtomicQueue_Push d item q0 =
     (let q = (if aq_front q0 = (aq_back q0 + 1) mod aq_size q0 then AtomicQueue_grow d q0 else q0)
      in q\<lparr>aq_queue := (aq_queue q)[unat (aq_back q) := item],
           aq_back := (aq_back q + 1) mod aq_size q\<rparr>)"

definition AtomicQueue_Pop :: "'a atomic_queue \<Rightarrow> ('a \<times> 'a atomic_queue) option" where
  "AtomicQueue_Pop q =
     (if aq_front q \<noteq> aq_back q
      then Some (aq_queue q ! unat (aq_front q), q\<lparr>aq_front := (aq_front q + 1) mod aq_size q\<rparr>)
      else None)"

definition AtomicQueue_Front :: "'a atomic_queue \<Rightarrow> 'a option" where
  "AtomicQueue_Front q =
     (if aq_front q \<noteq> aq_back q then Some (aq_queue q ! unat (aq_front q)) else None)"

text \<open>
  The buffer length is 256 doubled at most 23 times: up to there \<open>size_ * 2\<close> and
  \<open>back_ + size_\<close> stay within \<open>uint32\<close>, so the queue is exact for up to \<open>2 ^ 31 - 1\<close> elements.
\<close>

definition aq_invar :: "'a atomic_queue \<Rightarrow> bool" where
  "aq_invar q \<longleftrightarrow>
     (\<exists>k \<le> 23. unat (aq_size q) = 256 * 2 ^ k) \<and> length (aq_queue q) = unat (aq_size q)
     \<and> unat (aq_front q) < unat (aq_size q) \<and> unat (aq_back q) < unat (aq_size q)"

definition aq_count :: "'a atomic_queue \<Rightarrow> nat" where
  "aq_count q = (unat (aq_back q) + unat (aq_size q) - unat (aq_front q)) mod unat (aq_size q)"

definition aq_list :: "'a atomic_queue \<Rightarrow> 'a list" where
  "aq_list q = map (\<lambda>i. aq_queue q ! ((unat (aq_front q) + i) mod unat (aq_size q))) [0 ..< aq_count q]"

subsection \<open>The FIFO contract\<close>

text \<open>
  What every user of an \<open>AtomicQueue\<close> relies on: \<open>Push\<close> appends, \<open>Pop\<close> removes the first
  element or reports emptiness, and nothing is lost up to a capacity.
\<close>

text \<open>The loop \<open>while (queue->Pop(&x)) ...\<close> that empties a queue, for at most \<open>n\<close> rounds.\<close>

fun drain_queue :: "('q \<Rightarrow> ('a \<times> 'q) option) \<Rightarrow> nat \<Rightarrow> 'q \<Rightarrow> 'a list \<times> 'q" where
  "drain_queue deq 0 q = ([], q)"
| "drain_queue deq (Suc n) q =
     (case deq q of
        None \<Rightarrow> ([], q)
      | Some (x, q') \<Rightarrow> (let (xs, r) = drain_queue deq n q' in (x # xs, r)))"

locale fifo_queue =
  fixes new :: "'q" and enq :: "'a \<Rightarrow> 'q \<Rightarrow> 'q" and deq :: "'q \<Rightarrow> ('a \<times> 'q) option"
    and contents :: "'q \<Rightarrow> 'a list" and invar :: "'q \<Rightarrow> bool" and capacity :: nat
  assumes new: "invar new" "contents new = []"
    and enq: "invar q \<Longrightarrow> length (contents q) < capacity \<Longrightarrow> contents (enq x q) = contents q @ [x]"
    and enq_invar: "invar q \<Longrightarrow> length (contents q) < capacity \<Longrightarrow> invar (enq x q)"
    and deq_empty: "invar q \<Longrightarrow> deq q = None \<longleftrightarrow> contents q = []"
    and deq: "invar q \<Longrightarrow> deq q = Some (x, q') \<Longrightarrow> contents q = x # contents q' \<and> invar q'"
begin

lemma enq_all:
  "invar q \<Longrightarrow> length (contents q) + length xs \<le> capacity
    \<Longrightarrow> invar (fold enq xs q) \<and> contents (fold enq xs q) = contents q @ xs"
proof (induction xs arbitrary: q)
  case (Cons x xs)
  then have "invar (enq x q)" "contents (enq x q) = contents q @ [x]"
    by (simp_all add: enq enq_invar)
  with Cons.IH [of "enq x q"] Cons.prems show ?case by simp
qed simp

lemma drain_all:
  "invar q \<Longrightarrow> length (contents q) < n
    \<Longrightarrow> \<exists>r. drain_queue deq n q = (contents q, r) \<and> invar r \<and> contents r = [] \<and> deq r = None"
proof (induction n arbitrary: q)
  case (Suc n)
  show ?case
  proof (cases "deq q")
    case None
    then have "contents q = []" using deq_empty Suc.prems(1) by blast
    with None Suc.prems show ?thesis by simp
  next
    case (Some p)
    then obtain x q' where p: "deq q = Some (x, q')" by (cases p) auto
    with deq Suc.prems have c: "contents q = x # contents q'" "invar q'" by blast+
    with Suc.IH [of q'] Suc.prems(2) p show ?thesis by auto
  qed
qed simp

lemma fifo_order:
  assumes "length xs \<le> capacity"
  shows "fst (drain_queue deq (Suc (length xs)) (fold enq xs new)) = xs"
proof -
  have "invar (fold enq xs new)" "contents (fold enq xs new) = xs"
    using enq_all [of new xs] assms by (simp_all add: new)
  then show ?thesis using drain_all [of "fold enq xs new" "Suc (length xs)"] by force
qed

end

subsection \<open>The circular buffer meets the contract\<close>

lemma aq_invar_bounds:
  assumes "aq_invar q"
  shows "256 \<le> unat (aq_size q)" "unat (aq_size q) \<le> 2 ^ 31"
proof -
  from assms obtain k where k: "k \<le> 23" "unat (aq_size q) = 256 * 2 ^ k"
    by (auto simp: aq_invar_def)
  from k(1) have "(2::nat) ^ k \<le> 2 ^ 23" by (rule power_increasing) simp
  with k(2) show "256 \<le> unat (aq_size q)" "unat (aq_size q) \<le> 2 ^ 31" by simp_all
qed

lemma unat_add_small: "unat (x::uint32) + unat y < 2 ^ 32 \<Longrightarrow> unat (x + y) = unat x + unat y"
  by (simp add: unat_word_ariths)

lemma unat_of_nat_small: "i < 2 ^ 32 \<Longrightarrow> unat (of_nat i :: uint32) = i"
  by (simp add: unat_of_nat take_bit_nat_eq_self)

lemma unat_index:
  assumes "unat (x::uint32) + i < 2 ^ 32"
  shows "unat ((x + of_nat i) mod s) = (unat x + i) mod unat s"
proof -
  have "i < 2 ^ 32" using assms by linarith
  then have "unat (x + of_nat i) = unat x + i"
    using assms by (simp add: unat_of_nat_small unat_add_small)
  then show ?thesis by (simp add: unat_mod_distrib)
qed

lemma unat_next:
  "unat (x::uint32) < unat s \<Longrightarrow> unat s \<le> 2 ^ 31 \<Longrightarrow> unat ((x + 1) mod s) = (unat x + 1) mod unat s"
  using unat_index [of x 1 s] by simp

lemma unat_next_if:
  assumes "unat (x::uint32) < unat s" "unat s \<le> 2 ^ 31"
  shows "unat ((x + 1) mod s) = (if unat x + 1 = unat s then 0 else unat x + 1)"
proof (cases "unat x + 1 = unat s")
  case True
  then show ?thesis using unat_next [OF assms] by simp
next
  case False
  with assms(1) have "unat x + 1 < unat s" by linarith
  with False show ?thesis using unat_next [OF assms] by simp
qed

lemma wrap_index: "f < n \<Longrightarrow> i < n \<Longrightarrow> (f + i) mod n = (if f + i < n then f + i else f + i - n)" for n :: nat
  by (simp add: le_mod_geq)

lemma unat_count:
  assumes "unat (b::uint32) < unat s" "unat f < unat s" "unat s \<le> 2 ^ 31"
  shows "unat ((b + s - f) mod s) = (unat b + unat s - unat f) mod unat s"
proof -
  have bs: "unat (b + s) = unat b + unat s" using assms by (intro unat_add_small) simp
  have "f \<le> b + s" using assms(2) bs by (simp add: word_le_nat_alt)
  then have "unat (b + s - f) = unat b + unat s - unat f" using bs by (simp add: unat_sub)
  then show ?thesis by (simp add: unat_mod_distrib)
qed

lemma AtomicQueue_Size_count: "aq_invar q \<Longrightarrow> unat (AtomicQueue_Size q) = aq_count q"
  using aq_invar_bounds [of q]
  by (simp add: AtomicQueue_Size_def aq_count_def aq_invar_def unat_count)

lemma aq_count_cases:
  "aq_invar q \<Longrightarrow> aq_count q =
     (if unat (aq_front q) \<le> unat (aq_back q) then unat (aq_back q) - unat (aq_front q)
      else unat (aq_back q) + unat (aq_size q) - unat (aq_front q))"
  by (auto simp: aq_count_def aq_invar_def mod_if)

lemma aq_count_less: "aq_invar q \<Longrightarrow> aq_count q < unat (aq_size q)"
  by (auto simp: aq_count_cases) (auto simp: aq_invar_def)

lemma length_aq_list [simp]: "length (aq_list q) = aq_count q"
  by (simp add: aq_list_def)

lemma aq_back_index:
  "aq_invar q \<Longrightarrow> (unat (aq_front q) + aq_count q) mod unat (aq_size q) = unat (aq_back q)"
  by (auto simp: aq_count_cases) (auto simp: aq_invar_def mod_if)

lemma aq_empty_iff: "aq_invar q \<Longrightarrow> aq_list q = [] \<longleftrightarrow> aq_front q = aq_back q"
proof -
  assume inv: "aq_invar q"
  have "aq_list q = [] \<longleftrightarrow> aq_count q = 0" by (simp add: aq_list_def)
  also have "\<dots> \<longleftrightarrow> unat (aq_front q) = unat (aq_back q)"
    using inv by (auto simp: aq_count_cases) (auto simp: aq_invar_def)
  finally show ?thesis by (simp add: word_unat_eq_iff)
qed

lemma fold_copy:
  assumes "\<And>i. i < c \<Longrightarrow> w i = n + i" "\<And>i. i < c \<Longrightarrow> r i < n" "n + c \<le> length buf"
  shows "length (fold (\<lambda>i b. b[w i := b ! r i]) [0..<c] buf) = length buf
    \<and> (\<forall>j. fold (\<lambda>i b. b[w i := b ! r i]) [0..<c] buf ! j
           = (if n \<le> j \<and> j < n + c then buf ! r (j - n) else buf ! j))"
  using assms
proof (induction c)
  case (Suc c)
  let ?b = "fold (\<lambda>i b. b[w i := b ! r i]) [0..<c] buf"
  have IH: "length ?b = length buf"
    "\<And>j. ?b ! j = (if n \<le> j \<and> j < n + c then buf ! r (j - n) else buf ! j)"
    using Suc by auto
  have w: "w c = n + c" and r: "r c < n" using Suc.prems by auto
  have "?b ! r c = buf ! r c" using IH(2) r by simp
  then show ?case using IH w Suc.prems(3) by (auto simp: nth_list_update less_Suc_eq)
qed auto

lemma AtomicQueue_copy_nth:
  assumes "unat sz \<le> 2 ^ 30" "unat f < unat sz" "unat c < unat sz" "length buf = 2 * unat sz"
  shows "length (AtomicQueue_copy sz f c buf) = length buf"
    and "i < unat c \<Longrightarrow> AtomicQueue_copy sz f c buf ! (unat sz + i) = buf ! ((unat f + i) mod unat sz)"
proof -
  have w: "\<And>i. i < unat c \<Longrightarrow> unat (sz + of_nat i) = unat sz + i"
    using assms by (simp add: unat_add_small unat_of_nat_small)
  have r: "\<And>i. i < unat c \<Longrightarrow> unat ((f + of_nat i) mod sz) < unat sz"
    using assms by (simp add: unat_index)
  have e: "\<And>i. i < unat c \<Longrightarrow> unat ((f + of_nat i) mod sz) = (unat f + i) mod unat sz"
    using assms by (intro unat_index) simp
  note fc = fold_copy [where w = "\<lambda>i. unat (sz + of_nat i)" and r = "\<lambda>i. unat ((f + of_nat i) mod sz)"
      and n = "unat sz" and c = "unat c" and buf = buf, OF w r]
  from assms have "unat sz + unat c \<le> length buf" by simp
  note fc = fc [OF _ _ this]
  show "length (AtomicQueue_copy sz f c buf) = length buf"
    unfolding AtomicQueue_copy_def using fc by blast
  show "AtomicQueue_copy sz f c buf ! (unat sz + i) = buf ! ((unat f + i) mod unat sz)" if "i < unat c"
    unfolding AtomicQueue_copy_def using fc that e [OF that] by simp
qed

text \<open>Growing keeps the contents and makes room.\<close>

lemma AtomicQueue_grow:
  assumes inv: "aq_invar q" and room: "unat (aq_size q) < 2 ^ 31"
  shows "aq_invar (AtomicQueue_grow d q)" "aq_list (AtomicQueue_grow d q) = aq_list q"
    "aq_count q + 1 < unat (aq_size (AtomicQueue_grow d q))"
proof -
  let ?n = "unat (aq_size q)" and ?q = "AtomicQueue_grow d q"
  let ?c = "(aq_back q + aq_size q - aq_front q) mod aq_size q"
  let ?buf = "vec_resize (unat (aq_size q * 2)) d (aq_queue q)"
  from inv obtain k where k: "k \<le> 23" "?n = 256 * 2 ^ k" by (auto simp: aq_invar_def)
  have k22: "k \<le> 22"
  proof (rule ccontr)
    assume "\<not> k \<le> 22"
    with k(1) have "k = 23" by simp
    with k(2) room show False by simp
  qed
  then have "(2::nat) ^ k \<le> 2 ^ 22" by (rule power_increasing) simp
  with k(2) have n30: "?n \<le> 2 ^ 30" by simp
  have c: "unat ?c = aq_count q" using AtomicQueue_Size_count [OF inv] by (simp add: AtomicQueue_Size_def)
  have cn: "aq_count q < ?n" using inv by (rule aq_count_less)
  have n2: "unat (aq_size q * 2) = 2 * ?n"
    using n30 by (simp add: unat_word_ariths)
  have nc: "unat (aq_size q + ?c) = ?n + aq_count q"
    using n30 cn c by (subst unat_add_small) simp_all
  have lb: "length ?buf = 2 * ?n" by (simp add: n2)
  have fn: "unat (aq_front q) < ?n" and lq: "length (aq_queue q) = ?n"
    using inv by (simp_all add: aq_invar_def)
  note cp = AtomicQueue_copy_nth [OF n30 fn _ lb, of ?c]
  have sel: "aq_size ?q = aq_size q * 2" "aq_front ?q = aq_size q" "aq_back ?q = aq_size q + ?c"
    "aq_queue ?q = AtomicQueue_copy (aq_size q) (aq_front q) ?c ?buf"
    by (simp_all add: AtomicQueue_grow_def Let_def)
  have "\<exists>k' \<le> 23. unat (aq_size q * 2) = 256 * 2 ^ k'"
    using k22 k(2) n2 by (intro exI [of _ "Suc k"]) simp
  with cp(1) c cn nc n2 lb show inv': "aq_invar ?q"
    unfolding aq_invar_def sel by simp
  have cnt: "aq_count ?q = aq_count q"
    unfolding aq_count_def [of ?q] sel nc n2 using cn by simp
  have "aq_queue ?q ! ((unat (aq_front ?q) + i) mod unat (aq_size ?q))
      = aq_queue q ! ((unat (aq_front q) + i) mod ?n)" if "i < aq_count q" for i
  proof -
    have "(unat (aq_front q) + i) mod ?n < length (aq_queue q)" using fn lq by simp
    moreover have "aq_queue ?q ! (?n + i) = ?buf ! ((unat (aq_front q) + i) mod ?n)"
      unfolding sel using cp(2) [of i] that c cn by simp
    ultimately show ?thesis
      unfolding sel n2 using that cn lq by (simp add: nth_vec_resize n2)
  qed
  then show "aq_list ?q = aq_list q" unfolding aq_list_def cnt by simp
  show "aq_count q + 1 < unat (aq_size ?q)" unfolding sel n2 using cn by simp
qed

text \<open>Writing at the back of a buffer that is not full appends.\<close>

lemma AtomicQueue_write_back:
  fixes q :: "'a atomic_queue" and x :: 'a
  assumes inv: "aq_invar q" and room: "aq_count q + 1 < unat (aq_size q)"
  defines "q' \<equiv> q\<lparr>aq_queue := (aq_queue q)[unat (aq_back q) := x],
                    aq_back := (aq_back q + 1) mod aq_size q\<rparr>"
  shows "aq_invar q'" "aq_list q' = aq_list q @ [x]"
proof -
  let ?n = "unat (aq_size q)" and ?f = "unat (aq_front q)" and ?b = "unat (aq_back q)"
  have n: "?n \<le> 2 ^ 31" "256 \<le> ?n" using aq_invar_bounds [OF inv] by auto
  have f: "?f < ?n" and b: "?b < ?n" and l: "length (aq_queue q) = ?n"
    using inv by (simp_all add: aq_invar_def)
  have b': "unat ((aq_back q + 1) mod aq_size q) = (if ?b + 1 = ?n then 0 else ?b + 1)"
    using b n(1) by (rule unat_next_if)
  with inv n(2) show inv': "aq_invar q'" by (simp add: aq_invar_def q'_def)
  have cnt: "aq_count q' = Suc (aq_count q)"
    using aq_count_cases [OF inv'] aq_count_cases [OF inv] room f b b'
    by (auto simp: q'_def split: if_splits)
  have idx: "(?f + i) mod ?n \<noteq> ?b" if i: "i < aq_count q" for i
  proof -
    have "i < ?n" using i aq_count_less [OF inv] by simp
    with f have "(?f + i) mod ?n = (if ?f + i < ?n then ?f + i else ?f + i - ?n)" by (rule wrap_index)
    with i aq_count_cases [OF inv] f b show ?thesis by (auto split: if_splits)
  qed
  have "(aq_queue q)[?b := x] ! ((?f + i) mod ?n) = aq_queue q ! ((?f + i) mod ?n)"
    if "i < aq_count q" for i
    using idx [OF that] by (metis nth_list_update_neq)
  then show "aq_list q' = aq_list q @ [x]"
    unfolding aq_list_def cnt using aq_back_index [OF inv] l b by (simp add: q'_def)
qed

lemma AtomicQueue_full_test:
  assumes inv: "aq_invar q"
  shows "aq_front q = (aq_back q + 1) mod aq_size q \<longleftrightarrow> aq_count q + 1 = unat (aq_size q)"
proof -
  have n: "unat (aq_size q) \<le> 2 ^ 31" "256 \<le> unat (aq_size q)" using aq_invar_bounds [OF inv] by auto
  have f: "unat (aq_front q) < unat (aq_size q)" and b: "unat (aq_back q) < unat (aq_size q)"
    using inv by (simp_all add: aq_invar_def)
  have "aq_front q = (aq_back q + 1) mod aq_size q
      \<longleftrightarrow> unat (aq_front q)
          = (if unat (aq_back q) + 1 = unat (aq_size q) then 0 else unat (aq_back q) + 1)"
    using unat_next_if [OF b n(1)] by (simp add: word_unat_eq_iff)
  then show ?thesis using aq_count_cases [OF inv] f b n by (auto split: if_splits)
qed

lemma AtomicQueue_Push_correct:
  assumes inv: "aq_invar q" and cap: "length (aq_list q) < 2 ^ 31 - 1"
  shows "aq_invar (AtomicQueue_Push d x q) \<and> aq_list (AtomicQueue_Push d x q) = aq_list q @ [x]"
proof (cases "aq_front q = (aq_back q + 1) mod aq_size q")
  case True
  then have full: "aq_count q + 1 = unat (aq_size q)" using AtomicQueue_full_test [OF inv] by simp
  with cap have "unat (aq_size q) < 2 ^ 31" by simp
  note g = AtomicQueue_grow [OF inv this, of d]
  have "aq_count (AtomicQueue_grow d q) = aq_count q"
    by (metis g(2) length_aq_list)
  with g AtomicQueue_write_back [OF g(1), of x] True show ?thesis
    by (simp add: AtomicQueue_Push_def Let_def)
next
  case False
  then have "aq_count q + 1 < unat (aq_size q)"
    using AtomicQueue_full_test [OF inv] aq_count_less [OF inv] by simp
  with AtomicQueue_write_back [OF inv this, of x] False show ?thesis
    by (simp add: AtomicQueue_Push_def)
qed

lemma AtomicQueue_Pop_correct:
  assumes inv: "aq_invar q" and pop: "AtomicQueue_Pop q = Some (x, q')"
  shows "aq_list q = x # aq_list q' \<and> aq_invar q'"
proof -
  let ?n = "unat (aq_size q)" and ?f = "unat (aq_front q)"
  from pop have ne: "aq_front q \<noteq> aq_back q" and x: "x = aq_queue q ! ?f"
    and q': "q' = q\<lparr>aq_front := (aq_front q + 1) mod aq_size q\<rparr>"
    by (auto simp: AtomicQueue_Pop_def split: if_splits)
  have n: "?n \<le> 2 ^ 31" "256 \<le> ?n" using aq_invar_bounds [OF inv] by auto
  have f: "?f < ?n" and b: "unat (aq_back q) < ?n" using inv by (simp_all add: aq_invar_def)
  have f': "unat ((aq_front q + 1) mod aq_size q) = (?f + 1) mod ?n"
    using f n(1) by (rule unat_next)
  have f'': "unat ((aq_front q + 1) mod aq_size q) = (if ?f + 1 = ?n then 0 else ?f + 1)"
    using f n(1) by (rule unat_next_if)
  have inv': "aq_invar q'" using inv f' n(2) by (simp add: aq_invar_def q')
  have ne': "?f \<noteq> unat (aq_back q)" using ne by (simp add: word_unat_eq_iff)
  have cnt: "aq_count q = Suc (aq_count q')"
    using aq_count_cases [OF inv'] aq_count_cases [OF inv] ne' f b
      f'' by (auto simp: q' split: if_splits)
  have idx: "((?f + 1) mod ?n + i) mod ?n = (?f + Suc i) mod ?n" for i by (simp add: mod_simps)
  have "aq_list q = aq_queue q ! ?f # map (\<lambda>i. aq_queue q ! ((?f + Suc i) mod ?n)) [0..<aq_count q']"
    unfolding aq_list_def cnt using f by (subst upt_rec) (simp add: map_Suc_upt [symmetric] del: upt_Suc)
  also have "\<dots> = x # aq_list q'"
    unfolding aq_list_def using idx by (simp add: x q' f')
  finally show ?thesis using inv' by simp
qed

lemma AtomicQueue_new_correct: "aq_invar (AtomicQueue_new d)" "aq_list (AtomicQueue_new d) = []"
  by (auto simp: aq_invar_def AtomicQueue_new_def aq_list_def aq_count_def intro!: exI [of _ 0])

interpretation aq: fifo_queue "AtomicQueue_new d" "AtomicQueue_Push d" AtomicQueue_Pop aq_list aq_invar
  "2 ^ 31 - 1" for d :: 'a
proof unfold_locales
  fix q :: "'a atomic_queue" and x q'
  show "aq_invar (AtomicQueue_new d)" "aq_list (AtomicQueue_new d) = []"
    by (rule AtomicQueue_new_correct)+
  show "aq_list (AtomicQueue_Push d x q) = aq_list q @ [x]" "aq_invar (AtomicQueue_Push d x q)"
    if "aq_invar q" "length (aq_list q) < 2 ^ 31 - 1"
    using AtomicQueue_Push_correct [OF that] by blast+
  show "AtomicQueue_Pop q = None \<longleftrightarrow> aq_list q = []" if "aq_invar q"
    using aq_empty_iff [OF that] by (simp add: AtomicQueue_Pop_def)
  show "aq_list q = x # aq_list q' \<and> aq_invar q'" if "aq_invar q" "AtomicQueue_Pop q = Some (x, q')"
    by (rule AtomicQueue_Pop_correct [OF that])
qed

lemma AtomicQueue_Front_correct:
  "aq_invar q \<Longrightarrow> AtomicQueue_Front q = (case aq_list q of [] \<Rightarrow> None | x # _ \<Rightarrow> Some x)"
  using AtomicQueue_Pop_correct [of q] aq_empty_iff [of q]
  by (auto simp: AtomicQueue_Front_def AtomicQueue_Pop_def split: list.splits)

section \<open>AtomicMap\<close>

text \<open>
  \<open>unordered_map\<close> under a reader-writer lock. \<open>Size\<close> is observed, so the state is an association
  list with distinct keys. \<open>Destroy\<close> (iterating while erasing) is not modelled.
\<close>

type_synonym ('k, 'v) atomic_map = "('k \<times> 'v) list"

definition AtomicMap_Lookup :: "'k \<Rightarrow> ('k, 'v) atomic_map \<Rightarrow> 'v outcome" where
  "AtomicMap_Lookup k m = (case map_of m k of None \<Rightarrow> Inl Check_failed | Some v \<Rightarrow> Inr v)"

definition AtomicMap_Put :: "'k \<Rightarrow> 'v \<Rightarrow> ('k, 'v) atomic_map \<Rightarrow> ('k, 'v) atomic_map" where
  "AtomicMap_Put k v m = AList.update k v m"

definition AtomicMap_EraseAndPut :: "'k \<Rightarrow> 'v \<Rightarrow> ('k, 'v) atomic_map \<Rightarrow> ('k, 'v) atomic_map" where
  "AtomicMap_EraseAndPut k v m = AList.update k v (AList.delete k m)"

definition AtomicMap_Erase :: "'k \<Rightarrow> ('k, 'v) atomic_map \<Rightarrow> ('k, 'v) atomic_map" where
  "AtomicMap_Erase k m = AList.delete k m"

definition AtomicMap_Count :: "'k \<Rightarrow> ('k, 'v) atomic_map \<Rightarrow> uint32" where
  "AtomicMap_Count k m = (if map_of m k = None then 0 else 1)"

definition AtomicMap_Size :: "('k, 'v) atomic_map \<Rightarrow> uint32" where
  "AtomicMap_Size m = of_nat (length m)"

definition AtomicMap_PutNoClobber :: "'k \<Rightarrow> 'v \<Rightarrow> ('k, 'v) atomic_map \<Rightarrow> 'v \<times> ('k, 'v) atomic_map" where
  "AtomicMap_PutNoClobber k v m =
     (case map_of m k of Some w \<Rightarrow> (w, m) | None \<Rightarrow> (v, AList.update k v m))"

definition am_invar :: "('k, 'v) atomic_map \<Rightarrow> bool" where
  "am_invar m = distinct (map fst m)"

lemma am_invar_ops [intro]:
  "am_invar m \<Longrightarrow> am_invar (AtomicMap_Put k v m)"
  "am_invar m \<Longrightarrow> am_invar (AtomicMap_Erase k m)"
  "am_invar m \<Longrightarrow> am_invar (AtomicMap_EraseAndPut k v m)"
  "am_invar m \<Longrightarrow> am_invar (snd (AtomicMap_PutNoClobber k v m))"
  by (auto simp: am_invar_def AtomicMap_Put_def AtomicMap_Erase_def AtomicMap_EraseAndPut_def
      AtomicMap_PutNoClobber_def distinct_update distinct_delete split: option.splits)

lemma am_lookup [container_simps]:
  "map_of (AtomicMap_Put k v m) = (map_of m)(k \<mapsto> v)"
  "map_of (AtomicMap_EraseAndPut k v m) = (map_of m)(k \<mapsto> v)"
  "map_of (AtomicMap_Erase k m) = (map_of m)(k := None)"
  by (simp_all add: AtomicMap_Put_def AtomicMap_EraseAndPut_def AtomicMap_Erase_def
      update_conv' delete_conv')

section \<open>Properties\<close>

text \<open>Splitting loses nothing and never leaves a delimiter inside a piece: joining the pieces with
  the delimiter gives the input back, and there is one piece more than there are delimiters.\<close>

theorem SplitString_correct:
  "join_with d (SplitString s d) = s
    \<and> length (SplitString s d) = Suc (count_list s d)
    \<and> list_all (\<lambda>p. d \<notin> set p) (SplitString s d)"
  using join_SplitString_loop [of d "[]" "[]" s] length_SplitString_loop [of d "[]" "[]" s]
    SplitString_loop_pieces [of d "[]" "[]" s]
  by (simp add: SplitString_def list_all_iff)

text \<open>C36: the circular buffer is a FIFO queue: pushing any list of up to \<open>2 ^ 31 - 1\<close> items and then
  popping until \<open>Pop\<close> reports empty yields exactly these items in order, across every resize.\<close>

theorem AtomicQueue_fifo:
  assumes "length xs \<le> 2 ^ 31 - 1"
  shows "fst (drain_queue AtomicQueue_Pop (Suc (length xs)) (fold (AtomicQueue_Push d) xs (AtomicQueue_new d))) = xs"
  using assms by (rule aq.fifo_order)

theorem AtomicQueue_fifo_witness:
  "fst (drain_queue AtomicQueue_Pop (Suc (length [3, 1, 2 :: nat]))
     (fold (AtomicQueue_Push 0) [3, 1, 2] (AtomicQueue_new 0))) = [3, 1, 2 :: nat]"
  by (rule AtomicQueue_fifo [of "[3, 1, 2 :: nat]" 0]) simp

text \<open>\<open>Push\<close> on a queue whose buffer is full still appends: the resize and the copy loop keep
  every element in its place, \<open>Size\<close> counts them and \<open>Front\<close> still shows the oldest.\<close>

theorem AtomicQueue_Push_functional:
  assumes "aq_invar q" and "length (aq_list q) < 2 ^ 31 - 1"
  shows "aq_list (AtomicQueue_Push d x q) = aq_list q @ [x]
    \<and> unat (AtomicQueue_Size (AtomicQueue_Push d x q)) = Suc (unat (AtomicQueue_Size q))
    \<and> AtomicQueue_Front (AtomicQueue_Push d x q)
        = (case aq_list q of [] \<Rightarrow> Some x | y # _ \<Rightarrow> Some y)"
proof -
  from AtomicQueue_Push_correct [OF assms, of d x]
  have p: "aq_invar (AtomicQueue_Push d x q)" "aq_list (AtomicQueue_Push d x q) = aq_list q @ [x]"
    by blast+
  then have "aq_count (AtomicQueue_Push d x q) = Suc (aq_count q)"
    by (metis length_aq_list length_append_singleton)
  with p show ?thesis
    by (auto simp: AtomicQueue_Size_count assms(1) AtomicQueue_Front_correct split: list.splits)
qed

theorem AtomicQueue_Push_functional_witness:
  "aq_list (AtomicQueue_Push (0::nat) 7 (AtomicQueue_new 0)) = aq_list (AtomicQueue_new (0::nat)) @ [7]"
  using AtomicQueue_Push_functional [OF AtomicQueue_new_correct(1), of "0::nat" 0 7]
  by (simp add: AtomicQueue_new_correct)


end
