(* ===== verification/Cluster_Config.thy ===== *)
theory Cluster_Config
  imports Utils
begin

text \<open>
  \<open>machine/cluster_config.cc\<close>: the cluster description, its parser with every \<open>CHECK\<close>, the maps
  from keys to partitions and masters and from (partition, replica) to machines, and the source of
  globally unique ids.
\<close>

section \<open>State\<close>

text \<open>\<open>MachineInfo\<close>: \<open>None\<close> is a field that is not set; the getters then return 0 or "".\<close>

record machine_info =
  mi_id :: "uint64 option"
  mi_replica :: "uint32 option"
  mi_host :: "string option"
  mi_port :: "int32 option"

definition MachineInfo_new :: machine_info where
  "MachineInfo_new = \<lparr>mi_id = None, mi_replica = None, mi_host = None, mi_port = None\<rparr>"

definition get_or :: "'a \<Rightarrow> 'a option \<Rightarrow> 'a" where
  "get_or d x = (case x of None \<Rightarrow> d | Some v \<Rightarrow> v)"

record cluster_config =
  cc_machines :: "(uint64, machine_info) omap"
  cc_machines_replica :: "(uint64, uint32) omap"
  cc_replicas_size :: uint32
  cc_local_node_id :: uint64
  cc_local_replica :: uint32
  cc_relative_node_id :: uint64
  cc_next_guid :: uint64
  cc_stop :: bool

text \<open>
  The constructor sets three fields; \<open>u32\<close> and \<open>u64\<close> stand for the fields it leaves uninitialised.
\<close>

definition ClusterConfig_new :: "uint32 \<Rightarrow> uint32 \<Rightarrow> uint64 \<Rightarrow> uint64 \<Rightarrow> cluster_config" where
  "ClusterConfig_new u32 u32' u64 local_node_id =
     \<lparr>cc_machines = [], cc_machines_replica = [], cc_replicas_size = u32,
      cc_local_node_id = local_node_id, cc_local_replica = u32', cc_relative_node_id = u64,
      cc_next_guid = 1000, cc_stop = False\<rparr>"

section \<open>Lookups\<close>

definition all_nodes_size :: "cluster_config \<Rightarrow> uint64" where
  "all_nodes_size c = of_nat (length (cc_machines c))"

definition nodes_per_replica :: "cluster_config \<Rightarrow> uint64" where
  "nodes_per_replica c = all_nodes_size c div ucast (cc_replicas_size c)"

definition HashBatchID :: "cluster_config \<Rightarrow> uint64 \<Rightarrow> uint64" where
  "HashBatchID c batch_id = ucast (FNVHash (UInt64ToString (33 * batch_id))) mod nodes_per_replica c"

definition LookupMachineID :: "cluster_config \<Rightarrow> uint64 \<Rightarrow> uint64 \<Rightarrow> uint64" where
  "LookupMachineID c relative_id replica = replica * nodes_per_replica c + relative_id"

text \<open>The \<open>int\<close> of \<open>StringToInt\<close> is converted to \<open>uint64\<close>, extending its sign.\<close>

definition LookupPartition :: "cluster_config \<Rightarrow> string \<Rightarrow> uint64" where
  "LookupPartition c key = scast (StringToInt key) mod nodes_per_replica c"

definition LookupMaster :: "cluster_config \<Rightarrow> string \<Rightarrow> uint32" where
  "LookupMaster c key =
     ucast ((scast (StringToInt key) div nodes_per_replica c) mod (ucast (cc_replicas_size c) :: uint64))"

definition LookupReplica :: "cluster_config \<Rightarrow> uint64 \<Rightarrow> uint32" where
  "LookupReplica c machine_id = ucast (machine_id div nodes_per_replica c)"

definition GetGUID :: "cluster_config \<Rightarrow> uint64 \<times> cluster_config" where
  "GetGUID c =
     (1 + cc_local_node_id c + all_nodes_size c * cc_next_guid c,
      c\<lparr>cc_next_guid := cc_next_guid c + 1\<rparr>)"

definition lookup_machine :: "cluster_config \<Rightarrow> uint64 \<Rightarrow> machine_info option" where
  "lookup_machine c machine_id = map_of (cc_machines c) machine_id"

definition ClusterConfig_Stop :: "cluster_config \<Rightarrow> cluster_config" where
  "ClusterConfig_Stop c = c\<lparr>cc_stop := True\<rparr>"

section \<open>Parsing\<close>

definition CheckString_line :: "string \<Rightarrow> uint64 list \<times> string list \<Rightarrow> (uint64 list \<times> string list) outcome" where
  "CheckString_line line st =
     (if line = [] then Inr st
      else let entry = SplitString line (CHR '':'') in
        CHECK (length entry = 4)
         (let machine_ids = fst st; host_port_pairs = snd st;
              id = scast (StringToInt (entry ! 0)) :: uint64;
              replica = StringToInt (entry ! 1) :: uint32;
              host = entry ! 2;
              port = StringToInt (entry ! 3)
          in CHECK (0 \<le> sint id)
              (CHECK (0 \<le> sint (ucast replica :: int64))
                (CHECK (0 < length host)
                  (CHECK (0 \<le> sint port)
                    (CHECK (id \<notin> set machine_ids)
                      (let hostport = host @ '':'' @ IntToString port
                       in CHECK (hostport \<notin> set host_port_pairs)
                           (Inr (os_insert id machine_ids, os_insert hostport host_port_pairs)))))))))"

definition CheckString :: "string \<Rightarrow> unit outcome" where
  "CheckString config =
     bindE (foldE CheckString_line (SplitString config (CHR 0x0A)) ([], [])) (\<lambda>_. Inr ())"

definition FromString_line :: "string \<Rightarrow> cluster_config \<times> uint32 list \<Rightarrow> cluster_config \<times> uint32 list" where
  "FromString_line line st =
     (if line = [] then st
      else let c = fst st; replicas = snd st;
               entry = SplitString line (CHR '':'');
               id = scast (StringToInt (entry ! 0)) :: uint64;
               replica = StringToInt (entry ! 1) :: uint32;
               info = \<lparr>mi_id = Some id, mi_replica = Some replica, mi_host = Some (entry ! 2),
                       mi_port = Some (StringToInt (entry ! 3))\<rparr>
           in (c\<lparr>cc_machines := om_insert id info (cc_machines c),
                 cc_machines_replica := om_insert id replica (cc_machines_replica c),
                 cc_local_replica := (if id = cc_local_node_id c then replica else cc_local_replica c)\<rparr>,
               os_insert replica replicas))"

text \<open>
  The last two statements of \<open>FromString\<close> and \<open>FromProto\<close>: the divisor is zero, and the division
  undefined, if no machine was read.
\<close>

definition finish_config :: "cluster_config \<times> uint32 list \<Rightarrow> cluster_config outcome" where
  "finish_config st =
     (let c = (fst st)\<lparr>cc_replicas_size := of_nat (length (snd st))\<rparr>
      in require_defined (cc_replicas_size c \<noteq> 0 \<and> nodes_per_replica c \<noteq> 0)
           (Inr (c\<lparr>cc_relative_node_id := cc_local_node_id c mod nodes_per_replica c\<rparr>)))"

definition FromString :: "string \<Rightarrow> cluster_config \<Rightarrow> cluster_config outcome" where
  "FromString config c =
     bindE (CheckString config) (\<lambda>_.
       finish_config (fold FromString_line (SplitString config (CHR 0x0A))
         (c\<lparr>cc_machines := [], cc_machines_replica := []\<rparr>, [])))"

definition CheckProto_machine ::
  "machine_info \<Rightarrow> uint64 list \<times> string list \<Rightarrow> (uint64 list \<times> string list) outcome" where
  "CheckProto_machine m st =
     CHECK (mi_id m \<noteq> None) (CHECK (mi_replica m \<noteq> None) (CHECK (mi_host m \<noteq> None) (CHECK (mi_port m \<noteq> None)
      (let machine_ids = fst st; host_port_pairs = snd st;
           id = get_or 0 (mi_id m); replica = get_or 0 (mi_replica m);
           host = get_or [] (mi_host m); port = get_or 0 (mi_port m)
       in CHECK (0 \<le> sint id)
           (CHECK (0 \<le> sint (ucast replica :: int64))
             (CHECK (0 < length host)
               (CHECK (0 \<le> sint port)
                 (CHECK (id \<notin> set machine_ids)
                   (let hostport = host @ '':'' @ IntToString port
                    in CHECK (hostport \<notin> set host_port_pairs)
                        (Inr (os_insert id machine_ids, os_insert hostport host_port_pairs)))))))))))"

definition CheckProto :: "machine_info list \<Rightarrow> unit outcome" where
  "CheckProto machines = bindE (foldE CheckProto_machine machines ([], [])) (\<lambda>_. Inr ())"

definition FromProto_machine :: "machine_info \<Rightarrow> cluster_config \<times> uint32 list \<Rightarrow> cluster_config \<times> uint32 list" where
  "FromProto_machine m st =
     (let c = fst st; replicas = snd st;
          id = get_or 0 (mi_id m); replica = get_or 0 (mi_replica m)
      in (c\<lparr>cc_machines := om_insert id m (cc_machines c),
            cc_machines_replica := om_insert id replica (cc_machines_replica c),
            cc_local_replica := (if id = cc_local_node_id c then replica else cc_local_replica c)\<rparr>,
          os_insert replica replicas))"

definition FromProto :: "machine_info list \<Rightarrow> cluster_config \<Rightarrow> cluster_config outcome" where
  "FromProto machines c =
     finish_config (fold FromProto_machine machines (c\<lparr>cc_machines := [], cc_machines_replica := []\<rparr>, []))"

section \<open>Word arithmetic of the lookups\<close>

lemma unat_mult_add_small:
  "unat (a::uint64) * unat b + unat d < 2 ^ 64 \<Longrightarrow> unat (a * b + d) = unat a * unat b + unat d"
  by (simp add: unat_word_ariths)

lemma unat_ucast_up [simp]: "unat (ucast (x::uint32) :: uint64) = unat x"
  by (simp add: unsigned_ucast_eq take_bit_nat_eq_self order.strict_trans [OF unsigned_less])

lemma ucast_down_eq: "unat (w::uint64) = unat (x::uint32) \<Longrightarrow> ucast w = x"
  by (metis ucast_id of_nat_unat)

definition config_ok :: "cluster_config \<Rightarrow> bool" where
  "config_ok c \<longleftrightarrow> om_ok (cc_machines c) \<and> cc_replicas_size c \<noteq> 0 \<and> nodes_per_replica c \<noteq> 0
     \<and> cc_relative_node_id c = cc_local_node_id c mod nodes_per_replica c"

lemma word_mod_less: "(n::'a::len word) \<noteq> 0 \<Longrightarrow> x mod n < n"
  by (simp add: word_less_nat_alt unat_mod_distrib unat_gt_0)

lemma LookupPartition_bound: "config_ok c \<Longrightarrow> LookupPartition c key < nodes_per_replica c"
  by (simp add: LookupPartition_def config_ok_def word_mod_less)

lemma HashBatchID_bound: "config_ok c \<Longrightarrow> HashBatchID c b < nodes_per_replica c"
  by (simp add: HashBatchID_def config_ok_def word_mod_less)

lemma relative_node_bound: "config_ok c \<Longrightarrow> cc_relative_node_id c < nodes_per_replica c"
  by (simp add: config_ok_def word_mod_less)

section \<open>The partitioning interface\<close>

text \<open>
  What the sequencers, the lock manager and the storage manager rely on: every key has one owner
  among the nodes of a replica. \<open>participants\<close> is the \<open>set<uint64>\<close> of owners of a list of keys.
\<close>

definition participants :: "(string \<Rightarrow> uint64) \<Rightarrow> string list \<Rightarrow> uint64 list \<Rightarrow> uint64 list" where
  "participants owner keys nodes = fold (\<lambda>k. os_insert (owner k)) keys nodes"

locale partitioning =
  fixes owner :: "'c \<Rightarrow> string \<Rightarrow> uint64" and nodes :: "'c \<Rightarrow> uint64" and ok :: "'c \<Rightarrow> bool"
  assumes owner_bound: "ok c \<Longrightarrow> owner c k < nodes c"
begin

lemma participants_set: "set (participants (owner c) ks ns) = owner c ` set ks \<union> set ns"
  by (induction ks arbitrary: ns) (auto simp: participants_def)

lemma participants_sorted: "sorted ns \<Longrightarrow> sorted (participants (owner c) ks ns)"
  by (induction ks arbitrary: ns) (auto simp: participants_def)

lemma participants_distinct: "distinct ns \<Longrightarrow> distinct (participants (owner c) ks ns)"
  by (induction ks arbitrary: ns) (auto simp: participants_def)

lemma participants_bound:
  "ok c \<Longrightarrow> \<forall>n \<in> set ns. n < nodes c \<Longrightarrow> \<forall>n \<in> set (participants (owner c) ks ns). n < nodes c"
  using owner_bound participants_set by auto

end

interpretation cp: partitioning LookupPartition nodes_per_replica config_ok
  by unfold_locales (rule LookupPartition_bound)

section \<open>Keys that are printed numbers\<close>

lemma sint_small:
  assumes "unat (k::int32) < 2 ^ 31"
  shows "sint k = int (unat k)"
proof -
  have "uint k < 2 ^ 31"
    using assms by (metis of_nat_less_iff of_nat_unat of_nat_power of_nat_numeral)
  moreover have "- (2 ^ 31) \<le> uint k" by (rule order.trans [of _ 0]) simp_all
  ultimately have "signed_take_bit 31 (uint k) = uint k"
    by (intro signed_take_bit_int_eq_self) simp_all
  then show ?thesis by (simp add: sint_uint)
qed

lemma scast_small:
  assumes "unat (k::int32) < 2 ^ 31"
  shows "(scast k :: uint64) = ucast k"
proof -
  have "(scast k :: uint64) = word_of_int (sint k)" by simp
  also have "\<dots> = of_nat (unat k)" using sint_small [OF assms] by simp
  finally show ?thesis by simp
qed

lemma unat_less_sint:
  assumes "0 \<le> sint (k::int32)"
  shows "unat k < 2 ^ 31"
proof -
  have "uint k = take_bit 32 (sint k)" 
    using unsigned_less [of k, where 'a = int] by (simp add: sint_uint take_bit_signed_take_bit take_bit_int_eq_self)
  also have "\<dots> = sint k" using assms sint_lt [of k] by (intro take_bit_int_eq_self) simp_all
  finally have "uint k < 2 ^ 31" using sint_lt [of k] by simp
  then show ?thesis by (metis of_nat_less_iff of_nat_unat of_nat_power of_nat_numeral)
qed

lemma word_div_mult_add:
  assumes "d < (n::uint64)" and "unat q * unat n + unat n \<le> 2 ^ 64"
  shows "(q * n + d) div n = q" "(q * n + d) mod n = d"
proof -
  have d: "unat d < unat n" using assms(1) by (simp add: word_less_nat_alt)
  have "unat (q * n + d) = unat q * unat n + unat d"
    using assms(2) d by (intro unat_mult_add_small) linarith
  with d show "(q * n + d) div n = q" "(q * n + d) mod n = d"
    by (simp_all add: word_unat_eq_iff unat_div_distrib unat_mod_distrib)
qed

text \<open>The machine ids built from a relative id and a replica number are read back exactly.\<close>

theorem LookupReplica_LookupMachineID:
  assumes "rel < nodes_per_replica c"
    and "unat r * unat (nodes_per_replica c) + unat (nodes_per_replica c) \<le> 2 ^ 64"
  shows "LookupReplica c (LookupMachineID c rel (ucast r)) = r
    \<and> LookupMachineID c rel (ucast r) mod nodes_per_replica c = rel"
  using assms
  by (simp add: LookupReplica_def LookupMachineID_def word_div_mult_add ucast_down_eq)

text \<open>
  For keys that are printed non-negative numbers, as the applications use, the owning partition
  is the number modulo the nodes of a replica and the master replica the next digit.
\<close>

theorem Lookup_printed_key:
  assumes "config_ok c" and "0 \<le> sint k"
  shows "LookupPartition c (IntToString k) = ucast k mod nodes_per_replica c
    \<and> unat (LookupMaster c (IntToString k))
        = (unat k div unat (nodes_per_replica c)) mod unat (cc_replicas_size c)"
proof -
  have k: "scast k = (ucast k :: uint64)" using assms(2) by (intro scast_small unat_less_sint)
  have r: "unat (cc_replicas_size c) > 0" using assms(1) by (simp add: config_ok_def unat_gt_0)
  have "unat k div unat (nodes_per_replica c) mod unat (cc_replicas_size c) < 2 ^ 32"
    by (rule less_trans [OF mod_less_divisor [OF r]]) (use unsigned_less [of "cc_replicas_size c"] in simp)
  then show ?thesis
    by (simp add: LookupPartition_def LookupMaster_def IntToString_def StringToInt_decimal_int k
        unsigned_ucast_eq unat_mod_distrib unat_div_distrib take_bit_nat_eq_self)
qed

section \<open>Unique ids\<close>

fun GetGUIDs :: "nat \<Rightarrow> cluster_config \<Rightarrow> uint64 list" where
  "GetGUIDs 0 c = []"
| "GetGUIDs (Suc n) c = (let (g, c') = GetGUID c in g # GetGUIDs n c')"

lemma GetGUIDs_eq:
  "GetGUIDs n c = map (\<lambda>i. 1 + cc_local_node_id c + all_nodes_size c * (cc_next_guid c + of_nat i)) [0 ..< n]"
proof (induction n arbitrary: c)
  case (Suc n)
  show ?case
    by (simp add: Suc GetGUID_def all_nodes_size_def upt_conv_Cons map_Suc_upt [symmetric]
        del: upt_Suc map_Suc_upt) (simp add: algebra_simps)
qed simp

text \<open>The counter values for which the id is computed without wrap-around.\<close>

definition guid_room :: "cluster_config \<Rightarrow> nat \<Rightarrow> bool" where
  "guid_room c n \<longleftrightarrow> cc_local_node_id c < all_nodes_size c
     \<and> unat (all_nodes_size c) * (unat (cc_next_guid c) + n + 1) < 2 ^ 64"

lemma GetGUIDs_nth:
  assumes "guid_room c n" "i < n"
  shows "unat (GetGUIDs n c ! i)
    = Suc (unat (cc_local_node_id c) + unat (all_nodes_size c) * (unat (cc_next_guid c) + i))"
proof -
  let ?N = "unat (all_nodes_size c)" and ?g = "unat (cc_next_guid c)" and ?l = "unat (cc_local_node_id c)"
  have l: "?l < ?N" using assms(1) by (simp add: guid_room_def word_less_nat_alt)
  have bound: "?N * (?g + i) + ?N \<le> ?N * (?g + n)"
    using mult_le_mono2 [of "?g + i + 1" "?g + n" ?N] assms(2) by simp
  have room: "?N * (?g + n) + ?N < 2 ^ 64" using assms(1) by (simp add: guid_room_def algebra_simps)
  have "?g + i \<le> ?N * (?g + i)" using l by (cases ?N) simp_all
  then have "?g + i < 2 ^ 64" "i < 2 ^ 64" using bound room by linarith+
  then have "unat (cc_next_guid c + of_nat i) = ?g + i" by (simp add: unat_word_ariths unat_of_nat)
  moreover have "Suc ?l + ?N * (?g + i) < 2 ^ 64" using bound room l by linarith
  ultimately show ?thesis using assms(2) by (simp add: GetGUIDs_eq unat_word_ariths)
qed

lemma div_mod_unique:
  "(l::nat) + N * a = m + N * b \<Longrightarrow> l < N \<Longrightarrow> m < N \<Longrightarrow> l = m \<and> a = b"
  by (metis add.commute add_right_cancel div_mult_self2 div_less less_nat_zero_code mod_less mod_mult_self2 add_0)

text \<open>
  Ids drawn by two machines of one cluster, any number on each side, are pairwise different
  until a counter value leads to wrap-around.
\<close>

theorem GetGUID_unique:
  assumes "guid_room c n" and "guid_room d m"
    and "all_nodes_size c = all_nodes_size d" and "cc_local_node_id c \<noteq> cc_local_node_id d"
  shows "distinct (GetGUIDs n c @ GetGUIDs m d)"
proof -
  have lt: "unat (cc_local_node_id c) < unat (all_nodes_size c)"
      "unat (cc_local_node_id d) < unat (all_nodes_size c)"
    using assms(1-3) by (simp_all add: guid_room_def word_less_nat_alt)
  have *: "i = j" if "i < length (GetGUIDs k e)" "j < length (GetGUIDs k e)" "guid_room e k"
      "GetGUIDs k e ! i = GetGUIDs k e ! j" for i j k e
  proof -
    from that have "i < k" "j < k" by (simp_all add: GetGUIDs_eq)
    moreover have "unat (GetGUIDs k e ! i) = unat (GetGUIDs k e ! j)" using that by simp
    moreover have "0 < unat (all_nodes_size e)"
      using that(3) by (auto simp: guid_room_def word_less_nat_alt)
    ultimately show "i = j" using that(3) by (simp add: GetGUIDs_nth)
  qed
  have "distinct (GetGUIDs n c)" "distinct (GetGUIDs m d)"
    using * assms(1,2) by (auto simp: distinct_conv_nth)
  moreover have False if "x \<in> set (GetGUIDs n c)" "x \<in> set (GetGUIDs m d)" for x
  proof -
    from that obtain i j where "i < n" "j < m" "x = GetGUIDs n c ! i" "x = GetGUIDs m d ! j"
      by (auto simp: in_set_conv_nth) (auto simp: GetGUIDs_eq)
    then have "unat (GetGUIDs n c ! i) = unat (GetGUIDs m d ! j)" by simp
    with \<open>i < n\<close> \<open>j < m\<close> assms(1-3)
    have "unat (cc_local_node_id c) + unat (all_nodes_size c) * (unat (cc_next_guid c) + i)
        = unat (cc_local_node_id d) + unat (all_nodes_size c) * (unat (cc_next_guid d) + j)"
      by (simp add: GetGUIDs_nth)
    from div_mod_unique [OF this lt] assms(4) show False by (simp add: word_unat_eq_iff)
  qed
  ultimately show ?thesis by auto
qed

section \<open>Accepted configurations\<close>

lemma FromString_fold_inv:
  "om_ok (cc_machines (fst st)) \<Longrightarrow> (\<forall>k m. map_of (cc_machines (fst st)) k = Some m \<longrightarrow> mi_id m = Some k)
    \<Longrightarrow> om_ok (cc_machines (fst (fold FromString_line ls st)))
      \<and> (\<forall>k m. map_of (cc_machines (fst (fold FromString_line ls st))) k = Some m \<longrightarrow> mi_id m = Some k)
      \<and> cc_local_node_id (fst (fold FromString_line ls st)) = cc_local_node_id (fst st)"
proof (induction ls arbitrary: st)
  case (Cons l ls)
  have "om_ok (cc_machines (fst (FromString_line l st)))"
      "\<forall>k m. map_of (cc_machines (fst (FromString_line l st))) k = Some m \<longrightarrow> mi_id m = Some k"
      "cc_local_node_id (fst (FromString_line l st)) = cc_local_node_id (fst st)"
    using Cons.prems by (auto simp: FromString_line_def Let_def)
  with Cons.IH [of "FromString_line l st"] show ?case by simp
qed simp

lemma finish_config_ok:
  "finish_config st = Inr c' \<Longrightarrow> om_ok (cc_machines (fst st)) \<Longrightarrow> config_ok c'"
  by (auto simp: finish_config_def Let_def require_defined_Inr_iff config_ok_def
      nodes_per_replica_def all_nodes_size_def)

lemma finish_config_fields:
  "finish_config st = Inr c' \<Longrightarrow> cc_machines c' = cc_machines (fst st)
    \<and> cc_local_node_id c' = cc_local_node_id (fst st) \<and> cc_replicas_size c' = of_nat (length (snd st))
    \<and> cc_local_replica c' = cc_local_replica (fst st)"
  by (auto simp: finish_config_def Let_def require_defined_Inr_iff)

text \<open>
  A configuration text that \<open>FromString\<close> accepts gives a usable cluster: the machines are
  indexed by their own ids, the divisors of the lookups are not zero, this node's relative id is in
  range, and so is the owner of every key.
\<close>

theorem FromString_config_ok:
  assumes "FromString config c = Inr c'"
  shows "config_ok c' \<and> cc_local_node_id c' = cc_local_node_id c
    \<and> cc_relative_node_id c' < nodes_per_replica c'
    \<and> (\<forall>k. LookupPartition c' k < nodes_per_replica c')
    \<and> (\<forall>k m. lookup_machine c' k = Some m \<longrightarrow> mi_id m = Some k)"
proof -
  let ?st = "fold FromString_line (SplitString config (CHR 0x0A))
      (c\<lparr>cc_machines := [], cc_machines_replica := []\<rparr>, [])"
  have fin: "finish_config ?st = Inr c'"
    using assms by (auto simp: FromString_def bindE_Inr_iff)
  have inv: "om_ok (cc_machines (fst ?st))"
      "\<forall>k m. map_of (cc_machines (fst ?st)) k = Some m \<longrightarrow> mi_id m = Some k"
      "cc_local_node_id (fst ?st) = cc_local_node_id c"
    using FromString_fold_inv [of "(c\<lparr>cc_machines := [], cc_machines_replica := []\<rparr>, [])"
        "SplitString config (CHR 0x0A)"] by simp_all
  have "config_ok c'" using finish_config_ok [OF fin inv(1)] .
  then show ?thesis
    using finish_config_fields [OF fin] inv LookupPartition_bound relative_node_bound
    by (simp add: lookup_machine_def)
qed

section \<open>Writing a configuration\<close>

text \<open>The line format \<open><machine-id>:<replica-id>:<ip>:<port>\<close> the header documents.\<close>

record config_entry =
  ce_id :: int32
  ce_replica :: int32
  ce_host :: string
  ce_port :: int32

definition config_line :: "config_entry \<Rightarrow> string" where
  "config_line e = join_with (CHR '':'')
     [IntToString (ce_id e), IntToString (ce_replica e), ce_host e, IntToString (ce_port e)]"

definition config_text :: "config_entry list \<Rightarrow> string" where
  "config_text es = join_with (CHR 0x0A) (map config_line es)"

definition entry_info :: "config_entry \<Rightarrow> machine_info" where
  "entry_info e = \<lparr>mi_id = Some (scast (ce_id e)), mi_replica = Some (ce_replica e),
     mi_host = Some (ce_host e), mi_port = Some (ce_port e)\<rparr>"

definition entry_ok :: "config_entry \<Rightarrow> bool" where
  "entry_ok e \<longleftrightarrow> 0 \<le> sint (ce_id e) \<and> 0 \<le> sint (ce_replica e) \<and> 0 \<le> sint (ce_port e)
     \<and> ce_host e \<noteq> [] \<and> CHR '':'' \<notin> set (ce_host e) \<and> CHR 0x0A \<notin> set (ce_host e)"

lemma decimal_int_chars:
  "c \<in> set (decimal_int i) \<Longrightarrow> isdigit_char c \<or> c = CHR ''-''"
  using decimal_digits by (auto simp: decimal_int_def split: if_splits)

lemma IntToString_no_separator:
  "CHR '':'' \<notin> set (IntToString i)" "CHR 0x0A \<notin> set (IntToString i)"
  by (auto simp: IntToString_def dest!: decimal_int_chars) (auto simp: isdigit_char_def)

lemma config_line_facts:
  assumes "entry_ok e"
  shows "config_line e \<noteq> []" "CHR 0x0A \<notin> set (config_line e)"
    "SplitString (config_line e) (CHR '':'')
      = [IntToString (ce_id e), IntToString (ce_replica e), ce_host e, IntToString (ce_port e)]"
proof -
  show "config_line e \<noteq> []" "CHR 0x0A \<notin> set (config_line e)"
    using assms by (auto simp: config_line_def entry_ok_def IntToString_no_separator)
  show "SplitString (config_line e) (CHR '':'')
      = [IntToString (ce_id e), IntToString (ce_replica e), ce_host e, IntToString (ce_port e)]"
    using assms unfolding SplitString_def config_line_def
    by (subst SplitString_loop_join) (auto simp: entry_ok_def IntToString_no_separator)
qed

lemma StringToInt_printed: "StringToInt (IntToString n) = n"
  by (simp add: IntToString_def StringToInt_decimal_int)

lemma sint_scast_up: "sint (scast (k::int32) :: int64) = sint k"
  by (simp add: signed_scast_eq signed_take_bit_int_eq_self order.trans [OF _ sint_ge] less_le_trans [OF sint_lt])

lemma sint_ucast_up: "0 \<le> sint (ucast (k::uint32) :: int64)"
proof -
  have "uint k < 2 ^ 32" using unsigned_less [of k, where 'a = int] by simp
  moreover have "- (2 ^ 63) \<le> uint k" by (rule order.trans [of _ 0]) simp_all
  ultimately have "signed_take_bit 63 (uint k) = uint k"
    by (intro signed_take_bit_int_eq_self) simp_all
  then show ?thesis by (simp add: signed_ucast_eq)
qed

text \<open>What one line adds to the configuration.\<close>

definition add_entry :: "config_entry \<Rightarrow> cluster_config \<times> uint32 list \<Rightarrow> cluster_config \<times> uint32 list" where
  "add_entry e st =
     (let c = fst st; id = scast (ce_id e)
      in (c\<lparr>cc_machines := om_insert id (entry_info e) (cc_machines c),
            cc_machines_replica := om_insert id (ce_replica e) (cc_machines_replica c),
            cc_local_replica := (if id = cc_local_node_id c then ce_replica e else cc_local_replica c)\<rparr>,
          os_insert (ce_replica e) (snd st)))"

lemma FromString_line_config_line: "entry_ok e \<Longrightarrow> FromString_line (config_line e) st = add_entry e st"
  by (simp add: FromString_line_def config_line_facts StringToInt_printed add_entry_def entry_info_def Let_def)

lemma CheckString_line_config_line:
  assumes "entry_ok e" "scast (ce_id e) \<notin> set ids" "ce_host e @ '':'' @ IntToString (ce_port e) \<notin> set hps"
  shows "CheckString_line (config_line e) (ids, hps)
    = Inr (os_insert (scast (ce_id e)) ids, os_insert (ce_host e @ '':'' @ IntToString (ce_port e)) hps)"
  using assms
  by (simp add: CheckString_line_def config_line_facts StringToInt_printed CHECK_def sint_scast_up sint_ucast_up entry_ok_def Let_def)

definition entry_hostport :: "config_entry \<Rightarrow> string" where
  "entry_hostport e = ce_host e @ '':'' @ IntToString (ce_port e)"

lemma foldE_CheckString_lines:
  assumes "\<forall>e \<in> set es. entry_ok e" and "distinct (map (\<lambda>e. scast (ce_id e) :: uint64) es)"
    and "distinct (map entry_hostport es)"
    and "set (map (\<lambda>e. scast (ce_id e)) es) \<inter> set ids = {}" and "set (map entry_hostport es) \<inter> set hps = {}"
  shows "\<exists>r. foldE CheckString_line (map config_line es) (ids, hps) = Inr r"
  using assms
proof (induction es arbitrary: ids hps)
  case (Cons e es)
  have "CheckString_line (config_line e) (ids, hps)
      = Inr (os_insert (scast (ce_id e)) ids, os_insert (entry_hostport e) hps)"
    using Cons.prems by (subst CheckString_line_config_line) (auto simp: entry_hostport_def)
  moreover have "\<exists>r. foldE CheckString_line (map config_line es)
      (os_insert (scast (ce_id e)) ids, os_insert (entry_hostport e) hps) = Inr r"
    using Cons.prems by (intro Cons.IH) auto
  ultimately show ?case by simp
qed simp

lemma fold_FromString_lines:
  "\<forall>e \<in> set es. entry_ok e \<Longrightarrow> fold FromString_line (map config_line es) st = fold add_entry es st"
  by (induction es arbitrary: st) (simp_all add: FromString_line_config_line)

lemma add_entry_fields [simp]:
  "cc_machines (fst (add_entry e st)) = om_insert (scast (ce_id e)) (entry_info e) (cc_machines (fst st))"
  "snd (add_entry e st) = os_insert (ce_replica e) (snd st)"
  by (simp_all add: add_entry_def Let_def)

lemma fold_add_entry_replicas:
  "set (snd (fold add_entry es st)) = ce_replica ` set es \<union> set (snd st)
    \<and> (distinct (snd st) \<longrightarrow> distinct (snd (fold add_entry es st)))"
proof (induction es arbitrary: st)
  case (Cons e es)
  from Cons.IH [of "add_entry e st"] show ?case by auto
qed simp

lemma fold_add_entry_machines:
  assumes "distinct (map (\<lambda>e. scast (ce_id e) :: uint64) es)"
    and "set (map (\<lambda>e. scast (ce_id e)) es) \<inter> set (om_keys (cc_machines (fst st))) = {}"
  shows "map_of (cc_machines (fst (fold add_entry es st)))
      = map_of (cc_machines (fst st)) ++ map_of (map (\<lambda>e. (scast (ce_id e), entry_info e)) es)
    \<and> length (cc_machines (fst (fold add_entry es st))) = length es + length (cc_machines (fst st))"
  using assms
proof (induction es arbitrary: st)
  case (Cons e es)
  have new: "scast (ce_id e) \<notin> dom (map_of (map (\<lambda>e. (scast (ce_id e) :: uint64, entry_info e)) es))"
    using Cons.prems by (auto simp: domIff map_of_eq_None_iff)
  have len: "length (cc_machines (fst (add_entry e st))) = Suc (length (cc_machines (fst st)))"
    using Cons.prems by (simp add: length_om_insert_new)
  have "set (map (\<lambda>e. scast (ce_id e)) es) \<inter> set (om_keys (cc_machines (fst (add_entry e st)))) = {}"
    using Cons.prems by auto
  note IH = Cons.IH [OF _ this]
  have "(\<lambda>a. if a = scast (ce_id e) then Some (entry_info e) else map_of (cc_machines (fst st)) a)
      ++ map_of (map (\<lambda>e. (scast (ce_id e), entry_info e)) es)
    = map_of (cc_machines (fst st)) ++ map_of (map (\<lambda>e. (scast (ce_id e), entry_info e)) (e # es))"
    using new by (auto simp: fun_eq_iff map_add_def domIff split: option.splits)
  with IH Cons.prems(1) len show ?case by (simp add: fun_upd_def)
qed simp

lemma hostport_inj:
  assumes "entry_ok e" "entry_ok f" "entry_hostport e = entry_hostport f"
  shows "ce_host e = ce_host f \<and> ce_port e = ce_port f"
proof -
  have "SplitString (entry_hostport g) (CHR '':'') = [ce_host g, IntToString (ce_port g)]" if "entry_ok g" for g
    using that SplitString_loop_join [of "[ce_host g, IntToString (ce_port g)]" "CHR '':''" "[]"]
    by (simp add: SplitString_def entry_hostport_def entry_ok_def IntToString_no_separator)
  with assms show ?thesis by (metis IntToString_inj list.inject)
qed

text \<open>
  C38: writing entries in the documented format and parsing the text gives back the machines: every
  entry is found under its id, no other machine is, and the number of replicas is the number of
  different replica ids.
\<close>

theorem FromString_config_text:
  assumes ok: "\<forall>e \<in> set es. entry_ok e" and "es \<noteq> []" and len: "length es < 2 ^ 32"
    and ids: "distinct (map ce_id es)" and hps: "distinct (map (\<lambda>e. (ce_host e, ce_port e)) es)"
  shows "\<exists>c'. FromString (config_text es) c = Inr c' \<and> length (cc_machines c') = length es
    \<and> (\<forall>e \<in> set es. lookup_machine c' (scast (ce_id e)) = Some (entry_info e))
    \<and> unat (cc_replicas_size c') = card (ce_replica ` set es)"
proof -
  have split: "SplitString (config_text es) (CHR 0x0A) = map config_line es"
    using assms(1,2) unfolding SplitString_def config_text_def
    by (subst SplitString_loop_join) (auto simp: config_line_facts)
  have inj: "(scast (ce_id e) :: uint64) = scast (ce_id f) \<longleftrightarrow> ce_id e = ce_id f" for e f
    by (metis sint_scast_up signed_word_eqI)
  have ids': "distinct (map (\<lambda>e. scast (ce_id e) :: uint64) es)"
    using ids by (auto simp: distinct_map inj_on_def inj)
  have hps': "distinct (map entry_hostport es)"
    using hps ok hostport_inj by (fastforce simp: distinct_map inj_on_def)
  let ?c0 = "c\<lparr>cc_machines := [], cc_machines_replica := []\<rparr>"
  let ?st = "fold add_entry es (?c0, [])"
  have chk: "CheckString (config_text es) = Inr ()"
    using foldE_CheckString_lines [OF ok ids' hps', of "[]" "[]"]
    by (auto simp: CheckString_def split)
  have st: "map_of (cc_machines (fst ?st)) = map_of (map (\<lambda>e. (scast (ce_id e), entry_info e)) es)"
      "length (cc_machines (fst ?st)) = length es" "set (snd ?st) = ce_replica ` set es" "distinct (snd ?st)"
    using fold_add_entry_machines [OF ids', of "(?c0, [])"] fold_add_entry_replicas [of es "(?c0, [])"]
    by (simp_all add: om_keys_def)
  have card: "length (snd ?st) = card (ce_replica ` set es)"
    using st(3,4) by (metis distinct_card)
  then have le: "length (snd ?st) \<le> length es" by (metis card_image_le card_length le_trans list.set_finite)
  have pos: "0 < length (snd ?st)" using st(3) assms(2) by (metis image_is_empty length_greater_0_conv set_empty)
  let ?c1 = "(fst ?st)\<lparr>cc_replicas_size := of_nat (length (snd ?st))\<rparr>"
  have size: "unat (cc_replicas_size ?c1) = length (snd ?st)"
    using le len by (simp add: unat_of_nat)
  have "unat (nodes_per_replica ?c1) = length es div length (snd ?st)"
    using le len st(2) size by (simp add: nodes_per_replica_def all_nodes_size_def unat_div_distrib unat_of_nat)
  moreover have "0 < length es div length (snd ?st)" using le pos by (simp add: div_greater_zero_iff)
  ultimately have "nodes_per_replica ?c1 \<noteq> 0" "cc_replicas_size ?c1 \<noteq> 0"
    using pos size by auto
  then have "finish_config ?st = Inr (?c1\<lparr>cc_relative_node_id := cc_local_node_id ?c1 mod nodes_per_replica ?c1\<rparr>)"
    by (simp add: finish_config_def Let_def)
  moreover have "map_of (map (\<lambda>e. (scast (ce_id e) :: uint64, entry_info e)) es) (scast (ce_id e)) = Some (entry_info e)"
    if "e \<in> set es" for e
    using that ids' by (intro map_of_is_SomeI) (auto simp: comp_def)
  ultimately show ?thesis
    using st size card by (simp add: FromString_def chk split fold_FromString_lines [OF ok] lookup_machine_def)
qed

section \<open>A concrete cluster\<close>

text \<open>Two replicas of two nodes; the local machine is \<open>id\<close>.\<close>

definition example_entries :: "config_entry list" where
  "example_entries =
     [\<lparr>ce_id = 0, ce_replica = 0, ce_host = ''a'', ce_port = 1\<rparr>,
      \<lparr>ce_id = 1, ce_replica = 0, ce_host = ''b'', ce_port = 1\<rparr>,
      \<lparr>ce_id = 2, ce_replica = 1, ce_host = ''c'', ce_port = 1\<rparr>,
      \<lparr>ce_id = 3, ce_replica = 1, ce_host = ''d'', ce_port = 1\<rparr>]"

definition example_config :: "uint64 \<Rightarrow> cluster_config" where
  "example_config node =
     \<lparr>cc_machines = map (\<lambda>e. (scast (ce_id e), entry_info e)) example_entries,
      cc_machines_replica = map (\<lambda>e. (scast (ce_id e), ce_replica e)) example_entries,
      cc_replicas_size = 2, cc_local_node_id = node, cc_local_replica = ucast (node div 2),
      cc_relative_node_id = node mod 2, cc_next_guid = 1000, cc_stop = False\<rparr>"

lemma example_config_size:
  "all_nodes_size (example_config n) = 4" "nodes_per_replica (example_config n) = 2"
  by (simp_all add: all_nodes_size_def nodes_per_replica_def example_config_def example_entries_def)

lemma example_config_ok: "config_ok (example_config n)"
  by (simp add: config_ok_def example_config_size)
    (simp add: example_config_def example_entries_def om_ok_def om_keys_def)

lemma LookupReplica_LookupMachineID_witness:
  "LookupReplica (example_config 0) (LookupMachineID (example_config 0) 1 (ucast (1 :: uint32))) = 1
    \<and> LookupMachineID (example_config 0) 1 (ucast (1 :: uint32)) mod nodes_per_replica (example_config 0) = 1"
  by (rule LookupReplica_LookupMachineID) (simp_all add: example_config_size)

lemma Lookup_printed_key_witness:
  "LookupPartition (example_config 0) (IntToString 7) = 1 \<and> unat (LookupMaster (example_config 0) (IntToString 7)) = 1"
  using Lookup_printed_key [OF example_config_ok [of 0], of 7]
  by (simp add: example_config_size) (simp add: example_config_def)

lemma GetGUID_unique_witness:
  "distinct (GetGUIDs 5 (example_config 0) @ GetGUIDs 7 (example_config 3))"
  by (rule GetGUID_unique)
    (simp_all add: guid_room_def example_config_size, simp_all add: example_config_def)

lemma FromString_config_text_witness:
  "\<exists>c'. FromString (config_text example_entries) (example_config 0) = Inr c' \<and> length (cc_machines c') = 4"
  using FromString_config_text [of example_entries "example_config 0"]
  by (simp add: example_entries_def entry_ok_def) auto

lemma example_StringToInt: "StringToInt ''0'' = 0" "StringToInt ''1'' = 1"
  by (simp_all add: StringToInt_def strtol_value_def isspace_char_def isdigit_char_def digit_value_def)

lemma example_FromString:
  "\<exists>c'. FromString ''0:0:h:1'' (ClusterConfig_new 0 0 0 0) = Inr c'"
  by (simp add: FromString_def CheckString_def CheckString_line_def FromString_line_def SplitString_def
      example_StringToInt CHECK_def finish_config_def nodes_per_replica_def all_nodes_size_def
      ClusterConfig_new_def Let_def)

lemma FromString_config_ok_witness:
  "\<exists>c'. FromString ''0:0:h:1'' (ClusterConfig_new 0 0 0 0) = Inr c' \<and> config_ok c'"
  using example_FromString FromString_config_ok by blast

end
