(* ===== verification/Cluster_Manager.thy ===== *)
theory Cluster_Manager
  imports Cluster_Config
begin

text \<open>
  \<open>machine/cluster_manager.cc\<close>, \<open>scripts/cluster.cc\<close> and \<open>scripts/script_utils.cc\<close>: the tool that runs
  commands on all machines of a cluster, and how a server finds out whether one is running already. What
  \<open>system\<close> returns for a command is a parameter, as are the processes that \<open>/proc\<close> lists.
\<close>

section \<open>State\<close>

record cluster_manager =
  cm_config :: cluster_config
  cm_config_file :: string
  cm_calvin_path :: string
  cm_binary :: string
  cm_mode :: uint32
  cm_type :: uint32
  cm_ssh_username :: string
  cm_ssh_key1 :: string
  cm_ssh_key2 :: string
  cm_ssh_key3 :: string
  cm_ssh_key4 :: string
  cm_ssh_key5 :: string
  cm_ssh_key6 :: string
  cm_num_replicas :: uint32

text \<open>
  The two constructors; \<open>content\<close> is the text of the file. The configuration is built without a machine
  id, and \<open>u32\<close>, \<open>u32'\<close>, \<open>u64\<close> are the members its constructor does not set.
\<close>

definition ClusterManager3 ::
  "uint32 \<Rightarrow> uint32 \<Rightarrow> uint64 \<Rightarrow> string \<Rightarrow> string \<Rightarrow> string \<Rightarrow> string \<Rightarrow> uint32 \<Rightarrow> uint32
    \<Rightarrow> string \<Rightarrow> string \<Rightarrow> string \<Rightarrow> cluster_manager outcome" where
  "ClusterManager3 u32 u32' u64 content config_file calvin_path binary mode type key1 key2 key3 =
     bindE (FromString content (ClusterConfig_new u32 u32' u64 0)) (\<lambda>c.
       Inr \<lparr>cm_config = c, cm_config_file = config_file, cm_calvin_path = calvin_path, cm_binary = binary,
            cm_mode = mode, cm_type = type, cm_ssh_username = ''ubuntu'',
            cm_ssh_key1 = key1, cm_ssh_key2 = key2, cm_ssh_key3 = key3,
            cm_ssh_key4 = [], cm_ssh_key5 = [], cm_ssh_key6 = [], cm_num_replicas = 3\<rparr>)"

definition ClusterManager6 ::
  "uint32 \<Rightarrow> uint32 \<Rightarrow> uint64 \<Rightarrow> string \<Rightarrow> string \<Rightarrow> string \<Rightarrow> string \<Rightarrow> uint32 \<Rightarrow> uint32
    \<Rightarrow> string \<Rightarrow> string \<Rightarrow> string \<Rightarrow> string \<Rightarrow> string \<Rightarrow> string \<Rightarrow> cluster_manager outcome" where
  "ClusterManager6 u32 u32' u64 content config_file calvin_path binary mode type key1 key2 key3 key4 key5 key6 =
     bindE (FromString content (ClusterConfig_new u32 u32' u64 0)) (\<lambda>c.
       Inr \<lparr>cm_config = c, cm_config_file = config_file, cm_calvin_path = calvin_path, cm_binary = binary,
            cm_mode = mode, cm_type = type, cm_ssh_username = ''ubuntu'',
            cm_ssh_key1 = key1, cm_ssh_key2 = key2, cm_ssh_key3 = key3,
            cm_ssh_key4 = key4, cm_ssh_key5 = key5, cm_ssh_key6 = key6, cm_num_replicas = 6\<rparr>)"

section \<open>Commands\<close>

text \<open>\<open>repsize\<close> is an \<open>int\<close>; it is zero, and dividing by it undefined, if there are fewer nodes than replicas.\<close>

definition ssh_key :: "cluster_manager \<Rightarrow> uint64 \<Rightarrow> string outcome" where
  "ssh_key cm m =
     (if all_nodes_size (cm_config cm) < 3 then Inr (cm_ssh_key1 cm)
      else let repsize = scast (ucast (all_nodes_size (cm_config cm) div ucast (cm_num_replicas cm)) :: int32) :: uint64
        in require_defined (repsize \<noteq> 0)
            (if m div repsize = 0 then Inr (cm_ssh_key1 cm)
             else if m div repsize = 1 then Inr (cm_ssh_key2 cm)
             else if m div repsize = 2 then Inr (cm_ssh_key3 cm)
             else if m div repsize = 3 then Inr (cm_ssh_key4 cm)
             else if m div repsize = 4 then Inr (cm_ssh_key5 cm)
             else if m div repsize = 5 then Inr (cm_ssh_key6 cm)
             else Inl Check_failed))"

definition apostrophe :: string where "apostrophe = [CHR 0x27]"

text \<open>\<open>ssh_username_ + "@" + host\<close>, and the integers that \<open>IntToString\<close> gets as an \<open>int\<close>.\<close>

definition login :: "cluster_manager \<Rightarrow> machine_info \<Rightarrow> string" where
  "login cm mi = cm_ssh_username cm @ ''@'' @ get_or [] (mi_host mi)"

definition put_command :: "cluster_manager \<Rightarrow> string \<Rightarrow> nat \<Rightarrow> machine_info \<Rightarrow> string" where
  "put_command cm key i mi = ''scp '' @ key @ '' '' @ cm_config_file cm @ '' '' @ login cm mi @ '':''
     @ cm_calvin_path cm @ ''/'' @ cm_config_file cm"

definition get_command :: "string \<Rightarrow> cluster_manager \<Rightarrow> string \<Rightarrow> nat \<Rightarrow> machine_info \<Rightarrow> string" where
  "get_command base cm key i mi = ''scp '' @ key @ '' '' @ login cm mi @ '':/tmp/'' @ base @ IntToString (of_nat i) @ '' data/''"

definition update_command :: "cluster_manager \<Rightarrow> string \<Rightarrow> nat \<Rightarrow> machine_info \<Rightarrow> string" where
  "update_command cm key i mi = ''ssh '' @ key @ '' '' @ login cm mi @ '' '' @ apostrophe @ ''cd '' @ cm_calvin_path cm
     @ '';git checkout calvin.conf;  git pull; cd src; cp Makefile.default Makefile; make clean; make -j'' @ apostrophe"

definition deploy_command ::
  "int32 \<Rightarrow> int32 \<Rightarrow> int32 \<Rightarrow> int32 \<Rightarrow> int32 \<Rightarrow> cluster_manager \<Rightarrow> string \<Rightarrow> nat \<Rightarrow> machine_info \<Rightarrow> string" where
  "deploy_command experiment percent_mp percent_mr hot_records max_batch_size cm key i mi =
     ''ssh '' @ key @ '' '' @ login cm mi @ ''  '' @ apostrophe @ ''cd '' @ cm_calvin_path cm @ ''; '' @ '' bin/scripts/'' @ cm_binary cm
     @ '' --machine_id='' @ IntToString (ucast (get_or 0 (mi_id mi))) @ '' --mode='' @ IntToString (cm_mode cm)
     @ '' --type='' @ IntToString (cm_type cm) @ ''  --config='' @ cm_config_file cm
     @ '' --experiment='' @ IntToString experiment @ '' --percent_mp='' @ IntToString percent_mp
     @ '' --percent_mr='' @ IntToString percent_mr @ '' --hot_records='' @ IntToString hot_records
     @ '' --max_batch_size='' @ IntToString max_batch_size @ '' '' @ apostrophe @ '' &''"

definition kill_command :: "cluster_manager \<Rightarrow> string \<Rightarrow> nat \<Rightarrow> machine_info \<Rightarrow> string" where
  "kill_command cm key i mi = ''ssh '' @ key @ '' '' @ login cm mi @ '' killall -9 '' @ cm_binary cm"

definition status_command :: "cluster_manager \<Rightarrow> string \<Rightarrow> machine_info \<Rightarrow> string" where
  "status_command cm key mi = ''ssh '' @ key @ '' '' @ login cm mi @ ''  '' @ apostrophe @ ''cd '' @ cm_calvin_path cm @ ''; bin/scripts/''
     @ cm_binary cm @ ''  --calvin_version=true'' @ ''  --machine_id='' @ IntToString (ucast (get_or 0 (mi_id mi))) @ apostrophe"

section \<open>Running commands\<close>

text \<open>The macros for the result of \<open>system\<close>.\<close>

definition WIFEXITED :: "int32 \<Rightarrow> bool" where
  "WIFEXITED status \<longleftrightarrow> status AND 0x7f = 0"

definition WEXITSTATUS :: "int32 \<Rightarrow> int32" where
  "WEXITSTATUS status = drop_bit 8 (status AND 0xff00)"

definition SystemFunction :: "(string \<Rightarrow> int32) \<Rightarrow> string \<Rightarrow> unit outcome" where
  "SystemFunction system arg =
     (let status = system arg
      in CHECK (status \<noteq> -1) (CHECK (WIFEXITED status \<and> WEXITSTATUS status = 0) (Inr ())))"

text \<open>
  The loop that all operations but the last share: a thread per machine runs the command built for it, with
  its index. The result has the commands; the threads run at the same time and all are joined.
\<close>

definition commands_for :: "cluster_manager \<Rightarrow> (string \<Rightarrow> nat \<Rightarrow> machine_info \<Rightarrow> string) \<Rightarrow> string list outcome" where
  "commands_for cm cmd =
     foldE (\<lambda>(m, mi) cmds. bindE (ssh_key cm m) (\<lambda>key. Inr (cmds @ [cmd key (length cmds) mi]))) (cc_machines (cm_config cm)) []"

definition run_all :: "(string \<Rightarrow> int32) \<Rightarrow> cluster_manager \<Rightarrow> (string \<Rightarrow> nat \<Rightarrow> machine_info \<Rightarrow> string) \<Rightarrow> string list outcome" where
  "run_all system cm cmd =
     bindE (commands_for cm cmd) (\<lambda>cmds. bindE (foldE (\<lambda>c _. SystemFunction system c) cmds ()) (\<lambda>_. Inr cmds))"

definition PutConfig :: "(string \<Rightarrow> int32) \<Rightarrow> cluster_manager \<Rightarrow> string list outcome" where
  "PutConfig system cm = run_all system cm (put_command cm)"

definition GetTempFiles :: "(string \<Rightarrow> int32) \<Rightarrow> string \<Rightarrow> cluster_manager \<Rightarrow> string list outcome" where
  "GetTempFiles system base cm = run_all system cm (get_command base cm)"

definition Update :: "(string \<Rightarrow> int32) \<Rightarrow> cluster_manager \<Rightarrow> string list outcome" where
  "Update system cm = run_all system cm (update_command cm)"

definition DeployCluster ::
  "(string \<Rightarrow> int32) \<Rightarrow> int32 \<Rightarrow> int32 \<Rightarrow> int32 \<Rightarrow> int32 \<Rightarrow> int32 \<Rightarrow> cluster_manager \<Rightarrow> string list outcome" where
  "DeployCluster system experiment percent_mp percent_mr hot_records max_batch_size cm =
     run_all system cm (deploy_command experiment percent_mp percent_mr hot_records max_batch_size cm)"

definition KillCluster :: "(string \<Rightarrow> int32) \<Rightarrow> cluster_manager \<Rightarrow> string list outcome" where
  "KillCluster system cm = run_all system cm (kill_command cm)"

section \<open>The status report\<close>

text \<open>\<open>cluster_status\<close> and \<open>index\<close>; a result that no branch knows does not move the index.\<close>

definition note_status :: "int32 \<Rightarrow> nat list \<times> nat \<Rightarrow> nat list \<times> nat" where
  "note_status status st =
     (let (cluster_status, index) = st; store = (\<lambda>v. (cluster_status[index := v], index + 1))
      in if status = -1 \<or> \<not> WIFEXITED status \<or> WEXITSTATUS status \<noteq> 0
         then if WEXITSTATUS status = 255 \<or> \<not> WIFEXITED status then store 0
              else if WEXITSTATUS status = 127 then store 1
              else if WEXITSTATUS status = 254 then store 2
              else st
         else store 3)"

definition status_text :: "nat \<Rightarrow> string option" where
  "status_text v = (if v = 0 then Some ''Unreachable'' else if v = 1 then Some ''Calvin not found''
     else if v = 2 then Some ''Running'' else if v = 3 then Some ''Not Running'' else None)"

text \<open>\<open>printf("%-10d          %16s:%d              ...\n", (int)machine_id, host, port)\<close>.\<close>

definition status_line :: "machine_info \<Rightarrow> string \<Rightarrow> string" where
  "status_line mi text =
     (let n = IntToString (ucast (get_or 0 (mi_id mi))); host = get_or [] (mi_host mi)
      in n @ replicate (10 - length n) (CHR '' '') @ replicate 10 (CHR '' '')
         @ replicate (16 - length host) (CHR '' '') @ host @ '':'' @ IntToString (get_or 0 (mi_port mi))
         @ replicate 14 (CHR '' '') @ text @ [CHR 0x0A])"

definition status_lines :: "(machine_info \<times> nat) list \<Rightarrow> string list" where
  "status_lines rows = concat (map (\<lambda>(mi, v). case status_text v of None \<Rightarrow> [] | Some t \<Rightarrow> [status_line mi t]) rows)"

definition gather_status :: "(string \<Rightarrow> int32) \<Rightarrow> cluster_manager \<Rightarrow> (nat list \<times> nat) outcome" where
  "gather_status system cm =
     foldE (\<lambda>(m, mi) st. bindE (ssh_key cm m) (\<lambda>key. Inr (note_status (system (status_command cm key mi)) st)))
       (cc_machines (cm_config cm)) (replicate (length (cc_machines (cm_config cm))) 0, 0)"

definition ClusterStatus :: "(string \<Rightarrow> int32) \<Rightarrow> cluster_manager \<Rightarrow> string list outcome" where
  "ClusterStatus system cm =
     bindE (gather_status system cm) (\<lambda>(cluster_status, index).
       Inr (status_lines (zip (map snd (cc_machines (cm_config cm))) cluster_status)))"

section \<open>Is a server running?\<close>

text \<open>\<open>basename\<close> of \<open>script_utils.cc\<close>: what follows the last slash.\<close>

fun basename_loop :: "string \<Rightarrow> string \<Rightarrow> string" where
  "basename_loop p [] = p"
| "basename_loop p (c # s) = basename_loop (if c = CHR ''/'' then s else p) s"

definition basename :: "string \<Rightarrow> string" where
  "basename path = basename_loop path path"

text \<open>
  An entry of \<open>/proc\<close>: its name, and the bytes of its \<open>cmdline\<close> if that can be opened. The buffer has 256
  bytes that were set to zero, so the first argument is what \<open>strcmp\<close> sees.
\<close>

definition cmdline_buffer :: "string \<Rightarrow> string" where
  "cmdline_buffer bytes = takeWhile (\<lambda>c. c \<noteq> CHR 0x00) (take 255 bytes)"

fun count_processes :: "string \<Rightarrow> nat \<Rightarrow> (string \<times> string option) list \<Rightarrow> nat \<Rightarrow> nat" where
  "count_processes base_pname list_size [] count = count"
| "count_processes base_pname list_size ((name, cmdline) # rest) count =
     (if name = [] \<or> \<not> isdigit_char (hd name) then count_processes base_pname list_size rest count
      else case cmdline of
          None \<Rightarrow> count_processes base_pname list_size rest count
        | Some bytes \<Rightarrow>
            if basename (cmdline_buffer bytes) = base_pname
            then if count \<ge> list_size then count else count_processes base_pname list_size rest (count + 1)
            else count_processes base_pname list_size rest count)"

text \<open>\<open>-EINVAL\<close> and \<open>-EIO\<close> are -22 and -5; \<open>proc\<close> is \<open>None\<close> if \<open>opendir\<close> fails.\<close>

definition get_pid_by_name :: "string \<Rightarrow> nat \<Rightarrow> (string \<times> string option) list option \<Rightarrow> int" where
  "get_pid_by_name process_name list_size proc =
     (if basename process_name = [] then -22
      else case proc of None \<Rightarrow> -5 | Some entries \<Rightarrow> int (count_processes (basename process_name) list_size entries 0))"

definition is_process_exist :: "string \<Rightarrow> (string \<times> string option) list option \<Rightarrow> bool" where
  "is_process_exist process_name proc \<longleftrightarrow> 1 < get_pid_by_name process_name 2 proc"

text \<open>\<open>main\<close> of both servers, started with \<open>--calvin_version\<close>: -2 if another process of the name runs.\<close>

definition calvin_version_exit :: "string \<Rightarrow> (string \<times> string option) list option \<Rightarrow> int32" where
  "calvin_version_exit binary proc = (if is_process_exist binary proc then -2 else 0)"

text \<open>The default of the flag \<open>binary\<close> of each server, the name that a server looks for.\<close>

definition calvindb_binary :: string where "calvindb_binary = ''calvindb_server''"
definition lowlatency_binary :: string where "lowlatency_binary = ''lowlatency_calvindb_server''"

section \<open>The command line tool\<close>

record cluster_flags =
  cf_command :: string
  cf_config :: string
  cf_calvin_path :: string
  cf_binary :: string
  cf_lowlatency_binary :: string
  cf_ssh_keys :: "nat \<Rightarrow> string"   \<comment> \<open>\<open>ssh_key1\<close> to \<open>ssh_key6\<close>\<close>
  cf_lowlatency :: int32
  cf_type :: int32
  cf_experiment :: int32
  cf_percent_mp :: int32
  cf_percent_mr :: int32
  cf_hot_records :: int32
  cf_max_batch_size :: int32

definition make_manager :: "uint32 \<Rightarrow> uint32 \<Rightarrow> uint64 \<Rightarrow> string \<Rightarrow> cluster_flags \<Rightarrow> cluster_manager outcome" where
  "make_manager u32 u32' u64 content f =
     (let binary = (if cf_lowlatency f = 0 then cf_binary f else cf_lowlatency_binary f); key = cf_ssh_keys f
      in if cf_type f = 0
         then ClusterManager3 u32 u32' u64 content (cf_config f) (cf_calvin_path f) binary (cf_lowlatency f) (cf_type f)
                (key 1) (key 2) (key 3)
         else ClusterManager6 u32 u32' u64 content (cf_config f) (cf_calvin_path f) binary (cf_lowlatency f) (cf_type f)
                (key 1) (key 2) (key 3) (key 4) (key 5) (key 6))"

text \<open>The result is what was run, or for \<open>status\<close> what was printed.\<close>

definition cluster_main ::
  "(string \<Rightarrow> int32) \<Rightarrow> uint32 \<Rightarrow> uint32 \<Rightarrow> uint64 \<Rightarrow> string \<Rightarrow> cluster_flags \<Rightarrow> string list outcome" where
  "cluster_main system u32 u32' u64 content f =
     bindE (make_manager u32 u32' u64 content f) (\<lambda>cm.
       if cf_command f = ''update'' then Update system cm
       else if cf_command f = ''put-config'' then PutConfig system cm
       else if cf_command f = ''get-data'' then GetTempFiles system ''report.'' cm
       else if cf_command f = ''start'' then
         DeployCluster system (cf_experiment f) (cf_percent_mp f) (cf_percent_mr f) (cf_hot_records f) (cf_max_batch_size f) cm
       else if cf_command f = ''kill'' then KillCluster system cm
       else if cf_command f = ''status'' then ClusterStatus system cm
       else Inl Check_failed)"

section \<open>The key of a machine\<close>

lemma ssh_key_replica:
  assumes "unat (all_nodes_size (cm_config cm)) = unat (cm_num_replicas cm) * p" and "0 < p"
    and "cm_num_replicas cm = 3 \<or> cm_num_replicas cm = 6" and "unat (all_nodes_size (cm_config cm)) < 2 ^ 31" and "m < all_nodes_size (cm_config cm)"
  shows "ssh_key cm m = Inr ([cm_ssh_key1 cm, cm_ssh_key2 cm, cm_ssh_key3 cm, cm_ssh_key4 cm, cm_ssh_key5 cm, cm_ssh_key6 cm]
    ! (unat m div p))"
proof -
  let ?n = "all_nodes_size (cm_config cm)" and ?r = "cm_num_replicas cm"
  have r: "unat ?r = 3 \<or> unat ?r = 6" using assms(3) by auto
  have small: "p < 2 ^ 31" using assms(1,4) r by auto
  have "unat (ucast ?r :: uint64) = unat ?r" using assms(3) by auto
  then have p: "unat (?n div ucast ?r) = p" using assms(1) r by (auto simp: unat_div_distrib)
  have np: "unat (of_nat p :: uint64) = p" using small by (simp add: unat_of_nat)
  have rep: "(scast (ucast (?n div ucast ?r) :: int32) :: uint64) = of_nat p"
  proof -
    have c: "unat (ucast (?n div ucast ?r) :: int32) = p"
      using small by (simp add: unsigned_ucast_eq p take_bit_nat_eq_self)
    have "unat (ucast x :: uint64) = p" if "unat x = p" for x :: int32
      using small that by (simp add: unsigned_ucast_eq take_bit_nat_eq_self)
    from this [OF c] show ?thesis using scast_small [of "ucast (?n div ucast ?r)"] c small np by (metis word_unat_eq_iff)
  qed
  have q: "m div of_nat p = of_nat k \<longleftrightarrow> unat m div p = k" if "k < 7" for k
  proof -
    have "unat (m div of_nat p) = unat m div p" by (simp add: unat_div_distrib np)
    moreover have "unat (of_nat k :: uint64) = k" using that by (simp add: unat_of_nat)
    ultimately show ?thesis by (metis word_unat_eq_iff)
  qed
  have lt: "unat m div p < unat ?r"
    using assms(1,2,5) by (simp add: word_less_nat_alt less_mult_imp_div_less)
  have "(of_nat p :: uint64) \<noteq> 0" using np assms(2) by auto
  moreover have "\<not> ?n < 3" using assms(1,2) r by (auto simp: word_less_nat_alt)
  moreover have "unat m div p = 0 \<or> unat m div p = 1 \<or> unat m div p = 2 \<or> unat m div p = 3 \<or> unat m div p = 4 \<or> unat m div p = 5"
    using lt r by linarith
  ultimately show ?thesis
    using q [of 0] q [of 1] q [of 2] q [of 3] q [of 4] q [of 5] unfolding ssh_key_def rep Let_def
    by (elim disjE) simp_all
qed

text \<open>With six replicas and fewer nodes the size of a replica is zero.\<close>

lemma ssh_key_few_nodes:
  assumes "3 \<le> all_nodes_size (cm_config cm)" "all_nodes_size (cm_config cm) < 6" "cm_num_replicas cm = 6"
  shows "ssh_key cm m = Inl Undefined_behaviour"
proof -
  have "all_nodes_size (cm_config cm) div 6 = 0" using assms(2) by (simp add: div_word_less)
  moreover have "\<not> all_nodes_size (cm_config cm) < 3" using assms(1) by simp
  ultimately show ?thesis by (simp add: ssh_key_def assms(3))
qed

section \<open>What the report says\<close>

text \<open>What the branches of \<open>ClusterStatus\<close> know.\<close>

definition known_status :: "int32 \<Rightarrow> bool" where
  "known_status st \<longleftrightarrow> st = -1 \<or> \<not> WIFEXITED st \<or> WEXITSTATUS st \<in> {0, 127, 254, 255}"

definition status_code :: "int32 \<Rightarrow> nat" where
  "status_code st =
     (if \<not> WIFEXITED st \<or> WEXITSTATUS st = 255 then 0 else if WEXITSTATUS st = 127 then 1
      else if WEXITSTATUS st = 254 then 2 else 3)"

lemma minus_one_status: "\<not> WIFEXITED (-1)" by (simp add: WIFEXITED_def)

lemma note_status_known:
  "note_status st (cs, i) = (if known_status st then (cs[i := status_code st], i + 1) else (cs, i))"
  using minus_one_status by (auto simp: note_status_def known_status_def status_code_def Let_def)

lemma fold_note_status:
  assumes "length sts \<le> n"
  shows "fold note_status sts (cs @ replicate n 0, length cs)
    = (cs @ map status_code (filter known_status sts) @ replicate (n - length (filter known_status sts)) 0,
       length cs + length (filter known_status sts))"
  using assms
proof (induction sts arbitrary: cs n)
  case (Cons st sts)
  then obtain k where n: "n = Suc k" by (cases n) auto
  show ?case
  proof (cases "known_status st")
    case True
    with Cons.IH [of k "cs @ [status_code st]"] Cons.prems show ?thesis
      by (simp add: note_status_known n list_update_append)
  next
    case False
    with Cons.IH [of n cs] Cons.prems show ?thesis by (simp add: note_status_known)
  qed
qed simp

text \<open>
  The rows have the codes of the known results in order: after a machine with an unknown result every
  later one gets the row of its successor, and the last ones are called unreachable.
\<close>

lemma gather_status_rows:
  fixes system :: "string \<Rightarrow> int32"
  assumes "\<forall>(m, mi) \<in> set (cc_machines (cm_config cm)). ssh_key cm m = Inr (key m)"
  defines "sts \<equiv> map (\<lambda>(m, mi). system (status_command cm (key m) mi)) (cc_machines (cm_config cm))"
  shows "\<exists>i. gather_status system cm
    = Inr (map status_code (filter known_status sts) @ replicate (length sts - length (filter known_status sts)) 0, i)"
proof -
  have "foldE (\<lambda>(m, mi) st. bindE (ssh_key cm m) (\<lambda>key. Inr (note_status (system (status_command cm key mi)) st))) ms st
      = Inr (fold note_status (map (\<lambda>(m, mi). system (status_command cm (key m) mi)) ms) st)"
    if "set ms \<subseteq> set (cc_machines (cm_config cm))" for ms st
    using that
  proof (induction ms arbitrary: st)
    case (Cons x ms)
    then have "ssh_key cm (fst x) = Inr (key (fst x))" using assms(1) by auto
    with Cons show ?case by (simp add: case_prod_unfold)
  qed simp
  then show ?thesis
    using fold_note_status [of sts "length (cc_machines (cm_config cm))" "[]"] by (auto simp: gather_status_def sts_def)
qed

lemma status_lines_rows:
  "status_lines (zip mis (map status_code sts)) = map (\<lambda>(mi, st). status_line mi (the (status_text (status_code st)))) (zip mis sts)"
proof (induction mis arbitrary: sts)
  case (Cons mi mis)
  then show ?case by (cases sts) (auto simp: status_lines_def status_text_def status_code_def)
qed (simp add: status_lines_def)

lemma ClusterStatus_known:
  assumes keys: "\<forall>(m, mi) \<in> set (cc_machines (cm_config cm)). ssh_key cm m = Inr (key m)"
    and known: "\<forall>(m, mi) \<in> set (cc_machines (cm_config cm)). known_status (system (status_command cm (key m) mi))"
  shows "ClusterStatus system cm = Inr (map (\<lambda>(m, mi).
    status_line mi (the (status_text (status_code (system (status_command cm (key m) mi)))))) (cc_machines (cm_config cm)))"
proof -
  let ?ms = "cc_machines (cm_config cm)"
  let ?sts = "map (\<lambda>(m, mi). system (status_command cm (key m) mi)) ?ms"
  have "filter known_status ?sts = ?sts" using known by (auto simp: filter_id_conv)
  then have "ClusterStatus system cm = Inr (status_lines (zip (map snd ?ms) (map status_code ?sts)))"
    using gather_status_rows [OF keys, of system] by (auto simp: ClusterStatus_def)
  also have "\<dots> = Inr (map (\<lambda>(mi, st). status_line mi (the (status_text (status_code st)))) (zip (map snd ?ms) ?sts))"
    by (simp only: status_lines_rows)
  also have "zip (map snd ?ms) ?sts = map (\<lambda>(m, mi). (mi, system (status_command cm (key m) mi))) ?ms"
    by (simp add: zip_map_map zip_same_conv_map case_prod_unfold)
  finally show ?thesis by (simp add: comp_def case_prod_unfold)
qed

section \<open>Counting processes\<close>

definition process_named :: "string \<Rightarrow> string \<times> string option \<Rightarrow> bool" where
  "process_named base p \<longleftrightarrow> (case p of (name, cmdline) \<Rightarrow> name \<noteq> [] \<and> isdigit_char (hd name)
     \<and> (case cmdline of None \<Rightarrow> False | Some bytes \<Rightarrow> basename (cmdline_buffer bytes) = base))"

lemma count_processes_filter:
  "c \<le> n \<Longrightarrow> count_processes base n ps c = min n (c + length (filter (process_named base) ps))"
proof (induction ps arbitrary: c)
  case (Cons p ps)
  obtain name cmdline where p: "p = (name, cmdline)" by (cases p)
  have "process_named base p \<longleftrightarrow> name \<noteq> [] \<and> isdigit_char (hd name) \<and> (\<exists>bytes. cmdline = Some bytes \<and> basename (cmdline_buffer bytes) = base)"
    by (simp add: process_named_def p split: option.split)
  with Cons show ?case by (auto simp: p split: option.split)
qed simp

lemma is_process_exist_iff:
  "basename name \<noteq> [] \<Longrightarrow> is_process_exist name (Some ps) \<longleftrightarrow> 2 \<le> length (filter (process_named (basename name)) ps)"
  by (simp add: is_process_exist_def get_pid_by_name_def count_processes_filter min_def)

section \<open>The report is about the servers\<close>

text \<open>What \<open>system\<close> returns for a process that exits with a code: the shell and \<open>ssh\<close> pass its low byte on.\<close>

definition exited_with :: "int32 \<Rightarrow> int32" where
  "exited_with code = push_bit 8 (code AND 0xff)"

lemma version_status:
  "known_status (exited_with (calvin_version_exit b ps))"
  "status_text (status_code (exited_with (calvin_version_exit b ps)))
     = Some (if is_process_exist b ps then ''Running'' else ''Not Running'')"
  by (simp_all add: exited_with_def calvin_version_exit_def known_status_def status_code_def status_text_def WIFEXITED_def WEXITSTATUS_def)

lemma server_binary_basename: "server \<in> {calvindb_binary, lowlatency_binary} \<Longrightarrow> basename server = server \<and> basename server \<noteq> []"
  by (auto simp: calvindb_binary_def lowlatency_binary_def basename_def)

text \<open>
  C40: what the status report says. If every machine can be reached with its key and has one of the two
  servers under the name that the manager knows, the report of \<open>ClusterStatus\<close> has one row
  for each machine, in the order of the ids, and it says that the server is running exactly if the machine
  has at least two processes of the server's own default name (\<open>calvindb_server\<close> or
  \<open>lowlatency_calvindb_server\<close>): the one that was asked, and another. The command that asks
  passes no \<open>--binary\<close>, so the name that the manager knows does not count.
\<close>

theorem ClusterStatus_shows_servers:
  assumes "\<forall>(m, mi) \<in> set (cc_machines (cm_config cm)). ssh_key cm m = Inr (key m)"
    and "server \<in> {calvindb_binary, lowlatency_binary}"
    and "\<forall>(m, mi) \<in> set (cc_machines (cm_config cm)).
      system (status_command cm (key m) mi) = exited_with (calvin_version_exit server (Some (procs m)))"
  shows "ClusterStatus system cm = Inr (map (\<lambda>(m, mi). status_line mi
    (if 2 \<le> length (filter (process_named server) (procs m)) then ''Running'' else ''Not Running''))
    (cc_machines (cm_config cm)))"
proof -
  have "\<forall>(m, mi) \<in> set (cc_machines (cm_config cm)). known_status (system (status_command cm (key m) mi))"
    using assms(3) version_status(1) by fastforce
  from ClusterStatus_known [OF assms(1) this] show ?thesis
    using assms(3) is_process_exist_iff [of server] server_binary_basename [OF assms(2)] version_status(2)
    by (auto simp: case_prod_unfold intro!: map_cong)
qed

text \<open>
  A cluster deployed with another name for the binary is reported as not running on every machine, although
  it runs: no process that a machine has is named after the default.
\<close>

lemma ClusterStatus_misses_renamed:
  assumes keys: "\<forall>(m, mi) \<in> set (cc_machines (cm_config cm)). ssh_key cm m = Inr (key m)"
    and server: "server \<in> {calvindb_binary, lowlatency_binary}" "basename (cm_binary cm) \<noteq> server"
    and asked: "\<forall>(m, mi) \<in> set (cc_machines (cm_config cm)).
      system (status_command cm (key m) mi) = exited_with (calvin_version_exit server (Some (procs m)))"
    and procs: "\<forall>(m, mi) \<in> set (cc_machines (cm_config cm)). \<forall>p \<in> set (procs m). process_named (basename (cm_binary cm)) p"
  shows "ClusterStatus system cm = Inr (map (\<lambda>(m, mi). status_line mi ''Not Running'') (cc_machines (cm_config cm)))"
proof -
  have "\<not> is_process_exist server (Some (procs m))" if "(m, mi) \<in> set (cc_machines (cm_config cm))" for m mi
  proof -
    have "\<forall>p \<in> set (procs m). \<not> process_named server p"
      using procs that server(2) by (fastforce simp: process_named_def split: prod.splits option.splits)
    then have "length (filter (process_named server) (procs m)) = 0" by (simp add: filter_empty_conv)
    with is_process_exist_iff [of server "procs m"] server_binary_basename [OF server(1)] show ?thesis by auto
  qed
  moreover have "\<forall>(m, mi) \<in> set (cc_machines (cm_config cm)). known_status (system (status_command cm (key m) mi))"
    using asked version_status(1) by fastforce
  from ClusterStatus_known [OF keys this] have "ClusterStatus system cm = Inr (map (\<lambda>(m, mi).
      status_line mi (the (status_text (status_code (system (status_command cm (key m) mi)))))) (cc_machines (cm_config cm)))" .
  ultimately show ?thesis using asked version_status(2) by (fastforce intro!: map_cong)
qed

text \<open>
  A command that ends in another way, here with 1, has no row of its own: the row of the first machine says
  what was found on the second, and the second is called unreachable.
\<close>

lemma ClusterStatus_shifts:
  assumes "cc_machines (cm_config cm) = [(m1, mi1), (m2, mi2)]" and "ssh_key cm m1 = Inr k1" "ssh_key cm m2 = Inr k2"
    and "system (status_command cm k1 mi1) = exited_with 1" "system (status_command cm k2 mi2) = exited_with (-2)"
  shows "ClusterStatus system cm = Inr [status_line mi1 ''Running'', status_line mi2 ''Unreachable'']"
proof -
  have "note_status (exited_with 1) st = st" "note_status (exited_with (-2)) st = ((fst st)[snd st := 2], snd st + 1)" for st
    by (simp_all add: note_status_def exited_with_def WIFEXITED_def WEXITSTATUS_def case_prod_unfold Let_def)
  with assms show ?thesis by (simp add: ClusterStatus_def gather_status_def status_lines_def status_text_def)
qed

text \<open>
  A cluster that is laid out replica by replica is deployed as it should: with enough nodes for every
  replica, \<open>DeployCluster\<close> runs one command for each machine, in the order of the ids, with the key of the
  replica that the machine is in, and it fails if one of the commands does.
\<close>

theorem DeployCluster_commands:
  assumes "\<forall>(m, mi) \<in> set (cc_machines (cm_config cm)). m < all_nodes_size (cm_config cm)"
    and "unat (all_nodes_size (cm_config cm)) = unat (cm_num_replicas cm) * p" and "0 < p"
    and "cm_num_replicas cm = 3 \<or> cm_num_replicas cm = 6" and "unat (all_nodes_size (cm_config cm)) < 2 ^ 31"
  shows "let keys = [cm_ssh_key1 cm, cm_ssh_key2 cm, cm_ssh_key3 cm, cm_ssh_key4 cm, cm_ssh_key5 cm, cm_ssh_key6 cm];
             cmds = map (\<lambda>(m, mi). deploy_command experiment mp mr hot batch cm (keys ! (unat m div p)) 0 mi) (cc_machines (cm_config cm))
    in DeployCluster system experiment mp mr hot batch cm
       = (if \<forall>c \<in> set cmds. WIFEXITED (system c) \<and> WEXITSTATUS (system c) = 0 then Inr cmds else Inl Check_failed)"
proof -
  define keys where "keys = [cm_ssh_key1 cm, cm_ssh_key2 cm, cm_ssh_key3 cm, cm_ssh_key4 cm, cm_ssh_key5 cm, cm_ssh_key6 cm]"
  define cmd where "cmd = (\<lambda>(m :: uint64, mi). deploy_command experiment mp mr hot batch cm (keys ! (unat m div p)) 0 mi)"
  let ?ms = "cc_machines (cm_config cm)"
  have key: "ssh_key cm m = Inr (keys ! (unat m div p))" if "(m, mi) \<in> set ?ms" for m mi
    unfolding keys_def by (rule ssh_key_replica [OF assms(2-5)]) (use assms(1) that in auto)
  have index: "deploy_command experiment mp mr hot batch cm k (length cs) mi = deploy_command experiment mp mr hot batch cm k 0 mi"
    for k mi and cs :: "string list"
    by (simp add: deploy_command_def)
  have "foldE (\<lambda>(m, mi) cmds. bindE (ssh_key cm m) (\<lambda>key.
        Inr (cmds @ [deploy_command experiment mp mr hot batch cm key (length cmds) mi]))) ms cs = Inr (cs @ map cmd ms)"
    if "set ms \<subseteq> set ?ms" for ms cs
    using that by (induction ms arbitrary: cs) (auto simp: key index cmd_def)
  then have cmds: "commands_for cm (deploy_command experiment mp mr hot batch cm) = Inr (map cmd ?ms)"
    by (simp add: commands_for_def)
  have run: "foldE (\<lambda>c _. SystemFunction system c) cs () =
      (if \<forall>c \<in> set cs. WIFEXITED (system c) \<and> WEXITSTATUS (system c) = 0 then Inr () else Inl Check_failed)" for cs
    using minus_one_status by (induction cs) (auto simp: SystemFunction_def CHECK_def Let_def)
  show ?thesis
    unfolding keys_def [symmetric] cmd_def [symmetric] DeployCluster_def run_all_def cmds run Let_def by simp
qed

section \<open>A concrete cluster\<close>

definition three_config :: cluster_config where
  "three_config = \<lparr>cc_machines = map (\<lambda>e. (scast (ce_id e), entry_info e)) (take 3 example_entries), cc_machines_replica = [],
     cc_replicas_size = 3, cc_local_node_id = 0, cc_local_replica = 0, cc_relative_node_id = 0, cc_next_guid = 1000, cc_stop = False\<rparr>"

definition three_manager :: cluster_manager where
  "three_manager = \<lparr>cm_config = three_config, cm_config_file = ''calvin.conf'', cm_calvin_path = ''/db'', cm_binary = ''server'',
     cm_mode = 0, cm_type = 0, cm_ssh_username = ''ubuntu'', cm_ssh_key1 = ''k1'', cm_ssh_key2 = ''k2'', cm_ssh_key3 = ''k3'',
     cm_ssh_key4 = [], cm_ssh_key5 = [], cm_ssh_key6 = [], cm_num_replicas = 3\<rparr>"

lemma three_machines:
  "cc_machines (cm_config three_manager) = [(0, entry_info (example_entries ! 0)), (1, entry_info (example_entries ! 1)), (2, entry_info (example_entries ! 2))]"
  "all_nodes_size (cm_config three_manager) = 3"
  by (simp_all add: three_manager_def three_config_def example_entries_def all_nodes_size_def)

lemma ClusterStatus_shows_servers_witness:
  "ClusterStatus (\<lambda>_. exited_with (calvin_version_exit calvindb_binary
      (Some [(''7'', Some ''calvindb_server''), (''8'', Some ''bin/calvindb_server'')]))) three_manager
    = Inr (map (\<lambda>(m, mi). status_line mi ''Running'') (cc_machines (cm_config three_manager)))"
proof -
  let ?ps = "[(''7'', Some ''calvindb_server''), (''8'', Some ''bin/calvindb_server'')]"
  have "ssh_key three_manager m = Inr ([''k1'', ''k2'', ''k3''] ! unat m)" if "m \<in> {0, 1, 2}" for m
    using that by (auto simp: ssh_key_def three_machines) (simp_all add: three_manager_def)
  then have "\<forall>(m, mi) \<in> set (cc_machines (cm_config three_manager)). ssh_key three_manager m = Inr ([''k1'', ''k2'', ''k3''] ! unat m)"
    by (simp add: three_machines)
  note r = ClusterStatus_shows_servers [OF this, of calvindb_binary "\<lambda>_. exited_with (calvin_version_exit calvindb_binary (Some ?ps))"
      "\<lambda>_. ?ps"]
  have "2 \<le> length (filter (process_named calvindb_binary) ?ps)"
    by (simp add: calvindb_binary_def basename_def process_named_def cmdline_buffer_def isdigit_char_def)
  with r show ?thesis by simp
qed

lemma DeployCluster_commands_witness:
  "DeployCluster (\<lambda>_. exited_with 0) 0 1 2 3 4 three_manager = Inr (map (\<lambda>(m, mi).
     deploy_command 0 1 2 3 4 three_manager ([''k1'', ''k2'', ''k3'', [], [], []] ! unat m) 0 mi) (cc_machines (cm_config three_manager)))"
proof -
  have "\<forall>(m, mi) \<in> set (cc_machines (cm_config three_manager)). m < all_nodes_size (cm_config three_manager)"
    "cm_num_replicas three_manager = 3" by (simp_all add: three_machines) (simp add: three_manager_def)
  with DeployCluster_commands [of three_manager 1 0 1 2 3 4 "\<lambda>_. exited_with 0"] show ?thesis
    by (simp add: three_machines(2) exited_with_def WIFEXITED_def WEXITSTATUS_def) (simp add: three_manager_def)
qed

end
