(* ===== verification/Messages.thy ===== *)
theory Messages
  imports Calvin_Prelude
begin

text \<open>
  The protocol buffers of \<open>proto/\<close>: transactions, network messages, sequences. A field nobody reads
  is left out. The protobuf library itself is not part of the repository: \<open>SerializeToString\<close> and
  \<open>ParseFromString\<close> are the functions of a \<open>codec\<close>, a parameter of every definition that puts a
  protocol buffer into a message, over a type of bytes that is left open. What the code relies on,
  that parsing gives back what was serialised, is the hypothesis \<open>codec_ok\<close>.
\<close>

section \<open>Transactions (\<open>txn.proto\<close>)\<close>

record key_entry =
  ke_key :: string
  ke_master :: uint32
  ke_counter :: uint64

datatype txn_status = NEW | ACTIVE | COMMITTED | ABORTED | ABORTED_WITHOUT_LOCK

record txn_proto =
  tx_txn_id :: uint64
  tx_txn_type :: uint32
  tx_read_set :: "key_entry list"
  tx_write_set :: "key_entry list"
  tx_read_write_set :: "key_entry list"
  tx_status :: txn_status
  tx_readers :: "uint64 list"
  tx_writers :: "uint64 list"
  tx_origin_replica :: uint32
  tx_new_generated :: bool
  tx_involved_replicas :: "uint32 list"
  tx_fake_txn :: bool
  tx_remaster_txn :: bool
  tx_client_replica :: uint32
  tx_remaster_from :: uint32
  tx_remaster_to :: uint32
  tx_wait_for_remaster_pros :: bool
  tx_generated_machine :: uint64

text \<open>\<open>new TxnProto()\<close>: the defaults of \<open>txn.proto\<close>.\<close>

definition TxnProto_new :: txn_proto where
  "TxnProto_new =
     \<lparr>tx_txn_id = 0, tx_txn_type = 0, tx_read_set = [], tx_write_set = [], tx_read_write_set = [],
      tx_status = NEW, tx_readers = [], tx_writers = [], tx_origin_replica = 0,
      tx_new_generated = False, tx_involved_replicas = [], tx_fake_txn = False,
      tx_remaster_txn = False, tx_client_replica = 0, tx_remaster_from = 99999,
      tx_remaster_to = 99999, tx_wait_for_remaster_pros = False, tx_generated_machine = 1000\<rparr>"

record remote_results_entry =
  rr_key :: string
  rr_value :: string
  rr_master :: uint32
  rr_counter :: uint64

record lookup_master_entry =
  lm_txn_id :: uint64
  lm_keys :: "string list"

record lookup_master_result_entry =
  lr_txn_id :: uint64
  lr_key_entries :: "key_entry list"

section \<open>Sequences (\<open>scalar.proto\<close>)\<close>

type_synonym sequence = "uint64 list"           \<comment> \<open>\<open>Sequence.batch_ids\<close>\<close>
type_synonym sequence_batch = "sequence list"   \<comment> \<open>\<open>SequenceBatch.sequence_batch\<close>\<close>

section \<open>Network messages (\<open>message.proto\<close>)\<close>

datatype message_type =
    EMPTY | TXN_PROTO | TXN_BATCH | READ_RESULT | LINK_CHANNEL | UNLINK_CHANNEL | TXN_PTR
  | MESSAGE_PTR | TXN_SUBBATCH | PAXOS_BATCH_ORDER | PAXOS_COMMIT | PAXOS_DATA | PAXOS_DATA_ACK
  | BATCH_VOTE | TXN_FORWORD | BATCH_SUBMIT | MR_TXNS_BATCH | NEW_SEQUENCE | NEW_SEQUENCE_ACK
  | MASTER_LOOKUP | MASTER_LOOKUP_RESULT | SYNCHRONIZE | SYNCHRONIZE_ACK

record 'b message_proto =
  msg_destination_node :: uint64
  msg_destination_channel :: string
  msg_source_node :: uint64
  msg_type :: message_type
  msg_data :: "'b list"
  msg_batch_number :: uint64
  msg_misc_bool :: "bool list"
  msg_misc_int :: "uint64 list"
  msg_main_channel :: string
  msg_channel_request :: string

definition MessageProto_new :: "'b message_proto" where
  "MessageProto_new =
     \<lparr>msg_destination_node = 0, msg_destination_channel = [], msg_source_node = 0, msg_type = EMPTY,
      msg_data = [], msg_batch_number = 0, msg_misc_bool = [], msg_misc_int = [],
      msg_main_channel = [], msg_channel_request = []\<rparr>"

text \<open>Reading element \<open>i\<close> of a repeated field: out of range the accessor is undefined.\<close>

definition rep_get :: "'a list \<Rightarrow> nat \<Rightarrow> 'a outcome" where
  "rep_get xs i = (if i < length xs then Inr (xs ! i) else Inl Undefined_behaviour)"

lemma rep_get_simps [simp]:
  "rep_get (x # xs) 0 = Inr x"
  "rep_get (x # xs) (Suc i) = rep_get xs i"
  "rep_get [] i = Inl Undefined_behaviour"
  by (simp_all add: rep_get_def)

lemma rep_get_Inr_iff [outcome_simps]: "rep_get xs i = Inr a \<longleftrightarrow> i < length xs \<and> a = xs ! i"
  by (auto simp: rep_get_def)

section \<open>Serialisation\<close>

record 'b codec =
  enc_txn :: "txn_proto \<Rightarrow> 'b"
  dec_txn :: "'b \<Rightarrow> txn_proto"
  enc_seq :: "sequence \<Rightarrow> 'b"
  dec_seq :: "'b \<Rightarrow> sequence"
  enc_seq_batch :: "sequence_batch \<Rightarrow> 'b"
  dec_seq_batch :: "'b \<Rightarrow> sequence_batch"
  enc_results :: "remote_results_entry list \<Rightarrow> 'b"
  dec_results :: "'b \<Rightarrow> remote_results_entry list"
  enc_lookup :: "lookup_master_entry \<Rightarrow> 'b"
  dec_lookup :: "'b \<Rightarrow> lookup_master_entry"
  enc_lookup_result :: "lookup_master_result_entry \<Rightarrow> 'b"
  dec_lookup_result :: "'b \<Rightarrow> lookup_master_result_entry"

definition codec_ok :: "'b codec \<Rightarrow> bool" where
  "codec_ok cd \<longleftrightarrow>
     (\<forall>t. dec_txn cd (enc_txn cd t) = t) \<and> (\<forall>s. dec_seq cd (enc_seq cd s) = s)
     \<and> (\<forall>b. dec_seq_batch cd (enc_seq_batch cd b) = b) \<and> (\<forall>r. dec_results cd (enc_results cd r) = r)
     \<and> (\<forall>l. dec_lookup cd (enc_lookup cd l) = l)
     \<and> (\<forall>l. dec_lookup_result cd (enc_lookup_result cd l) = l)"

lemma codec_okD [simp]:
  assumes "codec_ok cd"
  shows "dec_txn cd (enc_txn cd t) = t" "dec_seq cd (enc_seq cd s) = s"
    "dec_seq_batch cd (enc_seq_batch cd b) = b" "dec_results cd (enc_results cd r) = r"
    "dec_lookup cd (enc_lookup cd l) = l" "dec_lookup_result cd (enc_lookup_result cd lr) = lr"
  using assms by (simp_all add: codec_ok_def)

text \<open>A concrete codec, for the instances: bytes that carry the protocol buffer itself.\<close>

datatype payload =
    Txn_bytes txn_proto | Seq_bytes sequence | Seq_batch_bytes sequence_batch
  | Results_bytes "remote_results_entry list" | Lookup_bytes lookup_master_entry
  | Lookup_result_bytes lookup_master_result_entry

definition payload_codec :: "payload codec" where
  "payload_codec =
     \<lparr>enc_txn = Txn_bytes, dec_txn = (\<lambda>b. case b of Txn_bytes t \<Rightarrow> t | _ \<Rightarrow> TxnProto_new),
      enc_seq = Seq_bytes, dec_seq = (\<lambda>b. case b of Seq_bytes s \<Rightarrow> s | _ \<Rightarrow> []),
      enc_seq_batch = Seq_batch_bytes,
      dec_seq_batch = (\<lambda>b. case b of Seq_batch_bytes s \<Rightarrow> s | _ \<Rightarrow> []),
      enc_results = Results_bytes, dec_results = (\<lambda>b. case b of Results_bytes r \<Rightarrow> r | _ \<Rightarrow> []),
      enc_lookup = Lookup_bytes,
      dec_lookup = (\<lambda>b. case b of Lookup_bytes l \<Rightarrow> l | _ \<Rightarrow> \<lparr>lm_txn_id = 0, lm_keys = []\<rparr>),
      enc_lookup_result = Lookup_result_bytes,
      dec_lookup_result =
        (\<lambda>b. case b of Lookup_result_bytes l \<Rightarrow> l | _ \<Rightarrow> \<lparr>lr_txn_id = 0, lr_key_entries = []\<rparr>)\<rparr>"

lemma payload_codec_ok [simp, intro]: "codec_ok payload_codec"
  by (simp add: codec_ok_def payload_codec_def)

end
