(* ===== verification/Lock_Manager.thy ===== *)
theory Lock_Manager
  imports Messages Cluster_Config
begin

text \<open>
  \<open>scheduler/deterministic_lock_manager.cc\<close>: the hashed lock table, \<open>Lock\<close> and \<open>Release\<close>. A
  \<open>TxnProto*\<close> is a number; what it points to is passed along. The abstract state is the list of
  transactions that hold or wait for locks, in the order of their \<open>Lock\<close> calls: \<open>represents\<close>
  says that a lock manager is in the state this list determines, and \<open>Lock\<close> and \<open>Release\<close> are
  proved to implement appending to it and deleting from it.
\<close>

section \<open>State\<close>

datatype lock_mode = UNLOCKED | READ | WRITE

type_synonym txn_ptr = nat

record lock_request =
  rq_txn :: txn_ptr
  rq_mode :: lock_mode

text \<open>A \<open>KeysList\<close> is a pair of a key and its queue; a bucket is the deque of them.\<close>

type_synonym bucket = "(string \<times> lock_request list) list"

text \<open>
  \<open>dlm_ready\<close> is the content of the \<open>AtomicQueue\<close> the manager pushes to (the queue is one by
  the interpretation \<open>aq\<close> of \<open>fifo_queue\<close>). The transaction counter \<open>int\<close> is unbounded:
  it counts at most the entries of one transaction.
\<close>

record lock_manager =
  dlm_table :: "nat \<Rightarrow> bucket"
  dlm_ready :: "txn_ptr list"
  dlm_waits :: "txn_ptr \<rightharpoonup> int"
  dlm_config :: cluster_config
  dlm_mode :: uint32

definition TABLE_SIZE :: nat where "TABLE_SIZE = 1000000"

definition DeterministicLockManager_new :: "txn_ptr list \<Rightarrow> cluster_config \<Rightarrow> uint32 \<Rightarrow> lock_manager" where
  "DeterministicLockManager_new ready c m =
     \<lparr>dlm_table = (\<lambda>_. []), dlm_ready = ready, dlm_waits = Map.empty, dlm_config = c, dlm_mode = m\<rparr>"

definition Hash :: "string \<Rightarrow> nat" where
  "Hash key = unat (foldl (\<lambda>h c. (h XOR char_to_int64 c) * 16777619) (2166136261 :: uint64) key) mod TABLE_SIZE"

definition IsLocal :: "cluster_config \<Rightarrow> string \<Rightarrow> bool" where
  "IsLocal c key = (LookupPartition c key = cc_relative_node_id c)"

section \<open>Lock\<close>

text \<open>The two conditions under which the loops of \<open>Lock\<close> and \<open>Release\<close> skip an entry.\<close>

definition locks_entry :: "cluster_config \<Rightarrow> uint32 \<Rightarrow> txn_proto \<Rightarrow> key_entry \<Rightarrow> bool" where
  "locks_entry c m txn e =
     (\<not> (m \<noteq> 0 \<and> ke_master e \<noteq> tx_origin_replica txn) \<and> IsLocal c (ke_key e))"

definition find_requests :: "string \<Rightarrow> bucket \<Rightarrow> lock_request list" where
  "find_requests key b = (case map_of b key of None \<Rightarrow> [] | Some q \<Rightarrow> q)"

definition Lock_write_entry ::
  "cluster_config \<Rightarrow> uint32 \<Rightarrow> txn_ptr \<Rightarrow> txn_proto \<Rightarrow> key_entry \<Rightarrow> int \<times> (nat \<Rightarrow> bucket) \<Rightarrow> int \<times> (nat \<Rightarrow> bucket)" where
  "Lock_write_entry c m t txn e st =
     (if \<not> locks_entry c m txn e then st
      else let n = fst st; tab = snd st; key = ke_key e;
               key_requests = tab (Hash key);
               requests = find_requests key key_requests
           in if requests = [] \<or> t \<noteq> rq_txn (last requests) then
                let requests' = requests @ [\<lparr>rq_txn = t, rq_mode = WRITE\<rparr>]
                in (if length requests' > 1 then n + 1 else n,
                    tab(Hash key := AList.update key requests' key_requests))
              else (n, tab))"

definition Lock_read_entry ::
  "cluster_config \<Rightarrow> uint32 \<Rightarrow> txn_ptr \<Rightarrow> txn_proto \<Rightarrow> key_entry \<Rightarrow> int \<times> (nat \<Rightarrow> bucket) \<Rightarrow> int \<times> (nat \<Rightarrow> bucket)" where
  "Lock_read_entry c m t txn e st =
     (if \<not> locks_entry c m txn e then st
      else let n = fst st; tab = snd st; key = ke_key e;
               key_requests = tab (Hash key);
               requests = find_requests key key_requests
           in if requests = [] \<or> t \<noteq> rq_txn (last requests) then
                let requests' = requests @ [\<lparr>rq_txn = t, rq_mode = READ\<rparr>]
                in (if \<exists>r \<in> set requests'. rq_mode r = WRITE then n + 1 else n,
                    tab(Hash key := AList.update key requests' key_requests))
              else (n, tab))"

definition Lock :: "txn_ptr \<Rightarrow> txn_proto \<Rightarrow> lock_manager \<Rightarrow> int \<times> lock_manager" where
  "Lock t txn lm =
     (let c = dlm_config lm; m = dlm_mode lm;
          st = fold (Lock_read_entry c m t txn) (tx_read_set txn)
                 (fold (Lock_write_entry c m t txn) (tx_read_write_set txn) (0, dlm_table lm));
          not_acquired = fst st;
          lm' = lm\<lparr>dlm_table := snd st\<rparr>
      in (not_acquired,
          if not_acquired > 0 then lm'\<lparr>dlm_waits := (dlm_waits lm)(t \<mapsto> not_acquired)\<rparr>
          else lm'\<lparr>dlm_ready := dlm_ready lm @ [t]\<rparr>))"

section \<open>Release\<close>

text \<open>The requests granted by releasing \<open>target\<close>, which stands between \<open>pre\<close> and \<open>post\<close>.\<close>

definition new_owners :: "lock_request list \<Rightarrow> lock_request \<Rightarrow> lock_request list \<Rightarrow> txn_ptr list" where
  "new_owners pre target post =
     (let reads = map rq_txn (takeWhile (\<lambda>r. rq_mode r = READ) post);
          write_requests_precede_target = (\<exists>r \<in> set pre. rq_mode r = WRITE)
      in if post = [] then []
         else if pre = [] \<and> (rq_mode target = WRITE \<or> (rq_mode target = READ \<and> rq_mode (hd post) = WRITE))
         then (if rq_mode (hd post) = WRITE then [rq_txn (hd post)] else []) @ reads
         else if \<not> write_requests_precede_target \<and> rq_mode target = WRITE \<and> rq_mode (hd post) = READ
         then reads
         else [])"

text \<open>\<open>txn_waits_[o]\<close> creates a zero entry for a transaction that has none.\<close>

definition grant :: "txn_ptr \<Rightarrow> lock_manager \<Rightarrow> lock_manager" where
  "grant u lm =
     (let n = (case dlm_waits lm u of None \<Rightarrow> 0 | Some n \<Rightarrow> n) - 1
      in if n = 0 then lm\<lparr>dlm_ready := dlm_ready lm @ [u], dlm_waits := (dlm_waits lm)(u := None)\<rparr>
         else lm\<lparr>dlm_waits := (dlm_waits lm)(u \<mapsto> n)\<rparr>)"

fun bucket_erase :: "string \<Rightarrow> bucket \<Rightarrow> bucket" where
  "bucket_erase key [] = []"
| "bucket_erase key ((k, q) # b) = (if k = key then b else (k, q) # bucket_erase key b)"

text \<open>A key that is in no queue has no list: the search ends at \<open>end()\<close>, which is then dereferenced.\<close>

definition Release_key :: "string \<Rightarrow> txn_ptr \<Rightarrow> lock_manager \<Rightarrow> lock_manager outcome" where
  "Release_key key t lm =
     (let key_requests = dlm_table lm (Hash key)
      in case map_of key_requests key of
           None \<Rightarrow> Inl Undefined_behaviour
         | Some requests \<Rightarrow>
             (case dropWhile (\<lambda>r. rq_txn r \<noteq> t) requests of
                [] \<Rightarrow> Inr lm
              | target # post \<Rightarrow>
                  let pre = takeWhile (\<lambda>r. rq_txn r \<noteq> t) requests;
                      lm' = fold grant (new_owners pre target post) lm;
                      key_requests' = (if pre @ post = [] then bucket_erase key key_requests
                                       else AList.update key (pre @ post) key_requests)
                  in Inr (lm'\<lparr>dlm_table := (dlm_table lm')(Hash key := key_requests')\<rparr>)))"

definition Release_entry :: "txn_ptr \<Rightarrow> txn_proto \<Rightarrow> key_entry \<Rightarrow> lock_manager \<Rightarrow> lock_manager outcome" where
  "Release_entry t txn e lm =
     (if locks_entry (dlm_config lm) (dlm_mode lm) txn e then Release_key (ke_key e) t lm else Inr lm)"

definition Release :: "txn_ptr \<Rightarrow> txn_proto \<Rightarrow> lock_manager \<Rightarrow> lock_manager outcome" where
  "Release t txn lm =
     bindE (foldE (Release_entry t txn) (tx_read_set txn) lm)
       (foldE (Release_entry t txn) (tx_read_write_set txn))"

section \<open>Owners of a queue\<close>

text \<open>
  The header's description: (a) a write request at the front owns the lock, (b) otherwise the
  longest prefix of read requests does.
\<close>

definition holders :: "lock_request list \<Rightarrow> txn_ptr list" where
  "holders q = (case q of [] \<Rightarrow> []
     | r # rs \<Rightarrow> if rq_mode r = WRITE then [rq_txn r] else map rq_txn (takeWhile (\<lambda>r. rq_mode r = READ) q))"

definition queue_txns :: "lock_request list \<Rightarrow> txn_ptr list" where
  "queue_txns q = map rq_txn q"

definition queue_ok :: "lock_request list \<Rightarrow> bool" where
  "queue_ok q \<longleftrightarrow> distinct (queue_txns q) \<and> (\<forall>r \<in> set q. rq_mode r \<noteq> UNLOCKED)"

lemma mode_cases: "m \<noteq> UNLOCKED \<Longrightarrow> m \<noteq> WRITE \<Longrightarrow> m = READ"
  by (cases m) auto

lemma queue_ok_mode: "queue_ok q \<Longrightarrow> r \<in> set q \<Longrightarrow> rq_mode r = READ \<or> rq_mode r = WRITE"
  unfolding queue_ok_def using mode_cases by blast

lemma holders_Cons:
  "holders (r # rs) = (if rq_mode r = WRITE then [rq_txn r]
     else if rq_mode r = READ then rq_txn r # map rq_txn (takeWhile (\<lambda>r. rq_mode r = READ) rs) else [])"
  by (simp add: holders_def)

lemma holders_reads:
  "\<forall>r \<in> set pre. rq_mode r = READ \<Longrightarrow> pre \<noteq> [] \<Longrightarrow>
     holders (pre @ post) = map rq_txn pre @ map rq_txn (takeWhile (\<lambda>r. rq_mode r = READ) post)"
  by (cases pre) (auto simp: holders_Cons)

lemma holders_blocked:
  "queue_ok (pre @ post) \<Longrightarrow> r \<in> set pre \<Longrightarrow> rq_mode r = WRITE \<Longrightarrow> holders (pre @ post) = holders pre"
proof (induction pre)
  case (Cons a pre)
  show ?case
  proof (cases "rq_mode a = WRITE")
    case False
    with Cons.prems have "r \<in> set pre" "rq_mode a = READ"
      by (auto simp: queue_ok_def intro: mode_cases)
    with Cons.prems have "takeWhile (\<lambda>r. rq_mode r = READ) (pre @ post) = takeWhile (\<lambda>r. rq_mode r = READ) pre"
      by (intro takeWhile_append1) auto
    with False show ?thesis by (simp add: holders_Cons)
  qed (simp add: holders_Cons)
qed simp

lemma new_owners_spec:
  assumes ok: "queue_ok (pre @ r # post)"
  shows "distinct (new_owners pre r post)"
    "set (new_owners pre r post) = set (holders (pre @ post)) - set (holders (pre @ r # post))"
    "set (holders (pre @ r # post)) - {rq_txn r} \<subseteq> set (holders (pre @ post))"
proof -
  let ?tw = "map rq_txn (takeWhile (\<lambda>r. rq_mode r = READ) post)"
  have twsub: "set ?tw \<subseteq> rq_txn ` set post" by (auto dest: set_takeWhileD)
  have dist: "distinct (map rq_txn post)" "rq_txn r \<notin> rq_txn ` set post" "rq_txn r \<notin> rq_txn ` set pre"
      "rq_txn ` set pre \<inter> rq_txn ` set post = {}"
    using ok by (auto simp: queue_ok_def queue_txns_def)
  have dtw: "distinct ?tw"
    using dist(1) by (auto simp: distinct_map inj_on_def distinct_takeWhile dest!: set_takeWhileD)
  have disj: "rq_txn ` set pre \<inter> set ?tw = {}" using twsub dist(4) by blast
  have rtw: "rq_txn r \<notin> set ?tw" using twsub dist(2) by blast
  have m: "rq_mode r = READ \<or> rq_mode r = WRITE" using queue_ok_mode [OF ok, of r] by simp
  have hd: "post = [] \<or> (\<exists>h ps. post = h # ps \<and> (rq_mode h = READ \<or> rq_mode h = WRITE))"
    using queue_ok_mode [OF ok, of "hd post"] by (cases post) simp_all
  have "distinct (new_owners pre r post)
    \<and> set (new_owners pre r post) = set (holders (pre @ post)) - set (holders (pre @ r # post))
    \<and> set (holders (pre @ r # post)) - {rq_txn r} \<subseteq> set (holders (pre @ post))"
  proof (cases "\<exists>w \<in> set pre. rq_mode w = WRITE")
    case True
    then obtain w where w: "w \<in> set pre" "rq_mode w = WRITE" by blast
    have "queue_ok (pre @ post)" using ok by (auto simp: queue_ok_def queue_txns_def)
    with ok w have "holders (pre @ post) = holders pre" "holders (pre @ r # post) = holders pre"
      by (auto intro: holders_blocked)
    moreover have "new_owners pre r post = []" using True by (auto simp: new_owners_def Let_def)
    ultimately show ?thesis by simp
  next
    case False
    then have reads: "\<forall>w \<in> set pre. rq_mode w = READ" using queue_ok_mode [OF ok] by auto
    show ?thesis
    proof (cases "pre = []")
      case pre: True
      show ?thesis
      proof (cases post)
        case Nil
        with pre m show ?thesis by (auto simp: new_owners_def holders_def Let_def)
      next
        case (Cons h ps)
        with hd have "rq_mode h = READ \<or> rq_mode h = WRITE" by simp
        moreover have "rq_txn r \<noteq> rq_txn h" using dist(2) Cons by auto
        ultimately show ?thesis
          using m rtw dtw unfolding pre Cons
          by (elim disjE) (simp_all add: new_owners_def holders_Cons Let_def, blast?)
      qed
    next
      case pre: False
      have h: "holders (pre @ post) = map rq_txn pre @ ?tw"
        "holders (pre @ r # post) = map rq_txn pre @ (if rq_mode r = READ then rq_txn r # ?tw else [])"
        using holders_reads [OF reads pre] by auto
      show ?thesis
        unfolding h using pre False m hd dist(3) dtw disj by (elim disjE) (auto simp: new_owners_def Let_def)
    qed
  qed
  then show "distinct (new_owners pre r post)"
    "set (new_owners pre r post) = set (holders (pre @ post)) - set (holders (pre @ r # post))"
    "set (holders (pre @ r # post)) - {rq_txn r} \<subseteq> set (holders (pre @ post))" by blast+
qed

section \<open>The lock table\<close>

definition queue :: "(nat \<Rightarrow> bucket) \<Rightarrow> string \<Rightarrow> lock_request list" where
  "queue tab key = find_requests key (tab (Hash key))"

definition table_ok :: "(nat \<Rightarrow> bucket) \<Rightarrow> bool" where
  "table_ok tab \<longleftrightarrow> (\<forall>h. distinct (map fst (tab h)) \<and> (\<forall>q \<in> snd ` set (tab h). q \<noteq> []))"

lemma table_ok_empty: "table_ok (\<lambda>_. [])"
  by (simp add: table_ok_def)

lemma bucket_erase_set: "set (bucket_erase key b) \<subseteq> set b"
  by (induction key b rule: bucket_erase.induct) auto

lemma bucket_erase_keys: "fst ` set (bucket_erase key b) \<subseteq> fst ` set b"
  using bucket_erase_set by (rule image_mono)

lemma bucket_erase_lookup:
  "distinct (map fst b) \<Longrightarrow> map_of (bucket_erase key b) k = (if k = key then None else map_of b k)"
proof (induction key b rule: bucket_erase.induct)
  case (2 key k' q b)
  show ?case
  proof (cases "k' = key")
    case True
    then have "map_of b key = None" using 2(2) by (simp add: map_of_eq_None_iff)
    with True show ?thesis by simp
  next
    case False
    with 2 show ?thesis by auto
  qed
qed simp

lemma bucket_erase_distinct: "distinct (map fst b) \<Longrightarrow> distinct (map fst (bucket_erase key b))"
proof (induction key b rule: bucket_erase.induct)
  case (2 key k q b)
  have "k \<notin> fst ` set (bucket_erase key b)" using 2(2) bucket_erase_keys [of key b] by auto
  with 2 show ?case by simp
qed simp

text \<open>What the lock manager uses the hash table for: a map from keys to non-empty queues.\<close>

locale request_table =
  fixes get :: "'t \<Rightarrow> string \<Rightarrow> lock_request list" and put :: "string \<Rightarrow> lock_request list \<Rightarrow> 't \<Rightarrow> 't"
    and erase :: "string \<Rightarrow> 't \<Rightarrow> 't" and ok :: "'t \<Rightarrow> bool"
  assumes get_put: "ok t \<Longrightarrow> q \<noteq> [] \<Longrightarrow> get (put k q t) j = (if j = k then q else get t j)"
    and put_ok: "ok t \<Longrightarrow> q \<noteq> [] \<Longrightarrow> ok (put k q t)"
    and get_erase: "ok t \<Longrightarrow> get (erase k t) j = (if j = k then [] else get t j)"
    and erase_ok: "ok t \<Longrightarrow> ok (erase k t)"
begin

text \<open>Replacing a queue, erasing it when the new one is empty, as \<open>Release\<close> does.\<close>

definition replace :: "string \<Rightarrow> lock_request list \<Rightarrow> 't \<Rightarrow> 't" where
  "replace k q t = (if q = [] then erase k t else put k q t)"

lemma get_replace: "ok t \<Longrightarrow> get (replace k q t) j = (if j = k then q else get t j)"
  by (simp add: replace_def get_put get_erase)

lemma replace_ok: "ok t \<Longrightarrow> ok (replace k q t)"
  by (simp add: replace_def put_ok erase_ok)

end

definition table_put :: "string \<Rightarrow> lock_request list \<Rightarrow> (nat \<Rightarrow> bucket) \<Rightarrow> (nat \<Rightarrow> bucket)" where
  "table_put key q tab = tab(Hash key := AList.update key q (tab (Hash key)))"

definition table_erase :: "string \<Rightarrow> (nat \<Rightarrow> bucket) \<Rightarrow> (nat \<Rightarrow> bucket)" where
  "table_erase key tab = tab(Hash key := bucket_erase key (tab (Hash key)))"

lemma update_values: "snd ` set (AList.update k q b) \<subseteq> insert q (snd ` set b)"
  by (induction b) auto

interpretation lt: request_table queue table_put table_erase table_ok
proof
  fix tab :: "nat \<Rightarrow> bucket" and k j :: string and q :: "lock_request list"
  assume ok: "table_ok tab"
  show "queue (table_put k q tab) j = (if j = k then q else queue tab j)"
    by (simp add: queue_def table_put_def find_requests_def update_conv')
  show "queue (table_erase k tab) j = (if j = k then [] else queue tab j)"
    using ok by (simp add: queue_def table_erase_def find_requests_def bucket_erase_lookup table_ok_def)
  show "table_ok (table_erase k tab)"
    using ok bucket_erase_set [of k "tab (Hash k)"]
    by (fastforce simp: table_ok_def table_erase_def bucket_erase_distinct)
  assume q: "q \<noteq> []"
  show "table_ok (table_put k q tab)"
    unfolding table_ok_def
  proof (intro allI conjI ballI)
    fix h p
    show "distinct (map fst (table_put k q tab h))"
      using ok by (simp add: table_put_def table_ok_def distinct_update)
    assume p: "p \<in> snd ` set (table_put k q tab h)"
    show "p \<noteq> []"
    proof (cases "h = Hash k")
      case True
      with p update_values [of k q "tab (Hash k)"] have "p = q \<or> p \<in> snd ` set (tab h)"
        unfolding table_put_def True fun_upd_same by blast
      with q ok show ?thesis unfolding table_ok_def by blast
    next
      case False
      with p ok show ?thesis by (auto simp: table_put_def table_ok_def)
    qed
  qed
qed

section \<open>The abstract lock manager\<close>

text \<open>
  \<open>w t k\<close> is the mode in which transaction \<open>t\<close> wants key \<open>k\<close>; the state is the list of active
  transactions in the order of their \<open>Lock\<close> calls. The queue of a key is the list of those that want it.
\<close>

type_synonym wants = "txn_ptr \<Rightarrow> string \<Rightarrow> lock_mode"

definition abs_queue :: "wants \<Rightarrow> txn_ptr list \<Rightarrow> string \<Rightarrow> lock_request list" where
  "abs_queue w active k =
     map (\<lambda>t. \<lparr>rq_txn = t, rq_mode = w t k\<rparr>) (filter (\<lambda>t. w t k \<noteq> UNLOCKED) active)"

definition blocked :: "wants \<Rightarrow> txn_ptr list \<Rightarrow> txn_ptr \<Rightarrow> string \<Rightarrow> bool" where
  "blocked w active t k \<longleftrightarrow> t \<in> set active \<and> w t k \<noteq> UNLOCKED \<and> t \<notin> set (holders (abs_queue w active k))"

definition holds :: "wants \<Rightarrow> txn_ptr list \<Rightarrow> txn_ptr \<Rightarrow> string \<Rightarrow> bool" where
  "holds w active t k \<longleftrightarrow> t \<in> set (holders (abs_queue w active k))"

lemma abs_queue_simps [simp]:
  "abs_queue w [] k = []"
  "abs_queue w (t # ts) k = (if w t k \<noteq> UNLOCKED then [\<lparr>rq_txn = t, rq_mode = w t k\<rparr>] else []) @ abs_queue w ts k"
  "abs_queue w (ts @ us) k = abs_queue w ts k @ abs_queue w us k"
  by (simp_all add: abs_queue_def)

lemma abs_queue_txns: "queue_txns (abs_queue w ts k) = filter (\<lambda>t. w t k \<noteq> UNLOCKED) ts"
  by (simp add: queue_txns_def abs_queue_def comp_def)

lemma abs_queue_ok: "distinct ts \<Longrightarrow> queue_ok (abs_queue w ts k)"
  by (auto simp: queue_ok_def abs_queue_txns) (auto simp: abs_queue_def)

lemma holders_subset: "set (holders q) \<subseteq> set (queue_txns q)"
  by (cases q) (auto simp: holders_Cons queue_txns_def holders_def [of "[]"] dest: set_takeWhileD)

lemma holds_active: "holds w active t k \<Longrightarrow> t \<in> set active \<and> w t k \<noteq> UNLOCKED"
  using holders_subset [of "abs_queue w active k"] by (auto simp: holds_def abs_queue_txns)

lemma abs_queue_remove:
  "abs_queue w (filter (\<lambda>u. u \<noteq> t) ts) k = filter (\<lambda>r. rq_txn r \<noteq> t) (abs_queue w ts k)"
  by (induction ts) auto

text \<open>Who holds a lock, in terms of the order: no earlier active transaction conflicts.\<close>

definition conflict :: "lock_mode \<Rightarrow> lock_mode \<Rightarrow> bool" where
  "conflict a b \<longleftrightarrow> a \<noteq> UNLOCKED \<and> b \<noteq> UNLOCKED \<and> (a = WRITE \<or> b = WRITE)"

lemma holders_snoc:
  assumes "queue_ok (q @ [r])"
  shows "set (holders (q @ [r])) = set (holders q)
    \<union> (if (rq_mode r = WRITE \<longrightarrow> q = []) \<and> (\<forall>x \<in> set q. rq_mode x = READ) then {rq_txn r} else {})"
proof (cases "\<exists>x \<in> set q. rq_mode x = WRITE")
  case True
  then show ?thesis using assms by (auto simp: holders_blocked)
next
  case False
  then have reads: "\<forall>x \<in> set q. rq_mode x = READ" using queue_ok_mode [OF assms] by auto
  have "rq_mode r = READ \<or> rq_mode r = WRITE" using queue_ok_mode [OF assms, of r] by simp
  then show ?thesis
  proof (cases "q = []")
    case False
    then show ?thesis
      using holders_reads [OF reads False, of "[r]"] holders_reads [OF reads False, of "[]"] reads
        \<open>rq_mode r = READ \<or> rq_mode r = WRITE\<close> by auto
  qed (auto simp: holders_Cons holders_def)
qed

lemma holds_snoc:
  assumes "distinct (ts @ [t])"
  shows "holds w (ts @ [t]) u k \<longleftrightarrow> holds w ts u k
    \<or> u = t \<and> w t k \<noteq> UNLOCKED \<and> (\<forall>v \<in> set ts. \<not> conflict (w v k) (w t k))"
proof (cases "w t k = UNLOCKED")
  case False
  have ok: "queue_ok (abs_queue w ts k @ [\<lparr>rq_txn = t, rq_mode = w t k\<rparr>])"
    using abs_queue_ok [OF assms, of w k] False by simp
  have "(w t k = WRITE \<longrightarrow> abs_queue w ts k = []) \<and> (\<forall>x \<in> set (abs_queue w ts k). rq_mode x = READ)
      \<longleftrightarrow> (\<forall>v \<in> set ts. \<not> conflict (w v k) (w t k))"
    using False mode_cases by (auto simp: abs_queue_def conflict_def filter_empty_conv)
  then show ?thesis
    using False holders_snoc [OF ok] by (auto simp: holds_def)
qed (simp add: holds_def)

lemma holds_iff:
  "distinct ts \<Longrightarrow> holds w ts t k \<longleftrightarrow>
     (\<exists>us vs. ts = us @ t # vs \<and> w t k \<noteq> UNLOCKED \<and> (\<forall>v \<in> set us. \<not> conflict (w v k) (w t k)))"
proof (induction ts rule: rev_induct)
  case Nil
  then show ?case by (simp add: holds_def holders_def)
next
  case (snoc x ts)
  have *: "(\<exists>us vs. ts @ [x] = us @ t # vs \<and> P us) \<longleftrightarrow> (\<exists>us vs. ts = us @ t # vs \<and> P us) \<or> t = x \<and> P ts"
    for P
  proof
    assume "\<exists>us vs. ts @ [x] = us @ t # vs \<and> P us"
    then obtain us vs where "ts @ [x] = us @ t # vs" "P us" by blast
    then show "(\<exists>us vs. ts = us @ t # vs \<and> P us) \<or> t = x \<and> P ts"
      by (cases vs rule: rev_cases) auto
  next
    assume "(\<exists>us vs. ts = us @ t # vs \<and> P us) \<or> t = x \<and> P ts"
    then show "\<exists>us vs. ts @ [x] = us @ t # vs \<and> P us"
      by (metis append.assoc append_Cons append_Nil)
  qed
  show ?case
    using snoc unfolding holds_snoc [OF snoc.prems] * by auto
qed

lemma holdsE:
  assumes "distinct ts" "holds w ts t k"
  obtains us vs where "ts = us @ t # vs" "w t k \<noteq> UNLOCKED" "\<forall>v \<in> set us. \<not> conflict (w v k) (w t k)"
  using assms by (metis holds_iff)

lemma holdsI:
  "distinct (us @ t # vs) \<Longrightarrow> w t k \<noteq> UNLOCKED \<Longrightarrow> \<forall>v \<in> set us. \<not> conflict (w v k) (w t k)
    \<Longrightarrow> holds w (us @ t # vs) t k"
  by (subst holds_iff) blast+

lemma split_unique:
  assumes "distinct (us @ t # vs)" "us @ t # vs = us' @ t # vs'"
  shows "us' = us"
proof -
  have "t \<notin> set us" "t \<notin> set vs" using assms(1) by auto
  then show ?thesis using append_Cons_eq_iff [of t us vs us' vs'] assms(2) by simp
qed

lemma split_order:
  assumes "distinct (us @ t # vs)" "us @ t # vs = us' @ u # vs'" "u \<in> set vs"
  shows "t \<in> set us'"
proof -
  obtain as bs where "vs = as @ u # bs" using assms(3) by (meson split_list)
  then have "us' = us @ t # as"
    using split_unique [of "us @ t # as" u bs us' vs'] assms(1,2) by simp
  then show ?thesis by simp
qed

lemma blocked_snoc:
  "distinct (ts @ [t]) \<Longrightarrow> u \<noteq> t \<Longrightarrow> blocked w (ts @ [t]) u k \<longleftrightarrow> blocked w ts u k"
  using holds_snoc [of ts t w u k] by (auto simp: blocked_def holds_def)

lemma blocked_snoc_self:
  "distinct (ts @ [t]) \<Longrightarrow> blocked w (ts @ [t]) t k \<longleftrightarrow> (\<exists>v \<in> set ts. conflict (w v k) (w t k))"
  using holds_snoc [of ts t w t k] holds_active [of w ts t k]
  by (auto simp: blocked_def holds_def conflict_def)

section \<open>Lock implements appending\<close>

text \<open>The keys an entry list locks, and the mode a transaction wants a key in.\<close>

definition locked_keys :: "cluster_config \<Rightarrow> uint32 \<Rightarrow> txn_proto \<Rightarrow> key_entry list \<Rightarrow> string list" where
  "locked_keys c m txn es = map ke_key (filter (locks_entry c m txn) es)"

definition wanted :: "cluster_config \<Rightarrow> uint32 \<Rightarrow> txn_proto \<Rightarrow> string \<Rightarrow> lock_mode" where
  "wanted c m txn k =
     (if k \<in> set (locked_keys c m txn (tx_read_write_set txn)) then WRITE
      else if k \<in> set (locked_keys c m txn (tx_read_set txn)) then READ else UNLOCKED)"

definition wants_of :: "cluster_config \<Rightarrow> uint32 \<Rightarrow> (txn_ptr \<Rightarrow> txn_proto) \<Rightarrow> wants" where
  "wants_of c m txns t = wanted c m (txns t)"

text \<open>One round of either loop of \<open>Lock\<close>, for a key that is locked.\<close>

definition add_request ::
  "lock_mode \<Rightarrow> (lock_request list \<Rightarrow> bool) \<Rightarrow> txn_ptr \<Rightarrow> string \<Rightarrow> int \<times> (nat \<Rightarrow> bucket) \<Rightarrow> int \<times> (nat \<Rightarrow> bucket)" where
  "add_request md waits t k st =
     (let q = queue (snd st) k; q' = q @ [\<lparr>rq_txn = t, rq_mode = md\<rparr>]
      in if q = [] \<or> t \<noteq> rq_txn (last q) then (if waits q' then fst st + 1 else fst st, table_put k q' (snd st))
         else st)"

lemma Lock_loops:
  "fold (Lock_write_entry c m t txn) es = fold (add_request WRITE (\<lambda>q. length q > 1) t) (locked_keys c m txn es)"
  "fold (Lock_read_entry c m t txn) es
     = fold (add_request READ (\<lambda>q. \<exists>r \<in> set q. rq_mode r = WRITE) t) (locked_keys c m txn es)"
  by (induction es)
    (auto simp: locked_keys_def Lock_write_entry_def Lock_read_entry_def add_request_def queue_def
      table_put_def Let_def fun_eq_iff)

definition already :: "(nat \<Rightarrow> bucket) \<Rightarrow> txn_ptr \<Rightarrow> string \<Rightarrow> bool" where
  "already tab t k \<longleftrightarrow> queue tab k \<noteq> [] \<and> rq_txn (last (queue tab k)) = t"

lemma fold_add_request:
  assumes "table_ok tab"
  shows "table_ok (snd (fold (add_request md waits t) ks (n, tab)))
    \<and> (\<forall>k. queue (snd (fold (add_request md waits t) ks (n, tab))) k
          = queue tab k @ (if k \<in> set ks \<and> \<not> already tab t k then [\<lparr>rq_txn = t, rq_mode = md\<rparr>] else []))
    \<and> fst (fold (add_request md waits t) ks (n, tab)) = n + int (card {k \<in> set ks. \<not> already tab t k
          \<and> waits (queue tab k @ [\<lparr>rq_txn = t, rq_mode = md\<rparr>])})"
  using assms
proof (induction ks arbitrary: n tab)
  case (Cons k ks)
  let ?r = "\<lparr>rq_txn = t, rq_mode = md\<rparr>"
  let ?S = "\<lambda>tab ks. {k \<in> set ks. \<not> already tab t k \<and> waits (queue tab k @ [?r])}"
  show ?case
  proof (cases "already tab t k")
    case True
    then have "add_request md waits t k (n, tab) = (n, tab)"
      by (auto simp: add_request_def already_def Let_def)
    moreover have "?S tab (k # ks) = ?S tab ks" using True by auto
    ultimately show ?thesis using Cons.IH [OF Cons.prems, of n] True by auto
  next
    case False
    let ?tab = "table_put k (queue tab k @ [?r]) tab" and ?n = "if waits (queue tab k @ [?r]) then n + 1 else n"
    have step: "add_request md waits t k (n, tab) = (?n, ?tab)"
      using False by (auto simp: add_request_def already_def Let_def)
    have ok: "table_ok ?tab" using Cons.prems by (simp add: lt.put_ok)
    have q: "queue ?tab j = (if j = k then queue tab k @ [?r] else queue tab j)" for j
      using Cons.prems by (simp add: lt.get_put)
    then have al: "already ?tab t j \<longleftrightarrow> j = k \<or> already tab t j" for j by (simp add: already_def)
    have S: "?S tab (k # ks) = (if waits (queue tab k @ [?r]) then insert k (?S ?tab ks) else ?S ?tab ks)"
      using False by (auto simp: al q)
    have "k \<notin> ?S ?tab ks" "finite (?S ?tab ks)" by (simp_all add: al)
    then have "int (card (?S tab (k # ks))) = int (card (?S ?tab ks)) + (if waits (queue tab k @ [?r]) then 1 else 0)"
      unfolding S by simp
    then show ?thesis using Cons.IH [OF ok, of ?n] False by (auto simp: step q al)
  qed
qed simp

text \<open>
  \<open>represents w active lm\<close>: the queues are those of the active list, and \<open>txn_waits_\<close> counts for
  each active transaction the keys it still waits for.
\<close>

definition wait_count :: "wants \<Rightarrow> txn_ptr list \<Rightarrow> txn_ptr \<Rightarrow> nat" where
  "wait_count w active t = card {k. blocked w active t k}"

definition represents :: "wants \<Rightarrow> txn_ptr list \<Rightarrow> lock_manager \<Rightarrow> bool" where
  "represents w active lm \<longleftrightarrow> distinct active \<and> (\<forall>t. finite {k. w t k \<noteq> UNLOCKED}) \<and> table_ok (dlm_table lm)
     \<and> (\<forall>k. queue (dlm_table lm) k = abs_queue w active k)
     \<and> (\<forall>t. dlm_waits lm t = (if wait_count w active t = 0 then None else Some (int (wait_count w active t))))"

lemma wanted_finite: "finite {k. wanted c m txn k \<noteq> UNLOCKED}"
  by (rule finite_subset [of _ "set (locked_keys c m txn (tx_read_write_set txn)) \<union> set (locked_keys c m txn (tx_read_set txn))"])
    (auto simp: wanted_def)

lemma blocked_finite: "finite {k. w t k \<noteq> UNLOCKED} \<Longrightarrow> finite {k. blocked w active t k}"
  by (rule finite_subset [rotated]) (auto simp: blocked_def)

lemma represents_new: "represents (wants_of c m txns) [] (DeterministicLockManager_new r c m)"
  by (simp add: represents_def DeterministicLockManager_new_def table_ok_empty queue_def find_requests_def
      wait_count_def blocked_def wants_of_def wanted_finite)

lemma abs_queue_new: "t \<notin> set active \<Longrightarrow> abs_queue w active k = q \<Longrightarrow> q \<noteq> [] \<Longrightarrow> rq_txn (last q) \<noteq> t"
proof -
  assume t: "t \<notin> set active" and q: "abs_queue w active k = q" "q \<noteq> []"
  have "last q \<in> set (abs_queue w active k)" using q by simp
  then have "rq_txn (last q) \<in> set active" by (auto simp: abs_queue_def)
  with t show "rq_txn (last q) \<noteq> t" by blast
qed

text \<open>The two loops of \<open>Lock\<close> together.\<close>

lemma Lock_table:
  assumes rep: "represents w active lm" and t: "t \<notin> set active"
    and w: "w t = wanted (dlm_config lm) (dlm_mode lm) txn"
    and st: "st = fold (Lock_read_entry (dlm_config lm) (dlm_mode lm) t txn) (tx_read_set txn)
        (fold (Lock_write_entry (dlm_config lm) (dlm_mode lm) t txn) (tx_read_write_set txn) (0, dlm_table lm))"
  shows "table_ok (snd st)" "queue (snd st) k = abs_queue w (active @ [t]) k"
    "fst st = int (wait_count w (active @ [t]) t)"
proof -
  let ?WK = "locked_keys (dlm_config lm) (dlm_mode lm) txn (tx_read_write_set txn)"
  let ?RK = "locked_keys (dlm_config lm) (dlm_mode lm) txn (tx_read_set txn)"
  let ?W = "\<lparr>rq_txn = t, rq_mode = WRITE\<rparr>" and ?R = "\<lparr>rq_txn = t, rq_mode = READ\<rparr>"
  obtain n1 tab1 where st1: "fold (add_request WRITE (\<lambda>q. length q > 1) t) ?WK (0, dlm_table lm) = (n1, tab1)"
    by fastforce
  have st2: "st = fold (add_request READ (\<lambda>q. \<exists>r \<in> set q. rq_mode r = WRITE) t) ?RK (n1, tab1)"
    unfolding st Lock_loops st1 by (rule refl)
  have q0: "queue (dlm_table lm) j = abs_queue w active j" for j using rep by (simp add: represents_def)
  have tab0: "table_ok (dlm_table lm)" using rep by (simp add: represents_def)
  have al0: "\<not> already (dlm_table lm) t j" for j
    using abs_queue_new [OF t, of w j] by (auto simp: already_def q0)
  note one = fold_add_request [OF tab0, of WRITE "\<lambda>q. length q > 1" t ?WK 0, unfolded st1]
  have tab1: "table_ok tab1" and q1: "queue tab1 j = abs_queue w active j @ (if j \<in> set ?WK then [?W] else [])" for j
    using one by (simp_all add: al0 q0)
  have al1: "already tab1 t j \<longleftrightarrow> j \<in> set ?WK" for j
    using abs_queue_new [OF t, of w j] by (auto simp: already_def q1)
  note two = fold_add_request [OF tab1, of READ "\<lambda>q. \<exists>r \<in> set q. rq_mode r = WRITE" t ?RK n1, folded st2]
  show "table_ok (snd st)" using two by simp
  show "queue (snd st) k = abs_queue w (active @ [t]) k"
    using two by (auto simp: q1 al1 w wanted_def)
  let ?A = "{j \<in> set ?WK. abs_queue w active j \<noteq> []}"
  let ?B = "{j \<in> set ?RK. j \<notin> set ?WK \<and> (\<exists>r \<in> set (abs_queue w active j). rq_mode r = WRITE)}"
  have "n1 = int (card ?A)" using one by (simp add: al0 q0)
  moreover have "{j \<in> set ?RK. \<not> already tab1 t j \<and> (\<exists>r \<in> set (queue tab1 j @ [?R]). rq_mode r = WRITE)} = ?B"
    by (auto simp: al1 q1)
  ultimately have "fst st = int (card ?A) + int (card ?B)" using two by simp
  also have "\<dots> = int (card (?A \<union> ?B))" by (subst card_Un_disjoint) auto
  also have "?A \<union> ?B = {j. \<exists>v \<in> set active. conflict (w v j) (w t j)}"
    by (auto simp: w wanted_def conflict_def abs_queue_def filter_empty_conv split: if_splits)
  also have "int (card \<dots>) = int (wait_count w (active @ [t]) t)"
    using rep t by (simp add: wait_count_def blocked_snoc_self represents_def)
  finally show "fst st = int (wait_count w (active @ [t]) t)" .
qed

lemma wait_count_snoc: "distinct (ts @ [t]) \<Longrightarrow> u \<noteq> t \<Longrightarrow> wait_count w (ts @ [t]) u = wait_count w ts u"
  by (simp add: wait_count_def blocked_snoc)

lemma wait_count_inactive: "t \<notin> set active \<Longrightarrow> wait_count w active t = 0"
  by (simp add: wait_count_def blocked_def)

lemma Lock_refines:
  assumes "represents w active lm" and "t \<notin> set active"
    and "w t = wanted (dlm_config lm) (dlm_mode lm) txn" and "Lock t txn lm = (n, lm')"
  shows "represents w (active @ [t]) lm' \<and> n = int (wait_count w (active @ [t]) t)
    \<and> dlm_ready lm' = dlm_ready lm @ (if wait_count w (active @ [t]) t = 0 then [t] else [])
    \<and> dlm_config lm' = dlm_config lm \<and> dlm_mode lm' = dlm_mode lm"
proof -
  define st where "st = fold (Lock_read_entry (dlm_config lm) (dlm_mode lm) t txn) (tx_read_set txn)
      (fold (Lock_write_entry (dlm_config lm) (dlm_mode lm) t txn) (tx_read_write_set txn) (0, dlm_table lm))"
  note table = Lock_table [OF assms(1-3) st_def]
  have dist: "distinct (active @ [t])" using assms(1,2) by (simp add: represents_def)
  have n: "n = fst st" and lm': "lm' = (if fst st > 0
      then lm\<lparr>dlm_table := snd st, dlm_waits := (dlm_waits lm)(t \<mapsto> fst st)\<rparr>
      else lm\<lparr>dlm_table := snd st, dlm_ready := dlm_ready lm @ [t]\<rparr>)"
    using assms(4) by (auto simp: Lock_def st_def Let_def)
  have "dlm_waits lm' u = (if wait_count w (active @ [t]) u = 0 then None else Some (int (wait_count w (active @ [t]) u)))" for u
  proof (cases "u = t")
    case True
    have "dlm_waits lm t = None"
      using assms(1,2) wait_count_inactive by (simp add: represents_def)
    with True table(3) show ?thesis by (simp add: lm')
  next
    case False
    with assms(1) wait_count_snoc [OF dist, of u w] show ?thesis by (simp add: lm' represents_def)
  qed
  then show ?thesis
    using dist table assms(1) by (simp add: represents_def n lm')
qed

section \<open>Release implements deleting\<close>

text \<open>\<open>t\<close> no longer wants \<open>k\<close>.\<close>

definition unwant :: "wants \<Rightarrow> txn_ptr \<Rightarrow> string \<Rightarrow> wants" where
  "unwant w t k = w(t := (w t)(k := UNLOCKED))"

lemma abs_queue_unwant:
  "abs_queue (unwant w t k) ts j = (if j = k then filter (\<lambda>r. rq_txn r \<noteq> t) (abs_queue w ts k) else abs_queue w ts j)"
  by (induction ts) (auto simp: unwant_def)

lemma fold_grant:
  assumes "distinct us" and "\<forall>u \<in> set us. \<exists>n \<ge> 1. dlm_waits lm u = Some n"
  shows "fold grant us lm = lm\<lparr>dlm_ready := dlm_ready lm @ filter (\<lambda>u. dlm_waits lm u = Some 1) us,
     dlm_waits := (\<lambda>u. if u \<in> set us then (if dlm_waits lm u = Some 1 then None else map_option (\<lambda>n. n - 1) (dlm_waits lm u))
                       else dlm_waits lm u)\<rparr>"
  using assms
proof (induction us arbitrary: lm)
  case (Cons u us)
  then obtain n where n: "dlm_waits lm u = Some n" "1 \<le> n" by auto
  have g: "grant u lm = lm\<lparr>dlm_ready := dlm_ready lm @ (if n = 1 then [u] else []),
      dlm_waits := (dlm_waits lm)(u := (if n = 1 then None else Some (n - 1)))\<rparr>"
    using n by (simp add: grant_def Let_def)
  have ne: "v \<noteq> u" if "v \<in> set us" for v using that Cons.prems(1) by auto
  have "\<forall>v \<in> set us. \<exists>n \<ge> 1. dlm_waits (grant u lm) v = Some n"
    using Cons.prems ne by (simp add: g)
  moreover have "filter (\<lambda>v. dlm_waits (grant u lm) v = Some 1) us = filter (\<lambda>v. dlm_waits lm v = Some 1) us"
    using ne by (intro filter_cong) (auto simp: g)
  ultimately show ?case
    using Cons.IH [of "grant u lm"] Cons.prems(1) n by (auto simp: g fun_eq_iff)
qed simp

lemma abs_queue_split:
  assumes "distinct active" "t \<in> set active" "w t k \<noteq> UNLOCKED"
  obtains pre post where "abs_queue w active k = pre @ \<lparr>rq_txn = t, rq_mode = w t k\<rparr> # post"
    "\<forall>r \<in> set (pre @ post). rq_txn r \<noteq> t"
proof -
  obtain us vs where a: "active = us @ t # vs" using assms(2) by (meson split_list)
  with assms(1,3) show ?thesis
    by (intro that [of "abs_queue w us k" "abs_queue w vs k"]) (auto simp: abs_queue_def)
qed

lemma takeWhile_dropWhile_split:
  assumes "\<forall>x \<in> set pre. P x" "\<not> P r"
  shows "takeWhile P (pre @ r # post) = pre" "dropWhile P (pre @ r # post) = r # post"
  using assms by (induction pre) auto

lemma Release_key_eq:
  assumes rep: "represents w active lm" and "t \<in> set active" "w t k \<noteq> UNLOCKED"
  obtains pre post where "abs_queue w active k = pre @ \<lparr>rq_txn = t, rq_mode = w t k\<rparr> # post"
    "\<forall>r \<in> set (pre @ post). rq_txn r \<noteq> t"
    "Release_key k t lm = Inr (let lm' = fold grant (new_owners pre \<lparr>rq_txn = t, rq_mode = w t k\<rparr> post) lm
       in lm'\<lparr>dlm_table := lt.replace k (pre @ post) (dlm_table lm')\<rparr>)"
proof -
  have "distinct active" using rep by (simp add: represents_def)
  then obtain pre post where q: "abs_queue w active k = pre @ \<lparr>rq_txn = t, rq_mode = w t k\<rparr> # post"
    and ne: "\<forall>r \<in> set (pre @ post). rq_txn r \<noteq> t"
    using abs_queue_split [of active t w k] assms(2,3) by blast
  have "find_requests k (dlm_table lm (Hash k)) = abs_queue w active k"
    using rep by (simp add: represents_def queue_def)
  with q have m: "map_of (dlm_table lm (Hash k)) k = Some (pre @ \<lparr>rq_txn = t, rq_mode = w t k\<rparr> # post)"
    by (simp add: find_requests_def split: option.splits)
  have tab: "dlm_table (fold grant us l) = dlm_table l" for us l
    by (induction us arbitrary: l) (simp_all add: grant_def Let_def)
  have "takeWhile (\<lambda>r. rq_txn r \<noteq> t) (pre @ \<lparr>rq_txn = t, rq_mode = w t k\<rparr> # post) = pre"
    "dropWhile (\<lambda>r. rq_txn r \<noteq> t) (pre @ \<lparr>rq_txn = t, rq_mode = w t k\<rparr> # post) = \<lparr>rq_txn = t, rq_mode = w t k\<rparr> # post"
    using takeWhile_dropWhile_split [of pre "\<lambda>r. rq_txn r \<noteq> t"] ne by auto
  with m have "Release_key k t lm = Inr (let lm' = fold grant (new_owners pre \<lparr>rq_txn = t, rq_mode = w t k\<rparr> post) lm
       in lm'\<lparr>dlm_table := lt.replace k (pre @ post) (dlm_table lm')\<rparr>)"
    by (simp add: Release_key_def Let_def tab lt.replace_def table_put_def table_erase_def)
  with q ne that show ?thesis by blast
qed

lemma blocked_unwant_other:
  "j \<noteq> k \<Longrightarrow> blocked (unwant w t k) active u j \<longleftrightarrow> blocked w active u j"
  by (auto simp: blocked_def abs_queue_unwant) (auto simp: unwant_def split: if_splits)

text \<open>
  What a sequence of releases does that turns \<open>w\<close> into \<open>w'\<close>: the new state is represented, and
  exactly the transactions that stopped waiting are pushed, each once.
\<close>

definition released :: "wants \<Rightarrow> wants \<Rightarrow> txn_ptr list \<Rightarrow> lock_manager \<Rightarrow> lock_manager \<Rightarrow> bool" where
  "released w w' active lm lm' \<longleftrightarrow> represents w' active lm'
    \<and> (\<exists>ns. dlm_ready lm' = dlm_ready lm @ ns \<and> distinct ns
          \<and> set ns = {u. 0 < wait_count w active u \<and> wait_count w' active u = 0})
    \<and> (\<forall>u. wait_count w' active u \<le> wait_count w active u)
    \<and> dlm_config lm' = dlm_config lm \<and> dlm_mode lm' = dlm_mode lm"

lemma released_trans:
  assumes "released w w1 active lm lm1" "released w1 w2 active lm1 lm2"
  shows "released w w2 active lm lm2"
proof -
  obtain ns1 where 1: "dlm_ready lm1 = dlm_ready lm @ ns1" "distinct ns1"
      "set ns1 = {u. 0 < wait_count w active u \<and> wait_count w1 active u = 0}"
    using assms(1) by (auto simp: released_def)
  obtain ns2 where 2: "dlm_ready lm2 = dlm_ready lm1 @ ns2" "distinct ns2"
      "set ns2 = {u. 0 < wait_count w1 active u \<and> wait_count w2 active u = 0}"
    using assms(2) by (auto simp: released_def)
  have le: "wait_count w1 active u \<le> wait_count w active u" "wait_count w2 active u \<le> wait_count w1 active u" for u
    using assms by (simp_all add: released_def)
  have "set (ns1 @ ns2) = {u. 0 < wait_count w active u \<and> wait_count w2 active u = 0}"
  proof (rule set_eqI)
    fix u
    show "u \<in> set (ns1 @ ns2) \<longleftrightarrow> u \<in> {u. 0 < wait_count w active u \<and> wait_count w2 active u = 0}"
      using le(1) [of u] le(2) [of u] 1(3) 2(3) by auto
  qed
  moreover have "set ns1 \<inter> set ns2 = {}" using 1(3) 2(3) by auto
  ultimately show ?thesis
    using assms 1 2 unfolding released_def
    by (intro conjI exI [of _ "ns1 @ ns2"]) (auto intro: le_trans [OF le(2) le(1)])
qed

lemma released_refl: "represents w active lm \<Longrightarrow> released w w active lm lm"
  by (auto simp: released_def)

lemma Release_key_step:
  assumes rep: "represents w active lm" and t: "t \<in> set active" "w t k \<noteq> UNLOCKED" "\<not> blocked w active t k"
  shows "\<exists>lm'. Release_key k t lm = Inr lm' \<and> released w (unwant w t k) active lm lm'"
proof -
  let ?w = "unwant w t k"
  obtain pre post where q: "abs_queue w active k = pre @ \<lparr>rq_txn = t, rq_mode = w t k\<rparr> # post"
    and ne: "\<forall>r \<in> set (pre @ post). rq_txn r \<noteq> t"
    and rel: "Release_key k t lm = Inr (let lm' = fold grant (new_owners pre \<lparr>rq_txn = t, rq_mode = w t k\<rparr> post) lm
       in lm'\<lparr>dlm_table := lt.replace k (pre @ post) (dlm_table lm')\<rparr>)"
    using Release_key_eq [OF rep t(1,2)] by blast
  let ?ns = "new_owners pre \<lparr>rq_txn = t, rq_mode = w t k\<rparr> post"
  have dist: "distinct active" and fin: "finite {k. w u k \<noteq> UNLOCKED}"
    and tab: "table_ok (dlm_table lm)" and qs: "queue (dlm_table lm) j = abs_queue w active j"
    and waits: "dlm_waits lm u = (if wait_count w active u = 0 then None else Some (int (wait_count w active u)))" for u j
    using rep by (simp_all add: represents_def)
  have q': "abs_queue ?w active k = pre @ post" using ne by (simp add: abs_queue_unwant q filter_id_conv)
  have "queue_ok (pre @ \<lparr>rq_txn = t, rq_mode = w t k\<rparr> # post)"
    using abs_queue_ok [OF dist, of w k] q by simp
  note own = new_owners_spec [OF this, folded q' q]
  have tns: "t \<notin> set ?ns"
    using own(2) holders_subset [of "abs_queue ?w active k"] ne by (auto simp: q' queue_txns_def)
  have bk: "blocked ?w active u k \<longleftrightarrow> blocked w active u k \<and> u \<notin> set ?ns" for u
    using own(2,3) t(3) by (cases "u = t") (auto simp: blocked_def unwant_def)
  have nsb: "blocked w active u k" if "u \<in> set ?ns" for u
    using that own(2) tns holds_active [of ?w active u k] by (auto simp: blocked_def holds_def unwant_def split: if_splits)
  have sub: "{j. blocked ?w active u j} = {j. blocked w active u j} - (if u \<in> set ?ns then {k} else {})" for u
    using bk blocked_unwant_other [of _ k w t active u] by (auto split: if_splits) metis+
  have finb: "finite {j. blocked w active u j}" for u by (rule blocked_finite [OF fin])
  have wc: "wait_count ?w active u = wait_count w active u - (if u \<in> set ?ns then 1 else 0)"
    and pos: "u \<in> set ?ns \<Longrightarrow> 1 \<le> wait_count w active u" for u
    using nsb [of u] finb [of u] card_gt_0_iff [of "{j. blocked w active u j}"]
    by (auto simp: wait_count_def sub)
  have g: "fold grant ?ns lm = lm\<lparr>dlm_ready := dlm_ready lm @ filter (\<lambda>u. dlm_waits lm u = Some 1) ?ns,
     dlm_waits := (\<lambda>u. if u \<in> set ?ns then (if dlm_waits lm u = Some 1 then None else map_option (\<lambda>n. n - 1) (dlm_waits lm u))
                       else dlm_waits lm u)\<rparr>"
    using own(1) pos by (intro fold_grant) (fastforce simp: waits)+
  define lm' where "lm' = (fold grant ?ns lm)\<lparr>dlm_table := lt.replace k (pre @ post) (dlm_table lm)\<rparr>"
  have "Release_key k t lm = Inr lm'" by (simp add: rel lm'_def g Let_def)
  moreover have "represents ?w active lm'"
    unfolding represents_def
  proof (intro conjI allI)
    show "finite {k. ?w u k \<noteq> UNLOCKED}" for u
      by (rule finite_subset [OF _ fin [of u]]) (auto simp: unwant_def split: if_splits)
    show "queue (dlm_table lm') j = abs_queue ?w active j" for j
      using lt.get_replace [OF tab, of k "pre @ post" j] q' qs ne by (simp add: lm'_def abs_queue_unwant)
    show "dlm_waits lm' u = (if wait_count ?w active u = 0 then None else Some (int (wait_count ?w active u)))" for u
      using pos [of u] by (auto simp: lm'_def g waits wc of_nat_diff)
  qed (simp_all add: dist lm'_def lt.replace_ok tab)
  moreover have "set (filter (\<lambda>u. dlm_waits lm u = Some 1) ?ns) = {u. 0 < wait_count w active u \<and> wait_count ?w active u = 0}"
    using pos by (auto simp: waits wc split: if_splits)
  ultimately show ?thesis using own(1) unfolding released_def
    by (intro exI [of _ lm'] conjI exI [of _ "filter (\<lambda>u. dlm_waits lm u = Some 1) ?ns"])
      (auto simp: lm'_def g wc)
qed

lemma grant_config: "dlm_config (fold grant us lm) = dlm_config lm \<and> dlm_mode (fold grant us lm) = dlm_mode lm"
  by (induction us arbitrary: lm) (simp_all add: grant_def Let_def)

lemma Release_key_config: "Release_key k t lm = Inr lm' \<Longrightarrow> dlm_config lm' = dlm_config lm \<and> dlm_mode lm' = dlm_mode lm"
  using grant_config by (auto simp: Release_key_def Let_def split: option.splits list.splits)

lemma foldE_Release_entries:
  "foldE (Release_entry t txn) es lm
     = foldE (\<lambda>k. Release_key k t) (locked_keys (dlm_config lm) (dlm_mode lm) txn es) lm"
proof (induction es arbitrary: lm)
  case (Cons e es)
  show ?case
  proof (cases "locks_entry (dlm_config lm) (dlm_mode lm) txn e")
    case True
    then show ?thesis
      using Cons.IH Release_key_config [of "ke_key e" t lm]
      by (cases "Release_key (ke_key e) t lm") (auto simp: Release_entry_def locked_keys_def)
  next
    case False
    then show ?thesis using Cons.IH by (simp add: Release_entry_def locked_keys_def)
  qed
qed (simp add: locked_keys_def)

lemma Release_keys:
  assumes "represents w active lm" and "t \<in> set active" and "distinct ks"
    and "\<forall>k \<in> set ks. w t k \<noteq> UNLOCKED" and "wait_count w active t = 0"
  shows "\<exists>lm'. foldE (\<lambda>k. Release_key k t) ks lm = Inr lm'
    \<and> released w (fold (\<lambda>k w. unwant w t k) ks w) active lm lm'"
  using assms
proof (induction ks arbitrary: w lm)
  case (Cons k ks)
  let ?w = "unwant w t k"
  have "finite {k. blocked w active t k}"
    using Cons.prems(1) by (intro blocked_finite) (simp add: represents_def)
  then have "\<not> blocked w active t k" using Cons.prems(5) by (auto simp: wait_count_def)
  moreover have "w t k \<noteq> UNLOCKED" using Cons.prems(4) by simp
  ultimately obtain lm1 where one: "Release_key k t lm = Inr lm1" "released w ?w active lm lm1"
    using Release_key_step [OF Cons.prems(1,2)] by blast
  have "\<forall>j \<in> set ks. ?w t j \<noteq> UNLOCKED" using Cons.prems(3,4) by (auto simp: unwant_def)
  moreover have "wait_count ?w active t = 0"
    using one(2) Cons.prems(5) unfolding released_def by (metis le_zero_eq)
  moreover have "represents ?w active lm1" using one(2) by (simp add: released_def)
  ultimately obtain lm2 where "foldE (\<lambda>k. Release_key k t) ks lm1 = Inr lm2"
    "released ?w (fold (\<lambda>k w. unwant w t k) ks ?w) active lm1 lm2"
    using Cons.IH [of ?w lm1] Cons.prems(2,3) by auto
  with one released_trans show ?case by auto
qed (simp add: released_refl)

lemma fold_unwant: "fold (\<lambda>k w. unwant w t k) ks w = w(t := (\<lambda>k. if k \<in> set ks then UNLOCKED else w t k))"
  by (induction ks arbitrary: w) (auto simp: unwant_def fun_eq_iff)

lemma unwant_all:
  assumes "\<forall>k. w' t k = UNLOCKED" and "\<forall>u k. u \<noteq> t \<longrightarrow> w' u k = w u k"
  shows "abs_queue w' active k = abs_queue w (filter (\<lambda>u. u \<noteq> t) active) k"
    "blocked w' active u k \<longleftrightarrow> blocked w (filter (\<lambda>u. u \<noteq> t) active) u k"
proof -
  show q: "abs_queue w' active k = abs_queue w (filter (\<lambda>u. u \<noteq> t) active) k"
    using assms by (induction active) auto
  show "blocked w' active u k \<longleftrightarrow> blocked w (filter (\<lambda>u. u \<noteq> t) active) u k"
    using assms by (cases "u = t") (auto simp: blocked_def q)
qed

text \<open>A transaction as the interface requires it: no key twice among those it locks.\<close>

definition no_duplicate_keys :: "cluster_config \<Rightarrow> uint32 \<Rightarrow> txn_proto \<Rightarrow> bool" where
  "no_duplicate_keys c m txn \<longleftrightarrow>
     distinct (locked_keys c m txn (tx_read_set txn) @ locked_keys c m txn (tx_read_write_set txn))"

lemma Release_refines:
  assumes rep: "represents w active lm" and t: "t \<in> set active" and wc: "wait_count w active t = 0"
    and w: "w t = wanted (dlm_config lm) (dlm_mode lm) txn"
    and dup: "no_duplicate_keys (dlm_config lm) (dlm_mode lm) txn"
  shows "\<exists>lm' ns. Release t txn lm = Inr lm' \<and> represents w (filter (\<lambda>u. u \<noteq> t) active) lm'
    \<and> dlm_ready lm' = dlm_ready lm @ ns \<and> distinct ns
    \<and> set ns = {u. 0 < wait_count w active u \<and> wait_count w (filter (\<lambda>u. u \<noteq> t) active) u = 0}
    \<and> dlm_config lm' = dlm_config lm \<and> dlm_mode lm' = dlm_mode lm"
proof -
  let ?ks = "locked_keys (dlm_config lm) (dlm_mode lm) txn (tx_read_set txn)
    @ locked_keys (dlm_config lm) (dlm_mode lm) txn (tx_read_write_set txn)"
  define w' where w'_def: "w' = fold (\<lambda>k w. unwant w t k) ?ks w"
  have "\<forall>k \<in> set ?ks. w t k \<noteq> UNLOCKED" by (auto simp: w wanted_def)
  with Release_keys [OF rep t _ _ wc] dup obtain lm' where
    lm': "foldE (\<lambda>k. Release_key k t) ?ks lm = Inr lm'" "released w w' active lm lm'"
    unfolding no_duplicate_keys_def w'_def by blast
  have "Release t txn lm = Inr lm'"
  proof (cases "foldE (\<lambda>k. Release_key k t) (locked_keys (dlm_config lm) (dlm_mode lm) txn (tx_read_set txn)) lm")
    case (Inr lm1)
    then have "dlm_config lm1 = dlm_config lm \<and> dlm_mode lm1 = dlm_mode lm"
      by (rule foldE_invariant) (auto dest: Release_key_config)
    with lm' Inr show ?thesis by (simp add: Release_def foldE_Release_entries foldE_append)
  qed (use lm' in \<open>simp add: foldE_append\<close>)
  moreover have un: "\<forall>k. w' t k = UNLOCKED" "\<forall>u k. u \<noteq> t \<longrightarrow> w' u k = w u k"
    unfolding w'_def fold_unwant by (auto simp: w wanted_def)
  have wc': "wait_count w' active u = wait_count w (filter (\<lambda>u. u \<noteq> t) active) u" for u
    by (simp add: wait_count_def unwant_all [OF un])
  have "represents w (filter (\<lambda>u. u \<noteq> t) active) lm'"
    using lm'(2) rep by (simp add: released_def represents_def unwant_all [OF un] wc')
  ultimately show ?thesis using lm'(2) by (auto simp: released_def wc')
qed

section \<open>What the scheduler relies on\<close>

lemma wait_count_0_iff:
  "finite {k. w t k \<noteq> UNLOCKED} \<Longrightarrow> wait_count w active t = 0 \<longleftrightarrow> (\<forall>k. \<not> blocked w active t k)"
  using blocked_finite [of w t active] by (auto simp: wait_count_def)

lemma holds_delete:
  assumes "distinct ts" "holds w ts u k" "u \<noteq> t"
  shows "holds w (filter (\<lambda>v. v \<noteq> t) ts) u k"
proof -
  obtain us vs where ts: "ts = us @ u # vs" "w u k \<noteq> UNLOCKED" "\<forall>v \<in> set us. \<not> conflict (w v k) (w u k)"
    using holdsE [OF assms(1,2)] by blast
  moreover have "distinct (filter (\<lambda>v. v \<noteq> t) us @ u # filter (\<lambda>v. v \<noteq> t) vs)"
    using assms(1) ts(1) by auto
  ultimately show ?thesis
    using holdsI [of "filter (\<lambda>v. v \<noteq> t) us" u "filter (\<lambda>v. v \<noteq> t) vs" w k] assms(3) by simp
qed

lemma blocked_delete:
  "distinct ts \<Longrightarrow> blocked w (filter (\<lambda>v. v \<noteq> t) ts) u k \<Longrightarrow> blocked w ts u k"
  using holds_delete [of ts w u k t] by (auto simp: blocked_def holds_def)

text \<open>
  The contract of a lock manager, over the order of the \<open>Lock\<close> calls: \<open>pop\<close> is the scheduler
  taking the next ready transaction, \<open>running\<close> those it has taken and not yet released.
\<close>

locale lock_service =
  fixes acquire :: "txn_ptr \<Rightarrow> 'm \<Rightarrow> 'm" and release :: "txn_ptr \<Rightarrow> 'm \<Rightarrow> 'm outcome"
    and ready :: "'m \<Rightarrow> txn_ptr list" and pop :: "'m \<Rightarrow> 'm" and rep :: "txn_ptr list \<Rightarrow> 'm \<Rightarrow> bool"
    and w :: wants
  assumes wants_finite: "finite {k. w t k \<noteq> UNLOCKED}"
    and rep_distinct: "rep active m \<Longrightarrow> distinct active"
    and acquire_rep: "rep active m \<Longrightarrow> t \<notin> set active \<Longrightarrow> rep (active @ [t]) (acquire t m)
      \<and> ready (acquire t m) = ready m @ (if wait_count w (active @ [t]) t = 0 then [t] else [])"
    and release_rep: "rep active m \<Longrightarrow> t \<in> set active \<Longrightarrow> wait_count w active t = 0 \<Longrightarrow>
      \<exists>m' ns. release t m = Inr m' \<and> rep (filter (\<lambda>u. u \<noteq> t) active) m' \<and> ready m' = ready m @ ns \<and> distinct ns
        \<and> set ns = {u. 0 < wait_count w active u \<and> wait_count w (filter (\<lambda>u. u \<noteq> t) active) u = 0}"
    and pop_rep: "rep active m \<Longrightarrow> rep active (pop m)"
    and pop_ready: "ready m = t # ts \<Longrightarrow> ready (pop m) = ts"
begin

definition service_inv :: "txn_ptr list \<Rightarrow> txn_ptr list \<Rightarrow> 'm \<Rightarrow> bool" where
  "service_inv active running m \<longleftrightarrow> rep active m \<and> distinct (ready m @ running)
     \<and> set (ready m @ running) = {t \<in> set active. wait_count w active t = 0}"

lemma granted_holds:
  assumes "service_inv active running m" "t \<in> set (ready m @ running)" "w t k \<noteq> UNLOCKED"
  shows "holds w active t k"
proof -
  have "t \<in> set active" "wait_count w active t = 0" using assms(1,2) by (auto simp: service_inv_def)
  with assms(3) show ?thesis
    using wait_count_0_iff [OF wants_finite] by (auto simp: blocked_def holds_def)
qed

lemma inv_acquire:
  assumes "service_inv active running m" "t \<notin> set active"
  shows "service_inv (active @ [t]) running (acquire t m)"
proof -
  have rep: "rep active m" and dist: "distinct (active @ [t])"
    using assms rep_distinct by (auto simp: service_inv_def)
  have "wait_count w (active @ [t]) u = wait_count w active u" if "u \<in> set active" for u
    using that assms(2) wait_count_snoc [OF dist, of u w] by metis
  with acquire_rep [OF rep assms(2)] assms show ?thesis by (auto simp: service_inv_def)
qed

lemma inv_pop:
  "service_inv active running m \<Longrightarrow> ready m = t # ts \<Longrightarrow> service_inv active (running @ [t]) (pop m)"
  using pop_rep pop_ready by (auto simp: service_inv_def)

lemma inv_release:
  assumes "service_inv active running m" "t \<in> set running"
  shows "\<exists>m'. release t m = Inr m'
    \<and> service_inv (filter (\<lambda>u. u \<noteq> t) active) (filter (\<lambda>u. u \<noteq> t) running) m'"
proof -
  let ?a = "filter (\<lambda>u. u \<noteq> t) active"
  have rep: "rep active m" and t: "t \<in> set active" "wait_count w active t = 0"
    and dist: "distinct (ready m @ running)" and dista: "distinct active"
    and set: "set (ready m @ running) = {t \<in> set active. wait_count w active t = 0}"
    using assms rep_distinct by (auto simp: service_inv_def)
  obtain m' ns where m': "release t m = Inr m'" "rep ?a m'" "ready m' = ready m @ ns" "distinct ns"
      "set ns = {u. 0 < wait_count w active u \<and> wait_count w ?a u = 0}"
    using release_rep [OF rep t] by blast
  have mono: "wait_count w active u = 0 \<Longrightarrow> wait_count w ?a u = 0" for u
    unfolding wait_count_0_iff [OF wants_finite] using blocked_delete [OF dista] by blast
  have act: "u \<in> set active" if "0 < wait_count w active u" for u
    using that wait_count_inactive [of u active w] by (cases "u \<in> set active") auto
  have disj: "set ns \<inter> set (ready m @ running) = {}" and tr: "t \<notin> set (ready m)"
    using m'(5) set dist assms(2) by auto
  have "u \<in> set (ready m' @ filter (\<lambda>u. u \<noteq> t) running) \<longleftrightarrow> u \<in> set ?a \<and> wait_count w ?a u = 0" for u
  proof (cases "u = t")
    case True
    then show ?thesis using tr m'(3,5) t(2) by simp
  next
    case False
    then have "u \<in> set (ready m' @ filter (\<lambda>u. u \<noteq> t) running) \<longleftrightarrow> u \<in> set ns \<or> u \<in> set (ready m @ running)"
      using m'(3) by auto
    moreover have "u \<in> set (ready m @ running) \<longleftrightarrow> u \<in> set active \<and> wait_count w active u = 0"
      using set by blast
    moreover have "u \<in> set ns \<longleftrightarrow> 0 < wait_count w active u \<and> wait_count w ?a u = 0" using m'(5) by blast
    ultimately show ?thesis
      using False mono [of u] act [of u] by (cases "wait_count w active u = 0") auto
  qed
  then show ?thesis using m' dist disj by (auto simp: service_inv_def)
qed

lemma mutual_exclusion:
  assumes "service_inv active running m" "t \<in> set (ready m @ running)" "u \<in> set (ready m @ running)" "t \<noteq> u"
  shows "\<not> conflict (w t k) (w u k)"
proof
  assume c: "conflict (w t k) (w u k)"
  have dist: "distinct active" using assms(1) rep_distinct by (auto simp: service_inv_def)
  have "holds w active t k" "holds w active u k"
    using c granted_holds [OF assms(1)] assms(2,3) by (auto simp: conflict_def)
  then obtain us vs us' vs' where t: "active = us @ t # vs" "\<forall>v \<in> set us. \<not> conflict (w v k) (w t k)"
    and u: "active = us' @ u # vs'" "\<forall>v \<in> set us'. \<not> conflict (w v k) (w u k)"
    using holdsE [OF dist] by metis
  have "u \<in> set us \<or> u \<in> set vs" using t(1) u(1) assms(4) by (metis Un_iff in_set_conv_decomp list.set_intros set_append set_ConsD)
  then show False
  proof
    assume "u \<in> set us"
    with t(2) c show False by (auto simp: conflict_def)
  next
    assume "u \<in> set vs"
    moreover have "distinct (us @ t # vs)" "us @ t # vs = us' @ u # vs'" using dist t(1) u(1) by simp_all
    ultimately have "t \<in> set us'" using split_order by metis
    with u(2) c show False by simp
  qed
qed

lemma order_respected:
  assumes "service_inv active running m" "active = us @ t # vs" "u \<in> set vs" "conflict (w t k) (w u k)"
  shows "u \<notin> set (ready m @ running)"
proof
  assume u: "u \<in> set (ready m @ running)"
  have dist: "distinct active" using assms(1) rep_distinct by (auto simp: service_inv_def)
  have "holds w active u k" using assms(4) granted_holds [OF assms(1) u] by (auto simp: conflict_def)
  then obtain us' vs' where 1: "active = us' @ u # vs'" "\<forall>v \<in> set us'. \<not> conflict (w v k) (w u k)"
    using holdsE [OF dist] by metis
  moreover have "distinct (us @ t # vs)" "us @ t # vs = us' @ u # vs'" using dist assms(2) 1(1) by simp_all
  ultimately have "t \<in> set us'" using split_order assms(3) by metis
  with 1(2) assms(4) show False by simp
qed

lemma first_granted:
  assumes "service_inv active running m" "active = t # ts"
  shows "t \<in> set (ready m @ running)"
proof -
  have dist: "distinct active" using assms(1) rep_distinct by (auto simp: service_inv_def)
  then have "holds w active t k" if "w t k \<noteq> UNLOCKED" for k
    using that assms(2) holdsI [of "[]" t ts w k] by simp
  then have "wait_count w active t = 0"
    by (auto simp: wait_count_0_iff [OF wants_finite] blocked_def holds_def)
  with assms show ?thesis by (auto simp: service_inv_def)
qed

end

section \<open>The lock manager meets the contract\<close>

definition acquire_txn :: "(txn_ptr \<Rightarrow> txn_proto) \<Rightarrow> txn_ptr \<Rightarrow> lock_manager \<Rightarrow> lock_manager" where
  "acquire_txn txns t lm = snd (Lock t (txns t) lm)"

definition release_txn :: "(txn_ptr \<Rightarrow> txn_proto) \<Rightarrow> txn_ptr \<Rightarrow> lock_manager \<Rightarrow> lock_manager outcome" where
  "release_txn txns t lm = Release t (txns t) lm"

text \<open>The scheduler's \<open>ready_txns_->Pop\<close>.\<close>

definition pop_ready_txn :: "lock_manager \<Rightarrow> lock_manager" where
  "pop_ready_txn lm = lm\<lparr>dlm_ready := tl (dlm_ready lm)\<rparr>"

definition manager_for ::
  "cluster_config \<Rightarrow> uint32 \<Rightarrow> (txn_ptr \<Rightarrow> txn_proto) \<Rightarrow> txn_ptr list \<Rightarrow> lock_manager \<Rightarrow> bool" where
  "manager_for c m txns active lm \<longleftrightarrow> represents (wants_of c m txns) active lm
     \<and> dlm_config lm = c \<and> dlm_mode lm = m \<and> (\<forall>t. no_duplicate_keys c m (txns t))"

interpretation dlm: lock_service "acquire_txn txns" "release_txn txns" dlm_ready pop_ready_txn
    "manager_for c m txns" "wants_of c m txns" for c m txns
proof
  show "finite {k. wants_of c m txns t k \<noteq> UNLOCKED}" for t by (simp add: wants_of_def wanted_finite)
  show "distinct active" if "manager_for c m txns active lm" for active lm
    using that by (simp add: manager_for_def represents_def)
  show "manager_for c m txns (active @ [t]) (acquire_txn txns t lm)
      \<and> dlm_ready (acquire_txn txns t lm)
          = dlm_ready lm @ (if wait_count (wants_of c m txns) (active @ [t]) t = 0 then [t] else [])"
    if "manager_for c m txns active lm" "t \<notin> set active" for active lm t
  proof -
    obtain n lm' where "Lock t (txns t) lm = (n, lm')" by (cases "Lock t (txns t) lm")
    with Lock_refines [of "wants_of c m txns" active lm t "txns t" n lm'] that show ?thesis
      by (simp add: manager_for_def acquire_txn_def wants_of_def)
  qed
  show "\<exists>lm' ns. release_txn txns t lm = Inr lm' \<and> manager_for c m txns (filter (\<lambda>u. u \<noteq> t) active) lm'
      \<and> dlm_ready lm' = dlm_ready lm @ ns \<and> distinct ns
      \<and> set ns = {u. 0 < wait_count (wants_of c m txns) active u
          \<and> wait_count (wants_of c m txns) (filter (\<lambda>u. u \<noteq> t) active) u = 0}"
    if "manager_for c m txns active lm" "t \<in> set active" "wait_count (wants_of c m txns) active t = 0" for active lm t
    using Release_refines [of "wants_of c m txns" active lm t "txns t"] that
    by (auto simp: manager_for_def release_txn_def wants_of_def)
  show "manager_for c m txns active (pop_ready_txn lm)" if "manager_for c m txns active lm" for active lm
    using that by (simp add: manager_for_def pop_ready_txn_def represents_def)
  show "dlm_ready (pop_ready_txn lm) = ts" if "dlm_ready lm = t # ts" for lm t ts
    using that by (simp add: pop_ready_txn_def)
qed

section \<open>Runs of the lock manager\<close>

text \<open>
  Every interleaving of the lock manager thread's actions: lock a new transaction, hand the next
  ready one to a worker, release one that a worker has finished.
\<close>

record lock_world =
  lw_active :: "txn_ptr list"    \<comment> \<open>locked and not yet released, in the order of the \<open>Lock\<close> calls\<close>
  lw_running :: "txn_ptr list"   \<comment> \<open>popped from \<open>ready_txns_\<close> and not yet released\<close>
  lw_manager :: lock_manager

inductive lock_step :: "(txn_ptr \<Rightarrow> txn_proto) \<Rightarrow> lock_world \<Rightarrow> lock_world \<Rightarrow> bool" for txns where
  step_lock: "t \<notin> set (lw_active s) \<Longrightarrow> Lock t (txns t) (lw_manager s) = (n, lm)
    \<Longrightarrow> lock_step txns s (s\<lparr>lw_active := lw_active s @ [t], lw_manager := lm\<rparr>)"
| step_dispatch: "dlm_ready (lw_manager s) = t # ts
    \<Longrightarrow> lock_step txns s (s\<lparr>lw_running := lw_running s @ [t], lw_manager := (lw_manager s)\<lparr>dlm_ready := ts\<rparr>\<rparr>)"
| step_release: "t \<in> set (lw_running s) \<Longrightarrow> Release t (txns t) (lw_manager s) = Inr lm
    \<Longrightarrow> lock_step txns s (s\<lparr>lw_active := filter (\<lambda>u. u \<noteq> t) (lw_active s),
          lw_running := filter (\<lambda>u. u \<noteq> t) (lw_running s), lw_manager := lm\<rparr>)"

definition lock_start :: "cluster_config \<Rightarrow> uint32 \<Rightarrow> lock_world" where
  "lock_start c m = \<lparr>lw_active = [], lw_running = [], lw_manager = DeterministicLockManager_new [] c m\<rparr>"

definition lock_reachable :: "cluster_config \<Rightarrow> uint32 \<Rightarrow> (txn_ptr \<Rightarrow> txn_proto) \<Rightarrow> lock_world \<Rightarrow> bool" where
  "lock_reachable c m txns s \<longleftrightarrow> (lock_step txns)\<^sup>*\<^sup>* (lock_start c m) s"

abbreviation world_inv :: "cluster_config \<Rightarrow> uint32 \<Rightarrow> (txn_ptr \<Rightarrow> txn_proto) \<Rightarrow> lock_world \<Rightarrow> bool" where
  "world_inv c m txns s \<equiv> dlm.service_inv c m txns (lw_active s) (lw_running s) (lw_manager s)"

lemma world_inv_start: "\<forall>t. no_duplicate_keys c m (txns t) \<Longrightarrow> world_inv c m txns (lock_start c m)"
  using represents_new [of c m txns "[]"]
  by (simp add: dlm.service_inv_def manager_for_def lock_start_def DeterministicLockManager_new_def)

lemma world_inv_step: "lock_step txns s s' \<Longrightarrow> world_inv c m txns s \<Longrightarrow> world_inv c m txns s'"
proof (induction rule: lock_step.induct)
  case (step_lock t s n lm)
  then show ?case using dlm.inv_acquire [OF step_lock(3,1)] by (simp add: acquire_txn_def)
next
  case (step_dispatch s t ts)
  then show ?case using dlm.inv_pop [OF step_dispatch(2,1)] by (simp add: pop_ready_txn_def)
next
  case (step_release t s lm)
  then show ?case using dlm.inv_release [OF step_release(3,1)] by (auto simp: release_txn_def)
qed

lemma world_inv_reachable:
  assumes "lock_reachable c m txns s" and "\<forall>t. no_duplicate_keys c m (txns t)"
  shows "world_inv c m txns s"
  using assms(1) unfolding lock_reachable_def
proof (induction rule: rtranclp_induct)
  case base
  show ?case by (rule world_inv_start [OF assms(2)])
next
  case (step s s')
  then show ?case by (simp add: world_inv_step)
qed

section \<open>Properties\<close>

text \<open>
  C26: \<open>Lock\<close> implements appending the transaction to the active list: queues, waits and the
  returned count are those of the longer list, and the transaction is ready exactly if it waits
  for no key.
\<close>

theorem Lock_refines_append:
  assumes "manager_for c m txns active lm" and "t \<notin> set active" and "Lock t (txns t) lm = (n, lm')"
  shows "manager_for c m txns (active @ [t]) lm' \<and> n = int (wait_count (wants_of c m txns) (active @ [t]) t)
    \<and> dlm_ready lm' = dlm_ready lm @ (if n = 0 then [t] else [])"
  using Lock_refines [of "wants_of c m txns" active lm t "txns t" n lm'] assms
  by (simp add: manager_for_def wants_of_def)

text \<open>
  C7: \<open>Release\<close> of a transaction that has all its locks never runs into undefined behaviour,
  implements deleting it from the active list, and pushes exactly the transactions that have just
  received the last lock they waited for, each once.
\<close>

theorem Release_refines_delete:
  assumes "manager_for c m txns active lm" and "t \<in> set active" and "wait_count (wants_of c m txns) active t = 0"
  shows "\<exists>lm' ns. Release t (txns t) lm = Inr lm' \<and> manager_for c m txns (filter (\<lambda>u. u \<noteq> t) active) lm'
    \<and> dlm_ready lm' = dlm_ready lm @ ns \<and> distinct ns
    \<and> set ns = {u. 0 < wait_count (wants_of c m txns) active u
          \<and> wait_count (wants_of c m txns) (filter (\<lambda>u. u \<noteq> t) active) u = 0}"
  using dlm.release_rep [OF assms] by (auto simp: release_txn_def)

text \<open>
  C6: mutual exclusion. In every reachable state two different transactions that are ready or
  running want no key in conflicting modes: they only share keys both read.
\<close>

theorem lock_mutual_exclusion:
  assumes "lock_reachable c m txns s" and "\<forall>t. no_duplicate_keys c m (txns t)"
    and "t \<in> set (dlm_ready (lw_manager s) @ lw_running s)" and "u \<in> set (dlm_ready (lw_manager s) @ lw_running s)"
    and "t \<noteq> u"
  shows "\<not> conflict (wanted c m (txns t) k) (wanted c m (txns u) k)"
  using dlm.mutual_exclusion [OF world_inv_reachable [OF assms(1,2)] assms(3-5)]
  by (simp add: wants_of_def)

text \<open>
  Determinism of the lock order. While a transaction that was locked earlier and conflicts is
  not released, the later one is neither ready nor running.
\<close>

theorem lock_order_respected:
  assumes "lock_reachable c m txns s" and "\<forall>t. no_duplicate_keys c m (txns t)"
    and "lw_active s = us @ t # vs" and "u \<in> set vs"
    and "conflict (wanted c m (txns t) k) (wanted c m (txns u) k)"
  shows "u \<notin> set (dlm_ready (lw_manager s) @ lw_running s)"
  using dlm.order_respected [OF world_inv_reachable [OF assms(1,2)] assms(3,4)] assms(5)
  by (simp add: wants_of_def)

text \<open>
  C27: no deadlock. While a transaction is active, one is ready to be dispatched or running, the
  release of every running one succeeds, and the one locked first has all its locks.
\<close>

theorem lock_no_deadlock:
  assumes "lock_reachable c m txns s" and "\<forall>t. no_duplicate_keys c m (txns t)" and "lw_active s \<noteq> []"
  shows "hd (lw_active s) \<in> set (dlm_ready (lw_manager s) @ lw_running s)
    \<and> (\<forall>t \<in> set (lw_running s). \<exists>lm. Release t (txns t) (lw_manager s) = Inr lm)
    \<and> (\<exists>s'. lock_step txns s s' \<and> length (lw_active s') \<le> length (lw_active s))"
proof -
  note inv = world_inv_reachable [OF assms(1,2)]
  obtain t ts where a: "lw_active s = t # ts" using assms(3) by (cases "lw_active s") auto
  then have first: "t \<in> set (dlm_ready (lw_manager s) @ lw_running s)" by (rule dlm.first_granted [OF inv])
  have rel: "\<exists>lm. Release u (txns u) (lw_manager s) = Inr lm" if "u \<in> set (lw_running s)" for u
    using dlm.inv_release [OF inv that] by (auto simp: release_txn_def)
  have "\<exists>s'. lock_step txns s s' \<and> length (lw_active s') \<le> length (lw_active s)"
  proof (cases "dlm_ready (lw_manager s)")
    case Nil
    with first have t: "t \<in> set (lw_running s)" by simp
    with rel obtain lm where "Release t (txns t) (lw_manager s) = Inr lm" by blast
    from lock_step.step_release [of t s txns lm, OF t this] show ?thesis by (auto intro!: exI)
  next
    case (Cons u us)
    from step_dispatch [OF this, of txns] show ?thesis by (auto intro!: exI)
  qed
  with first rel a show ?thesis by simp
qed

text \<open>
  A key named twice. \<open>Lock\<close> skips the second entry, but \<open>Release\<close> does not: it looks for a
  request list that the first entry has already removed, and dereferences the end iterator.
\<close>

theorem Release_duplicate_undefined:
  assumes "locks_entry c m txn e" and "tx_read_set txn = []" and "tx_read_write_set txn = [e, e]"
  shows "fst (Lock t txn (DeterministicLockManager_new [] c m)) = 0
    \<and> Release t txn (snd (Lock t txn (DeterministicLockManager_new [] c m))) = Inl Undefined_behaviour"
  using assms
  by (simp add: Lock_def Lock_write_entry_def Release_def Release_entry_def Release_key_def
      DeterministicLockManager_new_def find_requests_def new_owners_def Let_def)

section \<open>Concrete runs\<close>

text \<open>Transactions 2 and 3 write the same local key, transaction 4 another one.\<close>

definition example_txns :: "txn_ptr \<Rightarrow> txn_proto" where
  "example_txns t =
     (if t = 2 \<or> t = 3 then TxnProto_new\<lparr>tx_read_write_set := [\<lparr>ke_key = ''0'', ke_master = 0, ke_counter = 0\<rparr>]\<rparr>
      else if t = 4 then TxnProto_new\<lparr>tx_read_write_set := [\<lparr>ke_key = ''2'', ke_master = 0, ke_counter = 0\<rparr>]\<rparr>
      else TxnProto_new)"

lemma example_IsLocal: "IsLocal (example_config 0) ''0''" "IsLocal (example_config 0) ''2''"
proof -
  have "StringToInt ''2'' = 2"
    by (simp add: StringToInt_def strtol_value_def isspace_char_def isdigit_char_def digit_value_def)
  then show "IsLocal (example_config 0) ''0''" "IsLocal (example_config 0) ''2''"
    by (simp_all add: IsLocal_def LookupPartition_def example_StringToInt example_config_size)
      (simp_all add: example_config_def)
qed

lemma example_wanted:
  "wanted (example_config 0) 0 (example_txns 2) k = (if k = ''0'' then WRITE else UNLOCKED)"
  "wanted (example_config 0) 0 (example_txns 3) k = (if k = ''0'' then WRITE else UNLOCKED)"
  "wanted (example_config 0) 0 (example_txns 4) k = (if k = ''2'' then WRITE else UNLOCKED)"
  by (simp_all add: wanted_def locked_keys_def locks_entry_def example_txns_def TxnProto_new_def example_IsLocal)

lemma example_no_duplicates: "\<forall>t. no_duplicate_keys (example_config 0) 0 (example_txns t)"
  by (simp add: no_duplicate_keys_def locked_keys_def example_txns_def TxnProto_new_def)

text \<open>The world after locking 2, 3 and 4 in this order.\<close>

definition example_manager :: "txn_ptr list \<Rightarrow> lock_manager" where
  "example_manager ts = fold (acquire_txn example_txns) ts (DeterministicLockManager_new [] (example_config 0) 0)"

definition example_world :: lock_world where
  "example_world = \<lparr>lw_active = [2, 3, 4], lw_running = [], lw_manager = example_manager [2, 3, 4]\<rparr>"

lemma example_manager_for:
  "distinct ts \<Longrightarrow> manager_for (example_config 0) 0 example_txns ts (example_manager ts)"
proof (induction ts rule: rev_induct)
  case Nil
  then show ?case
    using represents_new [of "example_config 0" 0 example_txns "[]"] example_no_duplicates
    by (simp add: manager_for_def example_manager_def DeterministicLockManager_new_def)
next
  case (snoc t ts)
  then show ?case using dlm.acquire_rep by (simp add: example_manager_def)
qed

lemma example_world_reachable: "lock_reachable (example_config 0) 0 example_txns example_world"
proof -
  let ?W = "\<lambda>ts. \<lparr>lw_active = ts, lw_running = [], lw_manager = example_manager ts\<rparr>"
  have step: "lock_step example_txns (?W ts) (?W (ts @ [t]))" if "t \<notin> set ts" for t ts
    using step_lock [of t "?W ts" example_txns "fst (Lock t (example_txns t) (example_manager ts))"] that
    by (simp add: example_manager_def acquire_txn_def)
  have "lock_start (example_config 0) 0 = ?W []" by (simp add: lock_start_def example_manager_def)
  moreover have "(lock_step example_txns)\<^sup>*\<^sup>* (?W []) (?W [2, 3, 4])"
    using step [of 2 "[]"] step [of 3 "[2]"] step [of 4 "[2, 3]"] by (auto intro: converse_rtranclp_into_rtranclp)
  ultimately show ?thesis by (simp add: lock_reachable_def example_world_def)
qed

lemma example_ready: "2 \<in> set (dlm_ready (lw_manager example_world))" "4 \<in> set (dlm_ready (lw_manager example_world))"
proof -
  have inv: "world_inv (example_config 0) 0 example_txns example_world"
    using world_inv_reachable [OF example_world_reachable example_no_duplicates] .
  let ?w = "wants_of (example_config 0) 0 example_txns"
  have "\<not> blocked ?w [2, 3, 4] 2 k" "\<not> blocked ?w [2, 3, 4] 4 k" for k
    by (simp_all add: blocked_def wants_of_def example_wanted holders_Cons)
  then have "wait_count ?w [2, 3, 4] 2 = 0" "wait_count ?w [2, 3, 4] 4 = 0" by (simp_all add: wait_count_def)
  with inv show "2 \<in> set (dlm_ready (lw_manager example_world))" "4 \<in> set (dlm_ready (lw_manager example_world))"
    by (auto simp: dlm.service_inv_def example_world_def)
qed

lemma Lock_refines_append_witness:
  "manager_for (example_config 0) 0 example_txns [2, 3] (snd (Lock 3 (example_txns 3) (example_manager [2])))"
proof -
  obtain n lm' where l: "Lock 3 (example_txns 3) (example_manager [2]) = (n, lm')"
    by (cases "Lock 3 (example_txns 3) (example_manager [2])")
  show ?thesis using Lock_refines_append [OF example_manager_for [of "[2]"] _ l] l by simp
qed

lemma Release_refines_delete_witness:
  "\<exists>lm'. Release 2 (example_txns 2) (example_manager [2, 3, 4]) = Inr lm'
    \<and> manager_for (example_config 0) 0 example_txns [3, 4] lm'"
proof -
  have "wait_count (wants_of (example_config 0) 0 example_txns) [2, 3, 4] 2 = 0"
    by (simp add: wait_count_def blocked_def wants_of_def example_wanted holders_Cons)
  from Release_refines_delete [OF example_manager_for [of "[2, 3, 4]"] _ this] show ?thesis by auto
qed

lemma lock_mutual_exclusion_witness:
  "\<not> conflict (wanted (example_config 0) 0 (example_txns 2) ''0'') (wanted (example_config 0) 0 (example_txns 4) ''0'')"
  by (rule lock_mutual_exclusion [OF example_world_reachable example_no_duplicates]) (simp_all add: example_ready)

lemma lock_order_respected_witness: "3 \<notin> set (dlm_ready (lw_manager example_world) @ lw_running example_world)"
  by (rule lock_order_respected [OF example_world_reachable example_no_duplicates, of "[]" 2 "[3, 4]" 3 "''0''"])
    (simp_all add: example_world_def example_wanted conflict_def)

lemma lock_no_deadlock_witness: "2 \<in> set (dlm_ready (lw_manager example_world) @ lw_running example_world)"
  using lock_no_deadlock [OF example_world_reachable example_no_duplicates]
  by (simp add: example_world_def)

lemma Release_duplicate_undefined_witness:
  "Release 2 (TxnProto_new\<lparr>tx_read_write_set := [\<lparr>ke_key = ''0'', ke_master = 0, ke_counter = 0\<rparr>, \<lparr>ke_key = ''0'', ke_master = 0, ke_counter = 0\<rparr>]\<rparr>)
     (snd (Lock 2 (TxnProto_new\<lparr>tx_read_write_set := [\<lparr>ke_key = ''0'', ke_master = 0, ke_counter = 0\<rparr>, \<lparr>ke_key = ''0'', ke_master = 0, ke_counter = 0\<rparr>]\<rparr>)
       (DeterministicLockManager_new [] (example_config 0) 0)))
    = Inl Undefined_behaviour"
  by (rule Release_duplicate_undefined [THEN conjunct2])
    (simp_all add: locks_entry_def example_IsLocal TxnProto_new_def)

end
