(* ===== verification/Storage.thy ===== *)
theory Storage
  imports Calvin_Prelude
begin

text \<open>
  \<open>backend/storage.h\<close> and \<open>backend/simple_storage.cc\<close>: records, which the program shares by
  pointer, and the map from keys to record pointers. A pointer is an index into a heap that only
  grows (no record is ever freed). The locale \<open>record_store\<close> is the \<open>Storage\<close> interface.
\<close>

section \<open>Records\<close>

text \<open>\<open>REPLICA_SIZE\<close> counters of accesses per origin replica.\<close>

definition REPLICA_SIZE :: nat where "REPLICA_SIZE = 3"
definition LAST_N_TOUCH :: uint32 where "LAST_N_TOUCH = 10000"

text \<open>\<open>ACCESS_PATTERN_THRESHOLD\<close> is 0.90; comparisons with it are written out on integers.\<close>

record db_record =
  rec_value :: string
  rec_master :: uint32
  rec_counter :: uint64
  rec_access_pattern :: "uint32 list"
  rec_remastering :: bool
  rec_access_cnt :: uint32

definition Record_new_counter :: "string \<Rightarrow> uint32 \<Rightarrow> uint64 \<Rightarrow> db_record" where
  "Record_new_counter v m c =
     \<lparr>rec_value = v, rec_master = m, rec_counter = c,
      rec_access_pattern = replicate REPLICA_SIZE 0, rec_remastering = False, rec_access_cnt = 0\<rparr>"

definition Record_new :: "string \<Rightarrow> uint32 \<Rightarrow> db_record" where
  "Record_new v m = Record_new_counter v m 0"

section \<open>The heap\<close>

type_synonym rec_ptr = nat
type_synonym rec_heap = "db_record list"

text \<open>\<open>new Record(...)\<close>, reading and writing through a pointer; a wild pointer is undefined behaviour.\<close>

definition heap_new :: "db_record \<Rightarrow> rec_heap \<Rightarrow> rec_ptr \<times> rec_heap" where
  "heap_new r h = (length h, h @ [r])"

definition heap_get :: "rec_heap \<Rightarrow> rec_ptr \<Rightarrow> db_record outcome" where
  "heap_get h p = (if p < length h then Inr (h ! p) else Inl Undefined_behaviour)"

definition heap_modify :: "rec_ptr \<Rightarrow> (db_record \<Rightarrow> db_record) \<Rightarrow> rec_heap \<Rightarrow> rec_heap outcome" where
  "heap_modify p f h = (if p < length h then Inr (h[p := f (h ! p)]) else Inl Undefined_behaviour)"

lemma heap_new_get [simp]: "heap_get (snd (heap_new r h)) (fst (heap_new r h)) = Inr r"
  by (simp add: heap_new_def heap_get_def)

lemma heap_new_other [simp]: "heap_get h p = Inr x \<Longrightarrow> heap_get (snd (heap_new r h)) p = Inr x"
  by (auto simp: heap_new_def heap_get_def nth_append split: if_splits)

lemma heap_modify_get:
  "heap_modify p f h = Inr h' \<Longrightarrow>
     heap_get h' q = (if p = q then (case heap_get h p of Inl e \<Rightarrow> Inl e | Inr x \<Rightarrow> Inr (f x)) else heap_get h q)"
  by (auto simp: heap_modify_def heap_get_def split: if_splits)

section \<open>SimpleStorage\<close>

type_synonym simple_storage = "string \<rightharpoonup> rec_ptr"

definition ReadObject :: "simple_storage \<Rightarrow> string \<Rightarrow> rec_ptr outcome" where
  "ReadObject s key = (case s key of None \<Rightarrow> Inl Check_failed | Some p \<Rightarrow> Inr p)"

definition PutObject :: "string \<Rightarrow> rec_ptr \<Rightarrow> simple_storage \<Rightarrow> bool \<times> simple_storage" where
  "PutObject key p s = (True, s(key \<mapsto> p))"

definition DeleteObject :: "string \<Rightarrow> simple_storage \<Rightarrow> bool \<times> simple_storage" where
  "DeleteObject key s = (True, s(key := None))"

definition GetMasterCounter :: "simple_storage \<Rightarrow> rec_heap \<Rightarrow> string \<Rightarrow> (uint32 \<times> uint64) outcome" where
  "GetMasterCounter s h key =
     bindE (ReadObject s key) (\<lambda>p. bindE (heap_get h p) (\<lambda>r. Inr (rec_master r, rec_counter r)))"

section \<open>The storage interface\<close>

text \<open>\<open>load\<close> is the loop of an \<open>InitializeStorage\<close>: one new record per entry.\<close>

definition load_entry :: "string \<times> db_record \<Rightarrow> simple_storage \<times> rec_heap \<Rightarrow> simple_storage \<times> rec_heap" where
  "load_entry kr sh = (let (p, h) = heap_new (snd kr) (snd sh) in (snd (PutObject (fst kr) p (fst sh)), h))"

locale record_store =
  fixes read :: "'s \<Rightarrow> string \<Rightarrow> 'p outcome" and put :: "string \<Rightarrow> 'p \<Rightarrow> 's \<Rightarrow> bool \<times> 's"
    and delete :: "string \<Rightarrow> 's \<Rightarrow> bool \<times> 's"
  assumes read_put: "put k p s = (b, s') \<Longrightarrow> b \<and> read s' j = (if j = k then Inr p else read s j)"
    and read_delete: "delete k s = (b, s') \<Longrightarrow> b \<and> read s' j = (if j = k then Inl Check_failed else read s j)"
begin

lemma read_after_put [simp]: "read (snd (put k p s)) j = (if j = k then Inr p else read s j)"
  using read_put [of k p s "fst (put k p s)" "snd (put k p s)" j] by simp

lemma read_after_delete [simp]: "read (snd (delete k s)) j = (if j = k then Inl Check_failed else read s j)"
  using read_delete [of k s "fst (delete k s)" "snd (delete k s)" j] by simp

lemma read_after_puts:
  "read (fold (\<lambda>(k, p) s. snd (put k p s)) kps s) j
     = (case map_of (rev kps) j of Some p \<Rightarrow> Inr p | None \<Rightarrow> read s j)"
proof (induction kps arbitrary: s)
  case (Cons kp kps)
  then show ?case by (cases kp) (auto simp: map_add_def split: option.splits)
qed simp

lemma read_after_puts_present:
  "k \<in> fst ` set kps \<Longrightarrow> \<exists>p. read (fold (\<lambda>(k, p) s. snd (put k p s)) kps s) k = Inr p"
  using map_of_eq_None_iff [of "rev kps" k] by (auto simp: read_after_puts split: option.splits)

end

interpretation ss: record_store ReadObject PutObject DeleteObject
  by unfold_locales (auto simp: ReadObject_def PutObject_def DeleteObject_def)

text \<open>A store and a heap belong together when every stored pointer is valid.\<close>

definition store_ok :: "simple_storage \<Rightarrow> rec_heap \<Rightarrow> bool" where
  "store_ok s h \<longleftrightarrow> (\<forall>k p. s k = Some p \<longrightarrow> p < length h)"

lemma load_entry_ok: "store_ok s h \<Longrightarrow> load_entry kr (s, h) = (s', h') \<Longrightarrow> store_ok s' h'"
  by (auto simp: store_ok_def load_entry_def heap_new_def PutObject_def less_Suc_eq split: if_splits)

lemma load_ok: "store_ok (fst sh) (snd sh) \<Longrightarrow> fold load_entry krs sh = sh' \<Longrightarrow> store_ok (fst sh') (snd sh')"
proof (induction krs arbitrary: sh)
  case (Cons kr krs)
  obtain s h where sh: "sh = (s, h)" by (cases sh)
  obtain s' h' where "load_entry kr sh = (s', h')" by (cases "load_entry kr sh")
  with Cons.prems Cons.IH [of "(s', h')"] sh load_entry_ok [of s h kr s' h'] show ?case by simp
qed simp

definition record_of :: "simple_storage \<times> rec_heap \<Rightarrow> string \<Rightarrow> db_record option" where
  "record_of sh k = (case fst sh k of None \<Rightarrow> None
     | Some p \<Rightarrow> if p < length (snd sh) then Some (snd sh ! p) else None)"

lemma record_of_load_entry:
  "store_ok (fst sh) (snd sh) \<Longrightarrow>
     record_of (load_entry kr sh) = (record_of sh)(fst kr \<mapsto> snd kr)"
  by (auto simp: record_of_def load_entry_def heap_new_def PutObject_def store_ok_def nth_append fun_eq_iff
      less_Suc_eq split: option.splits)

lemma record_of_load:
  "store_ok (fst sh) (snd sh) \<Longrightarrow> record_of (fold load_entry krs sh) = record_of sh ++ map_of (rev krs)"
proof (induction krs arbitrary: sh)
  case (Cons kr krs)
  have "store_ok (fst (load_entry kr sh)) (snd (load_entry kr sh))"
    using Cons.prems by (cases "load_entry kr sh"; cases sh) (auto dest: load_entry_ok)
  with Cons show ?case by (cases kr) (auto simp: record_of_load_entry fun_eq_iff map_add_def split: option.splits)
qed simp

end
