(* ===== verification/Scheduler.thy ===== *)
theory Scheduler
  imports Lock_Manager Storage
begin

text \<open>
  \<open>scheduler/deterministic_scheduler.cc\<close>, the lock manager thread: the selection of the next batch
  (\<open>GetBatch\<close>), the check of masters and counters without locks (\<open>VerifyStorageCounters\<close>), the
  queues of transactions that wait for a remaster, and the main loop that locks new transactions,
  passes the ready ones on and releases the finished ones. A channel of the connection is the list of
  the messages that are waiting in it.
\<close>

section \<open>GetBatch\<close>

record 'b batch_state =
  bs_inbox :: "'b message_proto list"                       \<comment> \<open>the channel \<open>scheduler_\<close>\<close>
  bs_batches_data :: "uint64 \<rightharpoonup> 'b message_proto"
  bs_global_batches_order :: "uint64 \<rightharpoonup> 'b message_proto"
  bs_sequence :: "sequence option"
  bs_sequence_id :: uint32
  bs_batch_index :: uint32
  bs_batch_id :: uint64

definition batch_state_new :: "'b batch_state" where
  "batch_state_new =
     \<lparr>bs_inbox = [], bs_batches_data = Map.empty, bs_global_batches_order = Map.empty, bs_sequence = None,
      bs_sequence_id = 1, bs_batch_index = 0, bs_batch_id = 0\<rparr>"

text \<open>The first receive loop: up to the order of the current sequence.\<close>

fun receive_order :: "'b codec \<Rightarrow> 'b message_proto list \<Rightarrow> 'b batch_state \<Rightarrow> 'b batch_state outcome" where
  "receive_order cd [] s = Inr (s\<lparr>bs_inbox := []\<rparr>)"
| "receive_order cd (m # ms) s =
     (if msg_type m = TXN_SUBBATCH
      then receive_order cd ms (s\<lparr>bs_batches_data := (bs_batches_data s)(msg_batch_number m \<mapsto> m)\<rparr>)
      else if msg_type m = PAXOS_BATCH_ORDER
      then bindE (rep_get (msg_misc_int m) 0) (\<lambda>i.
             if i = ucast (bs_sequence_id s)
             then bindE (rep_get (msg_data m) 0) (\<lambda>d.
                    Inr (s\<lparr>bs_inbox := ms, bs_sequence := Some (dec_seq cd d), bs_batch_index := 0\<rparr>))
             else receive_order cd ms (s\<lparr>bs_global_batches_order := (bs_global_batches_order s)(i \<mapsto> m)\<rparr>))
      else receive_order cd ms s)"

text \<open>The step to the next position after a batch is found.\<close>

definition advance_batch :: "sequence \<Rightarrow> 'b batch_state \<Rightarrow> 'b batch_state" where
  "advance_batch sq s =
     (let i = bs_batch_index s + 1
      in if of_nat (length sq) \<le> i
         then s\<lparr>bs_batch_index := i, bs_sequence := None, bs_sequence_id := bs_sequence_id s + 1\<rparr>
         else s\<lparr>bs_batch_index := i\<rparr>)"

text \<open>The second receive loop: up to the data of the current batch.\<close>

fun receive_batch ::
  "sequence \<Rightarrow> 'b message_proto list \<Rightarrow> 'b batch_state \<Rightarrow> ('b message_proto option \<times> 'b batch_state) outcome" where
  "receive_batch sq [] s = Inr (None, s\<lparr>bs_inbox := []\<rparr>)"
| "receive_batch sq (m # ms) s =
     (if msg_type m = TXN_SUBBATCH
      then if msg_batch_number m = bs_batch_id s then Inr (Some m, advance_batch sq (s\<lparr>bs_inbox := ms\<rparr>))
           else receive_batch sq ms (s\<lparr>bs_batches_data := (bs_batches_data s)(msg_batch_number m \<mapsto> m)\<rparr>)
      else if msg_type m = PAXOS_BATCH_ORDER
      then bindE (rep_get (msg_misc_int m) 0) (\<lambda>i.
             receive_batch sq ms (s\<lparr>bs_global_batches_order := (bs_global_batches_order s)(i \<mapsto> m)\<rparr>))
      else receive_batch sq ms s)"

definition find_sequence :: "'b codec \<Rightarrow> 'b batch_state \<Rightarrow> 'b batch_state outcome" where
  "find_sequence cd s =
     (if bs_sequence s \<noteq> None then Inr s
      else case bs_global_batches_order s (ucast (bs_sequence_id s)) of
          Some m \<Rightarrow> bindE (rep_get (msg_data m) 0) (\<lambda>d.
            Inr (s\<lparr>bs_sequence := Some (dec_seq cd d), bs_batch_index := 0,
                   bs_global_batches_order := (bs_global_batches_order s)(ucast (bs_sequence_id s) := None)\<rparr>))
        | None \<Rightarrow> receive_order cd (bs_inbox s) s)"

definition find_batch :: "sequence \<Rightarrow> 'b batch_state \<Rightarrow> ('b message_proto option \<times> 'b batch_state) outcome" where
  "find_batch sq s =
     CHECK (bs_batch_index s < of_nat (length sq))
      (bindE (rep_get sq (unat (bs_batch_index s))) (\<lambda>b.
        let s' = s\<lparr>bs_batch_id := b\<rparr>
        in case bs_batches_data s' b of
             Some m \<Rightarrow> Inr (Some m, advance_batch sq (s'\<lparr>bs_batches_data := (bs_batches_data s')(b := None)\<rparr>))
           | None \<Rightarrow> receive_batch sq (bs_inbox s') s'))"

definition GetBatch :: "'b codec \<Rightarrow> 'b batch_state \<Rightarrow> ('b message_proto option \<times> 'b batch_state) outcome" where
  "GetBatch cd s =
     bindE (find_sequence cd s) (\<lambda>s'.
       case bs_sequence s' of None \<Rightarrow> Inr (None, s') | Some sq \<Rightarrow> find_batch sq s')"

section \<open>VerifyStorageCounters\<close>

text \<open>The accumulator: can execute now, the keys waited for, aborted.\<close>

definition verify_entry ::
  "cluster_config \<Rightarrow> simple_storage \<Rightarrow> rec_heap \<Rightarrow> uint32 \<Rightarrow> key_entry
    \<Rightarrow> bool \<times> (string \<times> uint64) list \<times> bool \<Rightarrow> (bool \<times> (string \<times> uint64) list \<times> bool) outcome" where
  "verify_entry c st h origin e acc =
     (case acc of (can, keys, aborted) \<Rightarrow>
       if IsLocal c (ke_key e) \<and> ke_master e = origin
       then bindE (GetMasterCounter st h (ke_key e)) (\<lambda>(m, cnt).
              if ke_counter e > cnt then Inr (False, os_insert (ke_key e, ke_counter e) keys, aborted)
              else if ke_counter e < cnt then Inr (can, keys, True)
              else Inr (can, keys, aborted))
       else Inr (can, keys, aborted))"

text \<open>The result: can execute now, the keys waited for, and the transaction with its new status.\<close>

definition VerifyStorageCounters ::
  "cluster_config \<Rightarrow> simple_storage \<Rightarrow> rec_heap \<Rightarrow> txn_proto \<Rightarrow> (bool \<times> (string \<times> uint64) list \<times> txn_proto) outcome" where
  "VerifyStorageCounters c st h txn =
     bindE (foldE (verify_entry c st h (tx_origin_replica txn)) (tx_read_set txn) (True, [], False)) (\<lambda>acc.
     bindE (foldE (verify_entry c st h (tx_origin_replica txn)) (tx_read_write_set txn) acc) (\<lambda>(can, keys, aborted).
       Inr (can, keys, if aborted then txn\<lparr>tx_status := ABORTED_WITHOUT_LOCK\<rparr> else txn)))"

section \<open>Transactions that wait for a remaster\<close>

record remaster_waits =
  rw_by_key :: "string \<times> uint64 \<rightharpoonup> txn_ptr list"         \<comment> \<open>\<open>waiting_txns_by_key_\<close>\<close>
  rw_by_txnid :: "uint64 \<rightharpoonup> (string \<times> uint64) list"      \<comment> \<open>\<open>waiting_txns_by_txnid_\<close>\<close>
  rw_blocking :: "uint32 \<Rightarrow> txn_ptr list"                \<comment> \<open>\<open>blocking_txns_\<close>, empty where absent\<close>

definition remaster_waits_new :: remaster_waits where
  "remaster_waits_new = \<lparr>rw_by_key = Map.empty, rw_by_txnid = Map.empty, rw_blocking = (\<lambda>_. [])\<rparr>"

type_synonym txn_heap = "txn_ptr \<Rightarrow> txn_proto"

definition set_waiting :: "txn_ptr \<Rightarrow> bool \<Rightarrow> txn_heap \<Rightarrow> txn_heap" where
  "set_waiting t b h = h(t := (h t)\<lparr>tx_wait_for_remaster_pros := b\<rparr>)"

text \<open>A transaction that cannot execute yet: queued behind its origin and registered under its keys.\<close>

definition block_waiting ::
  "txn_ptr \<Rightarrow> (string \<times> uint64) list \<Rightarrow> txn_heap \<times> remaster_waits \<Rightarrow> txn_heap \<times> remaster_waits" where
  "block_waiting t keys hw =
     (let h = fst hw; w = snd hw; origin = tx_origin_replica (h t)
      in (set_waiting t True h,
          w\<lparr>rw_blocking := (rw_blocking w)(origin := rw_blocking w origin @ [t]),
            rw_by_txnid := (rw_by_txnid w)(tx_txn_id (h t) \<mapsto> keys),
            rw_by_key := fold (\<lambda>k m. m(k \<mapsto> get_or [] (m k) @ [t])) keys (rw_by_key w)\<rparr>))"

text \<open>One round of the loop over the transactions blocked on \<open>key_info\<close>.\<close>

definition wake_txn ::
  "string \<times> uint64 \<Rightarrow> txn_ptr \<Rightarrow> txn_ptr list \<times> txn_heap \<times> remaster_waits
    \<Rightarrow> (txn_ptr list \<times> txn_heap \<times> remaster_waits) outcome" where
  "wake_txn key_info a st =
     (case st of (ready, h, w) \<Rightarrow>
       let txn_id = tx_txn_id (h a);
           keys = removeAll key_info (get_or [] (rw_by_txnid w txn_id));
           w1 = w\<lparr>rw_by_txnid := (rw_by_txnid w)(txn_id \<mapsto> keys)\<rparr>
       in if keys = [] then
            let h1 = set_waiting a False h;
                w2 = w1\<lparr>rw_by_txnid := (rw_by_txnid w1)(txn_id := None)\<rparr>;
                origin = tx_origin_replica (h1 a);
                q = rw_blocking w2 origin
            in require_defined (q \<noteq> [])
                (if hd q = a
                 then Inr (ready @ a # takeWhile (\<lambda>t. \<not> tx_wait_for_remaster_pros (h1 t)) (tl q), h1,
                           w2\<lparr>rw_blocking := (rw_blocking w2)(origin :=
                                 dropWhile (\<lambda>t. \<not> tx_wait_for_remaster_pros (h1 t)) (tl q))\<rparr>)
                 else Inr (ready, h1, w2))
          else Inr (ready, h, w1))"

definition wake_blocked ::
  "string \<times> uint64 \<Rightarrow> txn_heap \<times> remaster_waits \<Rightarrow> (txn_ptr list \<times> txn_heap \<times> remaster_waits) outcome" where
  "wake_blocked key_info hw =
     (case rw_by_key (snd hw) key_info of
        None \<Rightarrow> Inr ([], hw)
      | Some blocked_txns \<Rightarrow>
          bindE (foldE (wake_txn key_info) blocked_txns ([], hw)) (\<lambda>(ready, h, w).
            Inr (ready, h, w\<lparr>rw_by_key := (rw_by_key w)(key_info := None)\<rparr>)))"

section \<open>The main loop of the lock manager thread\<close>

text \<open>
  \<open>ls_lm\<close> holds the configuration and the mode too. A deleted transaction is recorded in \<open>ls_freed\<close>;
  its pointer is not given out again. \<open>rnd\<close> is the sequence of values \<open>rand()\<close> returns,
  \<open>ls_rand\<close> the number of values drawn.
\<close>

record 'b lm_thread =
  ls_lm :: lock_manager
  ls_heap :: txn_heap
  ls_next :: txn_ptr
  ls_freed :: "txn_ptr list"
  ls_waits :: remaster_waits
  ls_done_queue :: "txn_ptr list"
  ls_txns_queue :: "txn_ptr list"
  ls_batch :: "'b message_proto option"
  ls_batch_offset :: nat
  ls_executing :: uint64
  ls_pending :: uint64
  ls_txns :: nat
  ls_rand :: nat
  ls_get :: "'b batch_state"
  ls_storage :: simple_storage
  ls_recs :: rec_heap

definition lock_txn :: "txn_ptr \<Rightarrow> 'b lm_thread \<Rightarrow> 'b lm_thread" where
  "lock_txn t s = s\<lparr>ls_lm := snd (Lock t (ls_heap s t) (ls_lm s)), ls_pending := ls_pending s + 1\<rparr>"

text \<open>A finished remaster transaction wakes transactions that wait for the new counter of its key.\<close>

definition done_remaster :: "txn_ptr \<Rightarrow> 'b lm_thread \<Rightarrow> 'b lm_thread outcome" where
  "done_remaster t s =
     (if dlm_mode (ls_lm s) = 2 \<and> tx_remaster_txn (ls_heap s t)
      then bindE (rep_get (tx_read_write_set (ls_heap s t)) 0) (\<lambda>e.
             bindE (wake_blocked (ke_key e, ke_counter e + 1) (ls_heap s, ls_waits s)) (\<lambda>(ready, h, w).
               Inr (fold lock_txn ready (s\<lparr>ls_heap := h, ls_waits := w\<rparr>))))
      else Inr s)"

definition done_release :: "txn_ptr \<Rightarrow> 'b lm_thread \<Rightarrow> 'b lm_thread outcome" where
  "done_release t s =
     (if tx_status (ls_heap s t) \<noteq> ABORTED_WITHOUT_LOCK
      then bindE (Release t (ls_heap s t) (ls_lm s)) (\<lambda>lm. Inr (s\<lparr>ls_lm := lm\<rparr>))
      else Inr s)"

text \<open>The throughput count; the second \<open>rand()\<close> is only drawn if the first test succeeds.\<close>

definition done_count :: "(nat \<Rightarrow> nat) \<Rightarrow> txn_ptr \<Rightarrow> 'b lm_thread \<Rightarrow> 'b lm_thread outcome" where
  "done_count rnd t s =
     (let txn = ls_heap s t; r = ls_rand s in
      if tx_status txn \<noteq> COMMITTED then Inr s
      else if tx_writers txn = [] then Inr (s\<lparr>ls_txns := ls_txns s + 1\<rparr>)
      else if rnd r mod length (tx_writers txn) \<noteq> 0 then Inr (s\<lparr>ls_rand := r + 1\<rparr>)
      else require_defined (tx_involved_replicas txn \<noteq> [])
             (Inr (s\<lparr>ls_rand := r + 2,
                     ls_txns := (if rnd (r + 1) mod length (tx_involved_replicas txn) = 0 then ls_txns s + 1
                                 else ls_txns s)\<rparr>)))"

definition handle_done :: "(nat \<Rightarrow> nat) \<Rightarrow> txn_ptr \<Rightarrow> 'b lm_thread \<Rightarrow> 'b lm_thread outcome" where
  "handle_done rnd t s =
     bindE (done_remaster t s) (\<lambda>s1.
     bindE (done_release t s1) (\<lambda>s2.
     bindE (done_count rnd t (s2\<lparr>ls_executing := ls_executing s2 - 1\<rparr>)) (\<lambda>s3.
       Inr (s3\<lparr>ls_freed := ls_freed s3 @ [t]\<rparr>))))"

text \<open>\<open>while (done_queue_->Pop(...))\<close>\<close>

definition drain_done :: "(nat \<Rightarrow> nat) \<Rightarrow> 'b lm_thread \<Rightarrow> 'b lm_thread outcome" where
  "drain_done rnd s = foldE (handle_done rnd) (ls_done_queue s) (s\<lparr>ls_done_queue := []\<rparr>)"

text \<open>One transaction of the current batch: parsed into a new \<open>TxnProto\<close>, then locked, queued or passed on.\<close>

definition admit_txn :: "txn_proto \<Rightarrow> 'b lm_thread \<Rightarrow> 'b lm_thread outcome" where
  "admit_txn txn s0 =
     (let t = ls_next s0;
          s = s0\<lparr>ls_next := t + 1, ls_heap := (ls_heap s0)(t := txn)\<rparr>
      in if dlm_mode (ls_lm s) = 2 \<and> \<not> tx_remaster_txn txn then
           bindE (VerifyStorageCounters (dlm_config (ls_lm s)) (ls_storage s) (ls_recs s) txn) (\<lambda>(can, keys, txn').
             let s1 = s\<lparr>ls_heap := (ls_heap s)(t := txn')\<rparr>; origin = tx_origin_replica txn'; w = ls_waits s1
             in if \<not> can then
                  let (h, w') = block_waiting t keys (ls_heap s1, w) in Inr (s1\<lparr>ls_heap := h, ls_waits := w'\<rparr>)
                else if tx_status txn' = ABORTED_WITHOUT_LOCK then
                  Inr (s1\<lparr>ls_lm := (ls_lm s1)\<lparr>dlm_ready := dlm_ready (ls_lm s1) @ [t]\<rparr>, ls_pending := ls_pending s1 + 1\<rparr>)
                else if rw_blocking w origin \<noteq> [] then
                  Inr (s1\<lparr>ls_waits := w\<lparr>rw_blocking := (rw_blocking w)(origin := rw_blocking w origin @ [t])\<rparr>\<rparr>)
                else Inr (lock_txn t s1))
         else Inr (lock_txn t s))"

fun take_txns :: "'b codec \<Rightarrow> 'b message_proto \<Rightarrow> nat \<Rightarrow> 'b lm_thread \<Rightarrow> 'b lm_thread outcome" where
  "take_txns cd b 0 s = Inr s"
| "take_txns cd b (Suc n) s =
     (if length (msg_data b) \<le> ls_batch_offset s then Inr s
      else bindE (admit_txn (dec_txn cd (msg_data b ! ls_batch_offset s)) (s\<lparr>ls_batch_offset := ls_batch_offset s + 1\<rparr>))
             (take_txns cd b n))"

definition maximum_txns :: uint64 where "maximum_txns = 10000000"
definition num_txns_once :: nat where "num_txns_once = 10"

definition next_batch :: "'b codec \<Rightarrow> 'b lm_thread \<Rightarrow> 'b lm_thread outcome" where
  "next_batch cd s = bindE (GetBatch cd (ls_get s)) (\<lambda>(b, g). Inr (s\<lparr>ls_batch := b, ls_get := g\<rparr>))"

definition new_txns :: "'b codec \<Rightarrow> 'b lm_thread \<Rightarrow> 'b lm_thread outcome" where
  "new_txns cd s =
     (case ls_batch s of
        None \<Rightarrow> next_batch cd s
      | Some b \<Rightarrow>
          if length (msg_data b) \<le> ls_batch_offset s then next_batch cd (s\<lparr>ls_batch_offset := 0\<rparr>)
          else if ls_executing s + ls_pending s < maximum_txns then take_txns cd b num_txns_once s
          else Inr s)"

text \<open>\<open>while (ready_txns_->Pop(...))\<close>\<close>

definition drain_ready :: "'b lm_thread \<Rightarrow> 'b lm_thread" where
  "drain_ready s =
     fold (\<lambda>t u. u\<lparr>ls_pending := ls_pending u - 1, ls_executing := ls_executing u + 1,
                   ls_txns_queue := ls_txns_queue u @ [t]\<rparr>)
       (dlm_ready (ls_lm s)) (s\<lparr>ls_lm := (ls_lm s)\<lparr>dlm_ready := []\<rparr>\<rparr>)"

definition RunLockManagerThread_iteration ::
  "'b codec \<Rightarrow> (nat \<Rightarrow> nat) \<Rightarrow> 'b lm_thread \<Rightarrow> 'b lm_thread outcome" where
  "RunLockManagerThread_iteration cd rnd s =
     bindE (drain_done rnd s) (\<lambda>s1. bindE (new_txns cd s1) (\<lambda>s2. Inr (drain_ready s2)))"

definition DeterministicScheduler_new ::
  "cluster_config \<Rightarrow> uint32 \<Rightarrow> simple_storage \<Rightarrow> rec_heap \<Rightarrow> 'b lm_thread" where
  "DeterministicScheduler_new c m st recs =
     \<lparr>ls_lm = DeterministicLockManager_new [] c m, ls_heap = (\<lambda>_. TxnProto_new), ls_next = 0, ls_freed = [],
      ls_waits = remaster_waits_new, ls_done_queue = [], ls_txns_queue = [], ls_batch = None,
      ls_batch_offset = 0, ls_executing = 0, ls_pending = 0, ls_txns = 0, ls_rand = 0,
      ls_get = batch_state_new, ls_storage = st, ls_recs = recs\<rparr>"

section \<open>The order of the batches\<close>

text \<open>
  \<open>seqs ! (i - 1)\<close> is the agreed sequence number \<open>i\<close>, \<open>data b\<close> the message with the batch \<open>b\<close>.
  A genuine message carries what was agreed; it may come in any order, more than once, or never.
  Nothing is asked of an order with the number 0, which the thread never looks for.
\<close>

definition genuine :: "'b codec \<Rightarrow> sequence list \<Rightarrow> (uint64 \<Rightarrow> 'b message_proto) \<Rightarrow> 'b message_proto \<Rightarrow> bool" where
  "genuine cd seqs data m \<longleftrightarrow>
     (msg_type m = TXN_SUBBATCH \<longrightarrow> m = data (msg_batch_number m))
     \<and> (msg_type m = PAXOS_BATCH_ORDER \<longrightarrow> msg_misc_int m \<noteq> [] \<and> (hd (msg_misc_int m) \<noteq> 0 \<longrightarrow>
          (\<exists>i < length seqs. \<exists>d ds. hd (msg_misc_int m) = of_nat (Suc i)
             \<and> msg_data m = d # ds \<and> dec_seq cd d = seqs ! i)))"

definition seqs_ok :: "sequence list \<Rightarrow> bool" where
  "seqs_ok seqs \<longleftrightarrow> length seqs < 2 ^ 32 - 1 \<and> (\<forall>sq \<in> set seqs. sq \<noteq> [] \<and> length sq < 2 ^ 32)
     \<and> distinct (concat seqs)"

text \<open>The index of the current sequence, and the well-formedness of what has been received.\<close>

definition seq_no :: "'b batch_state \<Rightarrow> nat" where
  "seq_no s = unat (bs_sequence_id s) - 1"

definition received_ok ::
  "'b codec \<Rightarrow> sequence list \<Rightarrow> (uint64 \<Rightarrow> 'b message_proto) \<Rightarrow> 'b batch_state \<Rightarrow> bool" where
  "received_ok cd seqs data s \<longleftrightarrow>
     (\<forall>m \<in> set (bs_inbox s). genuine cd seqs data m)
     \<and> (\<forall>b m. bs_batches_data s b = Some m \<longrightarrow> m = data b)
     \<and> (\<forall>i m. bs_global_batches_order s i = Some m \<longrightarrow>
           i \<noteq> 0 \<longrightarrow> (\<exists>j < length seqs. i = of_nat (Suc j) \<and> (\<exists>d ds. msg_data m = d # ds \<and> dec_seq cd d = seqs ! j)))
     \<and> 1 \<le> unat (bs_sequence_id s) \<and> seq_no s \<le> length seqs"

definition position_ok :: "sequence list \<Rightarrow> nat \<Rightarrow> 'b batch_state \<Rightarrow> bool" where
  "position_ok seqs n s \<longleftrightarrow>
     (case bs_sequence s of
        None \<Rightarrow> n = length (concat (take (seq_no s) seqs))
      | Some sq \<Rightarrow> seq_no s < length seqs \<and> sq = seqs ! seq_no s \<and> unat (bs_batch_index s) < length sq
          \<and> n = length (concat (take (seq_no s) seqs)) + unat (bs_batch_index s))"

text \<open>What is still available: the data of a batch, the order of a sequence.\<close>

definition has_batch :: "'b batch_state \<Rightarrow> uint64 \<Rightarrow> bool" where
  "has_batch s b \<longleftrightarrow> bs_batches_data s b \<noteq> None
     \<or> (\<exists>m \<in> set (bs_inbox s). msg_type m = TXN_SUBBATCH \<and> msg_batch_number m = b)"

definition has_order :: "'b batch_state \<Rightarrow> nat \<Rightarrow> bool" where
  "has_order s i \<longleftrightarrow> bs_global_batches_order s (of_nat (Suc i)) \<noteq> None
     \<or> (\<exists>m \<in> set (bs_inbox s). msg_type m = PAXOS_BATCH_ORDER \<and> hd (msg_misc_int m) = of_nat (Suc i))"

lemma of_nat_uint64_eq: "i < 2 ^ 64 \<Longrightarrow> j < 2 ^ 64 \<Longrightarrow> (of_nat i :: uint64) = of_nat j \<longleftrightarrow> i = j"
  by (simp add: word_unat_eq_iff unat_of_nat)

lemma order_id_inj:
  "(of_nat (Suc i) :: uint64) = of_nat (Suc j) \<Longrightarrow> i < 2 ^ 32 \<Longrightarrow> j < 2 ^ 32 \<Longrightarrow> i = j"
  using of_nat_uint64_eq [of "Suc i" "Suc j"] by (simp del: of_nat_Suc)

lemma seq_id_eq:
  "1 \<le> unat (bs_sequence_id s) \<Longrightarrow> ucast (bs_sequence_id s) = (of_nat (Suc (seq_no s)) :: uint64)"
  by (simp add: seq_no_def)

lemma seq_no_less: "seq_no s < 2 ^ 32"
  using unsigned_less [of "bs_sequence_id s", where 'a = nat] by (simp add: seq_no_def)

lemma take_concat_Suc:
  "i < length xs \<Longrightarrow> concat (take (Suc i) xs) = concat (take i xs) @ xs ! i"
  by (simp add: take_Suc_conv_app_nth)

lemma concat_nth:
  assumes "i < length xs" "j < length (xs ! i)"
  shows "length (concat (take i xs)) + j < length (concat xs)"
    "concat xs ! (length (concat (take i xs)) + j) = xs ! i ! j"
proof -
  have "concat xs = concat (take i xs) @ xs ! i @ concat (drop (Suc i) xs)"
    using assms(1) by (metis append.assoc append_take_drop_id concat.simps(2) concat_append Cons_nth_drop_Suc)
  with assms(2) show "length (concat (take i xs)) + j < length (concat xs)"
    "concat xs ! (length (concat (take i xs)) + j) = xs ! i ! j"
    by (simp_all add: nth_append)
qed

text \<open>
  What the receive loops keep: nothing that was available is lost, apart from the order of the
  sequence in work, \<open>i\<close>, and a batch that is returned, \<open>b\<close>.
\<close>

definition kept :: "nat option \<Rightarrow> uint64 option \<Rightarrow> 'b batch_state \<Rightarrow> 'b batch_state \<Rightarrow> bool" where
  "kept i b s s' \<longleftrightarrow> (\<forall>c. Some c \<noteq> b \<longrightarrow> has_batch s c \<longrightarrow> has_batch s' c)
     \<and> (\<forall>j < 2 ^ 32. Some j \<noteq> i \<longrightarrow> has_order s j \<longrightarrow> has_order s' j)"

lemma kept_trans: "kept i b s s' \<Longrightarrow> kept i b s' s'' \<Longrightarrow> kept i b s s''"
  by (auto simp: kept_def)

lemma kept_refl [simp]: "kept i b s s"
  by (simp add: kept_def)

lemma kept_mono: "kept None b s s' \<Longrightarrow> kept i b s s'" "kept i None s s' \<Longrightarrow> kept i b s s'"
  by (auto simp: kept_def)

lemma genuine_order:
  assumes "genuine cd seqs data m" "msg_type m = PAXOS_BATCH_ORDER" "hd (msg_misc_int m) \<noteq> 0"
  obtains i d ds where "i < length seqs" "hd (msg_misc_int m) = of_nat (Suc i)" "msg_data m = d # ds"
    "dec_seq cd d = seqs ! i"
  using assms by (auto simp: genuine_def)

lemma of_nat_Suc_nonzero: "i < 2 ^ 32 \<Longrightarrow> (of_nat (Suc i) :: uint64) \<noteq> 0"
  using of_nat_uint64_eq [of "Suc i" 0] by (simp del: of_nat_Suc)

text \<open>Storing one message of the inbox in its map.\<close>

definition store_message :: "'b message_proto \<Rightarrow> 'b batch_state \<Rightarrow> 'b batch_state" where
  "store_message m s =
     (if msg_type m = TXN_SUBBATCH
      then s\<lparr>bs_batches_data := (bs_batches_data s)(msg_batch_number m \<mapsto> m)\<rparr>
      else if msg_type m = PAXOS_BATCH_ORDER
      then s\<lparr>bs_global_batches_order := (bs_global_batches_order s)(hd (msg_misc_int m) \<mapsto> m)\<rparr>
      else s)"

lemma store_message_ok:
  assumes "received_ok cd seqs data (s\<lparr>bs_inbox := m # ms\<rparr>)"
  shows "received_ok cd seqs data ((store_message m s)\<lparr>bs_inbox := ms\<rparr>)"
    "kept None None (s\<lparr>bs_inbox := m # ms\<rparr>) ((store_message m s)\<lparr>bs_inbox := ms\<rparr>)"
proof -
  have g: "genuine cd seqs data m" using assms by (simp add: received_ok_def)
  show "received_ok cd seqs data ((store_message m s)\<lparr>bs_inbox := ms\<rparr>)"
  proof (cases "msg_type m = PAXOS_BATCH_ORDER")
    case True
    with assms g show ?thesis
      by (auto simp: received_ok_def store_message_def seq_no_def genuine_def simp del: of_nat_Suc)
  next
    case False
    with assms g show ?thesis by (auto simp: received_ok_def store_message_def seq_no_def genuine_def)
  qed
  show "kept None None (s\<lparr>bs_inbox := m # ms\<rparr>) ((store_message m s)\<lparr>bs_inbox := ms\<rparr>)"
    by (auto simp: kept_def has_batch_def has_order_def store_message_def)
qed

lemma store_message_same [simp]:
  "bs_sequence (store_message m s) = bs_sequence s" "bs_sequence_id (store_message m s) = bs_sequence_id s"
  "bs_batch_index (store_message m s) = bs_batch_index s" "bs_batch_id (store_message m s) = bs_batch_id s"
  by (simp_all add: store_message_def)

lemma rep_get_hd: "xs \<noteq> [] \<Longrightarrow> rep_get xs 0 = Inr (hd xs)"
  by (cases xs) simp_all

lemma receive_order_Cons:
  assumes "genuine cd seqs data m" "1 \<le> unat (bs_sequence_id s)"
  shows "receive_order cd (m # ms) s =
     (if msg_type m = PAXOS_BATCH_ORDER \<and> hd (msg_misc_int m) = ucast (bs_sequence_id s)
      then Inr (s\<lparr>bs_inbox := ms, bs_sequence := Some (dec_seq cd (hd (msg_data m))), bs_batch_index := 0\<rparr>)
      else receive_order cd ms (store_message m s))"
proof -
  have "ucast (bs_sequence_id s) \<noteq> (0 :: uint64)"
    using seq_id_eq [OF assms(2)] of_nat_Suc_nonzero [OF seq_no_less [of s]] by metis
  then show ?thesis using assms(1) by (auto simp: genuine_def store_message_def rep_get_hd)
qed

lemma receive_batch_Cons:
  assumes "genuine cd seqs data m"
  shows "receive_batch sq (m # ms) s =
     (if msg_type m = TXN_SUBBATCH \<and> msg_batch_number m = bs_batch_id s
      then Inr (Some m, advance_batch sq (s\<lparr>bs_inbox := ms\<rparr>))
      else receive_batch sq ms (store_message m s))"
  using assms by (auto simp: genuine_def store_message_def rep_get_hd)

lemma receive_order_correct:
  assumes "received_ok cd seqs data (s\<lparr>bs_inbox := ms\<rparr>)" "bs_sequence s = None" "length seqs < 2 ^ 32 - 1"
    and "bs_global_batches_order s (of_nat (Suc (seq_no s))) = None"
  shows "\<exists>s'. receive_order cd ms s = Inr s' \<and> received_ok cd seqs data s' \<and> bs_sequence_id s' = bs_sequence_id s
    \<and> kept (Some (seq_no s)) None (s\<lparr>bs_inbox := ms\<rparr>) s'
    \<and> (bs_sequence s' = None \<and> \<not> has_order (s\<lparr>bs_inbox := ms\<rparr>) (seq_no s)
       \<or> bs_sequence s' = Some (seqs ! seq_no s) \<and> seq_no s < length seqs \<and> bs_batch_index s' = 0)"
  using assms
proof (induction ms arbitrary: s)
  case Nil
  then show ?case by (simp add: has_order_def)
next
  case (Cons m ms)
  have g: "genuine cd seqs data m" using Cons.prems(1) by (simp add: received_ok_def)
  have id1: "1 \<le> unat (bs_sequence_id s)" using Cons.prems(1) by (simp add: received_ok_def)
  then have id: "ucast (bs_sequence_id s) = (of_nat (Suc (seq_no s)) :: uint64)" by (rule seq_id_eq)
  show ?case
  proof (cases "msg_type m = PAXOS_BATCH_ORDER \<and> hd (msg_misc_int m) = ucast (bs_sequence_id s)")
    case True
    then have "msg_type m = PAXOS_BATCH_ORDER" "hd (msg_misc_int m) \<noteq> 0"
      using of_nat_Suc_nonzero [OF seq_no_less [of s]] by (auto simp: id simp del: of_nat_Suc)
    from genuine_order [OF g this] obtain i d ds where m: "i < length seqs" "hd (msg_misc_int m) = of_nat (Suc i)"
      "msg_data m = d # ds" "dec_seq cd d = seqs ! i" .
    have "(of_nat (Suc i) :: uint64) = of_nat (Suc (seq_no s))" using True m(2) id by metis
    moreover have "i < 2 ^ 32" using m(1) Cons.prems(3) by linarith
    ultimately have "i = seq_no s" using order_id_inj seq_no_less by blast
    moreover have "kept (Some (seq_no s)) None (s\<lparr>bs_inbox := m # ms\<rparr>)
        (s\<lparr>bs_inbox := ms, bs_sequence := Some (seqs ! i), bs_batch_index := 0\<rparr>)"
      unfolding kept_def
    proof (intro conjI allI impI)
      fix j assume j: "j < 2 ^ 32" "Some j \<noteq> Some (seq_no s)" "has_order (s\<lparr>bs_inbox := m # ms\<rparr>) j"
      then have "hd (msg_misc_int m) \<noteq> of_nat (Suc j)"
        using True id order_id_inj [of j "seq_no s"] seq_no_less [of s] by metis
      with j(3) show "has_order (s\<lparr>bs_inbox := ms, bs_sequence := Some (seqs ! i), bs_batch_index := 0\<rparr>) j"
        by (auto simp: has_order_def)
    qed (use True in \<open>auto simp: has_batch_def\<close>)
    moreover have "received_ok cd seqs data (s\<lparr>bs_inbox := ms, bs_sequence := Some (seqs ! i), bs_batch_index := 0\<rparr>)"
      using Cons.prems(1) by (simp add: received_ok_def seq_no_def)
    moreover have "receive_order cd (m # ms) s = Inr (s\<lparr>bs_inbox := ms, bs_sequence := Some (seqs ! i), bs_batch_index := 0\<rparr>)"
      unfolding receive_order_Cons [OF g id1] using True m by simp
    ultimately show ?thesis using m(1) by (simp del: receive_order.simps)
  next
    case False
    let ?s = "store_message m s"
    have no: "seq_no ?s = seq_no s" by (simp add: seq_no_def)
    have none: "bs_global_batches_order ?s (of_nat (Suc (seq_no ?s))) = None"
      unfolding no using Cons.prems(4) False by (auto simp: store_message_def id simp del: of_nat_Suc)
    have "\<not> has_order (?s\<lparr>bs_inbox := ms\<rparr>) (seq_no s) \<Longrightarrow> \<not> has_order (s\<lparr>bs_inbox := m # ms\<rparr>) (seq_no s)"
      using False Cons.prems(4) by (auto simp: has_order_def store_message_def id simp del: of_nat_Suc)
    moreover have eq: "receive_order cd (m # ms) s = receive_order cd ms ?s"
      using False by (simp only: receive_order_Cons [OF g id1] if_False)
    moreover have "kept (Some (seq_no s)) None (s\<lparr>bs_inbox := m # ms\<rparr>) (?s\<lparr>bs_inbox := ms\<rparr>)"
      by (rule kept_mono(1) [OF store_message_ok(2) [OF Cons.prems(1)]])
    moreover obtain s' where "receive_order cd ms ?s = Inr s'" "received_ok cd seqs data s'"
      "bs_sequence_id s' = bs_sequence_id s" "kept (Some (seq_no s)) None (?s\<lparr>bs_inbox := ms\<rparr>) s'"
      "bs_sequence s' = None \<and> \<not> has_order (?s\<lparr>bs_inbox := ms\<rparr>) (seq_no s)
       \<or> bs_sequence s' = Some (seqs ! seq_no s) \<and> seq_no s < length seqs \<and> bs_batch_index s' = 0"
      using Cons.IH [OF store_message_ok(1) [OF Cons.prems(1)] _ Cons.prems(3) none] Cons.prems(2)
      unfolding no by auto
    ultimately show ?thesis using kept_trans by (metis (no_types, lifting))
  qed
qed

lemma received_ok_id: "received_ok cd seqs data s \<Longrightarrow> 1 \<le> unat (bs_sequence_id s)"
  by (simp add: received_ok_def)

lemma advance_batch_ok:
  assumes "received_ok cd seqs data s" "seqs_ok seqs" "bs_sequence s = Some sq" "position_ok seqs n s"
  shows "received_ok cd seqs data (advance_batch sq s) \<and> position_ok seqs (Suc n) (advance_batch sq s)
    \<and> (\<forall>c. has_batch (advance_batch sq s) c = has_batch s c) \<and> (\<forall>j. has_order (advance_batch sq s) j = has_order s j)
    \<and> (seq_no (advance_batch sq s) = seq_no s \<and> bs_sequence (advance_batch sq s) \<noteq> None
       \<or> seq_no (advance_batch sq s) = Suc (seq_no s) \<and> bs_sequence (advance_batch sq s) = None)"
proof -
  have pos: "seq_no s < length seqs" "sq = seqs ! seq_no s" "unat (bs_batch_index s) < length sq"
      "n = length (concat (take (seq_no s) seqs)) + unat (bs_batch_index s)"
    using assms(3,4) by (auto simp: position_ok_def)
  have len: "length sq < 2 ^ 32" "length seqs < 2 ^ 32 - 1" using assms(2) pos(1,2) by (auto simp: seqs_ok_def)
  have i1: "unat (bs_batch_index s + 1) = Suc (unat (bs_batch_index s))"
    using pos(3) len(1) by (simp add: unat_word_ariths)
  have id: "unat (bs_sequence_id s) = Suc (seq_no s)" using received_ok_id [OF assms(1)] by (simp add: seq_no_def)
  then have id1: "unat (bs_sequence_id s + 1) = Suc (Suc (seq_no s))"
    using pos(1) len(2) by (simp add: unat_word_ariths)
  have test: "of_nat (length sq) \<le> bs_batch_index s + 1 \<longleftrightarrow> length sq = Suc (unat (bs_batch_index s))"
    using len(1) pos(3) i1 by (auto simp: word_le_nat_alt unat_of_nat)
  show ?thesis
  proof (cases "length sq = Suc (unat (bs_batch_index s))")
    case True
    have no: "seq_no (advance_batch sq s) = Suc (seq_no s)"
      using True test id1 by (simp add: advance_batch_def Let_def seq_no_def)
    have "Suc n = length (concat (take (Suc (seq_no s)) seqs))"
      using pos True by (simp add: take_concat_Suc)
    with True test no pos(1) assms(1) id1 show ?thesis
      by (simp add: advance_batch_def Let_def received_ok_def position_ok_def has_batch_def has_order_def)
  next
    case False
    then have adv: "advance_batch sq s = s\<lparr>bs_batch_index := bs_batch_index s + 1\<rparr>"
      using test by (simp add: advance_batch_def Let_def)
    have no: "seq_no (s\<lparr>bs_batch_index := bs_batch_index s + 1\<rparr>) = seq_no s" by (simp add: seq_no_def)
    show ?thesis
      unfolding adv using False assms(1,3) pos i1 no
      by (auto simp: received_ok_def position_ok_def has_batch_def has_order_def)
  qed
qed

lemma receive_batch_correct:
  assumes "received_ok cd seqs data (s\<lparr>bs_inbox := ms\<rparr>)" "seqs_ok seqs" "bs_sequence s = Some sq" "position_ok seqs n s"
    and "bs_batches_data s (bs_batch_id s) = None"
  shows "\<exists>r s'. receive_batch sq ms s = Inr (r, s')
    \<and> (case r of
        None \<Rightarrow> received_ok cd seqs data s' \<and> position_ok seqs n s' \<and> \<not> has_batch (s\<lparr>bs_inbox := ms\<rparr>) (bs_batch_id s)
      | Some m \<Rightarrow> m = data (bs_batch_id s) \<and> (\<exists>u. s' = advance_batch sq u \<and> received_ok cd seqs data u
          \<and> position_ok seqs n u \<and> bs_sequence u = Some sq \<and> seq_no u = seq_no s
          \<and> kept None (Some (bs_batch_id s)) (s\<lparr>bs_inbox := ms\<rparr>) u))"
  using assms
proof (induction ms arbitrary: s)
  case Nil
  then show ?case by (auto simp: has_batch_def position_ok_def seq_no_def)
next
  case (Cons m ms)
  have g: "genuine cd seqs data m" using Cons.prems(1) by (simp add: received_ok_def)
  show ?case
  proof (cases "msg_type m = TXN_SUBBATCH \<and> msg_batch_number m = bs_batch_id s")
    case True
    let ?u = "s\<lparr>bs_inbox := ms\<rparr>"
    have "received_ok cd seqs data ?u" "position_ok seqs n ?u" "seq_no ?u = seq_no s"
      using Cons.prems(1,4) by (auto simp: received_ok_def position_ok_def seq_no_def split: option.splits)
    moreover have "kept None (Some (bs_batch_id s)) (s\<lparr>bs_inbox := m # ms\<rparr>) ?u"
      using True by (auto simp: kept_def has_batch_def has_order_def)
    ultimately show ?thesis using True g Cons.prems(3) by (auto simp: receive_batch_Cons [OF g] genuine_def)
  next
    case False
    let ?s = "store_message m s"
    have no: "seq_no ?s = seq_no s" by (simp add: seq_no_def)
    have none: "bs_batches_data ?s (bs_batch_id ?s) = None"
      using Cons.prems(5) False by (auto simp: store_message_def)
    have hb: "has_batch (?s\<lparr>bs_inbox := ms\<rparr>) (bs_batch_id s) = has_batch (s\<lparr>bs_inbox := m # ms\<rparr>) (bs_batch_id s)"
      using False by (auto simp: has_batch_def store_message_def)
    have pos: "position_ok seqs n ?s" using Cons.prems(4) unfolding position_ok_def no store_message_same .
    have k: "kept None (Some (bs_batch_id s)) (s\<lparr>bs_inbox := m # ms\<rparr>) (?s\<lparr>bs_inbox := ms\<rparr>)"
      by (rule kept_mono(2) [OF store_message_ok(2) [OF Cons.prems(1)]])
    obtain r s' where r: "receive_batch sq ms ?s = Inr (r, s')"
      "case r of
        None \<Rightarrow> received_ok cd seqs data s' \<and> position_ok seqs n s' \<and> \<not> has_batch (?s\<lparr>bs_inbox := ms\<rparr>) (bs_batch_id s)
      | Some m \<Rightarrow> m = data (bs_batch_id s) \<and> (\<exists>u. s' = advance_batch sq u \<and> received_ok cd seqs data u
          \<and> position_ok seqs n u \<and> bs_sequence u = Some sq \<and> seq_no u = seq_no s
          \<and> kept None (Some (bs_batch_id s)) (?s\<lparr>bs_inbox := ms\<rparr>) u)"
      using Cons.IH [OF store_message_ok(1) [OF Cons.prems(1)] Cons.prems(2) _ pos none] Cons.prems(3)
      unfolding no store_message_same by blast
    have "receive_batch sq (m # ms) s = Inr (r, s')"
      using False r(1) by (simp only: receive_batch_Cons [OF g] if_False)
    with r(2) show ?thesis using kept_trans [OF k] hb by (cases r) auto
  qed
qed

lemma find_sequence_correct:
  assumes "received_ok cd seqs data s" "seqs_ok seqs" "position_ok seqs n s"
  shows "\<exists>s'. find_sequence cd s = Inr s' \<and> received_ok cd seqs data s' \<and> position_ok seqs n s' \<and> seq_no s' = seq_no s
    \<and> kept (Some (seq_no s)) None s s'
    \<and> (bs_sequence s' = None \<longrightarrow> bs_sequence s = None \<and> \<not> has_order s (seq_no s))"
proof (cases "bs_sequence s = None")
  case none: True
  have id: "ucast (bs_sequence_id s) = (of_nat (Suc (seq_no s)) :: uint64)"
    by (rule seq_id_eq [OF received_ok_id [OF assms(1)]])
  have n: "n = length (concat (take (seq_no s) seqs))" using assms(3) none by (simp add: position_ok_def)
  show ?thesis
  proof (cases "bs_global_batches_order s (of_nat (Suc (seq_no s)))")
    case None
    then have "find_sequence cd s = receive_order cd (bs_inbox s) s" by (simp only: find_sequence_def none id) simp
    moreover obtain s' where s': "receive_order cd (bs_inbox s) s = Inr s'" "received_ok cd seqs data s'"
      "bs_sequence_id s' = bs_sequence_id s" "kept (Some (seq_no s)) None s s'"
      "bs_sequence s' = None \<and> \<not> has_order s (seq_no s)
       \<or> bs_sequence s' = Some (seqs ! seq_no s) \<and> seq_no s < length seqs \<and> bs_batch_index s' = 0"
      using receive_order_correct [of cd seqs data "bs_inbox s" s] assms(1,2) none None by (auto simp: seqs_ok_def)
    moreover have no: "seq_no s' = seq_no s" using s'(3) by (simp add: seq_no_def)
    moreover have "position_ok seqs n s'"
      using s'(5) assms(2) n unfolding position_ok_def no by (auto simp: seqs_ok_def)
    ultimately show ?thesis using none by auto
  next
    case (Some m)
    then obtain j d ds where j: "j < length seqs" "(of_nat (Suc (seq_no s)) :: uint64) = of_nat (Suc j)"
      "msg_data m = d # ds" "dec_seq cd d = seqs ! j"
      using assms(1) of_nat_Suc_nonzero [OF seq_no_less [of s]] unfolding received_ok_def by blast
    have "j < 2 ^ 32" using j(1) assms(2) unfolding seqs_ok_def by linarith
    then have jeq: "j = seq_no s" using order_id_inj [OF j(2)] seq_no_less by blast
    let ?s = "s\<lparr>bs_sequence := Some (seqs ! j), bs_batch_index := 0,
        bs_global_batches_order := (bs_global_batches_order s)(of_nat (Suc (seq_no s)) := None)\<rparr>"
    have "find_sequence cd s = Inr ?s"
      unfolding find_sequence_def using none Some j(3,4) by (simp add: id del: of_nat_Suc)
    moreover have "received_ok cd seqs data ?s"
      using assms(1) unfolding received_ok_def by (auto simp: seq_no_def simp del: of_nat_Suc)
    moreover have "position_ok seqs n ?s"
      using n j(1) assms(2) jeq by (auto simp: position_ok_def seq_no_def seqs_ok_def)
    moreover have "kept (Some (seq_no s)) None s ?s"
      unfolding kept_def
    proof (intro conjI allI impI)
      fix k assume k: "k < 2 ^ 32" "Some k \<noteq> Some (seq_no s)" "has_order s k"
      then have "(of_nat (Suc k) :: uint64) \<noteq> of_nat (Suc (seq_no s))"
        using order_id_inj [of k "seq_no s"] seq_no_less [of s] by blast
      with k(3) show "has_order ?s k" by (auto simp: has_order_def simp del: of_nat_Suc)
    qed (auto simp: has_batch_def)
    ultimately show ?thesis using none by (auto simp: seq_no_def)
  qed
qed (use assms in \<open>auto simp: find_sequence_def\<close>)

lemma position_next:
  assumes "position_ok seqs n s" "bs_sequence s = Some sq" "seqs_ok seqs"
  shows "n < length (concat seqs)" "concat seqs ! n = sq ! unat (bs_batch_index s)"
    "bs_batch_index s < of_nat (length sq)" "unat (bs_batch_index s) < length sq"
proof -
  have pos: "seq_no s < length seqs" "sq = seqs ! seq_no s" "unat (bs_batch_index s) < length sq"
      "n = length (concat (take (seq_no s) seqs)) + unat (bs_batch_index s)"
    using assms(1,2) by (auto simp: position_ok_def)
  then show "n < length (concat seqs)" "concat seqs ! n = sq ! unat (bs_batch_index s)" "unat (bs_batch_index s) < length sq"
    using concat_nth [of "seq_no s" seqs "unat (bs_batch_index s)"] by auto
  have "length sq < 2 ^ 32" using assms(3) pos(1,2) by (auto simp: seqs_ok_def)
  then show "bs_batch_index s < of_nat (length sq)" using pos(3) by (simp add: word_less_nat_alt unat_of_nat)
qed

lemma find_batch_correct:
  assumes "received_ok cd seqs data s" "seqs_ok seqs" "position_ok seqs n s" "bs_sequence s = Some sq"
  shows "\<exists>r s'. find_batch sq s = Inr (r, s')
    \<and> (case r of
        None \<Rightarrow> received_ok cd seqs data s' \<and> position_ok seqs n s' \<and> \<not> has_batch s (concat seqs ! n)
      | Some m \<Rightarrow> m = data (concat seqs ! n) \<and> (\<exists>u. s' = advance_batch sq u \<and> received_ok cd seqs data u
          \<and> position_ok seqs n u \<and> bs_sequence u = Some sq \<and> seq_no u = seq_no s
          \<and> kept None (Some (concat seqs ! n)) s u))"
proof -
  note next' = position_next [OF assms(3,4,2)]
  let ?b = "concat seqs ! n" and ?s = "s\<lparr>bs_batch_id := concat seqs ! n\<rparr>"
  have ok: "received_ok cd seqs data ?s" "position_ok seqs n ?s"
    using assms(1,3) by (auto simp: received_ok_def position_ok_def seq_no_def split: option.splits)
  have fb: "find_batch sq s = (case bs_batches_data s ?b of
        Some m \<Rightarrow> Inr (Some m, advance_batch sq (?s\<lparr>bs_batches_data := (bs_batches_data s)(?b := None)\<rparr>))
      | None \<Rightarrow> receive_batch sq (bs_inbox s) ?s)"
    using next'(3,4) by (simp add: find_batch_def CHECK_def rep_get_def Let_def next'(2) split: option.split)
  show ?thesis
  proof (cases "bs_batches_data s ?b")
    case None
    obtain r s' where r: "receive_batch sq (bs_inbox s) ?s = Inr (r, s')" "case r of
        None \<Rightarrow> received_ok cd seqs data s' \<and> position_ok seqs n s' \<and> \<not> has_batch (?s\<lparr>bs_inbox := bs_inbox s\<rparr>) (bs_batch_id ?s)
      | Some m \<Rightarrow> m = data (bs_batch_id ?s) \<and> (\<exists>u. s' = advance_batch sq u \<and> received_ok cd seqs data u
          \<and> position_ok seqs n u \<and> bs_sequence u = Some sq \<and> seq_no u = seq_no ?s
          \<and> kept None (Some (bs_batch_id ?s)) (?s\<lparr>bs_inbox := bs_inbox s\<rparr>) u)"
      using receive_batch_correct [of cd seqs data "bs_inbox s" ?s sq n] ok assms(2,4) None by auto
    have "find_batch sq s = Inr (r, s')" using None r(1) by (simp add: fb)
    with r(2) show ?thesis
      by (cases r) (auto simp: has_batch_def kept_def has_order_def seq_no_def)
  next
    case (Some m)
    let ?u = "?s\<lparr>bs_batches_data := (bs_batches_data s)(?b := None)\<rparr>"
    have "received_ok cd seqs data ?u" "position_ok seqs n ?u" "bs_sequence ?u = Some sq" "seq_no ?u = seq_no s"
      using ok assms(4) by (auto simp: received_ok_def position_ok_def seq_no_def)
    moreover have "kept None (Some ?b) s ?u" by (auto simp: kept_def has_batch_def has_order_def)
    moreover have "m = data ?b" using Some assms(1) by (auto simp: received_ok_def)
    ultimately show ?thesis using Some by (auto simp: fb)
  qed
qed

text \<open>Everything from position \<open>n\<close> on has arrived and is not consumed.\<close>

definition all_available :: "sequence list \<Rightarrow> nat \<Rightarrow> 'b batch_state \<Rightarrow> bool" where
  "all_available seqs n s \<longleftrightarrow>
     (\<forall>k. n \<le> k \<longrightarrow> k < length (concat seqs) \<longrightarrow> has_batch s (concat seqs ! k))
     \<and> (\<forall>j. seq_no s \<le> j \<longrightarrow> j < length seqs \<longrightarrow> has_order s j \<or> j = seq_no s \<and> bs_sequence s \<noteq> None)"

lemma all_available_advance:
  assumes av: "all_available seqs n s" and ok: "seqs_ok seqs" and n: "n < length (concat seqs)"
    and batches: "\<And>b. has_batch s b \<Longrightarrow> b \<noteq> concat seqs ! n \<Longrightarrow> has_batch s' b"
    and orders: "\<And>j. j < 2 ^ 32 \<Longrightarrow> j \<noteq> seq_no s \<Longrightarrow> has_order s j \<Longrightarrow> has_order s' j"
    and no: "seq_no s \<le> seq_no s'" "seq_no s' = seq_no s \<Longrightarrow> bs_sequence s' \<noteq> None"
  shows "all_available seqs (Suc n) s'"
  unfolding all_available_def
proof (intro conjI allI impI)
  fix k assume k: "Suc n \<le> k" "k < length (concat seqs)"
  then have "concat seqs ! k \<noteq> concat seqs ! n" using ok n by (simp add: seqs_ok_def nth_eq_iff_index_eq)
  moreover have "has_batch s (concat seqs ! k)" using av k by (simp add: all_available_def)
  ultimately show "has_batch s' (concat seqs ! k)" using batches by blast
next
  fix j assume j: "seq_no s' \<le> j" "j < length seqs"
  show "has_order s' j \<or> j = seq_no s' \<and> bs_sequence s' \<noteq> None"
  proof (cases "j = seq_no s")
    case True
    then show ?thesis using no j(1) by auto
  next
    case False
    have "seq_no s \<le> j" using no(1) j(1) by linarith
    with False have "has_order s j" using av j(2) by (auto simp: all_available_def)
    moreover have "j < 2 ^ 32" using j(2) ok unfolding seqs_ok_def by linarith
    ultimately show ?thesis using False orders by blast
  qed
qed

lemma GetBatch_correct:
  assumes ok: "received_ok cd seqs data s" "seqs_ok seqs" "position_ok seqs n s"
  shows "\<exists>r s'. GetBatch cd s = Inr (r, s') \<and> received_ok cd seqs data s'
    \<and> (case r of
        None \<Rightarrow> position_ok seqs n s' \<and> (n < length (concat seqs) \<longrightarrow> \<not> all_available seqs n s)
      | Some m \<Rightarrow> n < length (concat seqs) \<and> m = data (concat seqs ! n) \<and> position_ok seqs (Suc n) s'
          \<and> (all_available seqs n s \<longrightarrow> all_available seqs (Suc n) s'))"
proof -
  obtain s1 where s1: "find_sequence cd s = Inr s1" "received_ok cd seqs data s1" "position_ok seqs n s1"
    "seq_no s1 = seq_no s" "kept (Some (seq_no s)) None s s1"
    "bs_sequence s1 = None \<longrightarrow> bs_sequence s = None \<and> \<not> has_order s (seq_no s)"
    using find_sequence_correct [OF assms] by (elim exE conjE) (rule that)
  show ?thesis
  proof (cases "bs_sequence s1")
    case None
    have "seq_no s < length seqs" if "n < length (concat seqs)"
    proof (rule ccontr)
      assume "\<not> seq_no s < length seqs"
      then have "take (seq_no s) seqs = seqs" by simp
      with s1(3) None have "n = length (concat seqs)" by (simp add: position_ok_def s1(4))
      with that show False by simp
    qed
    then have "n < length (concat seqs) \<longrightarrow> \<not> all_available seqs n s"
      using s1(6) None by (auto simp: all_available_def)
    with None s1 show ?thesis by (simp add: GetBatch_def)
  next
    case (Some sq)
    note next' = position_next [OF s1(3) Some ok(2)]
    have hb: "has_batch s c \<Longrightarrow> has_batch s1 c" for c using s1(5) by (simp add: kept_def)
    obtain r s' where r: "find_batch sq s1 = Inr (r, s')" and cases: "case r of
        None \<Rightarrow> received_ok cd seqs data s' \<and> position_ok seqs n s' \<and> \<not> has_batch s1 (concat seqs ! n)
      | Some m \<Rightarrow> m = data (concat seqs ! n) \<and> (\<exists>u. s' = advance_batch sq u \<and> received_ok cd seqs data u
          \<and> position_ok seqs n u \<and> bs_sequence u = Some sq \<and> seq_no u = seq_no s1
          \<and> kept None (Some (concat seqs ! n)) s1 u)"
      using find_batch_correct [OF s1(2) ok(2) s1(3) Some] by (elim exE conjE) (rule that)
    have g: "GetBatch cd s = Inr (r, s')" using s1(1) Some r by (simp add: GetBatch_def)
    show ?thesis
    proof (cases r)
      case None
      then have "\<not> all_available seqs n s" using cases hb next'(1) by (auto simp: all_available_def)
      with None cases g show ?thesis by auto
    next
      case m: (Some m)
      with cases obtain u where u: "m = data (concat seqs ! n)" "s' = advance_batch sq u" "received_ok cd seqs data u"
        "position_ok seqs n u" "bs_sequence u = Some sq" "seq_no u = seq_no s1" "kept None (Some (concat seqs ! n)) s1 u"
        by auto
      note adv = advance_batch_ok [OF u(3) ok(2) u(5,4), folded u(2)]
      have "all_available seqs (Suc n) s'" if "all_available seqs n s"
        by (rule all_available_advance [OF that ok(2) next'(1)]) (use s1(4,5) hb u(6,7) adv in \<open>auto simp: kept_def\<close>)
      with adv g m u(1) next'(1) show ?thesis by auto
    qed
  qed
qed

text \<open>The network delivers a message to the channel, or the thread asks for the next batch.\<close>

datatype 'b batch_event = Deliver "'b message_proto" | Poll

fun batch_run :: "'b codec \<Rightarrow> 'b batch_event list \<Rightarrow> 'b batch_state \<Rightarrow> ('b message_proto list \<times> 'b batch_state) outcome" where
  "batch_run cd [] s = Inr ([], s)"
| "batch_run cd (Deliver m # es) s = batch_run cd es (s\<lparr>bs_inbox := bs_inbox s @ [m]\<rparr>)"
| "batch_run cd (Poll # es) s =
     bindE (GetBatch cd s) (\<lambda>(r, s'). bindE (batch_run cd es s') (\<lambda>(ms, s'').
       Inr ((case r of None \<Rightarrow> [] | Some m \<Rightarrow> [m]) @ ms, s'')))"

fun genuine_event :: "'b codec \<Rightarrow> sequence list \<Rightarrow> (uint64 \<Rightarrow> 'b message_proto) \<Rightarrow> 'b batch_event \<Rightarrow> bool" where
  "genuine_event cd seqs data (Deliver m) = genuine cd seqs data m"
| "genuine_event cd seqs data Poll = True"

lemma deliver_ok:
  assumes "received_ok cd seqs data s" "position_ok seqs n s" "genuine cd seqs data m"
  shows "received_ok cd seqs data (s\<lparr>bs_inbox := bs_inbox s @ [m]\<rparr>)" "position_ok seqs n (s\<lparr>bs_inbox := bs_inbox s @ [m]\<rparr>)"
  using assms by (auto simp: received_ok_def position_ok_def seq_no_def split: option.splits)

lemma batch_state_new_ok: "received_ok cd seqs data batch_state_new" "position_ok seqs 0 batch_state_new"
  by (simp_all add: received_ok_def position_ok_def seq_no_def batch_state_new_def)

lemma nth_drop_prefix: "n < length xs \<Longrightarrow> xs ! n # take m (drop (Suc n) xs) = take (Suc m) (drop n xs)"
  by (simp add: Cons_nth_drop_Suc [symmetric])

lemma batch_run_correct:
  assumes "seqs_ok seqs" "\<forall>e \<in> set es. genuine_event cd seqs data e"
    and "received_ok cd seqs data s" "position_ok seqs n s"
  shows "\<exists>ms s'. batch_run cd es s = Inr (ms, s') \<and> received_ok cd seqs data s' \<and> position_ok seqs (n + length ms) s'
    \<and> ms = map data (take (length ms) (drop n (concat seqs)))"
  using assms(2-)
proof (induction es arbitrary: s n)
  case (Cons e es)
  show ?case
  proof (cases e)
    case (Deliver m)
    with Cons.prems show ?thesis
      using Cons.IH [OF _ deliver_ok [OF Cons.prems(2,3)]] by simp
  next
    case Poll
    obtain r s1 where g: "GetBatch cd s = Inr (r, s1)" "received_ok cd seqs data s1" "case r of
        None \<Rightarrow> position_ok seqs n s1 \<and> (n < length (concat seqs) \<longrightarrow> \<not> all_available seqs n s)
      | Some m \<Rightarrow> n < length (concat seqs) \<and> m = data (concat seqs ! n) \<and> position_ok seqs (Suc n) s1
          \<and> (all_available seqs n s \<longrightarrow> all_available seqs (Suc n) s1)"
      using GetBatch_correct [OF Cons.prems(2) assms(1) Cons.prems(3)] by (elim exE conjE) (rule that)
    have es: "\<forall>e \<in> set es. genuine_event cd seqs data e" using Cons.prems(1) by simp
    show ?thesis
    proof (cases r)
      case None
      with g(3) have "position_ok seqs n s1" by simp
      from Cons.IH [OF es g(2) this] show ?thesis using None g(1) Poll by auto
    next
      case (Some m)
      with g(3) have m: "n < length (concat seqs)" "m = data (concat seqs ! n)" "position_ok seqs (Suc n) s1" by auto
      obtain ms s' where ms: "batch_run cd es s1 = Inr (ms, s')" "received_ok cd seqs data s'"
        "position_ok seqs (Suc n + length ms) s'" "ms = map data (take (length ms) (drop (Suc n) (concat seqs)))"
        using Cons.IH [OF es g(2) m(3)] by (elim exE conjE) (rule that)
      have "map data (take (Suc (length ms)) (drop n (concat seqs)))
          = data (concat seqs ! n) # map data (take (length ms) (drop (Suc n) (concat seqs)))"
        by (simp only: nth_drop_prefix [OF m(1), symmetric] list.map(2))
      also have "\<dots> = m # ms" by (simp only: m(2) ms(4) [symmetric])
      finally have eq: "m # ms = map data (take (length (m # ms)) (drop n (concat seqs)))"
        unfolding length_Cons by (rule sym)
      have run: "batch_run cd (e # es) s = Inr (m # ms, s')" using Some g(1) Poll ms(1) by simp
      have pos: "position_ok seqs (n + length (m # ms)) s'" using ms(3) by simp
      from run ms(2) pos eq show ?thesis by (intro exI conjI)
    qed
  qed
qed simp

lemma batch_run_polls:
  assumes "seqs_ok seqs" "received_ok cd seqs data s" "position_ok seqs n s" "all_available seqs n s"
    and "n + k = length (concat seqs)"
  shows "\<exists>s'. batch_run cd (replicate k Poll) s = Inr (map data (drop n (concat seqs)), s')"
  using assms(2-)
proof (induction k arbitrary: s n)
  case (Suc k)
  have n: "n < length (concat seqs)" using Suc.prems(4) by simp
  obtain r s1 where g: "GetBatch cd s = Inr (r, s1)" "received_ok cd seqs data s1" "case r of
        None \<Rightarrow> position_ok seqs n s1 \<and> (n < length (concat seqs) \<longrightarrow> \<not> all_available seqs n s)
      | Some m \<Rightarrow> n < length (concat seqs) \<and> m = data (concat seqs ! n) \<and> position_ok seqs (Suc n) s1
          \<and> (all_available seqs n s \<longrightarrow> all_available seqs (Suc n) s1)"
    using GetBatch_correct [OF Suc.prems(1) assms(1) Suc.prems(2)] by (elim exE conjE) (rule that)
  with n Suc.prems(3) obtain m where m: "r = Some m" "m = data (concat seqs ! n)" "position_ok seqs (Suc n) s1"
    "all_available seqs (Suc n) s1"
    by (cases r) auto
  obtain s' where "batch_run cd (replicate k Poll) s1 = Inr (map data (drop (Suc n) (concat seqs)), s')"
    using Suc.IH [OF g(2) m(3,4)] Suc.prems(4) by auto
  with m g(1) n show ?case by (simp add: Cons_nth_drop_Suc [symmetric])
qed simp

lemma batch_run_append:
  "batch_run cd (es @ fs) s = bindE (batch_run cd es s) (\<lambda>(ms, s'). bindE (batch_run cd fs s') (\<lambda>(ns, s''). Inr (ms @ ns, s'')))"
proof (induction es arbitrary: s)
  case Nil
  show ?case by (cases "batch_run cd fs s") auto
next
  case (Cons e es)
  show ?case
  proof (cases e)
    case Poll
    show ?thesis
    proof (cases "GetBatch cd s")
      case (Inr rs)
      then show ?thesis using Poll Cons by (cases rs; cases "batch_run cd es (snd rs)") (auto simp: bindE_def split: sum.splits)
    qed (simp add: Poll)
  qed (simp add: Cons)
qed

lemma batch_run_deliver:
  "batch_run cd (map Deliver ms) s = Inr ([], s\<lparr>bs_inbox := bs_inbox s @ ms\<rparr>)"
  by (induction ms arbitrary: s) simp_all

text \<open>
  C8: whatever the order in which genuine messages arrive, duplicates and losses included, and whenever
  the thread polls, \<open>GetBatch\<close> never fails a check and the batches it returns are the first
  batches of the sequences 1, 2, ... in their agreed order.
\<close>

theorem GetBatch_agreed_order:
  assumes "seqs_ok seqs" and "\<forall>e \<in> set es. genuine_event cd seqs data e"
  shows "\<exists>ms s'. batch_run cd es batch_state_new = Inr (ms, s') \<and> ms = map data (take (length ms) (concat seqs))"
  using batch_run_correct [OF assms batch_state_new_ok] by (simp only: drop0) blast

text \<open>
  C28: once the orders of all sequences and the data of all their batches have arrived, in any order,
  one poll per batch returns every batch.
\<close>

theorem GetBatch_complete:
  assumes "seqs_ok seqs" and "\<forall>m \<in> set ms. genuine cd seqs data m"
    and "\<forall>b \<in> set (concat seqs). \<exists>m \<in> set ms. msg_type m = TXN_SUBBATCH \<and> msg_batch_number m = b"
    and "\<forall>i < length seqs. \<exists>m \<in> set ms. msg_type m = PAXOS_BATCH_ORDER \<and> hd (msg_misc_int m) = of_nat (Suc i)"
  shows "\<exists>s'. batch_run cd (map Deliver ms @ replicate (length (concat seqs)) Poll) batch_state_new
    = Inr (map data (concat seqs), s')"
proof -
  let ?s = "batch_state_new\<lparr>bs_inbox := ms\<rparr>"
  have "received_ok cd seqs data ?s" "position_ok seqs 0 ?s"
    using assms(2) by (simp_all add: received_ok_def position_ok_def seq_no_def batch_state_new_def)
  moreover have "has_batch ?s (concat seqs ! k)" if "k < length (concat seqs)" for k
    using bspec [OF assms(3) nth_mem [OF that]] by (simp add: has_batch_def)
  then have "all_available seqs 0 ?s"
    using assms(4) by (simp add: all_available_def has_order_def)
  ultimately show ?thesis
    using batch_run_polls [OF assms(1), of cd data ?s 0 "length (concat seqs)"]
    by (auto simp: batch_run_append batch_run_deliver batch_state_new_def)
qed

section \<open>Checking counters\<close>

definition checked_entries :: "cluster_config \<Rightarrow> txn_proto \<Rightarrow> key_entry list" where
  "checked_entries c txn =
     filter (\<lambda>e. IsLocal c (ke_key e) \<and> ke_master e = tx_origin_replica txn) (tx_read_set txn @ tx_read_write_set txn)"

definition waited_keys :: "(string \<Rightarrow> uint64) \<Rightarrow> key_entry list \<Rightarrow> (string \<times> uint64) list" where
  "waited_keys cnt es = map (\<lambda>e. (ke_key e, ke_counter e)) (filter (\<lambda>e. cnt (ke_key e) < ke_counter e) es)"

lemma waited_keys_simps [simp]:
  "waited_keys cnt [] = []"
  "waited_keys cnt (e # es) = (if cnt (ke_key e) < ke_counter e then [(ke_key e, ke_counter e)] else []) @ waited_keys cnt es"
  by (simp_all add: waited_keys_def)

lemma foldE_verify_filter:
  "foldE (verify_entry c st h origin) es acc
    = foldE (verify_entry c st h origin) (filter (\<lambda>e. IsLocal c (ke_key e) \<and> ke_master e = origin) es) acc"
proof (induction es arbitrary: acc)
  case (Cons e es)
  then show ?case
    by (cases "IsLocal c (ke_key e) \<and> ke_master e = origin")
      (auto simp: verify_entry_def bindE_def split: sum.split)
qed simp

lemma foldE_verify:
  assumes "\<forall>e \<in> set es. IsLocal c (ke_key e) \<and> ke_master e = origin
      \<and> (\<exists>m. GetMasterCounter st h (ke_key e) = Inr (m, cnt (ke_key e)))"
  shows "\<exists>can' keys' ab'. foldE (verify_entry c st h origin) es (can, keys, ab) = Inr (can', keys', ab')
    \<and> (can' \<longleftrightarrow> can \<and> (\<forall>e \<in> set es. ke_counter e \<le> cnt (ke_key e)))
    \<and> set keys' = set keys \<union> set (waited_keys cnt es)
    \<and> (ab' \<longleftrightarrow> ab \<or> (\<exists>e \<in> set es. ke_counter e < cnt (ke_key e)))"
  using assms
proof (induction es arbitrary: can keys ab)
  case (Cons e es)
  have e: "IsLocal c (ke_key e)" "ke_master e = origin" using Cons.prems by simp_all
  obtain m where m: "GetMasterCounter st h (ke_key e) = Inr (m, cnt (ke_key e))" using Cons.prems by auto
  have "\<forall>e \<in> set es. IsLocal c (ke_key e) \<and> ke_master e = origin
      \<and> (\<exists>m. GetMasterCounter st h (ke_key e) = Inr (m, cnt (ke_key e)))" using Cons.prems by simp
  note IH = Cons.IH [OF this]
  let ?k = "os_insert (ke_key e, ke_counter e) keys"
  have step: "verify_entry c st h origin e (can, keys, ab) =
      (if cnt (ke_key e) < ke_counter e then Inr (False, ?k, ab)
       else if ke_counter e < cnt (ke_key e) then Inr (can, keys, True) else Inr (can, keys, ab))"
    using e m by (simp add: verify_entry_def)
  consider "cnt (ke_key e) < ke_counter e" | "ke_counter e < cnt (ke_key e)" | "ke_counter e = cnt (ke_key e)"
    by (rule linorder_cases)
  then show ?case
  proof cases
    case 1
    then have "\<not> ke_counter e \<le> cnt (ke_key e)" "\<not> ke_counter e < cnt (ke_key e)" by auto
    then show ?thesis using IH [of False ?k ab] 1 by (auto simp: step)
  next
    case 2
    then have "ke_counter e \<le> cnt (ke_key e)" "\<not> cnt (ke_key e) < ke_counter e" by auto
    then show ?thesis using IH [of can keys True] 2 by (auto simp: step)
  next
    case 3
    then show ?thesis using IH [of can keys ab] by (simp add: step)
  qed
qed simp

lemma VerifyStorageCounters_spec:
  assumes "\<forall>e \<in> set (checked_entries c txn). \<exists>m. GetMasterCounter st h (ke_key e) = Inr (m, cnt (ke_key e))"
  shows "\<exists>can keys txn'. VerifyStorageCounters c st h txn = Inr (can, keys, txn')
    \<and> (can \<longleftrightarrow> (\<forall>e \<in> set (checked_entries c txn). ke_counter e \<le> cnt (ke_key e)))
    \<and> set keys = set (waited_keys cnt (checked_entries c txn))
    \<and> txn' = (if \<exists>e \<in> set (checked_entries c txn). ke_counter e < cnt (ke_key e)
               then txn\<lparr>tx_status := ABORTED_WITHOUT_LOCK\<rparr> else txn)"
proof -
  let ?f = "verify_entry c st h (tx_origin_replica txn)"
  have "\<forall>e \<in> set (checked_entries c txn). IsLocal c (ke_key e) \<and> ke_master e = tx_origin_replica txn
      \<and> (\<exists>m. GetMasterCounter st h (ke_key e) = Inr (m, cnt (ke_key e)))"
    using assms by (auto simp: checked_entries_def)
  from foldE_verify [OF this, of True "[]" False] obtain can keys ab where
    f: "foldE ?f (checked_entries c txn) (True, [], False) = Inr (can, keys, ab)"
    "can \<longleftrightarrow> (\<forall>e \<in> set (checked_entries c txn). ke_counter e \<le> cnt (ke_key e))"
    "set keys = set (waited_keys cnt (checked_entries c txn))"
    "ab \<longleftrightarrow> (\<exists>e \<in> set (checked_entries c txn). ke_counter e < cnt (ke_key e))"
    by auto
  have "VerifyStorageCounters c st h txn
      = bindE (foldE ?f (tx_read_set txn @ tx_read_write_set txn) (True, [], False)) (\<lambda>(can, keys, aborted).
          Inr (can, keys, if aborted then txn\<lparr>tx_status := ABORTED_WITHOUT_LOCK\<rparr> else txn))"
    unfolding VerifyStorageCounters_def foldE_append
    by (cases "foldE ?f (tx_read_set txn) (True, [], False)") simp_all
  also have "foldE ?f (tx_read_set txn @ tx_read_write_set txn) (True, [], False)
      = foldE ?f (checked_entries c txn) (True, [], False)"
    unfolding checked_entries_def by (rule foldE_verify_filter)
  finally show ?thesis using f by simp
qed

text \<open>
  Without taking a lock, a transaction is told to wait exactly for the keys whose stored counter
  is behind the one it was routed with, and is marked as aborted exactly if one has moved past it.
\<close>

theorem VerifyStorageCounters_correct:
  assumes "\<forall>e \<in> set (checked_entries c txn). \<exists>m. GetMasterCounter st h (ke_key e) = Inr (m, cnt (ke_key e))"
  shows "\<exists>can keys txn'. VerifyStorageCounters c st h txn = Inr (can, keys, txn')
    \<and> (can \<longleftrightarrow> (\<forall>e \<in> set (checked_entries c txn). ke_counter e \<le> cnt (ke_key e)))
    \<and> set keys = set (waited_keys cnt (checked_entries c txn))
    \<and> txn' = (if \<exists>e \<in> set (checked_entries c txn). ke_counter e < cnt (ke_key e)
               then txn\<lparr>tx_status := ABORTED_WITHOUT_LOCK\<rparr> else txn)"
  by (rule VerifyStorageCounters_spec [OF assms])

section \<open>Blocked transactions leave in order\<close>

text \<open>
  The queues hold transactions of their own origin, each once, and a queue's head waits for a remaster:
  nothing stays queued behind a transaction that could go on.
\<close>

definition blocking_ok :: "txn_heap \<Rightarrow> remaster_waits \<Rightarrow> bool" where
  "blocking_ok h w \<longleftrightarrow> (\<forall>r. distinct (rw_blocking w r)
     \<and> (\<forall>t \<in> set (rw_blocking w r). tx_origin_replica (h t) = r)
     \<and> (rw_blocking w r \<noteq> [] \<longrightarrow> tx_wait_for_remaster_pros (h (hd (rw_blocking w r)))))"

definition of_origin :: "txn_heap \<Rightarrow> uint32 \<Rightarrow> txn_ptr list \<Rightarrow> txn_ptr list" where
  "of_origin h r ts = filter (\<lambda>t. tx_origin_replica (h t) = r) ts"

text \<open>What a transaction still waits for, by its id, and the transactions that are queued.\<close>

definition missing :: "txn_heap \<Rightarrow> remaster_waits \<Rightarrow> txn_ptr \<Rightarrow> (string \<times> uint64) set" where
  "missing h w t = set (get_or [] (rw_by_txnid w (tx_txn_id (h t))))"

definition queued :: "txn_heap \<Rightarrow> remaster_waits \<Rightarrow> txn_ptr set" where
  "queued h w = {t. t \<in> set (rw_blocking w (tx_origin_replica (h t)))}"

text \<open>
  The three tables agree: the queued transactions have different ids, are marked as waiting as long as
  they miss a key, and are registered, once, exactly under the keys that they miss.
\<close>

definition waits_ok :: "txn_heap \<Rightarrow> remaster_waits \<Rightarrow> bool" where
  "waits_ok h w \<longleftrightarrow> blocking_ok h w \<and> inj_on (\<lambda>t. tx_txn_id (h t)) (queued h w)
     \<and> (\<forall>t \<in> queued h w. tx_wait_for_remaster_pros (h t) \<longleftrightarrow> missing h w t \<noteq> {})
     \<and> (\<forall>k. distinct (get_or [] (rw_by_key w k)) \<and> set (get_or [] (rw_by_key w k)) = {t \<in> queued h w. k \<in> missing h w t})"

lemma waits_okD:
  assumes "waits_ok h w"
  shows "blocking_ok h w" "inj_on (\<lambda>t. tx_txn_id (h t)) (queued h w)"
    "t \<in> queued h w \<Longrightarrow> tx_wait_for_remaster_pros (h t) \<longleftrightarrow> missing h w t \<noteq> {}"
    "distinct (get_or [] (rw_by_key w k))" "set (get_or [] (rw_by_key w k)) = {t \<in> queued h w. k \<in> missing h w t}"
  using assms unfolding waits_ok_def by blast+

lemma set_waiting_simps [simp]:
  "tx_origin_replica (set_waiting t b h u) = tx_origin_replica (h u)"
  "tx_txn_id (set_waiting t b h u) = tx_txn_id (h u)"
  "tx_wait_for_remaster_pros (set_waiting t b h u) = (if u = t then b else tx_wait_for_remaster_pros (h u))"
  by (simp_all add: set_waiting_def)

lemma missing_blocking [simp]: "missing h (w\<lparr>rw_blocking := B\<rparr>) t = missing h w t"
  by (simp add: missing_def)

lemma waits_ok_new: "waits_ok h remaster_waits_new"
  by (simp add: waits_ok_def blocking_ok_def queued_def remaster_waits_new_def get_or_def)

text \<open>Blocking a transaction whose id no queued one has.\<close>

lemma register_keys:
  "distinct ks \<Longrightarrow> get_or [] (fold (\<lambda>k m. m(k \<mapsto> get_or [] (m k) @ [t])) ks m k) = get_or [] (m k) @ (if k \<in> set ks then [t] else [])"
  by (induction ks arbitrary: m) (auto simp: get_or_def)

lemma block_waiting_ok:
  assumes ok: "waits_ok h w" and t: "t \<notin> queued h w" "\<forall>u \<in> queued h w. tx_txn_id (h u) \<noteq> tx_txn_id (h t)"
    and ks: "ks \<noteq> []" "distinct ks" and b: "block_waiting t ks (h, w) = (h', w')"
  shows "waits_ok h' w'" and "queued h' w' = insert t (queued h w)"
    and "missing h' w' u = (if tx_txn_id (h u) = tx_txn_id (h t) then set ks else missing h w u)"
proof -
  let ?o = "tx_origin_replica (h t)"
  have h': "h' = set_waiting t True h" and w': "rw_blocking w' = (rw_blocking w)(?o := rw_blocking w ?o @ [t])"
    "rw_by_txnid w' = (rw_by_txnid w)(tx_txn_id (h t) \<mapsto> ks)"
    "rw_by_key w' = fold (\<lambda>k m. m(k \<mapsto> get_or [] (m k) @ [t])) ks (rw_by_key w)"
    using b by (auto simp: block_waiting_def Let_def)
  note key = register_keys [OF ks(2), of t "rw_by_key w", folded w'(3)]
  show q: "queued h' w' = insert t (queued h w)" by (auto simp: queued_def h' w')
  show m: "missing h' w' u = (if tx_txn_id (h u) = tx_txn_id (h t) then set ks else missing h w u)" for u
    by (simp add: missing_def h' w' get_or_def)
  have "t \<notin> set (rw_blocking w r)" for r using ok t(1) by (auto simp: waits_ok_def blocking_ok_def queued_def)
  with ok have "blocking_ok h' w'" by (auto simp: waits_ok_def blocking_ok_def h' w' hd_append)
  moreover have "inj_on (\<lambda>u. tx_txn_id (h' u)) (queued h' w')"
  proof -
    have ids: "(\<lambda>u. tx_txn_id (h' u)) = (\<lambda>u. tx_txn_id (h u))" by (simp add: h')
    have "inj_on (\<lambda>u. tx_txn_id (h u)) (queued h w)" using ok by (simp add: waits_ok_def)
    with t(2) show ?thesis unfolding ids q by (subst inj_on_insert) force
  qed
  moreover have "\<forall>u \<in> queued h' w'. tx_wait_for_remaster_pros (h' u) \<longleftrightarrow> missing h' w' u \<noteq> {}"
  proof -
    have "tx_wait_for_remaster_pros (h' u) \<longleftrightarrow> u = t \<or> tx_wait_for_remaster_pros (h u)" for u by (simp add: h')
    with ok t ks(1) show ?thesis by (auto simp: waits_ok_def q m)
  qed
  moreover have "distinct (get_or [] (rw_by_key w' k)) \<and> set (get_or [] (rw_by_key w' k)) = {u \<in> queued h' w'. k \<in> missing h' w' u}" for k
    unfolding key q m using t waits_okD(4,5) [OF ok, of k] by auto
  ultimately show "waits_ok h' w'" by (simp add: waits_ok_def)
qed

lemma hd_dropWhile_not: "dropWhile P xs \<noteq> [] \<Longrightarrow> \<not> P (hd (dropWhile P xs))"
  by (induction xs) auto

text \<open>One more transaction may go: the queue moves if it is the head of what is left.\<close>

lemma prefix_grows:
  assumes "\<And>t. P' t \<longleftrightarrow> P t \<or> t = a" "\<not> P a"
  shows "dropWhile P q = a # q' \<Longrightarrow> takeWhile P' q = takeWhile P q @ a # takeWhile P' q' \<and> dropWhile P' q = dropWhile P' q'"
    and "dropWhile P q = [] \<or> hd (dropWhile P q) \<noteq> a \<Longrightarrow> takeWhile P' q = takeWhile P q \<and> dropWhile P' q = dropWhile P q"
  by (induction q) (auto simp: assms split: if_splits)

text \<open>
  After the transactions in \<open>D\<close>: they no longer miss the key, and those that were let go and those still
  queued are the longest prefix of each queue that misses nothing, and the rest.
\<close>

definition woken ::
  "string \<times> uint64 \<Rightarrow> txn_heap \<Rightarrow> remaster_waits \<Rightarrow> txn_ptr set \<Rightarrow> txn_ptr list \<times> txn_heap \<times> remaster_waits \<Rightarrow> bool" where
  "woken k h0 w0 D st \<longleftrightarrow> (case st of (ready, h, w) \<Rightarrow>
     (\<forall>t. tx_origin_replica (h t) = tx_origin_replica (h0 t) \<and> tx_txn_id (h t) = tx_txn_id (h0 t))
     \<and> rw_by_key w = rw_by_key w0
     \<and> (\<forall>t \<in> queued h0 w0. missing h w t = missing h0 w0 t - (if t \<in> D then {k} else {})
          \<and> (tx_wait_for_remaster_pros (h t) \<longleftrightarrow> missing h w t \<noteq> {}))
     \<and> (\<forall>r. of_origin h0 r ready = takeWhile (\<lambda>t. \<not> tx_wait_for_remaster_pros (h t)) (rw_blocking w0 r)
          \<and> rw_blocking w r = dropWhile (\<lambda>t. \<not> tx_wait_for_remaster_pros (h t)) (rw_blocking w0 r)))"

lemma queued_blocking: "blocking_ok h w \<Longrightarrow> t \<in> set (rw_blocking w r) \<Longrightarrow> t \<in> queued h w \<and> tx_origin_replica (h t) = r"
  by (auto simp: blocking_ok_def queued_def)

text \<open>The queues when \<open>a\<close> may go too: only its own queue can move, and only if \<open>a\<close> stands in front.\<close>

lemma queue_moves:
  assumes b: "blocking_ok h w" and P': "\<And>t. P' t \<longleftrightarrow> P t \<or> t = a" "\<not> P a" and a: "a \<in> queued h w" and o: "tx_origin_replica (h a) = oo"
    and Q: "\<And>r. of_origin h r ready = takeWhile P (rw_blocking w r)" "\<And>r. B r = dropWhile P (rw_blocking w r)"
  shows "B oo \<noteq> []"
    and "of_origin h r (if hd (B oo) = a then ready @ a # takeWhile P' (tl (B oo)) else ready) = takeWhile P' (rw_blocking w r)
      \<and> (if hd (B oo) = a then B(oo := dropWhile P' (tl (B oo))) else B) r = dropWhile P' (rw_blocking w r)"
proof -
  show ne: "B oo \<noteq> []" using a P'(2) by (auto simp: Q queued_def o dropWhile_eq_Nil_conv)
  have front: "set (a # takeWhile P' (tl (B oo))) \<subseteq> set (rw_blocking w oo)" if "hd (B oo) = a"
  proof -
    have "set (a # takeWhile P' (tl (B oo))) \<subseteq> set (B oo)"
      using ne that by (metis list.collapse set_subset_Cons set_takeWhileD subsetI list.set_intros set_ConsD)
    then show ?thesis by (auto simp: Q(2) dest: set_dropWhileD)
  qed
  show "of_origin h r (if hd (B oo) = a then ready @ a # takeWhile P' (tl (B oo)) else ready) = takeWhile P' (rw_blocking w r)
      \<and> (if hd (B oo) = a then B(oo := dropWhile P' (tl (B oo))) else B) r = dropWhile P' (rw_blocking w r)"
  proof (cases "r = oo \<and> hd (B oo) = a")
    case True
    with ne have q: "dropWhile P (rw_blocking w oo) = a # tl (B oo)" by (metis Q(2) list.collapse)
    have "of_origin h oo (a # takeWhile P' (tl (B oo))) = a # takeWhile P' (tl (B oo))"
      unfolding of_origin_def filter_id_conv using queued_blocking [OF b] front True by blast
    with True prefix_grows(1) [where P' = P' and P = P, OF P' q] Q show ?thesis by (simp add: of_origin_def)
  next
    case False
    have "dropWhile P (rw_blocking w r) = [] \<or> hd (dropWhile P (rw_blocking w r)) \<noteq> a"
    proof (rule ccontr)
      assume "\<not> ?thesis"
      then have "a \<in> set (rw_blocking w r)" "hd (B r) = a" unfolding Q by (metis hd_in_set set_dropWhileD)+
      with queued_blocking [OF b] False o show False by metis
    qed
    from prefix_grows(2) [where P' = P' and P = P, OF P' this]
    have same: "takeWhile P' (rw_blocking w r) = takeWhile P (rw_blocking w r)" "dropWhile P' (rw_blocking w r) = dropWhile P (rw_blocking w r)" by blast+
    have "of_origin h r (a # takeWhile P' (tl (B oo))) = []" if "r \<noteq> oo" "hd (B oo) = a"
      unfolding of_origin_def filter_empty_conv using queued_blocking [OF b] front [OF that(2)] that(1) by blast
    with False same Q show ?thesis by (auto simp: of_origin_def)
  qed
qed

lemma wake_txn_woken:
  assumes ok: "waits_ok h0 w0" and I: "woken k h0 w0 D st" and a: "a \<in> queued h0 w0" "k \<in> missing h0 w0 a" "a \<notin> D"
  shows "\<exists>st'. wake_txn k a st = Inr st' \<and> woken k h0 w0 (insert a D) st'"
proof -
  obtain ready h w where st: "st = (ready, h, w)" by (cases st)
  let ?id = "tx_txn_id (h0 a)" and ?o = "tx_origin_replica (h0 a)" and ?h = "set_waiting a False h"
  define keys where "keys = removeAll k (get_or [] (rw_by_txnid w ?id))"
  let ?P = "\<lambda>t. \<not> tx_wait_for_remaster_pros (h t)" and ?P' = "\<lambda>t. \<not> tx_wait_for_remaster_pros (?h t)"
  have hp: "tx_origin_replica (h t) = tx_origin_replica (h0 t)" "tx_txn_id (h t) = tx_txn_id (h0 t)" for t
    using I by (simp_all add: st woken_def)
  have I': "missing h w t = missing h0 w0 t - (if t \<in> D then {k} else {})" "\<not> ?P t \<longleftrightarrow> missing h w t \<noteq> {}" if "t \<in> queued h0 w0" for t
    using I that by (simp_all add: st woken_def)
  have Q: "of_origin h0 r ready = takeWhile ?P (rw_blocking w0 r)" "rw_blocking w r = dropWhile ?P (rw_blocking w0 r)" for r
    using I by (simp_all add: st woken_def)
  have other: "tx_txn_id (h0 t) \<noteq> ?id" if "t \<in> queued h0 w0" "t \<noteq> a" for t using waits_okD(2) [OF ok] that a(1) by (auto simp: inj_on_def)
  have keys: "set keys = missing h0 w0 a - {k}" using I'(1) [OF a(1)] a(3) by (auto simp: missing_def hp keys_def)
  have wait: "\<not> ?P a" using I' [OF a(1)] a(2,3) by auto
  define w1 where "w1 = w\<lparr>rw_by_txnid := (rw_by_txnid w)(?id := if keys = [] then None else Some keys)\<rparr>"
  have key: "rw_by_key w1 = rw_by_key w0" using I by (simp add: w1_def woken_def st)
  have m: "missing h' w1 t = missing h0 w0 t - (if t \<in> insert a D then {k} else {})"
    if "t \<in> queued h0 w0" "h' = h \<or> h' = ?h" for t h'
  proof -
    have "missing h' w1 t = set (get_or [] (rw_by_txnid w1 (tx_txn_id (h0 t))))"
      using that(2) by (auto simp: missing_def hp)
    moreover have "set (get_or [] (rw_by_txnid w1 ?id)) = set keys" by (simp add: w1_def get_or_def)
    moreover have "missing h w t = set (get_or [] (rw_by_txnid w1 (tx_txn_id (h0 t))))" if "t \<noteq> a"
      using other that \<open>t \<in> queued h0 w0\<close> by (simp add: missing_def hp w1_def)
    ultimately show ?thesis using keys I'(1) [OF that(1)] by (cases "t = a") simp_all
  qed
  show ?thesis
  proof (cases "keys = []")
    case False
    then have "missing h0 w0 a - {k} \<noteq> {}" using keys by (metis set_empty)
    then have "tx_wait_for_remaster_pros (h t) \<longleftrightarrow> missing h w1 t \<noteq> {}" if "t \<in> queued h0 w0" for t
      using m [OF that, of h] I' [OF that] wait by (cases "t = a") simp_all
    with m [of _ h] Q hp key have "woken k h0 w0 (insert a D) (ready, h, w1)" by (simp add: woken_def) (simp add: w1_def)
    moreover have "wake_txn k a st = Inr (ready, h, w1)" using False by (simp add: st wake_txn_def Let_def w1_def hp keys_def)
    ultimately show ?thesis by blast
  next
    case True
    let ?q = "rw_blocking w ?o"
    let ?B = "if hd ?q = a then (rw_blocking w)(?o := dropWhile ?P' (tl ?q)) else rw_blocking w"
    let ?ready = "if hd ?q = a then ready @ a # takeWhile ?P' (tl ?q) else ready"
    have P': "?P' t \<longleftrightarrow> ?P t \<or> t = a" for t by simp
    note moves = queue_moves [OF waits_okD(1) [OF ok], where P = ?P and P' = ?P', OF P' wait a(1) refl Q]
    have run: "wake_txn k a st = Inr (?ready, ?h, w1\<lparr>rw_blocking := ?B\<rparr>)"
      using True moves(1) by (simp add: st wake_txn_def Let_def w1_def hp require_defined_def keys_def del: set_waiting_simps(3))
    have "missing h0 w0 a - {k} = {}" using keys True by simp
    then have "\<not> ?P' t \<longleftrightarrow> missing ?h w1 t \<noteq> {}" if "t \<in> queued h0 w0" for t
      using m [OF that, of ?h] I' [OF that] by (cases "t = a") simp_all
    with m [of _ ?h] key moves(2) have "woken k h0 w0 (insert a D) (?ready, ?h, w1\<lparr>rw_blocking := ?B\<rparr>)"
      unfolding woken_def prod.case by (simp add: hp del: set_waiting_simps(3))
    with run show ?thesis by blast
  qed
qed

lemma wake_txns_woken:
  assumes "waits_ok h0 w0"
  shows "woken k h0 w0 D st \<Longrightarrow> set ts \<subseteq> {t \<in> queued h0 w0. k \<in> missing h0 w0 t} - D \<Longrightarrow> distinct ts \<Longrightarrow>
    \<exists>st'. foldE (wake_txn k) ts st = Inr st' \<and> woken k h0 w0 (D \<union> set ts) st'"
proof (induction ts arbitrary: D st)
  case (Cons a ts)
  then obtain st1 where st1: "wake_txn k a st = Inr st1" "woken k h0 w0 (insert a D) st1"
    using wake_txn_woken [OF assms Cons.prems(1), of a] by auto
  with Cons.IH [OF st1(2)] Cons.prems(2,3) show ?case by auto
qed auto

lemma woken_start:
  assumes "waits_ok h w"
  shows "woken k h w {} ([], h, w)"
proof -
  have "takeWhile (\<lambda>t. \<not> tx_wait_for_remaster_pros (h t)) (rw_blocking w r) = []
      \<and> dropWhile (\<lambda>t. \<not> tx_wait_for_remaster_pros (h t)) (rw_blocking w r) = rw_blocking w r" for r
    using waits_okD(1) [OF assms] by (cases "rw_blocking w r") (auto simp: blocking_ok_def dest: spec [of _ r])
  with assms show ?thesis by (simp add: woken_def waits_ok_def of_origin_def)
qed

text \<open>When all transactions registered under the key have been handled and the key is erased, the tables agree.\<close>

lemma woken_all:
  assumes ok: "waits_ok h w" and W: "woken k h w (set (get_or [] (rw_by_key w k))) (ready, h', w1)"
  defines "w' \<equiv> w1\<lparr>rw_by_key := (rw_by_key w1)(k := None)\<rparr>"
  shows "waits_ok h' w'" and "t \<in> queued h w \<Longrightarrow> missing h' w' t = missing h w t - {k}"
    and "t \<in> queued h w \<Longrightarrow> tx_wait_for_remaster_pros (h' t) \<longleftrightarrow> \<not> missing h w t \<subseteq> {k}"
proof -
  let ?P = "\<lambda>t. \<not> tx_wait_for_remaster_pros (h' t)"
  have hp: "tx_origin_replica (h' t) = tx_origin_replica (h t)" "tx_txn_id (h' t) = tx_txn_id (h t)" for t
    using W by (simp_all add: woken_def)
  have key: "rw_by_key w1 = rw_by_key w" and Q: "rw_blocking w' r = dropWhile ?P (rw_blocking w r)" for r
    using W by (simp_all add: woken_def w'_def)
  have mt: "missing h' w' t = missing h w t - {k}" "tx_wait_for_remaster_pros (h' t) \<longleftrightarrow> \<not> missing h w t \<subseteq> {k}" if "t \<in> queued h w" for t
  proof -
    have "missing h' w1 t = missing h w t - (if t \<in> set (get_or [] (rw_by_key w k)) then {k} else {})"
      "tx_wait_for_remaster_pros (h' t) \<longleftrightarrow> missing h' w1 t \<noteq> {}"
      using W that by (simp_all add: woken_def)
    moreover have "t \<in> set (get_or [] (rw_by_key w k)) \<longleftrightarrow> k \<in> missing h w t" using waits_okD(5) [OF ok] that by blast
    moreover have "missing h' w' t = missing h' w1 t" by (simp add: missing_def w'_def)
    ultimately show "missing h' w' t = missing h w t - {k}" "tx_wait_for_remaster_pros (h' t) \<longleftrightarrow> \<not> missing h w t \<subseteq> {k}" by auto
  qed
  then show "t \<in> queued h w \<Longrightarrow> missing h' w' t = missing h w t - {k}"
    "t \<in> queued h w \<Longrightarrow> tx_wait_for_remaster_pros (h' t) \<longleftrightarrow> \<not> missing h w t \<subseteq> {k}" by blast+
  have sub: "queued h' w' \<subseteq> queued h w" by (auto simp: queued_def Q hp dest: set_dropWhileD)
  have waits: "t \<in> queued h' w'" if "t \<in> queued h w" "\<not> ?P t" for t
  proof -
    have "t \<in> set (takeWhile ?P (rw_blocking w (tx_origin_replica (h t))) @ dropWhile ?P (rw_blocking w (tx_origin_replica (h t))))"
      unfolding takeWhile_dropWhile_id using that(1) by (simp add: queued_def)
    then have "t \<in> set (dropWhile ?P (rw_blocking w (tx_origin_replica (h t))))"
      using that(2) unfolding set_append by (auto dest: set_takeWhileD simp del: takeWhile_dropWhile_id)
    then show ?thesis by (simp add: queued_def Q hp)
  qed
  have "blocking_ok h' w'"
    using waits_okD(1) [OF ok] hd_dropWhile_not [of ?P] unfolding blocking_ok_def Q hp by (auto dest: set_dropWhileD)
  moreover have "inj_on (\<lambda>t. tx_txn_id (h' t)) (queued h' w')" unfolding hp using waits_okD(2) [OF ok] sub inj_on_subset by blast
  moreover have "\<forall>t \<in> queued h' w'. tx_wait_for_remaster_pros (h' t) \<longleftrightarrow> missing h' w' t \<noteq> {}"
    using sub mt by (metis (no_types, lifting) Diff_eq_empty_iff subsetD)
  moreover have "distinct (get_or [] (rw_by_key w' j)) \<and> set (get_or [] (rw_by_key w' j)) = {t \<in> queued h' w'. j \<in> missing h' w' t}" for j
  proof -
    have "t \<in> queued h' w'" if "t \<in> queued h w" "j \<in> missing h w t" "j \<noteq> k" for t
      using waits [OF that(1)] mt(2) [OF that(1)] that(2,3) by blast
    then have "{t \<in> queued h' w'. j \<in> missing h' w' t} = (if j = k then {} else {t \<in> queued h w. j \<in> missing h w t})"
      using sub mt(1) by auto
    moreover have "get_or [] (rw_by_key w' j) = (if j = k then [] else get_or [] (rw_by_key w j))" by (simp add: w'_def key get_or_def)
    ultimately show ?thesis using waits_okD(4,5) [OF ok, of j] by simp
  qed
  ultimately show "waits_ok h' w'" by (simp add: waits_ok_def)
qed

text \<open>
  C29: a remaster that makes the key \<open>k\<close> current wakes exactly the transactions that it
  should. If the queued transactions have different ids and the three tables agree, the wake-up is
  defined; of every queue it lets go, in order, the longest prefix of transactions that miss no other key,
  and leaves the rest queued; these miss \<open>k\<close> no more, and whatever else they missed still;
  and the tables agree again, so that what stands at the head of a queue does wait.
\<close>

theorem wake_blocked_fifo:
  assumes "waits_ok h w"
  shows "\<exists>ready h' w'. wake_blocked k (h, w) = Inr (ready, h', w') \<and> waits_ok h' w'
    \<and> (\<forall>r. of_origin h r ready = takeWhile (\<lambda>t. missing h w t \<subseteq> {k}) (rw_blocking w r)
          \<and> rw_blocking w' r = dropWhile (\<lambda>t. missing h w t \<subseteq> {k}) (rw_blocking w r)
          \<and> (\<forall>t \<in> set (rw_blocking w' r). missing h' w' t = missing h w t - {k}))"
proof -
  let ?ts = "get_or [] (rw_by_key w k)"
  from wake_txns_woken [OF assms woken_start [OF assms], of ?ts k] waits_okD(4,5) [OF assms, of k] obtain ready h' w1 where
    fold: "foldE (wake_txn k) ?ts ([], h, w) = Inr (ready, h', w1)" and W: "woken k h w (set ?ts) (ready, h', w1)" by auto
  define w' where "w' = w1\<lparr>rw_by_key := (rw_by_key w1)(k := None)\<rparr>"
  note all = woken_all [OF assms W, folded w'_def]
  have "wake_blocked k (h, w) = Inr (ready, h', w')"
  proof (cases "rw_by_key w k")
    case None
    then have "rw_by_key w1 = (rw_by_key w1)(k := None)" "?ts = []" using W by (auto simp: woken_def get_or_def)
    with fold None show ?thesis by (simp add: wake_blocked_def w'_def)
  next
    case (Some ts)
    with fold show ?thesis by (simp add: wake_blocked_def w'_def get_or_def)
  qed
  moreover have q: "t \<in> queued h w" if "t \<in> set (rw_blocking w r)" for t r
    using queued_blocking waits_okD(1) [OF assms] that by blast
  have "takeWhile (\<lambda>t. \<not> tx_wait_for_remaster_pros (h' t)) (rw_blocking w r) = takeWhile (\<lambda>t. missing h w t \<subseteq> {k}) (rw_blocking w r)"
    "dropWhile (\<lambda>t. \<not> tx_wait_for_remaster_pros (h' t)) (rw_blocking w r) = dropWhile (\<lambda>t. missing h w t \<subseteq> {k}) (rw_blocking w r)" for r
    using all(3) [OF q] by (auto intro!: takeWhile_cong dropWhile_cong)
  then have "of_origin h r ready = takeWhile (\<lambda>t. missing h w t \<subseteq> {k}) (rw_blocking w r)"
    "rw_blocking w' r = dropWhile (\<lambda>t. missing h w t \<subseteq> {k}) (rw_blocking w r)" for r
    using W by (simp_all add: woken_def w'_def)
  ultimately show ?thesis using all(1,2) q
    by (intro exI [of _ ready] exI [of _ h'] exI [of _ w']) (auto dest: set_dropWhileD)
qed

text \<open>
  A lost wake-up. Two parts of one transaction with different origins have the same id, and
  \<open>waiting_txns_by_txnid_\<close> keeps the keys of the second only: when the key of the first part is
  remastered, the part is not woken and its registration is dropped, so it stays blocked for ever.
\<close>

theorem wake_lost_for_same_id:
  assumes "a \<noteq> b" "tx_txn_id (h a) = tx_txn_id (h b)" "tx_origin_replica (h a) \<noteq> tx_origin_replica (h b)" "ka \<noteq> kb"
  shows "\<exists>h2 w2 h3 w3.
    wake_blocked ka (block_waiting b [kb] (block_waiting a [ka] (h, remaster_waits_new))) = Inr ([], h2, w2)
    \<and> wake_blocked kb (h2, w2) = Inr ([b], h3, w3)
    \<and> rw_blocking w3 (tx_origin_replica (h a)) = [a] \<and> tx_wait_for_remaster_pros (h3 a) \<and> (\<forall>k. rw_by_key w3 k = None)"
  using assms
  by (simp add: wake_blocked_def block_waiting_def wake_txn_def remaster_waits_new_def get_or_def
      require_defined_def Let_def)

section \<open>Locking in batch order\<close>

lemma abs_queue_cong: "\<forall>t \<in> set active. w t = w' t \<Longrightarrow> abs_queue w active k = abs_queue w' active k"
  by (induction active) auto

lemma represents_cong:
  assumes "\<forall>t \<in> set active. w t = w' t" "\<forall>t. finite {k. w' t k \<noteq> UNLOCKED}" "represents w active lm"
  shows "represents w' active lm"
proof -
  note q = abs_queue_cong [OF assms(1)]
  have "blocked w active t k = blocked w' active t k" for t k using assms(1) by (auto simp: blocked_def q)
  then show ?thesis using assms(2,3) by (simp add: represents_def q wait_count_def)
qed

text \<open>The lock manager is in the state of \<open>active\<close>, for the transactions in the heap.\<close>

definition thread_ok :: "txn_ptr list \<Rightarrow> 'b lm_thread \<Rightarrow> bool" where
  "thread_ok active s \<longleftrightarrow>
     represents (\<lambda>t. wanted (dlm_config (ls_lm s)) (dlm_mode (ls_lm s)) (ls_heap s t)) active (ls_lm s)
     \<and> (\<forall>t \<in> set active. t < ls_next s)"

lemma thread_ok_new: "thread_ok [] (DeterministicScheduler_new c m st recs)"
  using represents_new [of c m "\<lambda>_. TxnProto_new" "[]"]
  by (simp add: thread_ok_def DeterministicScheduler_new_def wants_of_def [abs_def] DeterministicLockManager_new_def)

lemma Lock_config: "dlm_config (snd (Lock t txn lm)) = dlm_config lm \<and> dlm_mode (snd (Lock t txn lm)) = dlm_mode lm"
  by (simp add: Lock_def Let_def)

lemma lock_txn_ok:
  assumes "thread_ok active s" "t \<notin> set active" "t < ls_next s"
  shows "thread_ok (active @ [t]) (lock_txn t s)"
proof -
  let ?w = "\<lambda>u. wanted (dlm_config (ls_lm s)) (dlm_mode (ls_lm s)) (ls_heap s u)"
  obtain n lm' where l: "Lock t (ls_heap s t) (ls_lm s) = (n, lm')" by (cases "Lock t (ls_heap s t) (ls_lm s)")
  with Lock_refines [of ?w active "ls_lm s" t "ls_heap s t" n lm'] assms show ?thesis
    by (simp add: thread_ok_def lock_txn_def)
qed

lemma new_txn_ok:
  assumes "thread_ok active s"
  shows "thread_ok active (s\<lparr>ls_next := ls_next s + 1, ls_heap := (ls_heap s)(ls_next s := txn)\<rparr>)"
proof -
  have "\<forall>t \<in> set active. t \<noteq> ls_next s" using assms by (auto simp: thread_ok_def)
  then show ?thesis
    using assms unfolding thread_ok_def
    by (auto intro!: represents_cong [where w = "\<lambda>t. wanted (dlm_config (ls_lm s)) (dlm_mode (ls_lm s)) (ls_heap s t)"]
        wanted_finite)
qed

lemma admit_txn_locks:
  assumes "thread_ok active s" "dlm_mode (ls_lm s) \<noteq> 2 \<or> tx_remaster_txn txn"
  shows "\<exists>s'. admit_txn txn s = Inr s' \<and> thread_ok (active @ [ls_next s]) s' \<and> ls_next s' = ls_next s + 1
    \<and> ls_heap s' = (ls_heap s)(ls_next s := txn) \<and> dlm_mode (ls_lm s') = dlm_mode (ls_lm s)
    \<and> ls_batch_offset s' = ls_batch_offset s"
proof -
  let ?s = "s\<lparr>ls_next := ls_next s + 1, ls_heap := (ls_heap s)(ls_next s := txn)\<rparr>"
  have "ls_next s \<notin> set active" using assms(1) by (auto simp: thread_ok_def)
  then have "thread_ok (active @ [ls_next s]) (lock_txn (ls_next s) ?s)"
    by (intro lock_txn_ok new_txn_ok [OF assms(1)]) simp_all
  moreover have "admit_txn txn s = Inr (lock_txn (ls_next s) ?s)" using assms(2) by (auto simp: admit_txn_def Let_def)
  ultimately show ?thesis using Lock_config by (auto simp: lock_txn_def)
qed

lemma upt_Suc_shift: "0 < k \<Longrightarrow> i # [Suc i ..< i + k] = [i ..< i + k]"
  by (simp add: upt_conv_Cons)

lemma take_txns_locks:
  assumes "thread_ok active s" "dlm_mode (ls_lm s) \<noteq> 2" "k = min n (length (msg_data b) - ls_batch_offset s)"
  shows "\<exists>s'. take_txns cd b n s = Inr s' \<and> thread_ok (active @ [ls_next s ..< ls_next s + k]) s'
    \<and> (\<forall>i < k. ls_heap s' (ls_next s + i) = dec_txn cd (msg_data b ! (ls_batch_offset s + i)))
    \<and> (\<forall>t < ls_next s. ls_heap s' t = ls_heap s t)"
  using assms
proof (induction n arbitrary: s active k)
  case (Suc n)
  show ?case
  proof (cases "length (msg_data b) \<le> ls_batch_offset s")
    case True
    then show ?thesis using Suc.prems by simp
  next
    case False
    let ?txn = "dec_txn cd (msg_data b ! ls_batch_offset s)"
    let ?s = "s\<lparr>ls_batch_offset := ls_batch_offset s + 1\<rparr>"
    have "thread_ok active ?s" using Suc.prems(1) by (simp add: thread_ok_def)
    from admit_txn_locks [OF this] Suc.prems(2) obtain s1 where s1: "admit_txn ?txn ?s = Inr s1"
      "thread_ok (active @ [ls_next s]) s1" "ls_next s1 = ls_next s + 1" "ls_heap s1 = (ls_heap s)(ls_next s := ?txn)"
      "dlm_mode (ls_lm s1) \<noteq> 2" "ls_batch_offset s1 = ls_batch_offset s + 1"
      by fastforce
    define k' where "k' = min n (length (msg_data b) - ls_batch_offset s1)"
    have k: "k = Suc k'" using Suc.prems(3) False by (simp add: k'_def s1(6))
    from Suc.IH [OF s1(2,5) k'_def] obtain s' where s': "take_txns cd b n s1 = Inr s'"
      "thread_ok ((active @ [ls_next s]) @ [ls_next s1 ..< ls_next s1 + k']) s'"
      "\<forall>i < k'. ls_heap s' (ls_next s1 + i) = dec_txn cd (msg_data b ! (ls_batch_offset s1 + i))"
      "\<forall>t < ls_next s1. ls_heap s' t = ls_heap s1 t"
      by (elim exE conjE) (rule that)
    have "take_txns cd b (Suc n) s = Inr s'" using False s1(1) s'(1) by simp
    moreover have "(active @ [ls_next s]) @ [ls_next s1 ..< ls_next s1 + k'] = active @ [ls_next s ..< ls_next s + k]"
      using upt_Suc_shift [of k "ls_next s"] by (simp add: k s1(3))
    moreover have "ls_heap s' (ls_next s + i) = dec_txn cd (msg_data b ! (ls_batch_offset s + i))" if "i < k" for i
    proof (cases i)
      case 0
      then show ?thesis using s'(4) s1(3,4) by simp
    next
      case (Suc j)
      then show ?thesis using s'(3) that k s1(3,6) by simp
    qed
    moreover have "\<forall>t < ls_next s. ls_heap s' t = ls_heap s t" using s'(4) s1(3,4) by simp
    ultimately show ?thesis using s'(2) by auto
  qed
qed simp

text \<open>
  Outside the remaster mode the thread locks the transactions of a batch in batch order, at most
  \<open>num_txns_once\<close> per round: the lock manager's order is extended by exactly the next ones, and their
  contents are the parsed entries of the batch.
\<close>

theorem take_txns_in_batch_order:
  assumes "thread_ok active s" "dlm_mode (ls_lm s) \<noteq> 2"
    and "k = min num_txns_once (length (msg_data b) - ls_batch_offset s)"
  shows "\<exists>s'. take_txns cd b num_txns_once s = Inr s' \<and> thread_ok (active @ [ls_next s ..< ls_next s + k]) s'
    \<and> (\<forall>i < k. ls_heap s' (ls_next s + i) = dec_txn cd (msg_data b ! (ls_batch_offset s + i)))"
  using take_txns_locks [OF assms] by blast

section \<open>Aborted transactions that waited\<close>

lemma VerifyStorageCounters_txn:
  assumes "VerifyStorageCounters c st h txn = Inr (can, keys, txn')"
  shows "txn' = txn \<or> txn' = txn\<lparr>tx_status := ABORTED_WITHOUT_LOCK\<rparr>"
  using assms by (auto simp: VerifyStorageCounters_def bindE_Inr_iff split: if_splits)

text \<open>
  Leaked locks. A transaction that is marked as aborted while it also has to wait is locked when
  the remaster it waits for is done. Its status still says that it holds no locks, so when it is done
  nothing is released: it is deleted and stays in the lock manager's queues.
\<close>

theorem aborted_waiting_txn_leaks_locks:
  assumes verify: "VerifyStorageCounters c st recs txn = Inr (False, [k], txn')"
    and status: "tx_status txn' = ABORTED_WITHOUT_LOCK" and remaster: "\<not> tx_remaster_txn txn"
  shows "\<exists>s1 h w s3. admit_txn txn (DeterministicScheduler_new c 2 st recs :: 'b lm_thread) = Inr s1
    \<and> wake_blocked k (ls_heap s1, ls_waits s1) = Inr ([0], h, w)
    \<and> handle_done rnd 0 (lock_txn 0 (s1\<lparr>ls_heap := h, ls_waits := w\<rparr>)) = Inr s3
    \<and> thread_ok [0] s3 \<and> 0 \<in> set (ls_freed s3)"
proof -
  let ?s = "DeterministicScheduler_new c 2 st recs :: 'b lm_thread"
  let ?h = "(\<lambda>_. TxnProto_new)(0 := txn'\<lparr>tx_wait_for_remaster_pros := True\<rparr>)"
  let ?h' = "(\<lambda>_. TxnProto_new)(0 := txn'\<lparr>tx_wait_for_remaster_pros := False\<rparr>)"
  let ?w = "\<lparr>rw_by_key = [k \<mapsto> [0]], rw_by_txnid = [tx_txn_id txn' \<mapsto> [k]],
      rw_blocking = (\<lambda>_. [])(tx_origin_replica txn' := [0])\<rparr>"
  let ?w' = "\<lparr>rw_by_key = Map.empty, rw_by_txnid = Map.empty, rw_blocking = (\<lambda>_. [])\<rparr>"
  let ?s1 = "?s\<lparr>ls_next := 1, ls_heap := ?h, ls_waits := ?w\<rparr>"
  let ?s2 = "lock_txn 0 (?s1\<lparr>ls_heap := ?h', ls_waits := ?w'\<rparr>)"
  have rem: "\<not> tx_remaster_txn txn'" using VerifyStorageCounters_txn [OF verify] remaster by auto
  have admit: "admit_txn txn ?s = Inr ?s1"
    using verify remaster
    by (simp add: admit_txn_def DeterministicScheduler_new_def DeterministicLockManager_new_def block_waiting_def
        set_waiting_def remaster_waits_new_def get_or_def Let_def)
  have wake: "wake_blocked k (?h, ?w) = Inr ([0], ?h', ?w')"
    by (simp add: wake_blocked_def wake_txn_def set_waiting_def get_or_def require_defined_def Let_def fun_upd_idem)
  have "thread_ok [] (?s1\<lparr>ls_heap := ?h', ls_waits := ?w'\<rparr>)"
    using represents_new [of c 2 ?h' "[]"]
    by (simp add: thread_ok_def DeterministicScheduler_new_def wants_of_def [abs_def] DeterministicLockManager_new_def)
  then have "thread_ok ([] @ [0]) ?s2" by (intro lock_txn_ok) simp_all
  then have ok: "thread_ok [0] ?s2" by simp
  let ?s3 = "?s2\<lparr>ls_executing := ls_executing ?s2 - 1, ls_freed := ls_freed ?s2 @ [0]\<rparr>"
  have "handle_done rnd 0 ?s2 = Inr ?s3"
    using rem status
    by (simp add: handle_done_def done_remaster_def done_release_def done_count_def lock_txn_def Let_def)
  moreover have "thread_ok [0] ?s3" using ok by (simp add: thread_ok_def)
  moreover have "wake_blocked k (ls_heap ?s1, ls_waits ?s1) = Inr ([0], ?h', ?w')" using wake by simp
  ultimately show ?thesis using admit by (intro exI conjI) (assumption+, simp)
qed

section \<open>Concrete runs of the scheduler\<close>

definition example_order :: "payload message_proto" where
  "example_order = MessageProto_new\<lparr>msg_type := PAXOS_BATCH_ORDER, msg_misc_int := [1], msg_data := [Seq_bytes [7, 8]]\<rparr>"

definition example_subbatch :: "uint64 \<Rightarrow> payload message_proto" where
  "example_subbatch b = MessageProto_new\<lparr>msg_type := TXN_SUBBATCH, msg_batch_number := b\<rparr>"

lemma example_genuine:
  "genuine payload_codec [[7, 8]] example_subbatch example_order"
  "genuine payload_codec [[7, 8]] example_subbatch (example_subbatch b)"
  by (simp_all add: genuine_def example_order_def example_subbatch_def MessageProto_new_def payload_codec_def)

lemma example_seqs_ok: "seqs_ok [[7, 8]]"
  by (simp add: seqs_ok_def)

lemma GetBatch_agreed_order_witness:
  "\<exists>ms s'. batch_run payload_codec [Deliver (example_subbatch 8), Poll, Deliver example_order, Poll, Deliver (example_subbatch 7), Poll]
      batch_state_new = Inr (ms, s') \<and> ms = map example_subbatch (take (length ms) [7, 8])"
  using GetBatch_agreed_order [OF example_seqs_ok,
      of "[Deliver (example_subbatch 8), Poll, Deliver example_order, Poll, Deliver (example_subbatch 7), Poll]"
        payload_codec example_subbatch]
  by (simp add: example_genuine del: batch_run.simps)

lemma GetBatch_complete_witness:
  "\<exists>s'. batch_run payload_codec (map Deliver [example_subbatch 8, example_order, example_subbatch 7] @ replicate 2 Poll)
      batch_state_new = Inr ([example_subbatch 7, example_subbatch 8], s')"
  using GetBatch_complete [OF example_seqs_ok, of "[example_subbatch 8, example_order, example_subbatch 7]"
      payload_codec example_subbatch]
  by (simp add: example_genuine numeral_2_eq_2 del: batch_run.simps)
    (simp add: example_order_def example_subbatch_def MessageProto_new_def numeral_2_eq_2 del: batch_run.simps)

text \<open>Two local records; the transaction was routed with a newer counter for the first and an older one for the second.\<close>

definition example_storage :: simple_storage where
  "example_storage = [''0'' \<mapsto> 0, ''2'' \<mapsto> 1]"

definition example_records :: rec_heap where
  "example_records = [Record_new_counter ''v'' 0 0, Record_new_counter ''v'' 0 5]"

definition example_routed_txn :: txn_proto where
  "example_routed_txn = TxnProto_new\<lparr>tx_read_write_set :=
     [\<lparr>ke_key = ''0'', ke_master = 0, ke_counter = 1\<rparr>, \<lparr>ke_key = ''2'', ke_master = 0, ke_counter = 0\<rparr>]\<rparr>"

lemma example_counters:
  "GetMasterCounter example_storage example_records ''0'' = Inr (0, 0)"
  "GetMasterCounter example_storage example_records ''2'' = Inr (0, 5)"
  by (simp_all add: GetMasterCounter_def ReadObject_def heap_get_def example_storage_def example_records_def
      Record_new_counter_def)

lemma example_checked:
  "checked_entries (example_config 0) example_routed_txn = tx_read_write_set example_routed_txn"
  by (simp add: checked_entries_def example_routed_txn_def TxnProto_new_def example_IsLocal)

lemma example_verify:
  "VerifyStorageCounters (example_config 0) example_storage example_records example_routed_txn
     = Inr (False, [(''0'', 1)], example_routed_txn\<lparr>tx_status := ABORTED_WITHOUT_LOCK\<rparr>)"
  by (simp add: VerifyStorageCounters_def verify_entry_def example_routed_txn_def TxnProto_new_def example_IsLocal
      example_counters)

lemma VerifyStorageCounters_correct_witness:
  "\<exists>can keys txn'. VerifyStorageCounters (example_config 0) example_storage example_records example_routed_txn
      = Inr (can, keys, txn') \<and> \<not> can \<and> set keys = {(''0'', 1)}"
proof -
  let ?cnt = "\<lambda>k. if k = ''0'' then 0 else 5 :: uint64"
  have "\<forall>e \<in> set (checked_entries (example_config 0) example_routed_txn).
      \<exists>m. GetMasterCounter example_storage example_records (ke_key e) = Inr (m, ?cnt (ke_key e))"
    by (simp add: example_checked) (simp add: example_routed_txn_def example_counters)
  from VerifyStorageCounters_correct [OF this] show ?thesis
    by (simp add: example_checked) (simp add: example_routed_txn_def, blast)
qed

text \<open>Three transactions of replica 0 wait: two for the key 0, the last one for the key 2.\<close>

definition example_waits :: "txn_heap \<times> remaster_waits" where
  "example_waits = block_waiting 6 [(''2'', 1)] (block_waiting 5 [(''0'', 1)] (block_waiting 4 [(''0'', 1)]
     (\<lambda>t. TxnProto_new\<lparr>tx_txn_id := of_nat t\<rparr>, remaster_waits_new)))"

lemma example_waits_ok:
  "waits_ok (fst example_waits) (snd example_waits)"
  "rw_blocking (snd example_waits) 0 = [4, 5, 6]"
  "\<forall>t \<in> {4, 5}. missing (fst example_waits) (snd example_waits) t = {(''0'', 1)}"
  "missing (fst example_waits) (snd example_waits) 6 = {(''2'', 1)}"
proof -
  let ?h = "\<lambda>t. TxnProto_new\<lparr>tx_txn_id := of_nat t\<rparr>"
  define hw1 where "hw1 = block_waiting 4 [(''0'', 1)] (?h, remaster_waits_new)"
  define hw2 where "hw2 = block_waiting 5 [(''0'', 1)] hw1"
  have ids: "tx_txn_id (?h t) = of_nat t" "tx_txn_id (fst hw1 t) = of_nat t" "tx_txn_id (fst hw2 t) = of_nat t" for t
    by (simp_all add: hw1_def hw2_def block_waiting_def Let_def)
  note b1 = block_waiting_ok [OF waits_ok_new, of 4 ?h "[(''0'', 1)]" "fst hw1" "snd hw1"]
  have q0: "queued ?h remaster_waits_new = {}" by (simp add: queued_def remaster_waits_new_def)
  have 1: "waits_ok (fst hw1) (snd hw1)" "queued (fst hw1) (snd hw1) = {4}" using b1(1,2) by (simp_all add: q0 hw1_def)
  note b2 = block_waiting_ok [OF 1(1), of 5 "[(''0'', 1)]" "fst hw2" "snd hw2"]
  have 2: "waits_ok (fst hw2) (snd hw2)" "queued (fst hw2) (snd hw2) = {5, 4}" using b2(1,2) by (simp_all add: 1(2) ids hw2_def)
  note b3 = block_waiting_ok [OF 2(1), of 6 "[(''2'', 1)]" "fst example_waits" "snd example_waits"]
  show "waits_ok (fst example_waits) (snd example_waits)"
    using b3(1) by (simp add: 2(2) ids) (simp add: example_waits_def hw1_def hw2_def)
  show "rw_blocking (snd example_waits) 0 = [4, 5, 6]"
    "\<forall>t \<in> {4, 5}. missing (fst example_waits) (snd example_waits) t = {(''0'', 1)}"
    "missing (fst example_waits) (snd example_waits) 6 = {(''2'', 1)}"
    by (simp_all add: example_waits_def block_waiting_def missing_def get_or_def remaster_waits_new_def TxnProto_new_def Let_def)
qed

lemma wake_blocked_fifo_witness:
  "\<exists>ready h w. wake_blocked (''0'', 1) example_waits = Inr (ready, h, w)
    \<and> of_origin (fst example_waits) 0 ready = [4, 5] \<and> rw_blocking w 0 = [6] \<and> missing h w 6 = {(''2'', 1)}"
  using wake_blocked_fifo [OF example_waits_ok(1), of "(''0'', 1)"] example_waits_ok(2-4)
  by (elim exE conjE) (drule spec [of _ 0], simp)

lemma wake_lost_for_same_id_witness:
  "\<exists>h2 w2. wake_blocked (''0'', 1) (block_waiting 5 [(''2'', 1)] (block_waiting 4 [(''0'', 1)]
      ((\<lambda>t. TxnProto_new\<lparr>tx_origin_replica := of_nat t\<rparr>), remaster_waits_new))) = Inr ([], h2, w2)"
  using wake_lost_for_same_id [of 4 5 "\<lambda>t. TxnProto_new\<lparr>tx_origin_replica := of_nat t\<rparr>" "(''0'', 1)" "(''2'', 1)"]
  by (simp add: TxnProto_new_def) blast

lemma take_txns_in_batch_order_witness:
  "\<exists>s'. take_txns payload_codec (MessageProto_new\<lparr>msg_data := [Txn_bytes example_routed_txn]\<rparr>) num_txns_once
      (DeterministicScheduler_new (example_config 0) 0 Map.empty []) = Inr s' \<and> thread_ok [0] s'"
  using take_txns_in_batch_order [OF thread_ok_new [of "example_config 0" 0 Map.empty "[]"], of 1
      "MessageProto_new\<lparr>msg_data := [Txn_bytes example_routed_txn]\<rparr>" payload_codec]
  by (simp add: DeterministicScheduler_new_def DeterministicLockManager_new_def num_txns_once_def) blast

lemma aborted_waiting_txn_leaks_locks_witness:
  "\<exists>s1 h w s3. admit_txn example_routed_txn
      (DeterministicScheduler_new (example_config 0) 2 example_storage example_records :: payload lm_thread) = Inr s1
    \<and> handle_done (\<lambda>_. 0) 0 (lock_txn 0 (s1\<lparr>ls_heap := h, ls_waits := w\<rparr>)) = Inr s3
    \<and> thread_ok [0] s3 \<and> 0 \<in> set (ls_freed s3)"
  using aborted_waiting_txn_leaks_locks [OF example_verify, of "\<lambda>_. 0"]
  by (simp add: example_routed_txn_def TxnProto_new_def) blast

end
