(* ===== verification/Storage_Manager.thy ===== *)
theory Storage_Manager
  imports Storage Cluster_Config Messages
begin

text \<open>
  \<open>backend/storage_manager.{h,cc}\<close>: the object a worker thread creates for one transaction on one
  machine. The constructor reads the local records and sends them to the other writers,
  \<open>HandleReadResult\<close> takes what the others send, \<open>ReadyToExecute\<close> tells when every key is there, and
  \<open>CheckCommitOrAbort\<close> decides, under background remastering, whether the masters and counters the
  transaction was ordered with still hold, and if not which machine submits it again.

  The fields \<open>configuration_\<close>, \<open>actual_storage_\<close> and the heap are shared by the threads and are
  arguments of the operations; what \<open>connection_->Send\<close> is given is returned as a list. The records a
  manager allocates for remote values die with it and are not freed in the model.
\<close>

section \<open>State\<close>

record 'b storage_manager =
  sm_txn :: txn_proto
  sm_mode :: uint32
  sm_writer :: bool
  sm_objects :: "(string \<times> rec_ptr option) list"   \<comment> \<open>\<open>None\<close> is the null pointer\<close>
  sm_remote_reads :: "rec_ptr list"
  sm_relative_node_id :: uint64
  sm_local_replica_id :: uint32
  sm_remote_replica_writers :: "(uint64 \<times> uint32) list"
  sm_remote_result_message :: "'b message_proto"
  sm_involved_machines :: "(uint64 \<times> uint32) list"
  sm_min_involved_machine :: uint64
  sm_min_involved_machine_origin :: uint32
  sm_local_entries :: "remote_results_entry list"
  sm_txn_origin_replica :: uint32
  sm_local_commit :: bool

text \<open>
  The members before the body of the constructor runs; \<open>u64\<close> and \<open>u32\<close> stand for the two that stay
  uninitialised unless the machine is a reader and the mode is 2.
\<close>

definition StorageManager_init :: "uint64 \<Rightarrow> uint32 \<Rightarrow> cluster_config \<Rightarrow> txn_proto \<Rightarrow> uint32 \<Rightarrow> 'b storage_manager" where
  "StorageManager_init u64 u32 c txn mode =
     \<lparr>sm_txn = txn, sm_mode = mode, sm_writer = False, sm_objects = [], sm_remote_reads = [],
      sm_relative_node_id = cc_relative_node_id c, sm_local_replica_id = cc_local_replica c,
      sm_remote_replica_writers = [], sm_remote_result_message = MessageProto_new,
      sm_involved_machines = [], sm_min_involved_machine = u64, sm_min_involved_machine_origin = u32,
      sm_local_entries = [], sm_txn_origin_replica = tx_origin_replica txn, sm_local_commit = True\<rparr>"

section \<open>The constructor\<close>

text \<open>A local read: remember the pointer, collect the entry, compare master and counter.\<close>

definition read_local ::
  "simple_storage \<Rightarrow> rec_heap \<Rightarrow> key_entry \<Rightarrow> 'b storage_manager \<Rightarrow> 'b storage_manager outcome" where
  "read_local s h ke sm =
     bindE (ReadObject s (ke_key ke)) (\<lambda>p.
       bindE (heap_get h p) (\<lambda>val. Inr (sm
         \<lparr>sm_objects := AList.update (ke_key ke) (Some p) (sm_objects sm),
          sm_local_entries := sm_local_entries sm @
            [\<lparr>rr_key = ke_key ke, rr_value = rec_value val, rr_master = rec_master val,
              rr_counter = rec_counter val\<rparr>],
          sm_local_commit := (if rec_master val \<noteq> ke_master ke \<or> rec_counter val \<noteq> ke_counter ke
            then False else sm_local_commit sm)\<rparr>)))"

definition note_involved :: "cluster_config \<Rightarrow> key_entry \<Rightarrow> 'b storage_manager \<Rightarrow> 'b storage_manager" where
  "note_involved c ke sm =
     (if sm_mode sm = 2
      then sm\<lparr>sm_involved_machines :=
                os_insert (LookupPartition c (ke_key ke), ke_master ke) (sm_involved_machines sm)\<rparr>
      else sm)"

definition process_read ::
  "cluster_config \<Rightarrow> simple_storage \<Rightarrow> rec_heap \<Rightarrow> key_entry \<Rightarrow> 'b storage_manager \<Rightarrow> 'b storage_manager outcome" where
  "process_read c s h ke sm0 =
     (let mds = LookupPartition c (ke_key ke); sm = note_involved c ke sm0
      in if sm_mode sm \<noteq> 0 \<and> ke_master ke \<noteq> sm_txn_origin_replica sm then Inr sm
         else if mds = sm_relative_node_id sm then read_local s h ke sm
         else Inr sm)"

definition process_write ::
  "cluster_config \<Rightarrow> simple_storage \<Rightarrow> rec_heap \<Rightarrow> key_entry \<Rightarrow> 'b storage_manager \<times> uint64 list
    \<Rightarrow> ('b storage_manager \<times> uint64 list) outcome" where
  "process_write c s h ke st =
     (let mds = LookupPartition c (ke_key ke); writers = os_insert mds (snd st);
          sm = note_involved c ke (fst st); replica_id = ke_master ke
      in if sm_mode sm \<noteq> 0 \<and> replica_id \<noteq> sm_txn_origin_replica sm
         then Inr (sm\<lparr>sm_remote_replica_writers :=
                        os_insert (mds, replica_id) (sm_remote_replica_writers sm)\<rparr>, writers)
         else if sm_mode sm \<noteq> 0 \<and> mds \<noteq> sm_relative_node_id sm
         then Inr (sm\<lparr>sm_remote_replica_writers :=
                        os_insert (mds, sm_txn_origin_replica sm) (sm_remote_replica_writers sm)\<rparr>, writers)
         else if mds = sm_relative_node_id sm
         then bindE (read_local s h ke sm) (\<lambda>sm'. Inr (sm', writers))
         else Inr (sm, writers))"

text \<open>\<open>IntToString(txn->txn_id()) + "-" + IntToString(replica)\<close>\<close>

definition txn_channel :: "uint64 \<Rightarrow> uint64 \<Rightarrow> string" where
  "txn_channel txn_id replica = IntToString (ucast txn_id) @ ''-'' @ IntToString (ucast replica)"

definition INT_MAX :: int32 where "INT_MAX = 2147483647"

definition min_machine_step :: "uint64 \<times> uint32 \<Rightarrow> uint64 \<times> uint32 \<Rightarrow> uint64 \<times> uint32" where
  "min_machine_step machine m =
     (if fst machine < fst m then (fst machine, snd machine)
      else if fst machine = fst m \<and> snd machine < snd m then (fst machine, snd machine)
      else m)"

definition min_machine :: "(uint64 \<times> uint32) list \<Rightarrow> uint64 \<times> uint32" where
  "min_machine ms = fold min_machine_step ms (ucast INT_MAX, INT_MAX)"

definition addressed ::
  "cluster_config \<Rightarrow> 'b storage_manager \<Rightarrow> uint64 \<Rightarrow> uint64 \<Rightarrow> 'b message_proto" where
  "addressed c sm mds replica = (sm_remote_result_message sm)
     \<lparr>msg_destination_channel := txn_channel (tx_txn_id (sm_txn sm)) replica,
      msg_destination_node := LookupMachineID c mds (ucast (cc_local_replica c))\<rparr>"

definition broadcast_reads ::
  "'b codec \<Rightarrow> cluster_config \<Rightarrow> uint64 list \<Rightarrow> 'b storage_manager \<Rightarrow> 'b storage_manager \<times> 'b message_proto list" where
  "broadcast_reads cd c writers sm0 =
     (let sm1 = (if sm_mode sm0 \<noteq> 0 \<and> sm_mode sm0 \<noteq> 1
                 then sm0\<lparr>sm_min_involved_machine := fst (min_machine (sm_involved_machines sm0)),
                          sm_min_involved_machine_origin := snd (min_machine (sm_involved_machines sm0))\<rparr>
                 else sm0);
          msg = (sm_remote_result_message sm1)\<lparr>msg_data := msg_data (sm_remote_result_message sm1)
                   @ [enc_results cd (sm_local_entries sm1)]\<rparr>;
          sm = sm1\<lparr>sm_remote_result_message := msg\<rparr>;
          sent = (if sm_mode sm = 0
                  then map (\<lambda>mds. addressed c sm mds (ucast (sm_txn_origin_replica sm)))
                         (filter (\<lambda>mds. mds \<noteq> sm_relative_node_id sm) writers)
                  else map (\<lambda>(mds, replica). addressed c sm mds (ucast replica)) (sm_remote_replica_writers sm))
      in (if sent = [] then sm else sm\<lparr>sm_remote_result_message := last sent\<rparr>, sent))"

definition StorageManager ::
  "uint64 \<Rightarrow> uint32 \<Rightarrow> 'b codec \<Rightarrow> cluster_config \<Rightarrow> simple_storage \<Rightarrow> rec_heap \<Rightarrow> txn_proto \<Rightarrow> uint32
    \<Rightarrow> ('b storage_manager \<times> 'b message_proto list) outcome" where
  "StorageManager u64 u32 cd c s h txn mode =
     (let sm0 = StorageManager_init u64 u32 c txn mode;
          reader = cc_relative_node_id c \<in> set (tx_readers txn);
          writer = cc_relative_node_id c \<in> set (tx_writers txn)
      in bindE
           (if reader
            then bindE (foldE (process_read c s h) (tx_read_set txn)
                          (sm0\<lparr>sm_remote_result_message := MessageProto_new\<lparr>msg_type := READ_RESULT\<rparr>\<rparr>)) (\<lambda>sm1.
                 bindE (foldE (process_write c s h) (tx_read_write_set txn) (sm1, [])) (\<lambda>(sm2, writers).
                 Inr (broadcast_reads cd c writers sm2)))
            else Inr (sm0, []))
           (\<lambda>(sm, sent). Inr (sm\<lparr>sm_writer := writer\<rparr>, sent)))"

section \<open>Remote results and readiness\<close>

definition handle_entry ::
  "remote_results_entry \<Rightarrow> 'b storage_manager \<times> rec_heap \<Rightarrow> 'b storage_manager \<times> rec_heap" where
  "handle_entry e st =
     (let sm = fst st;
          (val, h) = heap_new (Record_new_counter (rr_value e) (rr_master e) (rr_counter e)) (snd st)
      in (sm\<lparr>sm_objects := AList.update (rr_key e) (Some val) (sm_objects sm),
             sm_remote_reads := sm_remote_reads sm @ [val]\<rparr>, h))"

definition HandleReadResult ::
  "'b codec \<Rightarrow> 'b message_proto \<Rightarrow> 'b storage_manager \<times> rec_heap \<Rightarrow> ('b storage_manager \<times> rec_heap) outcome" where
  "HandleReadResult cd message st =
     CHECK (msg_type message = READ_RESULT)
       (bindE (rep_get (msg_data message) 0) (\<lambda>bytes. Inr (fold handle_entry (dec_results cd bytes) st)))"

definition ReadyToExecute :: "'b storage_manager \<Rightarrow> bool" where
  "ReadyToExecute sm \<longleftrightarrow>
     length (sm_objects sm) = length (tx_read_set (sm_txn sm)) + length (tx_read_write_set (sm_txn sm))"

text \<open>\<open>objects_[key]\<close> adds a null pointer for a key that is not there.\<close>

definition SM_ReadObject :: "string \<Rightarrow> 'b storage_manager \<Rightarrow> rec_ptr option \<times> 'b storage_manager" where
  "SM_ReadObject key sm =
     (case map_of (sm_objects sm) key of
        Some p \<Rightarrow> (p, sm)
      | None \<Rightarrow> (None, sm\<lparr>sm_objects := AList.update key None (sm_objects sm)\<rparr>))"

definition SM_PutObject ::
  "cluster_config \<Rightarrow> string \<Rightarrow> rec_ptr \<Rightarrow> 'b storage_manager \<Rightarrow> simple_storage \<Rightarrow> bool \<times> simple_storage" where
  "SM_PutObject c key value sm s =
     (if LookupPartition c key = sm_relative_node_id sm then PutObject key value s else (True, s))"

definition SM_DeleteObject ::
  "cluster_config \<Rightarrow> string \<Rightarrow> 'b storage_manager \<Rightarrow> simple_storage \<Rightarrow> bool \<times> simple_storage" where
  "SM_DeleteObject c key sm s =
     (if LookupPartition c key = sm_relative_node_id sm then DeleteObject key s else (True, s))"

section \<open>Commit or abort\<close>

text \<open>\<open>Record* val = objects_[key]\<close> followed by an access through \<open>val\<close>.\<close>

definition object_at :: "rec_heap \<Rightarrow> 'b storage_manager \<Rightarrow> string \<Rightarrow> db_record outcome" where
  "object_at h sm key =
     (case fst (SM_ReadObject key sm) of None \<Rightarrow> Inl Undefined_behaviour | Some p \<Rightarrow> heap_get h p)"

fun check_entries :: "rec_heap \<Rightarrow> 'b storage_manager \<Rightarrow> key_entry list \<Rightarrow> bool outcome" where
  "check_entries h sm [] = Inr True"
| "check_entries h sm (ke # kes) =
     bindE (object_at h sm (ke_key ke)) (\<lambda>val.
       if ke_master ke \<noteq> rec_master val \<or> ke_counter ke \<noteq> rec_counter val then Inr False
       else check_entries h sm kes)"

text \<open>The latest master and counter of each entry, and the masters in a set.\<close>

fun refresh_entries ::
  "rec_heap \<Rightarrow> 'b storage_manager \<Rightarrow> key_entry list \<Rightarrow> uint32 list \<Rightarrow> (key_entry list \<times> uint32 list) outcome" where
  "refresh_entries h sm [] involved_replicas = Inr ([], involved_replicas)"
| "refresh_entries h sm (ke # kes) involved_replicas =
     bindE (object_at h sm (ke_key ke)) (\<lambda>val.
       let ke' = (if ke_master ke \<noteq> rec_master val \<or> ke_counter ke \<noteq> rec_counter val
                  then ke\<lparr>ke_master := rec_master val, ke_counter := rec_counter val\<rparr> else ke)
       in bindE (refresh_entries h sm kes (os_insert (rec_master val) involved_replicas))
            (\<lambda>(kes', reps). Inr (ke' # kes', reps)))"

text \<open>
  The new transaction for an aborted one and the message that submits it. \<open>rnd\<close> is the value of
  \<open>rand()\<close>. The code sets \<open>client_replica\<close> after the transaction has been serialised, so the bytes
  that are sent do not have it.
\<close>

definition regenerate ::
  "'b codec \<Rightarrow> uint64 \<Rightarrow> rec_heap \<Rightarrow> 'b storage_manager \<Rightarrow> cluster_config
    \<Rightarrow> (cluster_config \<times> 'b message_proto list) outcome" where
  "regenerate cd rnd h sm c =
     (let (guid, c') = GetGUID c;
          txn = (sm_txn sm)\<lparr>tx_involved_replicas := [], tx_txn_id := guid, tx_status := NEW\<rparr>
      in bindE (refresh_entries h sm (tx_read_set txn) []) (\<lambda>(rs, reps).
         bindE (refresh_entries h sm (tx_read_write_set txn) reps) (\<lambda>(rws, reps').
         let txn' = txn\<lparr>tx_read_set := rs, tx_read_write_set := rws, tx_involved_replicas := reps'\<rparr>;
             machine_sent =
               (if length reps' = 1 then ucast (hd reps') * nodes_per_replica c' + rnd mod nodes_per_replica c'
                else rnd mod nodes_per_replica c')
         in Inr (c', [MessageProto_new
              \<lparr>msg_destination_channel := ''sequencer_txn_receive_'', msg_type := TXN_FORWORD,
               msg_data := [enc_txn cd txn'], msg_destination_node := machine_sent\<rparr>]))))"

definition regenerates :: "'b storage_manager \<Rightarrow> bool" where
  "regenerates sm \<longleftrightarrow> sm_local_replica_id sm = sm_txn_origin_replica sm
     \<and> sm_min_involved_machine sm = sm_relative_node_id sm
     \<and> sm_min_involved_machine_origin sm = sm_txn_origin_replica sm"

definition decide :: "rec_heap \<Rightarrow> 'b storage_manager \<Rightarrow> (bool \<times> 'b storage_manager) outcome" where
  "decide h sm =
     (let aborted = sm\<lparr>sm_txn := (sm_txn sm)\<lparr>tx_status := ABORTED\<rparr>\<rparr>
      in if tx_status (sm_txn sm) = ABORTED_WITHOUT_LOCK then Inr (False, sm)
         else if \<not> sm_local_commit sm then Inr (False, aborted)
         else if length (sm_involved_machines sm) = 1 then Inr (True, sm)
         else bindE (check_entries h sm (tx_read_set (sm_txn sm))) (\<lambda>d1.
              bindE (if d1 then check_entries h sm (tx_read_write_set (sm_txn sm)) else Inr False) (\<lambda>d.
              Inr (d, if d then sm else aborted))))"

definition CheckCommitOrAbort ::
  "'b codec \<Rightarrow> uint64 \<Rightarrow> rec_heap \<Rightarrow> 'b storage_manager \<Rightarrow> cluster_config
    \<Rightarrow> (bool \<times> 'b storage_manager \<times> cluster_config \<times> 'b message_proto list) outcome" where
  "CheckCommitOrAbort cd rnd h sm c =
     bindE (decide h sm) (\<lambda>(decision, sm').
       if \<not> decision \<and> regenerates sm'
       then bindE (regenerate cd rnd h sm' c) (\<lambda>(c', sent). Inr (decision, sm', c', sent))
       else Inr (decision, sm', c, []))"


section \<open>What the constructor computes\<close>

definition is_local :: "cluster_config \<Rightarrow> 'b storage_manager \<Rightarrow> key_entry \<Rightarrow> bool" where
  "is_local c sm ke \<longleftrightarrow> LookupPartition c (ke_key ke) = sm_relative_node_id sm
     \<and> (sm_mode sm = 0 \<or> ke_master ke = sm_txn_origin_replica sm)"

definition current :: "simple_storage \<Rightarrow> rec_heap \<Rightarrow> key_entry \<Rightarrow> bool" where
  "current s h ke \<longleftrightarrow> (\<exists>r. record_of (s, h) (ke_key ke) = Some r
     \<and> rec_master r = ke_master ke \<and> rec_counter r = ke_counter ke)"

definition result_of :: "simple_storage \<Rightarrow> rec_heap \<Rightarrow> key_entry \<Rightarrow> remote_results_entry" where
  "result_of s h ke = (let r = the (record_of (s, h) (ke_key ke))
     in \<lparr>rr_key = ke_key ke, rr_value = rec_value r, rr_master = rec_master r, rr_counter = rec_counter r\<rparr>)"

definition absorb ::
  "cluster_config \<Rightarrow> simple_storage \<Rightarrow> rec_heap \<Rightarrow> key_entry list \<Rightarrow> 'b storage_manager \<Rightarrow> 'b storage_manager" where
  "absorb c s h kes sm = sm
     \<lparr>sm_objects := fold (\<lambda>ke. AList.update (ke_key ke) (s (ke_key ke))) (filter (is_local c sm) kes) (sm_objects sm),
      sm_local_entries := sm_local_entries sm @ map (result_of s h) (filter (is_local c sm) kes),
      sm_local_commit := (sm_local_commit sm \<and> (\<forall>ke \<in> set kes. is_local c sm ke \<longrightarrow> current s h ke)),
      sm_involved_machines :=
        (if sm_mode sm = 2
         then fold (\<lambda>ke. os_insert (LookupPartition c (ke_key ke), ke_master ke)) kes (sm_involved_machines sm)
         else sm_involved_machines sm)\<rparr>"

lemma is_local_simps [simp]:
  "is_local c (sm\<lparr>sm_objects := a\<rparr>) = is_local c sm" "is_local c (sm\<lparr>sm_local_entries := b\<rparr>) = is_local c sm"
  "is_local c (sm\<lparr>sm_local_commit := d\<rparr>) = is_local c sm"
  "is_local c (sm\<lparr>sm_involved_machines := e\<rparr>) = is_local c sm"
  "is_local c (sm\<lparr>sm_remote_replica_writers := f\<rparr>) = is_local c sm"
  "is_local c (sm\<lparr>sm_remote_result_message := g\<rparr>) = is_local c sm"
  by (simp_all add: is_local_def fun_eq_iff)

lemma is_local_absorb [simp]: "is_local c (absorb d s h kes sm) = is_local c sm"
  by (simp add: absorb_def)

lemma absorb_Nil [simp]: "absorb c s h [] sm = sm"
  by (simp add: absorb_def)

lemma absorb_Cons: "absorb c s h (ke # kes) sm = absorb c s h kes (absorb c s h [ke] sm)"
  by (simp add: absorb_def)

lemma absorb_fields [simp]:
  "sm_txn (absorb c s h kes sm) = sm_txn sm" "sm_mode (absorb c s h kes sm) = sm_mode sm"
  "sm_relative_node_id (absorb c s h kes sm) = sm_relative_node_id sm"
  "sm_local_replica_id (absorb c s h kes sm) = sm_local_replica_id sm"
  "sm_txn_origin_replica (absorb c s h kes sm) = sm_txn_origin_replica sm"
  "sm_remote_replica_writers (absorb c s h kes sm) = sm_remote_replica_writers sm"
  "sm_remote_result_message (absorb c s h kes sm) = sm_remote_result_message sm"
  "sm_remote_reads (absorb c s h kes sm) = sm_remote_reads sm"
  by (simp_all add: absorb_def)

lemma read_local_missing: "record_of (s, h) (ke_key ke) = None \<Longrightarrow> \<exists>e. read_local s h ke sm = Inl e"
  by (auto simp: read_local_def ReadObject_def heap_get_def record_of_def split: option.splits if_splits)

lemma read_local_found:
  assumes "record_of (s, h) (ke_key ke) \<noteq> None"
  shows "read_local s h ke sm = Inr (sm
    \<lparr>sm_objects := AList.update (ke_key ke) (s (ke_key ke)) (sm_objects sm),
     sm_local_entries := sm_local_entries sm @ [result_of s h ke],
     sm_local_commit := (sm_local_commit sm \<and> current s h ke)\<rparr>)"
proof -
  from assms obtain p where p: "s (ke_key ke) = Some p" "p < length h"
    by (auto simp: record_of_def split: option.splits if_splits)
  then have "(if rec_master (h ! p) \<noteq> ke_master ke \<or> rec_counter (h ! p) \<noteq> ke_counter ke
      then False else sm_local_commit sm) = (sm_local_commit sm \<and> current s h ke)"
    by (auto simp: current_def record_of_def)
  with p show ?thesis by (simp add: read_local_def ReadObject_def heap_get_def result_of_def record_of_def Let_def)
qed

definition add_remote :: "cluster_config \<Rightarrow> key_entry list \<Rightarrow> 'b storage_manager \<Rightarrow> 'b storage_manager" where
  "add_remote c kes sm = sm\<lparr>sm_remote_replica_writers :=
     fold (\<lambda>ke. if sm_mode sm \<noteq> 0 \<and> (LookupPartition c (ke_key ke), ke_master ke)
                     \<noteq> (sm_relative_node_id sm, sm_txn_origin_replica sm)
               then os_insert (LookupPartition c (ke_key ke), ke_master ke) else id) kes
       (sm_remote_replica_writers sm)\<rparr>"

lemma note_involved_absorb:
  "\<not> is_local c sm ke \<Longrightarrow> note_involved c ke sm = absorb c s h [ke] sm"
  by (simp add: note_involved_def absorb_def)

lemma read_local_note_involved:
  "is_local c sm ke \<Longrightarrow> record_of (s, h) (ke_key ke) \<noteq> None \<Longrightarrow>
     read_local s h ke (note_involved c ke sm) = Inr (absorb c s h [ke] sm)"
  by (simp add: note_involved_def absorb_def read_local_found)

lemma note_involved_fields [simp]:
  "sm_mode (note_involved c ke sm) = sm_mode sm"
  "sm_relative_node_id (note_involved c ke sm) = sm_relative_node_id sm"
  "sm_txn_origin_replica (note_involved c ke sm) = sm_txn_origin_replica sm"
  by (simp_all add: note_involved_def)

lemma process_read_missing:
  "is_local c sm ke \<Longrightarrow> record_of (s, h) (ke_key ke) = None \<Longrightarrow> \<exists>e. process_read c s h ke sm = Inl e"
  using read_local_missing [of s h ke "note_involved c ke sm"]
  by (simp add: process_read_def Let_def is_local_def)

lemma process_read_found:
  assumes "is_local c sm ke \<Longrightarrow> record_of (s, h) (ke_key ke) \<noteq> None"
  shows "process_read c s h ke sm = Inr (absorb c s h [ke] sm)"
proof (cases "is_local c sm ke")
  case True
  with assms have "read_local s h ke (note_involved c ke sm) = Inr (absorb c s h [ke] sm)"
    by (intro read_local_note_involved) auto
  moreover have "\<not> (sm_mode sm \<noteq> 0 \<and> ke_master ke \<noteq> sm_txn_origin_replica sm)"
    "LookupPartition c (ke_key ke) = sm_relative_node_id sm"
    using True by (auto simp: is_local_def)
  ultimately show ?thesis by (simp only: process_read_def Let_def note_involved_fields if_False if_True simp_thms)
next
  case False
  then show ?thesis unfolding process_read_def Let_def note_involved_fields note_involved_absorb [OF False, of s h]
    by (auto simp: is_local_def simp del: One_nat_def)
qed

lemma process_read_iff:
  "process_read c s h ke sm = Inr sm' \<longleftrightarrow>
     (is_local c sm ke \<longrightarrow> record_of (s, h) (ke_key ke) \<noteq> None) \<and> sm' = absorb c s h [ke] sm"
proof (cases "is_local c sm ke \<longrightarrow> record_of (s, h) (ke_key ke) \<noteq> None")
  case True
  then show ?thesis using process_read_found [of c sm ke s h] by auto
next
  case False
  then show ?thesis using process_read_missing [of c sm ke s h] by auto
qed

lemma foldE_process_read_iff:
  "foldE (process_read c s h) kes sm = Inr sm' \<longleftrightarrow>
     (\<forall>ke \<in> set kes. is_local c sm ke \<longrightarrow> record_of (s, h) (ke_key ke) \<noteq> None)
     \<and> sm' = absorb c s h kes sm"
proof (induction kes arbitrary: sm)
  case (Cons ke kes)
  show ?case by (auto simp: bindE_Inr_iff process_read_iff Cons.IH absorb_Cons [of c s h ke kes])
qed auto

text \<open>A write entry is a read entry whose machine and master are noted, when they are not this one's.\<close>

lemma process_write_eq:
  "process_write c s h ke (sm, ws) =
     bindE (process_read c s h ke sm) (\<lambda>sm'. Inr (add_remote c [ke] sm', os_insert (LookupPartition c (ke_key ke)) ws))"
proof (cases "is_local c sm ke")
  case True
  then have "\<not> (sm_mode sm \<noteq> 0 \<and> ke_master ke \<noteq> sm_txn_origin_replica sm)"
    "LookupPartition c (ke_key ke) = sm_relative_node_id sm"
    by (auto simp: is_local_def)
  moreover have "add_remote c [ke] sm' = sm'" if "process_read c s h ke sm = Inr sm'" for sm'
    using that True by (auto simp: process_read_iff add_remote_def is_local_def)
  ultimately show ?thesis
    by (cases "process_read c s h ke sm") (auto simp: process_write_def process_read_def Let_def)
next
  case False
  then show ?thesis
    by (auto simp: process_write_def process_read_def Let_def is_local_def add_remote_def)
qed

lemma process_write_iff:
  "process_write c s h ke (sm, ws) = Inr st' \<longleftrightarrow>
     (is_local c sm ke \<longrightarrow> record_of (s, h) (ke_key ke) \<noteq> None)
     \<and> st' = (add_remote c [ke] (absorb c s h [ke] sm), os_insert (LookupPartition c (ke_key ke)) ws)"
  by (auto simp: process_write_eq bindE_Inr_iff process_read_iff)

lemma absorb_add_remote: "absorb c s h kes (add_remote d kes' sm) = add_remote d kes' (absorb c s h kes sm)"
  by (simp add: absorb_def add_remote_def)

lemma is_local_add_remote [simp]: "is_local c (add_remote d kes sm) = is_local c sm"
  by (simp add: add_remote_def)

lemma add_remote_Cons: "add_remote c (ke # kes) sm = add_remote c kes (add_remote c [ke] sm)"
  by (simp add: add_remote_def)

lemma foldE_process_write_iff:
  "foldE (process_write c s h) kes (sm, ws) = Inr st' \<longleftrightarrow>
     (\<forall>ke \<in> set kes. is_local c sm ke \<longrightarrow> record_of (s, h) (ke_key ke) \<noteq> None)
     \<and> st' = (add_remote c kes (absorb c s h kes sm), participants (LookupPartition c) (map ke_key kes) ws)"
proof (induction kes arbitrary: sm ws)
  case Nil
  then show ?case by (auto simp: participants_def add_remote_def)
next
  case (Cons ke kes)
  show ?case
    by (auto simp: bindE_Inr_iff process_write_iff Cons.IH absorb_Cons [of c s h ke kes]
        add_remote_Cons [of c ke kes] absorb_add_remote participants_def)
qed

lemma add_remote_fields [simp]:
  "sm_txn (add_remote c kes sm) = sm_txn sm" "sm_mode (add_remote c kes sm) = sm_mode sm"
  "sm_relative_node_id (add_remote c kes sm) = sm_relative_node_id sm"
  "sm_local_replica_id (add_remote c kes sm) = sm_local_replica_id sm"
  "sm_txn_origin_replica (add_remote c kes sm) = sm_txn_origin_replica sm"
  "sm_objects (add_remote c kes sm) = sm_objects sm"
  "sm_local_entries (add_remote c kes sm) = sm_local_entries sm"
  "sm_local_commit (add_remote c kes sm) = sm_local_commit sm"
  "sm_involved_machines (add_remote c kes sm) = sm_involved_machines sm"
  "sm_remote_result_message (add_remote c kes sm) = sm_remote_result_message sm"
  by (simp_all add: add_remote_def)

lemma absorb_append: "absorb c s h (xs @ ys) sm = absorb c s h ys (absorb c s h xs sm)"
proof (induction xs arbitrary: sm)
  case (Cons x xs)
  then show ?case using absorb_Cons [of c s h x "xs @ ys" sm] absorb_Cons [of c s h x xs sm] by simp
qed simp

definition started :: "uint64 \<Rightarrow> uint32 \<Rightarrow> cluster_config \<Rightarrow> txn_proto \<Rightarrow> uint32 \<Rightarrow> 'b storage_manager" where
  "started u64 u32 c txn mode = (StorageManager_init u64 u32 c txn mode)
     \<lparr>sm_remote_result_message := MessageProto_new\<lparr>msg_type := READ_RESULT\<rparr>\<rparr>"

lemma started_fields [simp]:
  "sm_txn (started u64 u32 c txn mode) = txn" "sm_mode (started u64 u32 c txn mode) = mode"
  "sm_relative_node_id (started u64 u32 c txn mode) = cc_relative_node_id c"
  "sm_local_replica_id (started u64 u32 c txn mode) = cc_local_replica c"
  "sm_txn_origin_replica (started u64 u32 c txn mode) = tx_origin_replica txn"
  "sm_objects (started u64 u32 c txn mode) = []" "sm_local_entries (started u64 u32 c txn mode) = []"
  "sm_local_commit (started u64 u32 c txn mode)" "sm_involved_machines (started u64 u32 c txn mode) = []"
  "sm_remote_replica_writers (started u64 u32 c txn mode) = []"
  "sm_remote_result_message (started u64 u32 c txn mode) = MessageProto_new\<lparr>msg_type := READ_RESULT\<rparr>"
  by (simp_all add: started_def StorageManager_init_def)

definition txn_entries :: "txn_proto \<Rightarrow> key_entry list" where
  "txn_entries txn = tx_read_set txn @ tx_read_write_set txn"

text \<open>What is read on machine \<open>c\<close>, as a condition on the entry alone.\<close>

definition reads_here :: "cluster_config \<Rightarrow> txn_proto \<Rightarrow> uint32 \<Rightarrow> key_entry \<Rightarrow> bool" where
  "reads_here c txn mode ke \<longleftrightarrow> LookupPartition c (ke_key ke) = cc_relative_node_id c
     \<and> (mode = 0 \<or> ke_master ke = tx_origin_replica txn)"

lemma is_local_started: "is_local c (started u64 u32 c txn mode) = reads_here c txn mode"
  by (simp add: is_local_def reads_here_def fun_eq_iff)

definition local_results :: "cluster_config \<Rightarrow> simple_storage \<Rightarrow> rec_heap \<Rightarrow> txn_proto \<Rightarrow> uint32 \<Rightarrow> remote_results_entry list" where
  "local_results c s h txn mode = map (result_of s h) (filter (reads_here c txn mode) (txn_entries txn))"

lemma StorageManager_reader_iff:
  assumes "cc_relative_node_id c \<in> set (tx_readers txn)"
  shows "StorageManager u64 u32 cd c s h txn mode = Inr (sm, sent) \<longleftrightarrow>
    (\<forall>ke \<in> set (txn_entries txn). reads_here c txn mode ke \<longrightarrow> record_of (s, h) (ke_key ke) \<noteq> None)
    \<and> (let b = broadcast_reads cd c (participants (LookupPartition c) (map ke_key (tx_read_write_set txn)) [])
                (add_remote c (tx_read_write_set txn) (absorb c s h (txn_entries txn) (started u64 u32 c txn mode)))
       in sm = (fst b)\<lparr>sm_writer := (cc_relative_node_id c \<in> set (tx_writers txn))\<rparr> \<and> sent = snd b)"
  using assms
  by (auto simp: StorageManager_def Let_def bindE_Inr_iff foldE_process_read_iff foldE_process_write_iff
      started_def [symmetric] txn_entries_def absorb_append is_local_started case_prod_unfold)

lemma broadcast_reads_fields [simp]:
  "sm_txn (fst (broadcast_reads cd c ws sm)) = sm_txn sm"
  "sm_mode (fst (broadcast_reads cd c ws sm)) = sm_mode sm"
  "sm_relative_node_id (fst (broadcast_reads cd c ws sm)) = sm_relative_node_id sm"
  "sm_local_replica_id (fst (broadcast_reads cd c ws sm)) = sm_local_replica_id sm"
  "sm_txn_origin_replica (fst (broadcast_reads cd c ws sm)) = sm_txn_origin_replica sm"
  "sm_objects (fst (broadcast_reads cd c ws sm)) = sm_objects sm"
  "sm_local_commit (fst (broadcast_reads cd c ws sm)) = sm_local_commit sm"
  "sm_involved_machines (fst (broadcast_reads cd c ws sm)) = sm_involved_machines sm"
  "sm_mode sm = 2 \<Longrightarrow> sm_min_involved_machine (fst (broadcast_reads cd c ws sm)) = fst (min_machine (sm_involved_machines sm))"
  "sm_mode sm = 2 \<Longrightarrow> sm_min_involved_machine_origin (fst (broadcast_reads cd c ws sm)) = snd (min_machine (sm_involved_machines sm))"
  by (simp_all add: broadcast_reads_def Let_def)

lemma StorageManager_fields:
  assumes "StorageManager u64 u32 cd c s h txn mode = Inr (sm, sent)"
    and "cc_relative_node_id c \<in> set (tx_readers txn)"
  shows "sm_txn sm = txn" "sm_mode sm = mode" "sm_relative_node_id sm = cc_relative_node_id c"
    "sm_local_replica_id sm = cc_local_replica c" "sm_txn_origin_replica sm = tx_origin_replica txn"
    "sm_objects sm = fold (\<lambda>ke. AList.update (ke_key ke) (s (ke_key ke)))
       (filter (reads_here c txn mode) (txn_entries txn)) []"
    "sm_local_commit sm \<longleftrightarrow> (\<forall>ke \<in> set (txn_entries txn). reads_here c txn mode ke \<longrightarrow> current s h ke)"
    "mode = 2 \<Longrightarrow> sm_involved_machines sm
       = fold (\<lambda>ke. os_insert (LookupPartition c (ke_key ke), ke_master ke)) (txn_entries txn) []"
    "mode = 2 \<Longrightarrow> sm_min_involved_machine sm = fst (min_machine (sm_involved_machines sm))"
    "mode = 2 \<Longrightarrow> sm_min_involved_machine_origin sm = snd (min_machine (sm_involved_machines sm))"
  using assms(1) unfolding StorageManager_reader_iff [OF assms(2)] Let_def
  by (simp_all add: absorb_def is_local_started)

text \<open>The messages of the original mode: to the machine of every other writer, the local results.\<close>

lemma StorageManager_sent_mode0:
  assumes "StorageManager u64 u32 cd c s h txn 0 = Inr (sm, sent)"
    and "cc_relative_node_id c \<in> set (tx_readers txn)"
  shows "sent = map (\<lambda>mds. MessageProto_new
       \<lparr>msg_type := READ_RESULT, msg_data := [enc_results cd (local_results c s h txn 0)],
        msg_destination_channel := txn_channel (tx_txn_id txn) (ucast (tx_origin_replica txn)),
        msg_destination_node := LookupMachineID c mds (ucast (cc_local_replica c))\<rparr>)
     (filter (\<lambda>mds. mds \<noteq> cc_relative_node_id c)
        (participants (LookupPartition c) (map ke_key (tx_read_write_set txn)) []))"
  using assms(1) unfolding StorageManager_reader_iff [OF assms(2)] Let_def
  by (simp add: broadcast_reads_def Let_def addressed_def absorb_def is_local_started local_results_def
      MessageProto_new_def)

section \<open>The objects of a manager\<close>

text \<open>The objects are well formed when no key is there twice and every pointer is valid.\<close>

definition objects_ok :: "rec_heap \<Rightarrow> 'b storage_manager \<Rightarrow> bool" where
  "objects_ok h sm \<longleftrightarrow> distinct (map fst (sm_objects sm))
     \<and> (\<forall>k po. map_of (sm_objects sm) k = Some po \<longrightarrow> (\<exists>p < length h. po = Some p))"

declare map_of_eq_Some_iff [simp del]

definition object_keys :: "'b storage_manager \<Rightarrow> string set" where
  "object_keys sm = fst ` set (sm_objects sm)"

lemma object_keys_dom: "object_keys sm = dom (map_of (sm_objects sm))"
  by (simp add: object_keys_def dom_map_of_conv_image_fst)

lemma object_at_iff: "object_at h sm k = Inr r \<longleftrightarrow>
    (\<exists>p < length h. map_of (sm_objects sm) k = Some (Some p) \<and> r = h ! p)"
  by (auto simp: object_at_def SM_ReadObject_def heap_get_def split: option.splits)

lemma objects_ok_object_at: "objects_ok h sm \<Longrightarrow> k \<in> object_keys sm \<Longrightarrow> \<exists>r. object_at h sm k = Inr r"
  by (auto simp: objects_ok_def object_at_iff object_keys_dom)

lemma length_objects: "objects_ok h sm \<Longrightarrow> length (sm_objects sm) = card (object_keys sm)"
  by (simp add: objects_ok_def object_keys_def flip: distinct_card [of "map fst (sm_objects sm)", simplified])

lemma ReadyToExecute_iff:
  assumes "objects_ok h sm" and "object_keys sm \<subseteq> ke_key ` set (txn_entries (sm_txn sm))"
    and "distinct (map ke_key (txn_entries (sm_txn sm)))"
  shows "ReadyToExecute sm \<longleftrightarrow> object_keys sm = ke_key ` set (txn_entries (sm_txn sm))"
proof -
  have len: "card (ke_key ` set (txn_entries (sm_txn sm)))
      = length (tx_read_set (sm_txn sm)) + length (tx_read_write_set (sm_txn sm))"
    using distinct_card [OF assms(3)] by (simp add: txn_entries_def image_Un)
  have "ReadyToExecute sm \<longleftrightarrow> card (object_keys sm) = card (ke_key ` set (txn_entries (sm_txn sm)))"
    by (simp add: ReadyToExecute_def length_objects [OF assms(1)] len)
  also have "\<dots> \<longleftrightarrow> object_keys sm = ke_key ` set (txn_entries (sm_txn sm))"
    using assms(2) card_subset_eq [of "ke_key ` set (txn_entries (sm_txn sm))" "object_keys sm"] by auto
  finally show ?thesis .
qed

text \<open>The constructor's objects, as a map.\<close>

lemma map_of_fold_update:
  "map_of (fold (\<lambda>ke. AList.update (ke_key ke) (g (ke_key ke))) kes os) k
     = (if k \<in> ke_key ` set kes then Some (g k) else map_of os k)"
  by (induction kes arbitrary: os) (auto simp: update_conv)

lemma distinct_fold_update:
  "distinct (map fst os) \<Longrightarrow> distinct (map fst (fold (\<lambda>ke. AList.update (ke_key ke) (g (ke_key ke))) kes os))"
  by (induction kes arbitrary: os) (auto intro: distinct_update)

definition local_keys :: "cluster_config \<Rightarrow> txn_proto \<Rightarrow> uint32 \<Rightarrow> string set" where
  "local_keys c txn mode = ke_key ` {ke \<in> set (txn_entries txn). reads_here c txn mode ke}"

lemma StorageManager_objects:
  assumes "StorageManager u64 u32 cd c s h txn mode = Inr (sm, sent)"
    and "cc_relative_node_id c \<in> set (tx_readers txn)"
  shows "objects_ok h sm" "object_keys sm = local_keys c txn mode"
    "k \<in> local_keys c txn mode \<Longrightarrow> \<exists>r. record_of (s, h) k = Some r \<and> object_at h sm k = Inr r"
proof -
  note f = StorageManager_fields(6) [OF assms]
  have lookup: "map_of (sm_objects sm) k = (if k \<in> local_keys c txn mode then Some (s k) else None)" for k
    unfolding f by (auto simp: map_of_fold_update local_keys_def)
  have avail: "record_of (s, h) k \<noteq> None" if "k \<in> local_keys c txn mode" for k
    using assms(1) that unfolding StorageManager_reader_iff [OF assms(2)] by (auto simp: local_keys_def)
  have ptr: "\<exists>p < length h. s k = Some p \<and> record_of (s, h) k = Some (h ! p)" if "k \<in> local_keys c txn mode" for k
    using avail [OF that] by (auto simp: record_of_def split: option.splits if_splits)
  show "objects_ok h sm"
    unfolding objects_ok_def lookup using ptr by (auto simp: f distinct_fold_update split: if_splits)
  show "object_keys sm = local_keys c txn mode"
    by (auto simp: object_keys_dom lookup split: if_splits)
  show "\<exists>r. record_of (s, h) k = Some r \<and> object_at h sm k = Inr r" if "k \<in> local_keys c txn mode"
    using ptr [OF that] that by (auto simp: object_at_iff lookup)
qed

text \<open>Handling results: the records of the entries, in fresh cells.\<close>

definition entry_record :: "remote_results_entry \<Rightarrow> db_record" where
  "entry_record e = Record_new_counter (rr_value e) (rr_master e) (rr_counter e)"

lemma handle_entry_objects:
  assumes "handle_entry e (sm, h) = (sm', h')" and "objects_ok h sm"
  shows "objects_ok h' sm'" "object_keys sm' = insert (rr_key e) (object_keys sm)"
    "object_at h' sm' (rr_key e) = Inr (entry_record e)"
    "k \<noteq> rr_key e \<Longrightarrow> object_at h sm k = Inr r \<Longrightarrow> object_at h' sm' k = Inr r"
  using assms
  by (auto simp: handle_entry_def heap_new_def objects_ok_def object_at_iff object_keys_dom update_conv
      entry_record_def nth_append intro: distinct_update split: if_splits)
    (metis less_SucI)+

lemma handle_entry_fields:
  assumes "handle_entry e (sm, h) = (sm', h')"
  shows "sm_txn sm' = sm_txn sm" "sm_mode sm' = sm_mode sm" "sm_local_commit sm' = sm_local_commit sm"
    "sm_involved_machines sm' = sm_involved_machines sm" "sm_relative_node_id sm' = sm_relative_node_id sm"
    "sm_min_involved_machine sm' = sm_min_involved_machine sm"
    "sm_min_involved_machine_origin sm' = sm_min_involved_machine_origin sm"
    "sm_local_replica_id sm' = sm_local_replica_id sm" "sm_txn_origin_replica sm' = sm_txn_origin_replica sm"
  using assms by (auto simp: handle_entry_def heap_new_def)

lemma fold_handle_entry_fields:
  assumes "fold handle_entry es (sm, h) = (sm', h')"
  shows "sm_txn sm' = sm_txn sm \<and> sm_mode sm' = sm_mode sm \<and> sm_local_commit sm' = sm_local_commit sm
    \<and> sm_involved_machines sm' = sm_involved_machines sm \<and> sm_relative_node_id sm' = sm_relative_node_id sm
    \<and> sm_min_involved_machine sm' = sm_min_involved_machine sm
    \<and> sm_min_involved_machine_origin sm' = sm_min_involved_machine_origin sm
    \<and> sm_local_replica_id sm' = sm_local_replica_id sm \<and> sm_txn_origin_replica sm' = sm_txn_origin_replica sm"
  using assms
proof (induction es arbitrary: sm h)
  case (Cons e es)
  obtain sm1 h1 where 1: "handle_entry e (sm, h) = (sm1, h1)" by (cases "handle_entry e (sm, h)")
  with Cons.prems have "fold handle_entry es (sm1, h1) = (sm', h')" by simp
  from Cons.IH [OF this] show ?case by (simp add: handle_entry_fields [OF 1])
qed simp

lemma fold_handle_entry_objects:
  assumes "fold handle_entry es (sm, h) = (sm', h')" and "objects_ok h sm"
  shows "objects_ok h' sm' \<and> object_keys sm' = rr_key ` set es \<union> object_keys sm
    \<and> (\<forall>k r. k \<notin> rr_key ` set es \<longrightarrow> object_at h sm k = Inr r \<longrightarrow> object_at h' sm' k = Inr r)
    \<and> (\<forall>e \<in> set es. distinct (map rr_key es) \<longrightarrow> object_at h' sm' (rr_key e) = Inr (entry_record e))"
  using assms
proof (induction es arbitrary: sm h)
  case (Cons e es)
  obtain sm1 h1 where 1: "handle_entry e (sm, h) = (sm1, h1)" by (cases "handle_entry e (sm, h)")
  note step = handle_entry_objects [OF 1 Cons.prems(2)]
  from Cons.prems(1) 1 have "fold handle_entry es (sm1, h1) = (sm', h')" by simp
  note IH = Cons.IH [OF this step(1)]
  have "object_at h' sm' k = Inr r"
    if "k \<notin> rr_key ` set (e # es)" "object_at h sm k = Inr r" for k r
    using that step(4) [of k r] IH by auto
  moreover have "object_at h' sm' (rr_key x) = Inr (entry_record x)"
    if "x \<in> set (e # es)" "distinct (map rr_key (e # es))" for x
  proof (cases "x = e")
    case True
    moreover have "rr_key e \<notin> rr_key ` set es" using that by auto
    ultimately show ?thesis using IH step(3) by auto
  next
    case False
    then show ?thesis using that IH by auto
  qed
  ultimately show ?case using IH step(2) by auto
qed simp

definition results_message :: "'b codec \<Rightarrow> remote_results_entry list \<Rightarrow> 'b message_proto \<Rightarrow> bool" where
  "results_message cd es m \<longleftrightarrow> msg_type m = READ_RESULT \<and> msg_data m = [enc_results cd es]"

lemma HandleReadResult_results:
  "codec_ok cd \<Longrightarrow> results_message cd es m \<Longrightarrow> HandleReadResult cd m st = Inr (fold handle_entry es st)"
  by (simp add: HandleReadResult_def results_message_def)

lemma foldE_HandleReadResult:
  assumes "codec_ok cd" and "list_all2 (results_message cd) ess ms"
  shows "foldE (HandleReadResult cd) ms st = Inr (fold handle_entry (concat ess) st)"
  using assms(2)
  by (induction arbitrary: st rule: list_all2_induct) (simp_all add: HandleReadResult_results [OF assms(1)])

section \<open>The exchange of reads in the original mode\<close>

definition sent_by ::
  "'b codec \<Rightarrow> cluster_config \<Rightarrow> simple_storage \<times> rec_heap \<Rightarrow> txn_proto \<Rightarrow> uint32 \<Rightarrow> 'b message_proto list" where
  "sent_by cd c sh txn mode =
     (case StorageManager 0 0 cd c (fst sh) (snd sh) txn mode of Inl _ \<Rightarrow> [] | Inr r \<Rightarrow> snd r)"

text \<open>Configurations of machines of one replica: they differ in the machine only.\<close>

definition same_replica :: "cluster_config \<Rightarrow> cluster_config \<Rightarrow> bool" where
  "same_replica c d \<longleftrightarrow> nodes_per_replica c = nodes_per_replica d \<and> cc_local_replica c = cc_local_replica d"

lemma same_replica_lookups:
  assumes "same_replica c d"
  shows "LookupPartition c = LookupPartition d" "LookupMachineID c = LookupMachineID d"
  using assms by (simp_all add: same_replica_def LookupPartition_def LookupMachineID_def fun_eq_iff)

lemma LookupMachineID_inj [simp]: "LookupMachineID c i r = LookupMachineID c j r \<longleftrightarrow> i = j"
  by (simp add: LookupMachineID_def)

definition stores_hold :: "cluster_config \<Rightarrow> simple_storage \<times> rec_heap \<Rightarrow> txn_proto \<Rightarrow> bool" where
  "stores_hold c sh txn \<longleftrightarrow> (\<forall>ke \<in> set (txn_entries txn).
     LookupPartition c (ke_key ke) = cc_relative_node_id c \<longrightarrow> record_of sh (ke_key ke) \<noteq> None)"

lemma StorageManager_defined_mode0:
  assumes "cc_relative_node_id c \<in> set (tx_readers txn)" and "stores_hold c sh txn"
  shows "\<exists>sm sent. StorageManager u64 u32 cd c (fst sh) (snd sh) txn 0 = Inr (sm, sent)"
  using assms unfolding StorageManager_reader_iff [OF assms(1)]
  by (auto simp: stores_hold_def reads_here_def Let_def)

text \<open>A writer gets exactly one message of every other machine that reads: its local results.\<close>

lemma sent_by_to_writer:
  assumes "cc_relative_node_id c \<in> set (tx_readers txn)" and "stores_hold c sh txn"
    and "i \<in> LookupPartition c ` ke_key ` set (tx_read_write_set txn)" and "i \<noteq> cc_relative_node_id c"
  shows "\<exists>m. filter (\<lambda>m. msg_destination_node m = LookupMachineID c i (ucast (cc_local_replica c)))
        (sent_by cd c sh txn 0) = [m] \<and> results_message cd (local_results c (fst sh) (snd sh) txn 0) m
        \<and> msg_destination_channel m = txn_channel (tx_txn_id txn) (ucast (tx_origin_replica txn))"
proof -
  obtain sm sent where S: "StorageManager 0 0 cd c (fst sh) (snd sh) txn 0 = Inr (sm, sent)"
    using StorageManager_defined_mode0 [OF assms(1,2)] by blast
  let ?ps = "participants (LookupPartition c) (map ke_key (tx_read_write_set txn)) []"
  let ?M = "\<lambda>mds. MessageProto_new
     \<lparr>msg_type := READ_RESULT, msg_data := [enc_results cd (local_results c (fst sh) (snd sh) txn 0)],
      msg_destination_channel := txn_channel (tx_txn_id txn) (ucast (tx_origin_replica txn)),
      msg_destination_node := LookupMachineID c mds (ucast (cc_local_replica c))\<rparr>"
  have "distinct ?ps" "i \<in> set ?ps"
    using assms(3) by (auto intro: cp.participants_distinct simp: cp.participants_set)
  then have "filter (\<lambda>mds. mds = i) ?ps = [i]" by (rule filter_eq_in_distinct)
  moreover have "filter (\<lambda>mds. mds = i \<and> mds \<noteq> cc_relative_node_id c) ?ps = filter (\<lambda>mds. mds = i) ?ps"
    using assms(4) by (intro filter_cong) auto
  ultimately have "filter (\<lambda>m. msg_destination_node m = LookupMachineID c i (ucast (cc_local_replica c))) sent = [?M i]"
    by (simp add: StorageManager_sent_mode0 [OF S assms(1)] filter_map o_def conj_commute)
  with S show ?thesis by (auto simp: sent_by_def results_message_def)
qed

lemma distinct_concat_filter:
  "distinct js \<Longrightarrow> distinct (map f xs)
     \<Longrightarrow> distinct (concat (map (\<lambda>j. map f (filter (\<lambda>x. q (f x) = j) xs)) js))"
  by (induction js) (auto simp: distinct_map_filter)

lemma rr_key_result_of [simp]: "rr_key (result_of s h ke) = ke_key ke"
  by (simp add: result_of_def Let_def)

text \<open>The messages for machine \<open>i\<close>, from the machines \<open>js\<close> in some order.\<close>

definition inbox ::
  "'b codec \<Rightarrow> (uint64 \<Rightarrow> cluster_config) \<Rightarrow> (uint64 \<Rightarrow> simple_storage \<times> rec_heap) \<Rightarrow> txn_proto
    \<Rightarrow> uint64 \<Rightarrow> uint64 list \<Rightarrow> 'b message_proto list" where
  "inbox cd cfg st txn i js = concat (map (\<lambda>j. filter (\<lambda>m. msg_destination_node m
     = LookupMachineID (cfg i) i (ucast (cc_local_replica (cfg i)))) (sent_by cd (cfg j) (st j) txn 0)) js)"

definition replica_machines ::
  "(uint64 \<Rightarrow> cluster_config) \<Rightarrow> (uint64 \<Rightarrow> simple_storage \<times> rec_heap) \<Rightarrow> txn_proto \<Rightarrow> uint64 \<Rightarrow> bool" where
  "replica_machines cfg st txn i \<longleftrightarrow> i \<in> set (tx_readers txn)
     \<and> set (tx_readers txn) = LookupPartition (cfg i) ` ke_key ` set (txn_entries txn)
     \<and> (\<forall>j \<in> set (tx_readers txn). cc_relative_node_id (cfg j) = j \<and> same_replica (cfg j) (cfg i)
          \<and> stores_hold (cfg j) (st j) txn)"

lemma replica_machinesD:
  assumes "replica_machines cfg st txn i"
  shows "i \<in> set (tx_readers txn)" "cc_relative_node_id (cfg i) = i"
    "set (tx_readers txn) = LookupPartition (cfg i) ` ke_key ` set (txn_entries txn)"
    "j \<in> set (tx_readers txn) \<Longrightarrow> cc_relative_node_id (cfg j) = j"
    "j \<in> set (tx_readers txn) \<Longrightarrow> LookupPartition (cfg j) = LookupPartition (cfg i)"
    "j \<in> set (tx_readers txn) \<Longrightarrow> LookupMachineID (cfg j) = LookupMachineID (cfg i)"
    "j \<in> set (tx_readers txn) \<Longrightarrow> cc_local_replica (cfg j) = cc_local_replica (cfg i)"
    "j \<in> set (tx_readers txn) \<Longrightarrow> stores_hold (cfg j) (st j) txn"
    "j \<in> set (tx_readers txn) \<Longrightarrow> reads_here (cfg j) txn 0 = (\<lambda>ke. LookupPartition (cfg i) (ke_key ke) = j)"
proof -
  note machines = assms [unfolded replica_machines_def]
  show "i \<in> set (tx_readers txn)" "set (tx_readers txn) = LookupPartition (cfg i) ` ke_key ` set (txn_entries txn)"
    using machines by blast+
  then show "cc_relative_node_id (cfg i) = i" using machines by blast
  assume j: "j \<in> set (tx_readers txn)"
  then have m: "cc_relative_node_id (cfg j) = j" "same_replica (cfg j) (cfg i)" "stores_hold (cfg j) (st j) txn"
    using machines by blast+
  note look = same_replica_lookups [OF m(2)]
  show "cc_relative_node_id (cfg j) = j" "LookupPartition (cfg j) = LookupPartition (cfg i)"
    "LookupMachineID (cfg j) = LookupMachineID (cfg i)" "cc_local_replica (cfg j) = cc_local_replica (cfg i)"
    "stores_hold (cfg j) (st j) txn"
    using m look by (simp_all only: same_replica_def)
  show "reads_here (cfg j) txn 0 = (\<lambda>ke. LookupPartition (cfg i) (ke_key ke) = j)"
    using j m look by (simp add: reads_here_def fun_eq_iff)
qed

text \<open>Every sender is heard once, in the channel of the transaction, with its local results.\<close>

definition reads_message ::
  "'b codec \<Rightarrow> (uint64 \<Rightarrow> cluster_config) \<Rightarrow> (uint64 \<Rightarrow> simple_storage \<times> rec_heap) \<Rightarrow> txn_proto \<Rightarrow> uint64
    \<Rightarrow> 'b message_proto \<Rightarrow> bool" where
  "reads_message cd cfg st txn j m \<longleftrightarrow> results_message cd (local_results (cfg j) (fst (st j)) (snd (st j)) txn 0) m
     \<and> msg_destination_channel m = txn_channel (tx_txn_id txn) (ucast (tx_origin_replica txn))"

lemma inbox_Cons:
  assumes r: "replica_machines cfg st txn i" and i: "i \<in> LookupPartition (cfg i) ` ke_key ` set (tx_read_write_set txn)"
    and j: "j \<in> set (tx_readers txn)" "j \<noteq> i"
  shows "\<exists>x. inbox cd cfg st txn i (j # js) = x # inbox cd cfg st txn i js \<and> reads_message cd cfg st txn j x"
proof -
  note m = replica_machinesD [OF r]
  have "cc_relative_node_id (cfg j) \<in> set (tx_readers txn)" "i \<noteq> cc_relative_node_id (cfg j)"
    "i \<in> LookupPartition (cfg j) ` ke_key ` set (tx_read_write_set txn)"
    using j m(4) [OF j(1)] m(5) [OF j(1)] i by auto
  from sent_by_to_writer [OF this(1) m(8) [OF j(1)] this(3,2), of cd] show ?thesis
    using m(6,7) [OF j(1)] by (auto simp: inbox_def reads_message_def)
qed

text \<open>What a manager has when it has heard from the machines \<open>js\<close>.\<close>

definition received ::
  "(uint64 \<Rightarrow> cluster_config) \<Rightarrow> (uint64 \<Rightarrow> simple_storage \<times> rec_heap) \<Rightarrow> txn_proto \<Rightarrow> uint64 \<Rightarrow> uint64 set
    \<Rightarrow> 'b storage_manager \<Rightarrow> rec_heap \<Rightarrow> bool" where
  "received cfg st txn i J sm h \<longleftrightarrow> sm_txn sm = txn \<and> objects_ok h sm
     \<and> object_keys sm = ke_key ` {ke \<in> set (txn_entries txn). LookupPartition (cfg i) (ke_key ke) \<in> insert i J}
     \<and> (\<forall>ke \<in> set (txn_entries txn). LookupPartition (cfg i) (ke_key ke) \<in> insert i J \<longrightarrow> (\<exists>r r'.
         record_of (st (LookupPartition (cfg i) (ke_key ke))) (ke_key ke) = Some r
         \<and> object_at h sm (ke_key ke) = Inr r'
         \<and> rec_value r' = rec_value r \<and> rec_master r' = rec_master r \<and> rec_counter r' = rec_counter r))"

lemma received_start:
  assumes r: "replica_machines cfg st txn i"
    and S: "StorageManager u64 u32 cd (cfg i) (fst (st i)) (snd (st i)) txn 0 = Inr (sm, sent)"
  shows "received cfg st txn i {} sm (snd (st i))"
proof -
  note m = replica_machinesD [OF r]
  have reader: "cc_relative_node_id (cfg i) \<in> set (tx_readers txn)" using m(1,2) by simp
  note obj = StorageManager_objects [OF S reader]
  have keys: "local_keys (cfg i) txn 0 = ke_key ` {ke \<in> set (txn_entries txn). LookupPartition (cfg i) (ke_key ke) = i}"
    using m(9) [OF m(1)] by (simp add: local_keys_def)
  have "\<exists>r. record_of (st i) (ke_key ke) = Some r \<and> object_at (snd (st i)) sm (ke_key ke) = Inr r"
    if "ke \<in> set (txn_entries txn)" "LookupPartition (cfg i) (ke_key ke) = i" for ke
    using obj(3) [of "ke_key ke"] that unfolding keys by auto
  with obj(1,2) StorageManager_fields(1) [OF S reader] show ?thesis
    unfolding received_def keys by (auto simp: image_iff) blast+
qed

text \<open>One more sender.\<close>

lemma received_step:
  assumes r: "replica_machines cfg st txn i" and dist: "distinct (map ke_key (txn_entries txn))"
    and rec: "received cfg st txn i J sm h" and j: "j \<in> set (tx_readers txn)" "j \<notin> insert i J"
    and F: "fold handle_entry (local_results (cfg j) (fst (st j)) (snd (st j)) txn 0) (sm, h) = (sm', h')"
  shows "received cfg st txn i (insert j J) sm' h'"
proof -
  let ?part = "\<lambda>ke. LookupPartition (cfg i) (ke_key ke)" and ?es = "local_results (cfg j) (fst (st j)) (snd (st j)) txn 0"
  note m = replica_machinesD [OF r]
  have es: "?es = map (result_of (fst (st j)) (snd (st j))) (filter (\<lambda>ke. ?part ke = j) (txn_entries txn))"
    using m(9) [OF j(1)] by (simp add: local_results_def)
  have keys: "map rr_key ?es = map ke_key (filter (\<lambda>ke. ?part ke = j) (txn_entries txn))" by (simp add: es)
  have de: "distinct (map rr_key ?es)" unfolding keys using dist by (simp add: distinct_map_filter)
  have mem: "rr_key ` set ?es = ke_key ` {ke \<in> set (txn_entries txn). ?part ke = j}"
    using arg_cong [OF keys, of set] by auto
  have ok: "objects_ok h sm" using rec by (simp add: received_def)
  note O = fold_handle_entry_objects [OF F ok]
  have val: "\<exists>r r'. record_of (st (?part ke)) (ke_key ke) = Some r \<and> object_at h' sm' (ke_key ke) = Inr r'
      \<and> rec_value r' = rec_value r \<and> rec_master r' = rec_master r \<and> rec_counter r' = rec_counter r"
    if ke: "ke \<in> set (txn_entries txn)" "?part ke \<in> insert i (insert j J)" for ke
  proof (cases "?part ke = j")
    case False
    then have "ke_key ke \<notin> rr_key ` set ?es" unfolding mem by auto
    moreover obtain r r' where "record_of (st (?part ke)) (ke_key ke) = Some r" "object_at h sm (ke_key ke) = Inr r'"
      "rec_value r' = rec_value r \<and> rec_master r' = rec_master r \<and> rec_counter r' = rec_counter r"
      using rec ke False unfolding received_def by blast
    ultimately show ?thesis using O by blast
  next
    case True
    obtain r where r: "record_of (st j) (ke_key ke) = Some r"
      using m(8) [OF j(1)] ke m(4,5) [OF j(1)] True by (auto simp: stores_hold_def)
    have "result_of (fst (st j)) (snd (st j)) ke \<in> set ?es" using ke True by (simp add: es)
    with O de have "object_at h' sm' (ke_key ke) = Inr (entry_record (result_of (fst (st j)) (snd (st j)) ke))" by fastforce
    with r True show ?thesis by (simp add: entry_record_def result_of_def Record_new_counter_def Let_def)
  qed
  have "object_keys sm' = ke_key ` {ke \<in> set (txn_entries txn). ?part ke \<in> insert i (insert j J)}"
    using O rec unfolding mem received_def by auto
  with O val rec fold_handle_entry_fields [OF F] show ?thesis by (simp add: received_def)
qed

text \<open>The manager is ready exactly when it has heard from every other reader.\<close>

lemma received_ready:
  assumes r: "replica_machines cfg st txn i" and "distinct (map ke_key (txn_entries txn))" and rec: "received cfg st txn i J sm h"
  shows "ReadyToExecute sm \<longleftrightarrow> set (tx_readers txn) \<subseteq> insert i J"
proof -
  let ?part = "\<lambda>ke. LookupPartition (cfg i) (ke_key ke)"
  have inj: "inj_on ke_key (set (txn_entries txn))" using assms(2) by (simp add: distinct_map)
  have "ReadyToExecute sm \<longleftrightarrow> object_keys sm = ke_key ` set (txn_entries txn)"
    using ReadyToExecute_iff [of h sm] rec assms(2) by (auto simp: received_def)
  also have "\<dots> \<longleftrightarrow> ke_key ` {ke \<in> set (txn_entries txn). ?part ke \<in> insert i J} = ke_key ` set (txn_entries txn)"
    using rec by (simp add: received_def)
  also have "\<dots> \<longleftrightarrow> {ke \<in> set (txn_entries txn). ?part ke \<in> insert i J} = set (txn_entries txn)"
    using inj by (intro inj_on_image_eq_iff) auto
  also have "\<dots> \<longleftrightarrow> set (tx_readers txn) \<subseteq> insert i J" using replica_machinesD(3) [OF r] by auto
  finally show ?thesis .
qed

lemma exchange_received:
  assumes "codec_ok cd" and r: "replica_machines cfg st txn i" and "distinct (map ke_key (txn_entries txn))"
    and i: "i \<in> LookupPartition (cfg i) ` ke_key ` set (tx_read_write_set txn)"
  shows "received cfg st txn i J sm h \<Longrightarrow> distinct js \<Longrightarrow> set js \<subseteq> set (tx_readers txn) - insert i J \<Longrightarrow>
    \<exists>sm' h'. foldE (HandleReadResult cd) (inbox cd cfg st txn i js) (sm, h) = Inr (sm', h') \<and> received cfg st txn i (J \<union> set js) sm' h'"
proof (induction js arbitrary: J sm h)
  case Nil
  then show ?case by (auto simp: inbox_def)
next
  case (Cons j js)
  let ?es = "local_results (cfg j) (fst (st j)) (snd (st j)) txn 0"
  have "j \<in> set (tx_readers txn)" "j \<noteq> i" using Cons.prems(3) by auto
  from inbox_Cons [OF r i this] obtain x where x: "inbox cd cfg st txn i (j # js) = x # inbox cd cfg st txn i js" "results_message cd ?es x"
    unfolding reads_message_def by blast
  obtain sm1 h1 where F: "fold handle_entry ?es (sm, h) = (sm1, h1)" by (cases "fold handle_entry ?es (sm, h)")
  have "received cfg st txn i (insert j J) sm1 h1"
    by (rule received_step [OF r assms(3) Cons.prems(1) _ _ F]) (use Cons.prems(3) in auto)
  from Cons.IH [OF this] Cons.prems show ?case
    by (simp add: x HandleReadResult_results [OF assms(1) x(2)] F) auto
qed

text \<open>
  In the original mode, take the machines of one replica that read a transaction with distinct
  keys, each storing the keys of its partition. On a machine that writes, the constructor succeeds,
  and once the messages of the other readers have been handled, in any order of the senders, the
  manager is ready and has for every key the value, master and counter stored on the key's machine.
\<close>

theorem StorageManager_exchange:
  assumes "codec_ok cd" and "distinct (map ke_key (txn_entries txn))" and "replica_machines cfg st txn i"
    and "i \<in> LookupPartition (cfg i) ` ke_key ` set (tx_read_write_set txn)"
    and "distinct js" and "set js = set (tx_readers txn) - {i}"
  shows "\<exists>sm sent sm' h'. StorageManager u64 u32 cd (cfg i) (fst (st i)) (snd (st i)) txn 0 = Inr (sm, sent)
    \<and> foldE (HandleReadResult cd) (inbox cd cfg st txn i js) (sm, snd (st i)) = Inr (sm', h')
    \<and> ReadyToExecute sm'
    \<and> (\<forall>ke \<in> set (txn_entries txn). \<exists>r r'.
         record_of (st (LookupPartition (cfg i) (ke_key ke))) (ke_key ke) = Some r
         \<and> object_at h' sm' (ke_key ke) = Inr r'
         \<and> rec_value r' = rec_value r \<and> rec_master r' = rec_master r \<and> rec_counter r' = rec_counter r)"
proof -
  note m = replica_machinesD [OF assms(3)]
  have reader: "cc_relative_node_id (cfg i) \<in> set (tx_readers txn)" using m(1,2) by simp
  obtain sm sent where S: "StorageManager u64 u32 cd (cfg i) (fst (st i)) (snd (st i)) txn 0 = Inr (sm, sent)"
    using StorageManager_defined_mode0 [OF reader m(8) [OF m(1)], of u64 u32 cd] by blast
  from exchange_received [OF assms(1,3,2,4) received_start [OF assms(3) S] assms(5)] assms(6) obtain sm' h' where
    run: "foldE (HandleReadResult cd) (inbox cd cfg st txn i js) (sm, snd (st i)) = Inr (sm', h')"
    and rec: "received cfg st txn i (set js) sm' h'" by auto
  have all: "set (tx_readers txn) \<subseteq> insert i (set js)" using assms(6) by auto
  then have "LookupPartition (cfg i) (ke_key ke) \<in> insert i (set js)" if "ke \<in> set (txn_entries txn)" for ke
    using that m(3) by auto
  with rec have val: "\<forall>ke \<in> set (txn_entries txn). \<exists>r r'.
      record_of (st (LookupPartition (cfg i) (ke_key ke))) (ke_key ke) = Some r \<and> object_at h' sm' (ke_key ke) = Inr r'
      \<and> rec_value r' = rec_value r \<and> rec_master r' = rec_master r \<and> rec_counter r' = rec_counter r"
    unfolding received_def by blast
  have "ReadyToExecute sm'" using received_ready [OF assms(3,2) rec] all by simp
  with S run val show ?thesis by blast
qed

end
