(* ===== verification/Commit_Abort.thy ===== *)
theory Commit_Abort
  imports Storage_Manager
begin

text \<open>
  What \<open>StorageManager::CheckCommitOrAbort\<close> decides in mode 2 (background remastering), which machine
  submits an aborted transaction again, with what, and to whom; and which machines of the original
  mode never hear from the others.
\<close>

section \<open>The decision\<close>

definition entry_current :: "rec_heap \<Rightarrow> 'b storage_manager \<Rightarrow> key_entry \<Rightarrow> bool" where
  "entry_current h sm ke \<longleftrightarrow> (\<exists>r. object_at h sm (ke_key ke) = Inr r
     \<and> rec_master r = ke_master ke \<and> rec_counter r = ke_counter ke)"

lemma check_entries_correct:
  "(\<And>ke. ke \<in> set kes \<Longrightarrow> \<exists>r. object_at h sm (ke_key ke) = Inr r) \<Longrightarrow>
     check_entries h sm kes = Inr (\<forall>ke \<in> set kes. entry_current h sm ke)"
proof (induction kes)
  case (Cons ke kes)
  obtain r where "object_at h sm (ke_key ke) = Inr r" using Cons.prems [of ke] by auto
  with Cons show ?case by (auto simp: entry_current_def)
qed simp

lemma decide_correct:
  assumes "\<And>ke. ke \<in> set (txn_entries (sm_txn sm)) \<Longrightarrow> \<exists>r. object_at h sm (ke_key ke) = Inr r"
    and "tx_status (sm_txn sm) \<noteq> ABORTED_WITHOUT_LOCK"
    and "\<not> sm_local_commit sm \<Longrightarrow> \<exists>ke \<in> set (txn_entries (sm_txn sm)). \<not> entry_current h sm ke"
    and "sm_local_commit sm \<Longrightarrow> length (sm_involved_machines sm) = 1 \<Longrightarrow>
           \<forall>ke \<in> set (txn_entries (sm_txn sm)). entry_current h sm ke"
  shows "decide h sm = Inr (let ok = (\<forall>ke \<in> set (txn_entries (sm_txn sm)). entry_current h sm ke)
     in (ok, if ok then sm else sm\<lparr>sm_txn := (sm_txn sm)\<lparr>tx_status := ABORTED\<rparr>\<rparr>))"
proof -
  have rs: "check_entries h sm (tx_read_set (sm_txn sm)) = Inr (\<forall>ke \<in> set (tx_read_set (sm_txn sm)). entry_current h sm ke)"
    using assms(1) by (intro check_entries_correct) (auto simp: txn_entries_def)
  have rws: "check_entries h sm (tx_read_write_set (sm_txn sm))
      = Inr (\<forall>ke \<in> set (tx_read_write_set (sm_txn sm)). entry_current h sm ke)"
    using assms(1) by (intro check_entries_correct) (auto simp: txn_entries_def)
  consider "\<not> sm_local_commit sm" | "sm_local_commit sm" "length (sm_involved_machines sm) = 1"
    | "sm_local_commit sm" "length (sm_involved_machines sm) \<noteq> 1" by blast
  then show ?thesis
  proof cases
    case 1
    then show ?thesis using assms(2,3) by (auto simp: decide_def)
  next
    case 2
    then show ?thesis using assms(2,4) by (auto simp: decide_def)
  next
    case 3
    then show ?thesis using assms(2) by (simp add: decide_def rs rws txn_entries_def ball_Un Let_def)
  qed
qed

lemma fold_os_insert_set: "set (fold (\<lambda>x. os_insert (f x)) xs ys) = f ` set xs \<union> set ys"
  by (induction xs arbitrary: ys) auto

lemma fold_os_insert_distinct: "distinct ys \<Longrightarrow> distinct (fold (\<lambda>x. os_insert (f x)) xs ys)"
  by (induction xs arbitrary: ys) auto

lemma fold_os_insert_sorted: "sorted ys \<Longrightarrow> sorted (fold (\<lambda>x. os_insert (f x)) xs ys)"
  by (induction xs arbitrary: ys) auto

definition involved_of :: "cluster_config \<Rightarrow> key_entry \<Rightarrow> uint64 \<times> uint32" where
  "involved_of c ke = (LookupPartition c (ke_key ke), ke_master ke)"

lemma involved_machines_set:
  assumes "StorageManager u64 u32 cd c s h txn 2 = Inr (sm, sent)" "cc_relative_node_id c \<in> set (tx_readers txn)"
  shows "sm_involved_machines sm = fold (\<lambda>ke. os_insert (involved_of c ke)) (txn_entries txn) []"
    "set (sm_involved_machines sm) = involved_of c ` set (txn_entries txn)"
    "distinct (sm_involved_machines sm)"
proof -
  show 1: "sm_involved_machines sm = fold (\<lambda>ke. os_insert (involved_of c ke)) (txn_entries txn) []"
    using StorageManager_fields(8) [OF assms] by (simp add: involved_of_def)
  show "set (sm_involved_machines sm) = involved_of c ` set (txn_entries txn)"
    "distinct (sm_involved_machines sm)"
    unfolding 1 by (simp_all add: fold_os_insert_set fold_os_insert_distinct)
qed

text \<open>The machines a part of a transaction is scheduled on: those of the keys whose master is its origin.\<close>

definition runs_on :: "cluster_config \<Rightarrow> txn_proto \<Rightarrow> bool" where
  "runs_on c txn \<longleftrightarrow> cc_relative_node_id c \<in> set (tx_readers txn)
     \<and> set (tx_readers txn) = LookupPartition c ` ke_key `
         {ke \<in> set (txn_entries txn). ke_master ke = tx_origin_replica txn}"

lemma runs_on_reader: "runs_on c txn \<Longrightarrow> cc_relative_node_id c \<in> set (tx_readers txn)"
  unfolding runs_on_def by (elim conjE)

lemma single_machine_reads_here:
  assumes "StorageManager u64 u32 cd c s h txn 2 = Inr (sm, sent)" and "runs_on c txn"
    and "length (sm_involved_machines sm) = 1" and "ke \<in> set (txn_entries txn)"
  shows "reads_here c txn 2 ke"
proof -
  note reader = runs_on_reader [OF assms(2)]
  from assms(3) obtain m where "sm_involved_machines sm = [m]" by (auto simp: length_Suc_conv)
  with involved_machines_set(2) [OF assms(1) reader] have m: "involved_of c ke' = m"
    if "ke' \<in> set (txn_entries txn)" for ke' using that by auto
  from assms(2) obtain ke1 where ke1: "ke1 \<in> set (txn_entries txn)" "cc_relative_node_id c = LookupPartition c (ke_key ke1)"
    "ke_master ke1 = tx_origin_replica txn"
    by (auto simp: runs_on_def)
  show ?thesis using m [OF ke1(1)] m [OF assms(4)] ke1(2,3) by (auto simp: reads_here_def involved_of_def)
qed

text \<open>
  The manager \<open>sm\<close> on heap \<open>h\<close>, after the one constructed in \<open>sm0\<close> on \<open>h0\<close> has handled results for
  keys of other machines.
\<close>

definition manager_run ::
  "'b codec \<Rightarrow> cluster_config \<Rightarrow> simple_storage \<Rightarrow> rec_heap \<Rightarrow> txn_proto \<Rightarrow> remote_results_entry list list
    \<Rightarrow> 'b storage_manager \<Rightarrow> rec_heap \<Rightarrow> bool" where
  "manager_run cd c s h0 txn ess sm h \<longleftrightarrow> (\<exists>u64 u32 sm0 sent.
     StorageManager u64 u32 cd c s h0 txn 2 = Inr (sm0, sent)
     \<and> foldE (HandleReadResult cd) (map (\<lambda>es. MessageProto_new\<lparr>msg_type := READ_RESULT,
          msg_data := [enc_results cd es]\<rparr>) ess) (sm0, h0) = Inr (sm, h)
     \<and> (\<forall>es \<in> set ess. rr_key ` set es \<subseteq> ke_key ` set (txn_entries txn) - local_keys c txn 2))"

lemma manager_run_facts:
  assumes "manager_run cd c s h0 txn ess sm h" and "codec_ok cd" and "cc_relative_node_id c \<in> set (tx_readers txn)"
  obtains u64 u32 sm0 sent where "StorageManager u64 u32 cd c s h0 txn 2 = Inr (sm0, sent)"
    "fold handle_entry (concat ess) (sm0, h0) = (sm, h)" "objects_ok h sm"
    "object_keys sm \<subseteq> ke_key ` set (txn_entries txn)" "sm_txn sm = txn"
    "sm_involved_machines sm = sm_involved_machines sm0" "sm_local_commit sm = sm_local_commit sm0"
    "\<And>k. k \<in> local_keys c txn 2 \<Longrightarrow> \<exists>r. record_of (s, h0) k = Some r \<and> object_at h sm k = Inr r"
proof -
  from assms(1) obtain u64 u32 sm0 sent where S: "StorageManager u64 u32 cd c s h0 txn 2 = Inr (sm0, sent)"
    and F: "foldE (HandleReadResult cd) (map (\<lambda>es. MessageProto_new\<lparr>msg_type := READ_RESULT,
          msg_data := [enc_results cd es]\<rparr>) ess) (sm0, h0) = Inr (sm, h)"
    and K: "\<forall>es \<in> set ess. rr_key ` set es \<subseteq> ke_key ` set (txn_entries txn) - local_keys c txn 2"
    unfolding manager_run_def by (elim exE conjE) (rule that)
  have "list_all2 (results_message cd) ess (map (\<lambda>es. MessageProto_new\<lparr>msg_type := READ_RESULT,
          msg_data := [enc_results cd es]\<rparr>) ess)"
    by (simp add: list_all2_map2 results_message_def list_all2_same)
  then have H: "fold handle_entry (concat ess) (sm0, h0) = (sm, h)"
    using foldE_HandleReadResult [OF assms(2)] F by fastforce
  note O = StorageManager_objects [OF S assms(3)]
  note P = fold_handle_entry_objects [OF H O(1)]
  have new: "rr_key ` set (concat ess) \<subseteq> ke_key ` set (txn_entries txn) - local_keys c txn 2" using K by auto
  have local_sub: "local_keys c txn 2 \<subseteq> ke_key ` set (txn_entries txn)" by (auto simp: local_keys_def)
  show thesis
  proof (rule that [OF S H])
    show "objects_ok h sm" using P by blast
    show "object_keys sm \<subseteq> ke_key ` set (txn_entries txn)" 
      using P O(2) new local_sub by blast
    show "sm_txn sm = txn" using fold_handle_entry_fields [OF H] StorageManager_fields(1) [OF S assms(3)] by simp
    show "sm_involved_machines sm = sm_involved_machines sm0" "sm_local_commit sm = sm_local_commit sm0"
      using fold_handle_entry_fields [OF H] by simp_all
    show "\<exists>r. record_of (s, h0) k = Some r \<and> object_at h sm k = Inr r" if "k \<in> local_keys c txn 2" for k
      using O(3) [OF that] P new that by blast
  qed
qed

text \<open>
  C14: Under background remastering, once a manager that runs a transaction with distinct keys is ready,
  \<open>CheckCommitOrAbort\<close> has no undefined behaviour in its decision and commits exactly when
  the lock manager thread has not aborted the transaction before it had its locks, and every key, the
  local ones and the ones received, still has the master and the counter the transaction was ordered with.
  A transaction that was aborted without locks keeps that status, by which the lock manager thread knows
  that nothing is to be released; any other that does not commit gets the status \<open>ABORTED\<close>.
\<close>

theorem decide_commits_iff_current:
  assumes "codec_ok cd" and "runs_on c txn" and "distinct (map ke_key (txn_entries txn))"
    and "manager_run cd c s h0 txn ess sm h" and "ReadyToExecute sm"
  shows "decide h sm = Inr
    (let ok = (tx_status txn \<noteq> ABORTED_WITHOUT_LOCK \<and> (\<forall>ke \<in> set (txn_entries txn). entry_current h sm ke))
     in (ok, if ok \<or> tx_status txn = ABORTED_WITHOUT_LOCK then sm else sm\<lparr>sm_txn := txn\<lparr>tx_status := ABORTED\<rparr>\<rparr>))"
proof (cases "tx_status txn = ABORTED_WITHOUT_LOCK")
  case True
  have "sm_txn sm = txn" using manager_run_facts [OF assms(4,1) runs_on_reader [OF assms(2)]] by metis
  with True show ?thesis by (simp add: decide_def Let_def)
next
  case False
  note reader = runs_on_reader [OF assms(2)]
  obtain u64 u32 sm0 sent where S: "StorageManager u64 u32 cd c s h0 txn 2 = Inr (sm0, sent)"
    and H: "fold handle_entry (concat ess) (sm0, h0) = (sm, h)" and ok: "objects_ok h sm"
    and sub: "object_keys sm \<subseteq> ke_key ` set (txn_entries txn)" and txn: "sm_txn sm = txn"
    and inv: "sm_involved_machines sm = sm_involved_machines sm0" and lc: "sm_local_commit sm = sm_local_commit sm0"
    and loc: "\<And>k. k \<in> local_keys c txn 2 \<Longrightarrow> \<exists>r. record_of (s, h0) k = Some r \<and> object_at h sm k = Inr r"
    using manager_run_facts [OF assms(4,1) reader] by metis
  have keys: "object_keys sm = ke_key ` set (txn_entries txn)"
    using ReadyToExecute_iff [OF ok] sub txn assms(3,5) by simp
  have cur: "current s h0 ke \<longleftrightarrow> entry_current h sm ke" if "ke \<in> set (txn_entries txn)" "reads_here c txn 2 ke" for ke
    using loc [of "ke_key ke"] that by (auto simp: local_keys_def current_def entry_current_def)
  have commit: "sm_local_commit sm \<longleftrightarrow> (\<forall>ke \<in> set (txn_entries txn). reads_here c txn 2 ke \<longrightarrow> entry_current h sm ke)"
    unfolding lc using StorageManager_fields(7) [OF S reader] cur by auto
  have "decide h sm = Inr (let ok = (\<forall>ke \<in> set (txn_entries (sm_txn sm)). entry_current h sm ke)
     in (ok, if ok then sm else sm\<lparr>sm_txn := (sm_txn sm)\<lparr>tx_status := ABORTED\<rparr>\<rparr>))"
  proof (rule decide_correct)
    show "\<exists>r. object_at h sm (ke_key ke) = Inr r" if "ke \<in> set (txn_entries (sm_txn sm))" for ke
      using objects_ok_object_at [OF ok] that txn keys by auto
    show "\<forall>ke \<in> set (txn_entries (sm_txn sm)). entry_current h sm ke"
      if "sm_local_commit sm" "length (sm_involved_machines sm) = 1"
      using that commit single_machine_reads_here [OF S assms(2)] inv txn by auto
  qed (use commit txn False in auto)
  then show ?thesis using False by (simp add: txn Let_def)
qed

section \<open>Submitting an aborted transaction again\<close>

text \<open>
  C31: Whatever parts of a transaction run on whatever machines of the cluster, at most one of them
  submits it again. The parts read and write the same keys, ordered with the same masters and counters,
  and may differ in everything else: the origin replica, the status, the readers and writers, the marks.
  Two managers on different machines or of parts with different origins never both pass the guard.
\<close>

theorem at_most_one_regenerates:
  assumes "StorageManager a1 b1 cd1 c1 s1 h1 txn1 2 = Inr (sm1, sent1)"
    and "StorageManager a2 b2 cd2 c2 s2 h2 txn2 2 = Inr (sm2, sent2)"
    and "tx_read_set txn2 = tx_read_set txn1" and "tx_read_write_set txn2 = tx_read_write_set txn1"
    and "cc_relative_node_id c1 \<in> set (tx_readers txn1)" and "cc_relative_node_id c2 \<in> set (tx_readers txn2)"
    and "nodes_per_replica c1 = nodes_per_replica c2"
    and "(cc_relative_node_id c1, cc_local_replica c1, tx_origin_replica txn1)
      \<noteq> (cc_relative_node_id c2, cc_local_replica c2, tx_origin_replica txn2)"
  shows "\<not> (regenerates sm1 \<and> regenerates sm2)"
proof
  assume both: "regenerates sm1 \<and> regenerates sm2"
  have "involved_of c1 = involved_of c2"
    using assms(7) by (simp add: involved_of_def LookupPartition_def fun_eq_iff)
  then have "sm_involved_machines sm1 = sm_involved_machines sm2"
    using involved_machines_set(1) [OF assms(1,5)] involved_machines_set(1) [OF assms(2,6)] assms(3,4)
    by (simp add: txn_entries_def)
  then show False
    using both assms(8) StorageManager_fields(3,4,5,9,10) [OF assms(1,5)] StorageManager_fields(3,4,5,9,10) [OF assms(2,6)]
    by (auto simp: regenerates_def)
qed

text \<open>The refreshed entries carry the masters and counters of the objects.\<close>

definition refreshed :: "rec_heap \<Rightarrow> 'b storage_manager \<Rightarrow> key_entry \<Rightarrow> key_entry \<Rightarrow> bool" where
  "refreshed h sm ke ke' \<longleftrightarrow> ke_key ke' = ke_key ke \<and> entry_current h sm ke'"

lemma refresh_entries_correct:
  assumes "\<And>ke. ke \<in> set kes \<Longrightarrow> \<exists>r. object_at h sm (ke_key ke) = Inr r"
  shows "\<exists>kes'. refresh_entries h sm kes reps = Inr (kes', fold (\<lambda>ke. os_insert (ke_master ke)) kes' reps)
    \<and> list_all2 (refreshed h sm) kes kes'"
  using assms
proof (induction kes arbitrary: reps)
  case (Cons ke kes)
  obtain r where r: "object_at h sm (ke_key ke) = Inr r" using Cons.prems [of ke] by auto
  obtain kes' where kes': "refresh_entries h sm kes (os_insert (rec_master r) reps)
      = Inr (kes', fold (\<lambda>ke. os_insert (ke_master ke)) kes' (os_insert (rec_master r) reps))"
    "list_all2 (refreshed h sm) kes kes'"
    using Cons.IH [of "os_insert (rec_master r) reps"] Cons.prems by auto
  let ?ke = "if ke_master ke \<noteq> rec_master r \<or> ke_counter ke \<noteq> rec_counter r
     then ke\<lparr>ke_master := rec_master r, ke_counter := rec_counter r\<rparr> else ke"
  have "refreshed h sm ke ?ke" "ke_master ?ke = rec_master r"
    using r by (auto simp: refreshed_def entry_current_def)
  with r kes' show ?case by (intro exI [of _ "?ke # kes'"]) simp
qed simp

text \<open>
  C32: When \<open>CheckCommitOrAbort\<close> aborts on the machine that submits again and every key's
  object is there, it sends one message: a \<open>TXN_FORWORD\<close> to a sequencer whose transaction has
  a new identifier, status \<open>NEW\<close>, the old client replica, the same keys with the masters and
  counters the objects have now, and the sorted set of these masters as its involved replicas; it goes to
  the master's replica if there is one only, else to replica 0.
\<close>

theorem CheckCommitOrAbort_regenerates:
  assumes "codec_ok cd" and "config_ok c"
    and "\<forall>ke \<in> set (txn_entries (sm_txn sm)). \<exists>r. object_at h sm (ke_key ke) = Inr r"
    and "decide h sm = Inr (False, sm')" and "regenerates sm'"
  shows "\<exists>m t rs rws. CheckCommitOrAbort cd rnd h sm c = Inr (False, sm', snd (GetGUID c), [m])
    \<and> msg_type m = TXN_FORWORD \<and> msg_destination_channel m = ''sequencer_txn_receive_''
    \<and> msg_data m = [enc_txn cd t] \<and> dec_txn cd (hd (msg_data m)) = t
    \<and> tx_txn_id t = fst (GetGUID c) \<and> tx_status t = NEW
    \<and> tx_client_replica t = tx_client_replica (sm_txn sm)
    \<and> tx_read_set t = rs \<and> tx_read_write_set t = rws
    \<and> list_all2 (refreshed h sm) (tx_read_set (sm_txn sm)) rs
    \<and> list_all2 (refreshed h sm) (tx_read_write_set (sm_txn sm)) rws
    \<and> sorted (tx_involved_replicas t) \<and> distinct (tx_involved_replicas t)
    \<and> set (tx_involved_replicas t) = ke_master ` set (rs @ rws)
    \<and> msg_destination_node m = LookupMachineID c (rnd mod nodes_per_replica c)
        (if length (tx_involved_replicas t) = 1 then ucast (hd (tx_involved_replicas t)) else 0)"
proof -
  have obj: "object_at h sm' k = object_at h sm k" and txn: "tx_client_replica (sm_txn sm') = tx_client_replica (sm_txn sm)"
     "tx_read_set (sm_txn sm') = tx_read_set (sm_txn sm)"
    "tx_read_write_set (sm_txn sm') = tx_read_write_set (sm_txn sm)" for k
    using assms(4) by (auto simp: decide_def object_at_def SM_ReadObject_def bindE_Inr_iff Let_def split: if_splits option.splits)
  have ref: "refreshed h sm' = refreshed h sm"
    by (simp add: refreshed_def entry_current_def obj fun_eq_iff)
  obtain rs where rs: "refresh_entries h sm' (tx_read_set (sm_txn sm)) []
      = Inr (rs, fold (\<lambda>ke. os_insert (ke_master ke)) rs [])" "list_all2 (refreshed h sm) (tx_read_set (sm_txn sm)) rs"
    using refresh_entries_correct [of "tx_read_set (sm_txn sm)" h sm' "[]"] assms(3) obj ref
    by (auto simp: txn_entries_def)
  let ?r = "fold (\<lambda>ke. os_insert (ke_master ke)) rs []"
  obtain rws where rws: "refresh_entries h sm' (tx_read_write_set (sm_txn sm)) ?r
      = Inr (rws, fold (\<lambda>ke. os_insert (ke_master ke)) rws ?r)"
    "list_all2 (refreshed h sm) (tx_read_write_set (sm_txn sm)) rws"
    using refresh_entries_correct [of "tx_read_write_set (sm_txn sm)" h sm' ?r] assms(3) obj ref
    by (auto simp: txn_entries_def)
  let ?reps = "fold (\<lambda>ke. os_insert (ke_master ke)) (rs @ rws) []"
  have reps: "sorted ?reps" "distinct ?reps" "set ?reps = ke_master ` set (rs @ rws)"
    by (auto simp: fold_os_insert_set fold_os_insert_distinct fold_os_insert_sorted simp del: fold_append)
  have nodes: "nodes_per_replica (snd (GetGUID c)) = nodes_per_replica c"
    by (simp add: GetGUID_def nodes_per_replica_def all_nodes_size_def)
  let ?t = "(sm_txn sm')\<lparr>tx_txn_id := fst (GetGUID c), tx_status := NEW,
     tx_read_set := rs, tx_read_write_set := rws, tx_involved_replicas := ?reps\<rparr>"
  let ?m = "MessageProto_new\<lparr>msg_destination_channel := ''sequencer_txn_receive_'', msg_type := TXN_FORWORD,
     msg_data := [enc_txn cd ?t], msg_destination_node := LookupMachineID c (rnd mod nodes_per_replica c)
        (if length ?reps = 1 then ucast (hd ?reps) else 0)\<rparr>"
  have "regenerate cd rnd h sm' c = Inr (snd (GetGUID c), [?m])"
    by (auto simp: regenerate_def case_prod_unfold Let_def txn rs rws nodes LookupMachineID_def)
  then have "CheckCommitOrAbort cd rnd h sm c = Inr (False, sm', snd (GetGUID c), [?m])"
    using assms(4,5) by (simp add: CheckCommitOrAbort_def)
  then show ?thesis using reps rs(2) rws(2) assms(1) txn(1)
    by (intro exI [of _ ?m] exI [of _ ?t] exI [of _ rs] exI [of _ rws]) simp
qed

section \<open>Machines that only read\<close>

text \<open>
  In the original mode the results go to the machines that write. A machine that reads a
  transaction and writes nothing of it, while some key is elsewhere, is not ready when its manager has
  been constructed, and no machine of its replica sends it anything: it waits for ever.
\<close>

theorem reader_only_machine_waits:
  assumes "StorageManager u64 u32 cd c s h txn 0 = Inr (sm, sent)"
    and "cc_relative_node_id c \<in> set (tx_readers txn)" and "distinct (map ke_key (txn_entries txn))"
    and "\<exists>ke \<in> set (txn_entries txn). LookupPartition c (ke_key ke) \<noteq> cc_relative_node_id c"
    and "cc_relative_node_id c \<notin> LookupPartition c ` ke_key ` set (tx_read_write_set txn)"
    and "same_replica d c"
  shows "\<not> ReadyToExecute sm \<and> (\<forall>m \<in> set (sent_by cd d sh txn 0).
    msg_destination_node m \<noteq> LookupMachineID c (cc_relative_node_id c) (ucast (cc_local_replica c)))"
proof -
  note O = StorageManager_objects [OF assms(1,2)]
  have "\<not> ReadyToExecute sm"
  proof
    assume "ReadyToExecute sm"
    moreover have "local_keys c txn 0 \<subseteq> ke_key ` set (txn_entries txn)" by (auto simp: local_keys_def)
    ultimately have "local_keys c txn 0 = ke_key ` set (txn_entries txn)"
      using ReadyToExecute_iff [OF O(1)] O(2) StorageManager_fields(1) [OF assms(1,2)] assms(3) by simp
    moreover have "\<forall>k \<in> local_keys c txn 0. LookupPartition c k = cc_relative_node_id c"
      by (auto simp: local_keys_def reads_here_def)
    ultimately show False using assms(4) by auto
  qed
  moreover have "msg_destination_node m \<noteq> LookupMachineID c (cc_relative_node_id c) (ucast (cc_local_replica c))"
    if m: "m \<in> set (sent_by cd d sh txn 0)" for m
  proof -
    obtain sm' sent' where S: "StorageManager 0 0 cd d (fst sh) (snd sh) txn 0 = Inr (sm', sent')" "m \<in> set sent'"
      using m by (cases "StorageManager 0 0 cd d (fst sh) (snd sh) txn 0") (auto simp: sent_by_def)
    have reader: "cc_relative_node_id d \<in> set (tx_readers txn)"
    proof (rule ccontr)
      assume "cc_relative_node_id d \<notin> set (tx_readers txn)"
      then have "sent' = []" using S(1) by (simp add: StorageManager_def)
      with S(2) show False by simp
    qed
    have lookups: "LookupPartition d = LookupPartition c" "LookupMachineID d = LookupMachineID c"
      "cc_local_replica d = cc_local_replica c"
      using same_replica_lookups [OF assms(6)] assms(6) by (simp_all only: same_replica_def)
    have "LookupPartition c (ke_key ke) \<noteq> cc_relative_node_id c" if "ke \<in> set (tx_read_write_set txn)" for ke
      using assms(5) that by (metis imageI)
    with S(2) show ?thesis
      unfolding StorageManager_sent_mode0 [OF S(1) reader]
      by (auto simp: lookups cp.participants_set)
  qed
  ultimately show ?thesis by blast
qed

section \<open>Instances\<close>

text \<open>The keys 0 and 1 on the machines 0 and 1 of replica 0; the key 0 has a newer counter than expected.\<close>

definition example_store :: "string \<Rightarrow> uint64 \<Rightarrow> simple_storage \<times> rec_heap" where
  "example_store k n = (Map.empty(k \<mapsto> 0), [Record_new_counter ''v'' 0 n])"

definition example_ke :: "string \<Rightarrow> key_entry" where
  "example_ke k = \<lparr>ke_key = k, ke_master = 0, ke_counter = 0\<rparr>"

definition pair_txn :: txn_proto where
  "pair_txn = TxnProto_new\<lparr>tx_read_write_set := [example_ke ''0'', example_ke ''1''], tx_readers := [0, 1]\<rparr>"

definition single_txn :: txn_proto where
  "single_txn = TxnProto_new\<lparr>tx_read_write_set := [example_ke ''0''], tx_readers := [0]\<rparr>"

lemma example_partition [simp]:
  "LookupPartition (example_config n) ''0'' = 0" "LookupPartition (example_config n) ''1'' = 1"
  by (simp_all add: LookupPartition_def example_StringToInt example_config_size)

lemma example_relative [simp]:
  "cc_relative_node_id (example_config n) = n mod 2" "cc_local_replica (example_config n) = ucast (n div 2)"
  by (simp_all add: example_config_def)

lemma example_record [simp]:
  "record_of (example_store k n) j = (if j = k then Some (Record_new_counter ''v'' 0 n) else None)"
  by (simp add: record_of_def example_store_def)

lemma example_entries_of [simp]:
  "txn_entries pair_txn = [example_ke ''0'', example_ke ''1'']" "txn_entries single_txn = [example_ke ''0'']"
  "tx_read_write_set pair_txn = [example_ke ''0'', example_ke ''1'']"
  "tx_readers pair_txn = [0, 1]" "tx_readers single_txn = [0]"
  "tx_origin_replica pair_txn = 0" "tx_origin_replica single_txn = 0"
  "tx_status pair_txn = NEW" "tx_status single_txn = NEW"
  "ke_key (example_ke k) = k" "ke_master (example_ke k) = 0" "ke_counter (example_ke k) = 0"
  by (simp_all add: pair_txn_def single_txn_def TxnProto_new_def txn_entries_def example_ke_def)

lemma example_reads_here [simp]:
  "reads_here (example_config n) txn mode (example_ke k)
     \<longleftrightarrow> LookupPartition (example_config n) k = n mod 2 \<and> (mode = 0 \<or> tx_origin_replica txn = 0)"
  by (auto simp: reads_here_def)

lemma example_same_replica [simp]:
  "same_replica (example_config n) (example_config n') \<longleftrightarrow> (ucast (n div 2) :: uint32) = ucast (n' div 2)"
  by (simp add: same_replica_def example_config_size)

lemma local_keys_filter: "local_keys c txn mode = ke_key ` set (filter (reads_here c txn mode) (txn_entries txn))"
  by (simp add: local_keys_def)

lemma example_defined:
  assumes "cc_relative_node_id c \<in> set (tx_readers txn)"
    and "\<forall>ke \<in> set (txn_entries txn). reads_here c txn mode ke \<longrightarrow> record_of sh (ke_key ke) \<noteq> None"
  obtains sm sent where "StorageManager u64 u32 cd c (fst sh) (snd sh) txn mode = Inr (sm, sent)"
  using assms(2) StorageManager_reader_iff [OF assms(1), of u64 u32 cd "fst sh" "snd sh" mode]
  by (simp add: Let_def)

definition pair_stores :: "uint64 \<Rightarrow> simple_storage \<times> rec_heap" where
  "pair_stores j = example_store (if j = 0 then ''0'' else ''1'') 0"

lemma StorageManager_exchange_witness:
  "\<exists>sm sent sm' h'. StorageManager 0 0 payload_codec (example_config 0) (fst (pair_stores 0)) (snd (pair_stores 0))
       pair_txn 0 = Inr (sm, sent)
    \<and> foldE (HandleReadResult payload_codec) (inbox payload_codec example_config pair_stores pair_txn 0 [1])
        (sm, snd (pair_stores 0)) = Inr (sm', h') \<and> ReadyToExecute sm'"
proof -
  have "replica_machines example_config pair_stores pair_txn 0"
    by (auto simp: replica_machines_def stores_hold_def pair_stores_def)
  then show ?thesis
    using StorageManager_exchange [of payload_codec pair_txn example_config pair_stores 0 "[1]" 0 0]
    by fastforce
qed

lemma pair_runs_on: "runs_on (example_config 0) pair_txn"
proof -
  have "{ke \<in> set (txn_entries pair_txn). ke_master ke = tx_origin_replica pair_txn} = {example_ke ''0'', example_ke ''1''}"
    by auto
  then show ?thesis by (simp add: runs_on_def)
qed

lemma pair_manager_run:
  "\<exists>sm h. manager_run payload_codec (example_config 0) (fst (pair_stores 0)) (snd (pair_stores 0)) pair_txn
     [[\<lparr>rr_key = ''1'', rr_value = ''v'', rr_master = 0, rr_counter = n\<rparr>]] sm h \<and> ReadyToExecute sm"
proof -
  let ?c = "example_config 0" and ?e = "\<lparr>rr_key = ''1'', rr_value = ''v'', rr_master = 0, rr_counter = n\<rparr>"
  have reader: "cc_relative_node_id ?c \<in> set (tx_readers pair_txn)" by simp
  obtain sm0 sent where S: "StorageManager 0 0 payload_codec ?c (fst (pair_stores 0)) (snd (pair_stores 0)) pair_txn 2 = Inr (sm0, sent)"
    by (rule example_defined [OF reader, of 2 "pair_stores 0" 0 0 payload_codec]) (auto simp: pair_stores_def)
  obtain sm h where F: "fold handle_entry [?e] (sm0, snd (pair_stores 0)) = (sm, h)"
    by (cases "fold handle_entry [?e] (sm0, snd (pair_stores 0))")
  have local: "local_keys ?c pair_txn 2 = {''0''}"
    by (simp add: local_keys_filter)
  note O = StorageManager_objects [OF S reader]
  note P = fold_handle_entry_objects [OF F O(1)]
  have txn: "sm_txn sm = pair_txn"
    using fold_handle_entry_fields [OF F] StorageManager_fields(1) [OF S reader] by simp
  have "ReadyToExecute sm"
    using ReadyToExecute_iff [of h sm] P O(2) local by (auto simp: txn)
  moreover have "manager_run payload_codec ?c (fst (pair_stores 0)) (snd (pair_stores 0)) pair_txn [[?e]] sm h"
    unfolding manager_run_def
  proof (intro exI conjI)
    show "StorageManager 0 0 payload_codec ?c (fst (pair_stores 0)) (snd (pair_stores 0)) pair_txn 2 = Inr (sm0, sent)"
      by (fact S)
    show "foldE (HandleReadResult payload_codec) (map (\<lambda>es. MessageProto_new\<lparr>msg_type := READ_RESULT,
        msg_data := [enc_results payload_codec es]\<rparr>) [[?e]]) (sm0, snd (pair_stores 0)) = Inr (sm, h)"
      using F by (simp add: HandleReadResult_results [of _ "[?e]"] results_message_def)
    show "\<forall>es \<in> set [[?e]]. rr_key ` set es \<subseteq> ke_key ` set (txn_entries pair_txn) - local_keys ?c pair_txn 2"
      by (simp add: local)
  qed
  ultimately show ?thesis by blast
qed

lemma decide_commits_iff_current_witness:
  "\<exists>sm h ok. decide h sm = Inr (ok, if ok then sm else sm\<lparr>sm_txn := pair_txn\<lparr>tx_status := ABORTED\<rparr>\<rparr>)
     \<and> ReadyToExecute (sm :: payload storage_manager)"
proof -
  obtain sm h where run: "manager_run payload_codec (example_config 0) (fst (pair_stores 0)) (snd (pair_stores 0)) pair_txn
     [[\<lparr>rr_key = ''1'', rr_value = ''v'', rr_master = 0, rr_counter = 0\<rparr>]] sm h" and ready: "ReadyToExecute sm"
    using pair_manager_run by blast
  show ?thesis
    using decide_commits_iff_current [OF payload_codec_ok pair_runs_on _ run ready] ready
    by (intro exI [of _ sm] exI [of _ h]) (simp add: Let_def)
qed

text \<open>The manager of a transaction whose only key has a newer counter.\<close>

lemma single_manager:
  "\<exists>sm sent. StorageManager 0 0 payload_codec (example_config 0) (fst (example_store ''0'' 7)) (snd (example_store ''0'' 7))
      single_txn 2 = Inr (sm, sent) \<and> regenerates sm \<and> \<not> sm_local_commit sm \<and> sm_txn sm = single_txn
      \<and> (\<exists>r. object_at (snd (example_store ''0'' 7)) sm ''0'' = Inr r)"
proof -
  let ?c = "example_config 0" and ?sh = "example_store ''0'' 7"
  have reader: "cc_relative_node_id ?c \<in> set (tx_readers single_txn)" by simp
  obtain sm sent where S: "StorageManager 0 0 payload_codec ?c (fst ?sh) (snd ?sh) single_txn 2 = Inr (sm, sent)"
    by (rule example_defined [OF reader, of 2 ?sh 0 0 payload_codec]) auto
  have "sm_involved_machines sm = [(0, 0)]"
    using involved_machines_set(1) [OF S reader] by (simp add: involved_of_def)
  then have "regenerates sm"
    using StorageManager_fields(3,4,5,9,10) [OF S reader]
    by (simp add: regenerates_def min_machine_def min_machine_step_def INT_MAX_def)
  moreover have "\<not> sm_local_commit sm"
    using StorageManager_fields(7) [OF S reader] by (simp add: current_def Record_new_counter_def)
  moreover have "\<exists>r. object_at (snd ?sh) sm ''0'' = Inr r"
    using StorageManager_objects(3) [OF S reader, of "''0''"] by (simp add: local_keys_filter)
  ultimately show ?thesis using S StorageManager_fields(1) [OF S reader] by blast
qed

text \<open>
  A transaction on the key 0, mastered at replica 0, and the key 1, mastered at replica 1, as both replicas run
  it: the part of replica 1 is newly generated there and has other readers and writers.
\<close>

definition mr_part :: "uint32 \<Rightarrow> uint64 \<Rightarrow> bool \<Rightarrow> txn_proto" where
  "mr_part origin part generated = TxnProto_new\<lparr>tx_read_write_set := [example_ke ''0'', (example_ke ''1'')\<lparr>ke_master := 1\<rparr>],
     tx_origin_replica := origin, tx_readers := [part], tx_writers := [part], tx_new_generated := generated\<rparr>"

lemma mr_part_fields [simp]:
  "txn_entries (mr_part r p g) = [example_ke ''0'', (example_ke ''1'')\<lparr>ke_master := 1\<rparr>]" "tx_origin_replica (mr_part r p g) = r"
  "tx_readers (mr_part r p g) = [p]" "tx_read_write_set (mr_part r p g) = [example_ke ''0'', (example_ke ''1'')\<lparr>ke_master := 1\<rparr>]"
  "tx_read_set (mr_part r p g) = []"
  by (simp_all add: mr_part_def TxnProto_new_def txn_entries_def)

text \<open>The machine 0 runs the first part and is the one that submits again; the machine 3, of replica 1, runs the other.\<close>

lemma at_most_one_regenerates_witness:
  "\<exists>sm1 sent1 sm2 sent2.
     StorageManager 0 0 payload_codec (example_config 0) (fst (example_store ''0'' 7)) (snd (example_store ''0'' 7))
       (mr_part 0 0 False) 2 = Inr (sm1, sent1) \<and> regenerates sm1
     \<and> StorageManager 0 0 payload_codec (example_config 3) (fst (example_store ''1'' 0)) (snd (example_store ''1'' 0))
       (mr_part 1 1 True) 2 = Inr (sm2, sent2) \<and> \<not> regenerates sm2"
proof -
  have rel: "cc_relative_node_id (example_config 0) = 0" "cc_relative_node_id (example_config 3) = 1" by simp_all
  have reader: "cc_relative_node_id (example_config 0) \<in> set (tx_readers (mr_part 0 0 False))"
    "cc_relative_node_id (example_config 3) \<in> set (tx_readers (mr_part 1 1 True))" by (simp_all only: rel mr_part_fields list.set insertI1)
  obtain sm1 sent1 where S1: "StorageManager 0 0 payload_codec (example_config 0) (fst (example_store ''0'' 7)) (snd (example_store ''0'' 7))
      (mr_part 0 0 False) 2 = Inr (sm1, sent1)"
    by (rule example_defined [OF reader(1), of 2 "example_store ''0'' 7" 0 0 payload_codec]) (auto simp: reads_here_def)
  obtain sm2 sent2 where S2: "StorageManager 0 0 payload_codec (example_config 3) (fst (example_store ''1'' 0)) (snd (example_store ''1'' 0))
      (mr_part 1 1 True) 2 = Inr (sm2, sent2)"
    by (rule example_defined [OF reader(2), of 2 "example_store ''1'' 0" 0 0 payload_codec]) (auto simp: reads_here_def)
  have "sm_involved_machines sm1 = [(0, 0), (1, 1)]"
    using involved_machines_set(1) [OF S1 reader(1)]
    by (simp add: involved_of_def os_insert_def insort_insert_key_def less_eq_prod_def)
  then have "regenerates sm1"
    using StorageManager_fields(3,4,5,9,10) [OF S1 reader(1)]
    by (simp add: regenerates_def min_machine_def min_machine_step_def INT_MAX_def)
  moreover from this at_most_one_regenerates [OF S1 S2 _ _ reader] have "\<not> regenerates sm2"
    by (simp add: nodes_per_replica_def all_nodes_size_def example_config_def)
  ultimately show ?thesis using S1 S2 by blast
qed

lemma CheckCommitOrAbort_regenerates_witness:
  "\<exists>sm sm' m. CheckCommitOrAbort payload_codec 3 (snd (example_store ''0'' 7)) sm (example_config 0)
      = Inr (False, sm', snd (GetGUID (example_config 0)), [m]) \<and> msg_type m = TXN_FORWORD"
proof -
  obtain sm :: "payload storage_manager" where sm: "regenerates sm" "\<not> sm_local_commit sm" "sm_txn sm = single_txn"
    "\<exists>r. object_at (snd (example_store ''0'' 7)) sm ''0'' = Inr r"
    using single_manager by blast
  let ?sm = "sm\<lparr>sm_txn := single_txn\<lparr>tx_status := ABORTED\<rparr>\<rparr>"
  have "decide (snd (example_store ''0'' 7)) sm = Inr (False, ?sm)"
    using sm by (simp add: decide_def)
  moreover have "regenerates ?sm" using sm(1) by (simp add: regenerates_def)
  ultimately show ?thesis
    using CheckCommitOrAbort_regenerates [OF payload_codec_ok example_config_ok [of 0], of sm
        "snd (example_store ''0'' 7)" ?sm 3] sm(3,4)
    by fastforce
qed

definition reader_txn :: txn_proto where
  "reader_txn = TxnProto_new\<lparr>tx_read_set := [example_ke ''0''], tx_read_write_set := [example_ke ''1''], tx_readers := [0, 1]\<rparr>"

lemma reader_only_machine_waits_witness:
  "\<exists>sm sent. StorageManager 0 0 payload_codec (example_config 0) (fst (example_store ''0'' 0)) (snd (example_store ''0'' 0))
      reader_txn 0 = Inr (sm, sent) \<and> \<not> ReadyToExecute sm"
proof -
  have fields: "txn_entries reader_txn = [example_ke ''0'', example_ke ''1'']" "tx_readers reader_txn = [0, 1]"
    "tx_read_write_set reader_txn = [example_ke ''1'']"
    by (simp_all add: reader_txn_def TxnProto_new_def txn_entries_def)
  have reader: "cc_relative_node_id (example_config 0) \<in> set (tx_readers reader_txn)" by (simp add: fields)
  obtain sm sent where S: "StorageManager 0 0 payload_codec (example_config 0) (fst (example_store ''0'' 0))
      (snd (example_store ''0'' 0)) reader_txn 0 = Inr (sm, sent)"
    by (rule example_defined [OF reader, of 0 "example_store ''0'' 0" 0 0 payload_codec]) (auto simp: fields)
  then show ?thesis using reader_only_machine_waits [OF S reader, of "example_config 1" "pair_stores 1"]
    by (auto simp: fields)
qed

end
