(* ===== verification/Connection.thy ===== *)
theory Connection
  imports Cluster_Config Messages
begin

text \<open>
  \<open>machine/connection.cc\<close>: the multiplexer that every component of a machine sends and receives
  through. Its thread runs one iteration of \<open>Run\<close> after the other; the other threads only append to its
  queues of requests and take messages from the queues of their channels. A queue is an object that
  several channel names may share after \<open>LinkChannel\<close>, so a channel is a pointer into a list of queues,
  and a deleted queue is \<open>None\<close>. The contents of a queue are a list, which is what \<open>AtomicQueue\<close>
  implements. The sockets are parameters: a message goes out to a node as the bytes \<open>enc\<close> makes of it,
  and the bytes that arrive are read with \<open>dec\<close>.
\<close>

section \<open>State\<close>

type_synonym queue_ptr = nat

record 'b multiplexer =
  mx_config :: cluster_config
  mx_channels :: "(string, queue_ptr) atomic_map"            \<comment> \<open>\<open>channel_results_\<close>\<close>
  mx_queues :: "'b message_proto list option list"
  mx_link_unlink :: "'b message_proto list"
  mx_new_channel :: "string list"
  mx_delete_channel :: "string list"
  mx_send :: "'b message_proto list"
  mx_undelivered :: "string \<Rightarrow> 'b message_proto list"       \<comment> \<open>empty where absent\<close>
  mx_stopped :: bool                                          \<comment> \<open>\<open>Run\<close> has returned\<close>

text \<open>The port of the own machine is looked up, and undefined for a machine that is not there.\<close>

definition ConnectionMultiplexer_new :: "cluster_config \<Rightarrow> 'b multiplexer outcome" where
  "ConnectionMultiplexer_new c =
     require_defined (lookup_machine c (cc_local_node_id c) \<noteq> None)
       (Inr \<lparr>mx_config = c, mx_channels = [], mx_queues = [], mx_link_unlink = [], mx_new_channel = [],
             mx_delete_channel = [], mx_send = [], mx_undelivered = (\<lambda>_. []), mx_stopped = False\<rparr>)"

text \<open>\<open>remote_out_\<close> has a socket for every other machine.\<close>

definition remote_nodes :: "cluster_config \<Rightarrow> uint64 list" where
  "remote_nodes c = filter (\<lambda>n. n \<noteq> cc_local_node_id c) (map (\<lambda>m. get_or 0 (mi_id (snd m))) (cc_machines c))"

section \<open>Queues\<close>

definition queue_push :: "queue_ptr \<Rightarrow> 'b message_proto list \<Rightarrow> 'b multiplexer \<Rightarrow> 'b multiplexer outcome" where
  "queue_push q ms mx =
     (if q < length (mx_queues mx)
      then (case mx_queues mx ! q of
              None \<Rightarrow> Inl Undefined_behaviour
            | Some old \<Rightarrow> Inr (mx\<lparr>mx_queues := (mx_queues mx)[q := Some (old @ ms)]\<rparr>))
      else Inl Undefined_behaviour)"

definition queue_pop :: "queue_ptr \<Rightarrow> 'b multiplexer \<Rightarrow> ('b message_proto option \<times> 'b multiplexer) outcome" where
  "queue_pop q mx =
     (if q < length (mx_queues mx)
      then (case mx_queues mx ! q of
              None \<Rightarrow> Inl Undefined_behaviour
            | Some [] \<Rightarrow> Inr (None, mx)
            | Some (m # ms) \<Rightarrow> Inr (Some m, mx\<lparr>mx_queues := (mx_queues mx)[q := Some ms]\<rparr>))
      else Inl Undefined_behaviour)"

section \<open>The calls of the other threads\<close>

text \<open>\<open>NewChannel\<close> and \<open>DeleteChannel\<close> then wait until the channel is there, or is gone.\<close>

definition NewChannel :: "string \<Rightarrow> 'b multiplexer \<Rightarrow> 'b multiplexer" where
  "NewChannel channel mx = mx\<lparr>mx_new_channel := mx_new_channel mx @ [channel]\<rparr>"

definition DeleteChannel :: "string \<Rightarrow> 'b multiplexer \<Rightarrow> 'b multiplexer" where
  "DeleteChannel channel mx = mx\<lparr>mx_delete_channel := mx_delete_channel mx @ [channel]\<rparr>"

definition channel_exists :: "string \<Rightarrow> 'b multiplexer \<Rightarrow> bool" where
  "channel_exists channel mx \<longleftrightarrow> 0 < AtomicMap_Count channel (mx_channels mx)"

definition GotMessage :: "string \<Rightarrow> 'b multiplexer \<Rightarrow> ('b message_proto option \<times> 'b multiplexer) outcome" where
  "GotMessage channel mx =
     CHECK (channel_exists channel mx)
       (bindE (AtomicMap_Lookup channel (mx_channels mx)) (\<lambda>q. queue_pop q mx))"

definition Send :: "'b message_proto \<Rightarrow> 'b multiplexer \<Rightarrow> 'b multiplexer" where
  "Send message mx = mx\<lparr>mx_send := mx_send mx @ [message]\<rparr>"

definition LinkChannel :: "string \<Rightarrow> string \<Rightarrow> 'b multiplexer \<Rightarrow> 'b multiplexer" where
  "LinkChannel channel main_channel mx = mx\<lparr>mx_link_unlink := mx_link_unlink mx @ [MessageProto_new
     \<lparr>msg_type := LINK_CHANNEL, msg_channel_request := channel, msg_main_channel := main_channel\<rparr>]\<rparr>"

definition UnlinkChannel :: "string \<Rightarrow> 'b multiplexer \<Rightarrow> 'b multiplexer" where
  "UnlinkChannel channel mx = mx\<lparr>mx_link_unlink := mx_link_unlink mx @ [MessageProto_new
     \<lparr>msg_type := UNLINK_CHANNEL, msg_channel_request := channel\<rparr>]\<rparr>"

section \<open>One iteration of the main loop\<close>

text \<open>All requests for a new channel; a name that is taken ends the thread.\<close>

definition create_channel :: "string \<Rightarrow> 'b multiplexer \<Rightarrow> 'b multiplexer" where
  "create_channel channel mx = mx
     \<lparr>mx_queues := mx_queues mx @ [Some (mx_undelivered mx channel)],
      mx_undelivered := (mx_undelivered mx)(channel := []),
      mx_channels := AtomicMap_Put channel (length (mx_queues mx)) (mx_channels mx)\<rparr>"

fun create_channels :: "string list \<Rightarrow> 'b multiplexer \<Rightarrow> 'b multiplexer" where
  "create_channels [] mx = mx\<lparr>mx_new_channel := []\<rparr>"
| "create_channels (channel # channels) mx =
     (if channel_exists channel mx then mx\<lparr>mx_new_channel := channels, mx_stopped := True\<rparr>
      else create_channels channels (create_channel channel mx))"

text \<open>One request to delete a channel: the queue is deleted, whoever else is linked to it.\<close>

definition delete_channel :: "'b multiplexer \<Rightarrow> 'b multiplexer outcome" where
  "delete_channel mx =
     (case mx_delete_channel mx of
        [] \<Rightarrow> Inr mx
      | channel # channels \<Rightarrow>
          let mx' = mx\<lparr>mx_delete_channel := channels\<rparr>
          in if channel_exists channel mx'
             then bindE (AtomicMap_Lookup channel (mx_channels mx')) (\<lambda>q.
                    require_defined (q < length (mx_queues mx') \<and> mx_queues mx' ! q \<noteq> None)
                      (Inr (mx'\<lparr>mx_queues := (mx_queues mx')[q := None],
                                mx_channels := AtomicMap_Erase channel (mx_channels mx')\<rparr>)))
             else Inr mx')"

definition deliver :: "'b message_proto \<Rightarrow> 'b multiplexer \<Rightarrow> 'b multiplexer outcome" where
  "deliver message mx =
     (let channel = msg_destination_channel message
      in if channel_exists channel mx
         then bindE (AtomicMap_Lookup channel (mx_channels mx)) (\<lambda>q. queue_push q [message] mx)
         else Inr (mx\<lparr>mx_undelivered := (mx_undelivered mx)(channel := mx_undelivered mx channel @ [message])\<rparr>))"

definition receive_remote :: "('w \<Rightarrow> 'b message_proto) \<Rightarrow> 'w option \<Rightarrow> 'b multiplexer \<Rightarrow> 'b multiplexer outcome" where
  "receive_remote dec arrived mx = (case arrived of None \<Rightarrow> Inr mx | Some bytes \<Rightarrow> deliver (dec bytes) mx)"

text \<open>One message to send: to a local channel, or out to its node.\<close>

definition send_message ::
  "('b message_proto \<Rightarrow> 'w) \<Rightarrow> 'b multiplexer \<Rightarrow> ('b multiplexer \<times> (uint64 \<times> 'w) list) outcome" where
  "send_message enc mx =
     (case mx_send mx of
        [] \<Rightarrow> Inr (mx, [])
      | message # messages \<Rightarrow>
          let mx' = mx\<lparr>mx_send := messages\<rparr>
          in if msg_destination_node message = cc_local_node_id (mx_config mx)
             then bindE (deliver message mx') (\<lambda>mx''. Inr (mx'', []))
             else require_defined (msg_destination_node message \<in> set (remote_nodes (mx_config mx)))
                    (Inr (mx', [(msg_destination_node message, enc message)])))"

definition link_unlink :: "'b multiplexer \<Rightarrow> 'b multiplexer outcome" where
  "link_unlink mx =
     (case mx_link_unlink mx of
        [] \<Rightarrow> Inr mx
      | message # messages \<Rightarrow>
          let mx' = mx\<lparr>mx_link_unlink := messages\<rparr>; channel = msg_channel_request message
          in if msg_type message = LINK_CHANNEL
             then bindE (AtomicMap_Lookup (msg_main_channel message) (mx_channels mx')) (\<lambda>main_queue.
                  bindE (queue_push main_queue (mx_undelivered mx' channel)
                          (mx'\<lparr>mx_channels := AtomicMap_Put channel main_queue (mx_channels mx')\<rparr>)) (\<lambda>mx''.
                  Inr (mx''\<lparr>mx_undelivered := (mx_undelivered mx'')(channel := [])\<rparr>)))
             else if msg_type message = UNLINK_CHANNEL
             then Inr (mx'\<lparr>mx_channels := AtomicMap_Erase channel (mx_channels mx')\<rparr>)
             else Inr mx')"

definition Run_iteration ::
  "('w \<Rightarrow> 'b message_proto) \<Rightarrow> ('b message_proto \<Rightarrow> 'w) \<Rightarrow> 'w option \<Rightarrow> 'b multiplexer
    \<Rightarrow> ('b multiplexer \<times> (uint64 \<times> 'w) list) outcome" where
  "Run_iteration dec enc arrived mx =
     (if mx_stopped mx then Inr (mx, [])
      else let mx1 = create_channels (mx_new_channel mx) mx
           in if mx_stopped mx1 then Inr (mx1, [])
              else bindE (delete_channel mx1) (\<lambda>mx2.
                   bindE (receive_remote dec arrived mx2) (\<lambda>mx3.
                   bindE (send_message enc mx3) (\<lambda>(mx4, out).
                   bindE (link_unlink mx4) (\<lambda>mx5. Inr (mx5, out))))))"

section \<open>Runs\<close>

text \<open>
  What the other threads may ask for. A run is about one channel \<open>c\<close> that is either created or linked to
  the main channel \<open>main\<close>, as a scheduler links the channel of a transaction to that of a worker; \<open>D\<close>
  are the names that may be deleted, which are linked to nothing, as the channels of the start-up
  synchronisation.
\<close>

datatype 'b request = New string | Delete string | Link string string | Unlink string | Message "'b message_proto"

fun make_request :: "'b request \<Rightarrow> 'b multiplexer \<Rightarrow> 'b multiplexer" where
  "make_request (New a) mx = NewChannel a mx"
| "make_request (Delete a) mx = DeleteChannel a mx"
| "make_request (Link a b) mx = LinkChannel a b mx"
| "make_request (Unlink a) mx = UnlinkChannel a mx"
| "make_request (Message m) mx = Send m mx"

fun allowed :: "string \<Rightarrow> string \<Rightarrow> string set \<Rightarrow> 'b request \<Rightarrow> bool" where
  "allowed c main D (New a) \<longleftrightarrow> a = c \<longrightarrow> c = main"
| "allowed c main D (Delete a) \<longleftrightarrow> a \<in> D"
| "allowed c main D (Link a b) \<longleftrightarrow> a \<notin> D \<and> b \<notin> D \<and> a \<noteq> main \<and> (a = c \<longrightarrow> b = main)"
| "allowed c main D (Unlink a) \<longleftrightarrow> a \<noteq> main"
| "allowed c main D (Message m) \<longleftrightarrow> True"

text \<open>What an iteration hands to local channels: the message that arrived, then the one it sends.\<close>

definition handled :: "('w \<Rightarrow> 'b message_proto) \<Rightarrow> 'w option \<Rightarrow> 'b multiplexer \<Rightarrow> 'b message_proto list" where
  "handled dec arrived mx =
     (if mx_stopped mx \<or> mx_stopped (create_channels (mx_new_channel mx) mx) then []
      else (case arrived of None \<Rightarrow> [] | Some bytes \<Rightarrow> [dec bytes])
         @ (case mx_send mx of [] \<Rightarrow> []
            | m # _ \<Rightarrow> if msg_destination_node m = cc_local_node_id (mx_config mx) then [m] else []))"

text \<open>A run, with all messages handed to local channels and all taken from the queue of \<open>main\<close>.\<close>

inductive mux_run ::
  "('w \<Rightarrow> 'b message_proto) \<Rightarrow> ('b message_proto \<Rightarrow> 'w) \<Rightarrow> string \<Rightarrow> string \<Rightarrow> string set
    \<Rightarrow> 'b multiplexer \<Rightarrow> 'b message_proto list \<Rightarrow> 'b message_proto list \<Rightarrow> bool"
  for dec enc c main D
where
  start: "ConnectionMultiplexer_new conf = Inr mx \<Longrightarrow> mux_run dec enc c main D mx [] []"
| request: "mux_run dec enc c main D mx hs ps \<Longrightarrow> allowed c main D r \<Longrightarrow> mux_run dec enc c main D (make_request r mx) hs ps"
| got: "mux_run dec enc c main D mx hs ps \<Longrightarrow> GotMessage ch mx = Inr (Some m, mx') \<Longrightarrow>
    mux_run dec enc c main D mx' hs
      (if map_of (mx_channels mx) ch = map_of (mx_channels mx) main then ps @ [m] else ps)"
| iteration: "mux_run dec enc c main D mx hs ps \<Longrightarrow> Run_iteration dec enc arrived mx = Inr (mx', out) \<Longrightarrow>
    mux_run dec enc c main D mx' (hs @ handled dec arrived mx) ps"

definition for_channel :: "string \<Rightarrow> 'b message_proto list \<Rightarrow> 'b message_proto list" where
  "for_channel c ms = filter (\<lambda>m. msg_destination_channel m = c) ms"

text \<open>The queue of a channel.\<close>

definition channel_queue :: "string \<Rightarrow> 'b multiplexer \<Rightarrow> 'b message_proto list" where
  "channel_queue a mx =
     (case map_of (mx_channels mx) a of None \<Rightarrow> []
      | Some q \<Rightarrow> if q < length (mx_queues mx) then get_or [] (mx_queues mx ! q) else [])"

section \<open>The invariant of a run\<close>

definition mux_requests_ok :: "string \<Rightarrow> string \<Rightarrow> string set \<Rightarrow> 'b multiplexer \<Rightarrow> bool" where
  "mux_requests_ok c main D mx \<longleftrightarrow>
     (\<forall>a \<in> set (mx_new_channel mx). a = c \<longrightarrow> c = main) \<and> set (mx_delete_channel mx) \<subseteq> D
     \<and> (\<forall>m \<in> set (mx_link_unlink mx). let a = msg_channel_request m; b = msg_main_channel m in
          a \<noteq> main \<and> (msg_type m = LINK_CHANNEL \<longrightarrow> a \<notin> D \<and> b \<notin> D \<and> (a = c \<longrightarrow> b = main)))"

definition mux_channels_ok :: "string \<Rightarrow> string \<Rightarrow> string set \<Rightarrow> 'b multiplexer \<Rightarrow> bool" where
  "mux_channels_ok c main D mx \<longleftrightarrow>
     (\<forall>a p. map_of (mx_channels mx) a = Some p \<longrightarrow> p < length (mx_queues mx) \<and> mx_queues mx ! p \<noteq> None)
     \<and> (\<forall>a b p. map_of (mx_channels mx) a = Some p \<longrightarrow> map_of (mx_channels mx) b = Some p \<longrightarrow> a \<in> D \<longrightarrow> b = a)
     \<and> (map_of (mx_channels mx) c \<in> {None, map_of (mx_channels mx) main})"

definition mux_messages_ok :: "string \<Rightarrow> string \<Rightarrow> 'b multiplexer \<Rightarrow> 'b message_proto list \<Rightarrow> 'b message_proto list \<Rightarrow> bool" where
  "mux_messages_ok c main mx hs ps \<longleftrightarrow>
     (\<forall>a. \<forall>m \<in> set (mx_undelivered mx a). msg_destination_channel m = a)
     \<and> (map_of (mx_channels mx) c \<noteq> None \<longrightarrow> mx_undelivered mx c = [])
     \<and> for_channel c hs = for_channel c ps @ for_channel c (channel_queue main mx) @ mx_undelivered mx c"

definition mux_inv :: "string \<Rightarrow> string \<Rightarrow> string set \<Rightarrow> 'b multiplexer \<Rightarrow> 'b message_proto list \<Rightarrow> 'b message_proto list \<Rightarrow> bool" where
  "mux_inv c main D mx hs ps \<longleftrightarrow>
     mux_requests_ok c main D mx \<and> mux_channels_ok c main D mx \<and> mux_messages_ok c main mx hs ps"

lemma for_channel_simps [simp]:
  "for_channel c [] = []"
  "for_channel c (m # ms) = (if msg_destination_channel m = c then m # for_channel c ms else for_channel c ms)"
  "for_channel c (ms @ ns) = for_channel c ms @ for_channel c ns"
  by (simp_all add: for_channel_def)

lemma for_channel_same: "\<forall>m \<in> set ms. msg_destination_channel m = a \<Longrightarrow> for_channel c ms = (if a = c then ms else [])"
  by (induction ms) auto

lemma channel_exists_iff [simp]: "channel_exists a mx \<longleftrightarrow> map_of (mx_channels mx) a \<noteq> None"
  by (simp add: channel_exists_def AtomicMap_Count_def)

lemma AtomicMap_Lookup_iff [simp]: "AtomicMap_Lookup a m = Inr q \<longleftrightarrow> map_of m a = Some q"
  by (auto simp: AtomicMap_Lookup_def split: option.splits)

section \<open>Every stage keeps the invariant\<close>

lemma queue_push_iff: "queue_push q ms mx = Inr mx' \<longleftrightarrow>
    (\<exists>old. q < length (mx_queues mx) \<and> mx_queues mx ! q = Some old \<and> mx' = mx\<lparr>mx_queues := (mx_queues mx)[q := Some (old @ ms)]\<rparr>)"
  by (auto simp: queue_push_def split: option.splits)

lemma queue_pop_iff: "queue_pop q mx = Inr (Some m, mx') \<longleftrightarrow>
    (\<exists>ms. q < length (mx_queues mx) \<and> mx_queues mx ! q = Some (m # ms) \<and> mx' = mx\<lparr>mx_queues := (mx_queues mx)[q := Some ms]\<rparr>)"
  by (auto simp: queue_pop_def split: option.splits list.splits)

text \<open>Appending to a live queue keeps the channels; it is seen by every name that shares the queue.\<close>

lemma mux_channels_update:
  assumes "mux_channels_ok c main D mx"
  shows "mux_channels_ok c main D (mx\<lparr>mx_queues := (mx_queues mx)[q := Some ms]\<rparr>)"
proof -
  have "(mx_queues mx)[q := Some ms] ! p \<noteq> None" if "p < length (mx_queues mx)" "mx_queues mx ! p \<noteq> None" for p
    using that by (cases "p = q") simp_all
  with assms show ?thesis unfolding mux_channels_ok_def by simp
qed

lemma channel_queue_update:
  "q < length (mx_queues mx) \<Longrightarrow> channel_queue a (mx\<lparr>mx_queues := (mx_queues mx)[q := Some ms]\<rparr>)
     = (if map_of (mx_channels mx) a = Some q then ms else channel_queue a mx)"
  by (auto simp: channel_queue_def get_or_def split: option.splits)

lemma channel_queue_cong:
  "map_of (mx_channels mx') a = map_of (mx_channels mx) a \<Longrightarrow> mx_queues mx' = mx_queues mx
    \<Longrightarrow> channel_queue a mx' = channel_queue a mx"
  unfolding channel_queue_def by (simp only:)

text \<open>The requests are no part of what the messages and the channels are.\<close>

lemma mux_inv_cong:
  assumes "mux_inv c main D mx hs ps" and "mux_requests_ok c main D mx'"
    and "mx_channels mx' = mx_channels mx" "mx_queues mx' = mx_queues mx" "mx_undelivered mx' = mx_undelivered mx"
  shows "mux_inv c main D mx' hs ps"
proof -
  have "channel_queue main mx' = channel_queue main mx" by (rule channel_queue_cong) (simp_all add: assms)
  with assms show ?thesis unfolding mux_inv_def mux_channels_ok_def mux_messages_ok_def by simp
qed

lemma mux_channels_create:
  assumes ok: "mux_channels_ok c main D mx" and new: "map_of (mx_channels mx) a = None" and a: "a = c \<longrightarrow> c = main"
  shows "mux_channels_ok c main D (create_channel a mx)"
proof -
  let ?n = "length (mx_queues mx)" and ?mx = "create_channel a mx"
  have ch: "map_of (mx_channels ?mx) = (map_of (mx_channels mx))(a \<mapsto> ?n)"
    by (simp add: create_channel_def am_lookup)
  have qs: "mx_queues ?mx = mx_queues mx @ [Some (mx_undelivered mx a)]" by (simp add: create_channel_def)
  have old: "p < ?n \<and> mx_queues mx ! p \<noteq> None" if "map_of (mx_channels mx) b = Some p" for b p
    using ok that unfolding mux_channels_ok_def by blast
  then have fresh: "map_of (mx_channels mx) z \<noteq> Some ?n" for z by blast
  have "p < length (mx_queues ?mx) \<and> mx_queues ?mx ! p \<noteq> None" if "map_of (mx_channels ?mx) b = Some p" for b p
    using that old [of b p] by (auto simp: ch qs nth_append split: if_splits)
  moreover have "y = x" if "map_of (mx_channels ?mx) x = Some p" "map_of (mx_channels ?mx) y = Some p" "x \<in> D" for x y p
    using that ok fresh unfolding ch mux_channels_ok_def by (auto split: if_splits)
  moreover have "map_of (mx_channels ?mx) c \<in> {None, map_of (mx_channels ?mx) main}"
    using ok new a by (auto simp: ch mux_channels_ok_def)
  ultimately show ?thesis unfolding mux_channels_ok_def by blast
qed

lemma mux_messages_create:
  assumes ok: "mux_channels_ok c main D mx" and ms: "mux_messages_ok c main mx hs ps"
    and new: "map_of (mx_channels mx) a = None" and a: "a = c \<longrightarrow> c = main"
  shows "mux_messages_ok c main (create_channel a mx) hs ps"
proof -
  let ?mx = "create_channel a mx"
  have old: "p < length (mx_queues mx)" if "map_of (mx_channels mx) b = Some p" for b p
    using ok that unfolding mux_channels_ok_def by blast
  have m: "\<forall>m \<in> set (mx_undelivered mx b). msg_destination_channel m = b" for b
    using ms by (simp add: mux_messages_ok_def)
  have ch: "map_of (mx_channels ?mx) b = (if b = a then Some (length (mx_queues mx)) else map_of (mx_channels mx) b)" for b
    by (simp add: create_channel_def am_lookup)
  have qs: "mx_queues ?mx = mx_queues mx @ [Some (mx_undelivered mx a)]" by (simp add: create_channel_def)
  have un: "mx_undelivered ?mx = (mx_undelivered mx)(a := [])" by (simp add: create_channel_def)
  have q: "channel_queue b ?mx = (if b = a then mx_undelivered mx a else channel_queue b mx)" for b
    using old [of b] by (auto simp: channel_queue_def ch qs nth_append get_or_def split: option.split)
  have "channel_queue a mx = []" by (simp add: channel_queue_def new)
  with ms m a new for_channel_same [OF m] show ?thesis
    unfolding mux_messages_ok_def by (auto simp: q ch un)
qed

lemma mux_inv_create:
  assumes "mux_inv c main D mx hs ps" "map_of (mx_channels mx) a = None" "a = c \<longrightarrow> c = main"
  shows "mux_inv c main D (create_channel a mx) hs ps"
proof -
  have "mux_requests_ok c main D (create_channel a mx)"
    using assms(1) by (simp add: mux_inv_def mux_requests_ok_def create_channel_def)
  with assms mux_channels_create [OF _ assms(2,3)] mux_messages_create [OF _ _ assms(2,3)] show ?thesis
    unfolding mux_inv_def by blast
qed

lemma mux_inv_create_channels:
  "mux_inv c main D mx hs ps \<Longrightarrow> \<forall>a \<in> set as. a = c \<longrightarrow> c = main \<Longrightarrow> mux_inv c main D (create_channels as mx) hs ps"
proof (induction "as" mx rule: create_channels.induct)
  case (1 mx)
  have "mux_requests_ok c main D (mx\<lparr>mx_new_channel := []\<rparr>)" using 1 by (simp add: mux_inv_def mux_requests_ok_def)
  with 1(1) show ?case by (simp add: mux_inv_cong)
next
  case (2 a "as" mx)
  have "mux_requests_ok c main D (mx\<lparr>mx_new_channel := as, mx_stopped := True\<rparr>)"
    using 2(2,3) by (simp add: mux_inv_def mux_requests_ok_def)
  then have "mux_inv c main D (mx\<lparr>mx_new_channel := as, mx_stopped := True\<rparr>) hs ps"
    by (rule mux_inv_cong [OF 2(2)]) simp_all
  with 2 mux_inv_create [OF 2(2), of a] show ?case by simp
qed

lemma mux_inv_deliver:
  assumes inv: "mux_inv c main D mx hs ps" and d: "deliver m mx = Inr mx'"
  shows "mux_inv c main D mx' (hs @ [m]) ps"
proof (cases "map_of (mx_channels mx) (msg_destination_channel m)")
  case None
  with d have mx': "mx' = mx\<lparr>mx_undelivered := (mx_undelivered mx)(msg_destination_channel m :=
      mx_undelivered mx (msg_destination_channel m) @ [m])\<rparr>" by (simp add: deliver_def Let_def)
  have "channel_queue main mx' = channel_queue main mx" by (rule channel_queue_cong) (simp_all add: mx')
  with inv None show ?thesis
    unfolding mux_inv_def mux_requests_ok_def mux_channels_ok_def mux_messages_ok_def by (auto simp: mx')
next
  case (Some q)
  with d obtain old where q: "q < length (mx_queues mx)" "mx_queues mx ! q = Some old"
    and mx': "mx' = mx\<lparr>mx_queues := (mx_queues mx)[q := Some (old @ [m])]\<rparr>"
    by (auto simp: deliver_def AtomicMap_Lookup_def queue_push_iff)
  have cm: "map_of (mx_channels mx) c \<in> {None, map_of (mx_channels mx) main}"
    and ms: "mux_messages_ok c main mx hs ps"
    using inv by (auto simp: mux_inv_def mux_channels_ok_def)
  have main: "channel_queue main mx' = (if map_of (mx_channels mx) main = Some q then old @ [m] else channel_queue main mx)"
    "map_of (mx_channels mx) main = Some q \<Longrightarrow> channel_queue main mx = old"
    using q by (simp_all add: mx' channel_queue_update) (simp add: channel_queue_def get_or_def)
  have "mux_messages_ok c main mx' (hs @ [m]) ps"
    using ms cm Some main unfolding mux_messages_ok_def by (auto simp: mx')
  moreover have "mux_channels_ok c main D mx'" unfolding mx' by (rule mux_channels_update) (use inv in \<open>simp add: mux_inv_def\<close>)
  moreover have "mux_requests_ok c main D mx'" using inv by (simp add: mx' mux_inv_def mux_requests_ok_def)
  ultimately show ?thesis by (simp add: mux_inv_def)
qed

text \<open>Deleting the queue of a channel that nothing is linked to leaves the other channels alone.\<close>

lemma mux_channels_erase:
  assumes ok: "mux_channels_ok c main D mx" and a: "a \<in> D" "map_of (mx_channels mx) a = Some q" and cm: "c \<notin> D" "main \<notin> D"
    and mx': "mx_channels mx' = AtomicMap_Erase a (mx_channels mx)" "mx_queues mx' = (mx_queues mx)[q := None]"
  shows "mux_channels_ok c main D mx'" and "channel_queue main mx' = channel_queue main mx"
proof -
  have own: "b = a" if "map_of (mx_channels mx) b = Some q" for b
    using ok a that unfolding mux_channels_ok_def by blast
  have ch: "map_of (mx_channels mx') b = (if b = a then None else map_of (mx_channels mx) b)" for b
    by (simp add: mx' am_lookup)
  have qs: "p \<noteq> q \<Longrightarrow> mx_queues mx' ! p = mx_queues mx ! p" "length (mx_queues mx') = length (mx_queues mx)" for p
    by (simp_all add: mx')
  have ne: "main \<noteq> a" "c \<noteq> a" using cm a(1) by auto
  show "channel_queue main mx' = channel_queue main mx"
  proof (cases "map_of (mx_channels mx) main")
    case (Some p)
    with own [of main] ne(1) have "p \<noteq> q" by auto
    with Some ne(1) show ?thesis by (simp add: channel_queue_def ch qs)
  qed (simp add: channel_queue_def ch)
  have "p < length (mx_queues mx') \<and> mx_queues mx' ! p \<noteq> None" if "map_of (mx_channels mx') b = Some p" for b p
  proof -
    have b: "b \<noteq> a" "map_of (mx_channels mx) b = Some p" using that by (auto simp: ch split: if_splits)
    then have "p \<noteq> q" using own by blast
    moreover have "p < length (mx_queues mx) \<and> mx_queues mx ! p \<noteq> None" using ok b(2) unfolding mux_channels_ok_def by blast
    ultimately show ?thesis by (simp add: qs)
  qed
  moreover have "y = x" if "map_of (mx_channels mx') x = Some p" "map_of (mx_channels mx') y = Some p" "x \<in> D" for x y p
    using that ok unfolding mux_channels_ok_def ch by (auto split: if_splits)
  moreover have "map_of (mx_channels mx') c \<in> {None, map_of (mx_channels mx') main}"
    using ok ne by (simp add: mux_channels_ok_def ch)
  ultimately show "mux_channels_ok c main D mx'" unfolding mux_channels_ok_def by blast
qed

lemma mux_inv_delete_channel:
  assumes inv: "mux_inv c main D mx hs ps" and d: "delete_channel mx = Inr mx'" and cm: "c \<notin> D" "main \<notin> D"
  shows "mux_inv c main D mx' hs ps"
proof (cases "mx_delete_channel mx")
  case Nil
  with inv d show ?thesis by (simp add: delete_channel_def)
next
  case (Cons a as)
  then have a: "a \<in> D" and rq: "mux_requests_ok c main D (mx\<lparr>mx_delete_channel := as\<rparr>)"
    using inv by (auto simp: mux_inv_def mux_requests_ok_def)
  show ?thesis
  proof (cases "map_of (mx_channels mx) a")
    case None
    with d Cons have "mx' = mx\<lparr>mx_delete_channel := as\<rparr>" by (simp add: delete_channel_def)
    with rq show ?thesis by (simp add: mux_inv_cong [OF inv])
  next
    case (Some q)
    with d Cons have mx': "mx' = mx\<lparr>mx_delete_channel := as, mx_queues := (mx_queues mx)[q := None],
        mx_channels := AtomicMap_Erase a (mx_channels mx)\<rparr>"
      by (simp add: delete_channel_def AtomicMap_Lookup_def require_defined_def split: if_splits)
    have "mux_channels_ok c main D mx" using inv by (simp add: mux_inv_def)
    from mux_channels_erase [OF this a Some cm, of mx'] have ok: "mux_channels_ok c main D mx'" "channel_queue main mx' = channel_queue main mx"
      by (simp_all add: mx')
    have ch: "map_of (mx_channels mx') b = (if b = a then None else map_of (mx_channels mx) b)" for b
      by (simp add: mx' am_lookup)
    show ?thesis
      using ok inv rq cm a unfolding mux_inv_def mux_messages_ok_def mux_requests_ok_def by (auto simp: ch) (auto simp: mx')
  qed
qed

lemma mux_inv_send_message:
  assumes inv: "mux_inv c main D mx hs ps" and d: "send_message enc mx = Inr (mx', out)"
  shows "mux_inv c main D mx' (hs @ (case mx_send mx of [] \<Rightarrow> []
      | m # _ \<Rightarrow> if msg_destination_node m = cc_local_node_id (mx_config mx) then [m] else [])) ps"
proof (cases "mx_send mx")
  case (Cons m ms)
  have "mux_requests_ok c main D (mx\<lparr>mx_send := ms\<rparr>)" using inv by (simp add: mux_inv_def mux_requests_ok_def)
  then have "mux_inv c main D (mx\<lparr>mx_send := ms\<rparr>) hs ps" by (rule mux_inv_cong [OF inv]) simp_all
  with Cons d mux_inv_deliver [OF this] show ?thesis
    by (auto simp: send_message_def Let_def require_defined_def outcome_simps split: if_splits)
qed (use inv d in \<open>simp add: send_message_def\<close>)

lemma mux_inv_unlink:
  assumes inv: "mux_inv c main D mx hs ps" and a: "a \<noteq> main"
  shows "mux_inv c main D (mx\<lparr>mx_channels := AtomicMap_Erase a (mx_channels mx)\<rparr>) hs ps"
proof -
  let ?mx = "mx\<lparr>mx_channels := AtomicMap_Erase a (mx_channels mx)\<rparr>"
  have "channel_queue main ?mx = channel_queue main mx"
    by (rule channel_queue_cong) (use a in \<open>auto simp: am_lookup\<close>)
  moreover have "mux_channels_ok c main D ?mx"
    using inv a unfolding mux_inv_def mux_channels_ok_def by (auto simp: am_lookup)
  ultimately show ?thesis
    using inv unfolding mux_inv_def mux_requests_ok_def mux_messages_ok_def by (auto simp: am_lookup)
qed

lemma mux_channels_link:
  assumes ok: "mux_channels_ok c main D mx" and b: "map_of (mx_channels mx) b = Some q"
    and ab: "a \<notin> D" "b \<notin> D" "a \<noteq> main" "a = c \<longrightarrow> b = main"
  shows "mux_channels_ok c main D (mx\<lparr>mx_channels := AtomicMap_Put a q (mx_channels mx)\<rparr>)"
proof -
  let ?mx = "mx\<lparr>mx_channels := AtomicMap_Put a q (mx_channels mx)\<rparr>"
  have "y = x" if "map_of (mx_channels ?mx) x = Some p" "map_of (mx_channels ?mx) y = Some p" "x \<in> D" for x y p
  proof -
    have own: "v = u" if "map_of (mx_channels mx) u = Some p" "map_of (mx_channels mx) v = Some p" "u \<in> D" for u v
      using that ok unfolding mux_channels_ok_def by blast
    show ?thesis using that ab b own [of x y] own [of x b] by (auto simp: am_lookup split: if_splits)
  qed
  moreover have "map_of (mx_channels ?mx) c \<in> {None, map_of (mx_channels ?mx) main}"
    using ok ab b unfolding mux_channels_ok_def by (auto simp: am_lookup)
  moreover have "p < length (mx_queues ?mx) \<and> mx_queues ?mx ! p \<noteq> None" if "map_of (mx_channels ?mx) x = Some p" for x p
    using that ok b unfolding mux_channels_ok_def by (auto simp: am_lookup split: if_splits)
  ultimately show ?thesis unfolding mux_channels_ok_def by blast
qed

text \<open>Linking hands over what had come for the channel before, behind what is in the main queue.\<close>

lemma mux_inv_link:
  assumes inv: "mux_inv c main D mx hs ps" and b: "map_of (mx_channels mx) b = Some q"
    and ab: "a \<notin> D" "b \<notin> D" "a \<noteq> main" "a = c \<longrightarrow> b = main"
    and push: "queue_push q (mx_undelivered mx a) (mx\<lparr>mx_channels := AtomicMap_Put a q (mx_channels mx)\<rparr>) = Inr mx'"
  shows "mux_inv c main D (mx'\<lparr>mx_undelivered := (mx_undelivered mx')(a := [])\<rparr>) hs ps"
proof -
  let ?mx = "mx'\<lparr>mx_undelivered := (mx_undelivered mx')(a := [])\<rparr>"
  from push obtain old where q: "q < length (mx_queues mx)" "mx_queues mx ! q = Some old"
    and mx': "mx' = mx\<lparr>mx_channels := AtomicMap_Put a q (mx_channels mx), mx_queues := (mx_queues mx)[q := Some (old @ mx_undelivered mx a)]\<rparr>"
    by (auto simp: queue_push_iff)
  have "mux_channels_ok c main D mx'"
    using mux_channels_update [OF mux_channels_link [OF _ b ab]] inv by (simp add: mx' mux_inv_def)
  then have "mux_channels_ok c main D ?mx" by (simp add: mux_channels_ok_def)
  moreover have "mux_requests_ok c main D ?mx" using inv by (simp add: mx' mux_inv_def mux_requests_ok_def)
  moreover have "mux_messages_ok c main ?mx hs ps"
  proof -
    have m: "\<forall>m \<in> set (mx_undelivered mx x). msg_destination_channel m = x" for x
      using inv by (simp add: mux_inv_def mux_messages_ok_def)
    have main: "map_of (mx_channels ?mx) main = map_of (mx_channels mx) main" using ab by (simp add: mx' am_lookup)
    have "channel_queue main ?mx = (if map_of (mx_channels mx) main = Some q then old @ mx_undelivered mx a else channel_queue main mx)"
      using q main by (auto simp: channel_queue_def get_or_def mx' split: option.split)
    moreover have "map_of (mx_channels mx) main = Some q \<Longrightarrow> channel_queue main mx = old"
      using q by (simp add: channel_queue_def get_or_def)
    ultimately show ?thesis
      using inv m b ab for_channel_same [OF m, of c a] unfolding mux_inv_def mux_messages_ok_def
      by (auto simp: mx' am_lookup)
  qed
  ultimately show ?thesis by (simp add: mux_inv_def)
qed

lemma mux_inv_link_unlink:
  assumes inv: "mux_inv c main D mx hs ps" and d: "link_unlink mx = Inr mx'"
  shows "mux_inv c main D mx' hs ps"
proof (cases "mx_link_unlink mx")
  case (Cons m ms)
  have rq: "mux_requests_ok c main D (mx\<lparr>mx_link_unlink := ms\<rparr>)"
    and a: "msg_channel_request m \<noteq> main"
    and b: "msg_type m = LINK_CHANNEL \<longrightarrow> msg_channel_request m \<notin> D \<and> msg_main_channel m \<notin> D
      \<and> (msg_channel_request m = c \<longrightarrow> msg_main_channel m = main)"
    using inv Cons by (auto simp: mux_inv_def mux_requests_ok_def Let_def)
  from rq have inv': "mux_inv c main D (mx\<lparr>mx_link_unlink := ms\<rparr>) hs ps" by (rule mux_inv_cong [OF inv]) simp_all
  show ?thesis
  proof (cases "msg_type m = LINK_CHANNEL")
    case True
    from True d Cons obtain q mx1 where q: "map_of (mx_channels mx) (msg_main_channel m) = Some q"
      and push: "queue_push q (mx_undelivered mx (msg_channel_request m)) (mx\<lparr>mx_link_unlink := ms,
        mx_channels := AtomicMap_Put (msg_channel_request m) q (mx_channels mx)\<rparr>) = Inr mx1"
      and mx': "mx' = mx1\<lparr>mx_undelivered := (mx_undelivered mx1)(msg_channel_request m := [])\<rparr>"
      by (auto simp: link_unlink_def Let_def outcome_simps)
    show ?thesis unfolding mx' by (rule mux_inv_link [OF inv', of "msg_main_channel m" q]) (use q push a b True in auto)
  next
    case False
    with d Cons mux_inv_unlink [OF inv' a] inv' show ?thesis by (auto simp: link_unlink_def Let_def split: if_splits)
  qed
qed (use inv d in \<open>simp add: link_unlink_def\<close>)

section \<open>Runs keep the invariant\<close>

lemma mux_inv_iteration:
  assumes inv: "mux_inv c main D mx hs ps" and cm: "c \<notin> D" "main \<notin> D"
    and run: "Run_iteration dec enc arrived mx = Inr (mx', out)"
  shows "mux_inv c main D mx' (hs @ handled dec arrived mx) ps"
proof (cases "mx_stopped mx \<or> mx_stopped (create_channels (mx_new_channel mx) mx)")
  case True
  moreover have "mux_inv c main D (create_channels (mx_new_channel mx) mx) hs ps"
    by (rule mux_inv_create_channels [OF inv]) (use inv in \<open>simp add: mux_inv_def mux_requests_ok_def\<close>)
  ultimately show ?thesis using run inv by (auto simp: Run_iteration_def handled_def Let_def split: if_splits)
next
  case False
  define mx1 where "mx1 = create_channels (mx_new_channel mx) mx"
  have kept: "mx_send (create_channels as m) = mx_send m \<and> mx_config (create_channels as m) = mx_config m" for "as" and m :: "'a multiplexer"
    by (induction "as" m rule: create_channels.induct) (auto simp: create_channel_def)
  from False run obtain mx2 mx3 mx4 where del: "delete_channel mx1 = Inr mx2"
    and rcv: "receive_remote dec arrived mx2 = Inr mx3" and snd: "send_message enc mx3 = Inr (mx4, out)"
    and lnk: "link_unlink mx4 = Inr mx'"
    by (auto simp: Run_iteration_def Let_def mx1_def outcome_simps)
  have "mux_inv c main D mx1 hs ps"
    unfolding mx1_def by (rule mux_inv_create_channels [OF inv]) (use inv in \<open>simp add: mux_inv_def mux_requests_ok_def\<close>)
  from mux_inv_delete_channel [OF this del cm] rcv
  have inv3: "mux_inv c main D mx3 (hs @ (case arrived of None \<Rightarrow> [] | Some bytes \<Rightarrow> [dec bytes])) ps"
    by (auto simp: receive_remote_def intro: mux_inv_deliver split: option.splits)
  have same: "mx_send mx3 = mx_send mx" "mx_config mx3 = mx_config mx"
    using del rcv kept [of "mx_new_channel mx" mx]
    by (auto simp: mx1_def delete_channel_def receive_remote_def deliver_def queue_push_iff Let_def require_defined_def outcome_simps
        split: option.splits list.splits if_splits)
  with mux_inv_link_unlink [OF mux_inv_send_message [OF inv3 snd] lnk] False show ?thesis
    by (simp add: handled_def same cong: list.case_cong)
qed

lemma mux_inv_request:
  assumes inv: "mux_inv c main D mx hs ps" and r: "allowed c main D r"
  shows "mux_inv c main D (make_request r mx) hs ps"
proof (rule mux_inv_cong [OF inv])
  show "mux_requests_ok c main D (make_request r mx)"
    using inv r by (cases r) (auto simp: mux_inv_def mux_requests_ok_def NewChannel_def DeleteChannel_def
        LinkChannel_def UnlinkChannel_def Send_def MessageProto_new_def)
qed (cases r, simp_all add: NewChannel_def DeleteChannel_def LinkChannel_def UnlinkChannel_def Send_def)+

lemma mux_inv_got:
  assumes inv: "mux_inv c main D mx hs ps" and got: "GotMessage ch mx = Inr (Some m, mx')"
  shows "mux_inv c main D mx' hs (if map_of (mx_channels mx) ch = map_of (mx_channels mx) main then ps @ [m] else ps)"
proof -
  from got obtain q ms where ch: "map_of (mx_channels mx) ch = Some q"
    and q: "q < length (mx_queues mx)" "mx_queues mx ! q = Some (m # ms)"
    and mx': "mx' = mx\<lparr>mx_queues := (mx_queues mx)[q := Some ms]\<rparr>"
    by (auto simp: GotMessage_def outcome_simps queue_pop_iff)
  have main: "channel_queue main mx' = (if map_of (mx_channels mx) main = Some q then ms else channel_queue main mx)"
    "map_of (mx_channels mx) main = Some q \<Longrightarrow> channel_queue main mx = m # ms"
    using q by (simp_all add: mx' channel_queue_update) (simp add: channel_queue_def get_or_def)
  have "mux_channels_ok c main D mx'" unfolding mx' by (rule mux_channels_update) (use inv in \<open>simp add: mux_inv_def\<close>)
  moreover have "mux_requests_ok c main D mx'" using inv by (simp add: mx' mux_inv_def mux_requests_ok_def)
  moreover have "mux_messages_ok c main mx' hs (if map_of (mx_channels mx) ch = map_of (mx_channels mx) main then ps @ [m] else ps)"
    using inv main ch unfolding mux_inv_def mux_messages_ok_def by (auto simp: mx')
  ultimately show ?thesis by (simp add: mux_inv_def)
qed

lemma mux_inv_start:
  "ConnectionMultiplexer_new conf = Inr mx \<Longrightarrow> mux_inv c main D mx [] []"
  by (auto simp: ConnectionMultiplexer_new_def require_defined_def mux_inv_def mux_requests_ok_def mux_channels_ok_def
      mux_messages_ok_def channel_queue_def split: if_splits)

lemma mux_run_inv:
  assumes "mux_run dec enc c main D mx hs ps" and "c \<notin> D" "main \<notin> D"
  shows "mux_inv c main D mx hs ps"
  using assms
  by (induction rule: mux_run.induct)
    (blast intro: mux_inv_start mux_inv_request mux_inv_got mux_inv_iteration)+

lemma mux_run_GotMessage_defined:
  assumes "mux_run dec enc c main D mx hs ps" "c \<notin> D" "main \<notin> D" "channel_exists ch mx"
  shows "\<exists>r. GotMessage ch mx = Inr r"
proof -
  obtain q where q: "map_of (mx_channels mx) ch = Some q" using assms(4) by auto
  with mux_run_inv [OF assms(1-3)] have "q < length (mx_queues mx) \<and> mx_queues mx ! q \<noteq> None"
    unfolding mux_inv_def mux_channels_ok_def by blast
  with q show ?thesis
    by (auto simp: GotMessage_def AtomicMap_Lookup_def queue_pop_def split: list.split)
qed

text \<open>A run that delivers: a message sent before its channel is linked, and one after it.\<close>

definition example_message :: "uint64 \<Rightarrow> unit message_proto" where
  "example_message n = MessageProto_new\<lparr>msg_destination_node := 0, msg_destination_channel := ''7'', msg_batch_number := n\<rparr>"

definition example_mux :: "unit multiplexer" where
  "example_mux = \<lparr>mx_config = example_config 0, mx_channels = [], mx_queues = [], mx_link_unlink = [],
     mx_new_channel = [], mx_delete_channel = [], mx_send = [], mx_undelivered = (\<lambda>_. []), mx_stopped = False\<rparr>"

text \<open>
  C13: Linking a channel to the main channel of its reader loses, duplicates and reorders nothing. In
  every run of the multiplexer in which the channel \<open>c\<close> is only ever created as
  \<open>main\<close> or linked to it and only unlinked channels are deleted, the messages for
  \<open>c\<close> that iterations have handed to local channels, whether they came from the network or
  from this machine, are exactly those taken from the main channel's queue, then those in the queue, then
  those kept as undelivered, in order. Once the channel is registered nothing is left undelivered, and
  reading any registered channel is defined: its queue has not been deleted.
\<close>

theorem mux_channel_fifo:
  assumes "mux_run dec enc c main D mx hs ps" and "c \<notin> D" "main \<notin> D"
  shows "for_channel c hs = for_channel c ps @ for_channel c (channel_queue main mx) @ mx_undelivered mx c
    \<and> (channel_exists c mx \<longrightarrow> mx_undelivered mx c = [])
    \<and> (\<forall>ch. channel_exists ch mx \<longrightarrow> (\<exists>r. GotMessage ch mx = Inr r))"
  using mux_run_inv [OF assms] mux_run_GotMessage_defined [OF assms]
  by (auto simp: mux_inv_def mux_messages_ok_def)

lemma fun_upd_const: "(\<lambda>_. z)(a := z) = (\<lambda>_. z)" "((\<lambda>_. z)(b := y))(b := z) = (\<lambda>_. z)"
  by (simp_all add: fun_eq_iff)

lemmas example_steps = Run_iteration_def handled_def create_channel_def delete_channel_def receive_remote_def
  send_message_def link_unlink_def deliver_def queue_push_def AtomicMap_Put_def AtomicMap_Lookup_def
  MessageProto_new_def Let_def example_mux_def example_message_def LinkChannel_def

lemma example_iterations:
  fixes mx :: "unit multiplexer"
  defines "mx \<equiv> example_mux\<lparr>mx_channels := [(''scheduler'', 0)], mx_queues := [Some []],
      mx_undelivered := (\<lambda>_. [])(''7'' := [example_message 1])\<rparr>"
  shows "Run_iteration id id None (example_mux\<lparr>mx_send := [example_message 1], mx_new_channel := [''scheduler'']\<rparr>) = Inr (mx, [])"
    "Run_iteration id id (Some (example_message 2)) (LinkChannel ''7'' ''scheduler'' mx)
       = Inr (example_mux\<lparr>mx_channels := [(''scheduler'', 0), (''7'', 0)], mx_queues := [Some [example_message 1, example_message 2]]\<rparr>, [])"
  by (simp_all add: mx_def example_steps example_config_def fun_upd_const)

lemma example_mux_run:
  fixes mx :: "unit multiplexer"
  defines "mx \<equiv> example_mux\<lparr>mx_channels := [(''scheduler'', 0), (''7'', 0)], mx_queues := [Some [example_message 2]]\<rparr>"
  shows "mux_run id id ''7'' ''scheduler'' {} mx [example_message 1, example_message 2] [example_message 1]"
proof -
  let ?run = "mux_run id id ''7'' ''scheduler'' {}"
  let ?mx0 = "example_mux\<lparr>mx_send := [example_message 1], mx_new_channel := [''scheduler'']\<rparr>"
  let ?mx1 = "example_mux\<lparr>mx_channels := [(''scheduler'', 0)], mx_queues := [Some []],
      mx_undelivered := (\<lambda>_. [])(''7'' := [example_message 1])\<rparr>"
  let ?mx2 = "example_mux\<lparr>mx_channels := [(''scheduler'', 0), (''7'', 0)], mx_queues := [Some [example_message 1, example_message 2]]\<rparr>"
  have "lookup_machine (example_config 0) 0 \<noteq> None"
    by (simp add: lookup_machine_def example_config_def example_entries_def)
  then have "ConnectionMultiplexer_new (example_config 0) = Inr example_mux"
    by (simp add: ConnectionMultiplexer_new_def example_mux_def require_defined_def) (simp add: example_config_def)
  then have "?run example_mux [] []" by (rule mux_run.start)
  from mux_run.request [OF mux_run.request [OF this, of "New ''scheduler''"], of "Message (example_message 1)"]
  have "?run ?mx0 [] []" by (simp add: NewChannel_def Send_def example_mux_def)
  from mux_run.iteration [OF this example_iterations(1)]
  have "?run ?mx1 [example_message 1] []" by (simp add: example_steps example_config_def)
  from mux_run.request [OF this, of "Link ''7'' ''scheduler''"]
  have "?run (LinkChannel ''7'' ''scheduler'' ?mx1) [example_message 1] []" by simp
  from mux_run.iteration [OF this example_iterations(2)]
  have "?run ?mx2 [example_message 1, example_message 2] []" by (simp add: handled_def example_mux_def LinkChannel_def)
  from mux_run.got [OF this, of "''scheduler''" "example_message 1" mx] show ?thesis
    by (simp add: GotMessage_def mx_def AtomicMap_Lookup_def queue_pop_def)
qed

lemma mux_channel_fifo_witness:
  "\<exists>mx :: unit multiplexer. channel_exists ''7'' mx \<and> mx_undelivered mx ''7'' = []
     \<and> for_channel ''7'' [example_message 1, example_message 2]
        = for_channel ''7'' [example_message 1] @ for_channel ''7'' (channel_queue ''scheduler'' mx)"
  using mux_channel_fifo [OF example_mux_run]
  by (intro exI [of _ "example_mux\<lparr>mx_channels := [(''scheduler'', 0), (''7'', 0)], mx_queues := [Some [example_message 2]]\<rparr>"])
    simp

section \<open>What ends the multiplexer, and what deleting a channel leaves behind\<close>

text \<open>
  Asking for a channel that exists ends \<open>Run\<close>: from then on nothing is delivered, whatever is sent or
  arrives.
\<close>

lemma create_channels_taken:
  "a \<in> set as \<Longrightarrow> channel_exists a mx \<Longrightarrow> mx_stopped (create_channels as mx)"
  by (induction "as" mx rule: create_channels.induct) (auto simp: create_channel_def am_lookup)

lemma duplicate_channel_stops:
  assumes "channel_exists a mx" and "a \<in> set (mx_new_channel mx)" and "Run_iteration dec enc arrived mx = Inr (mx', out)"
  shows "mx_stopped mx' \<or> mx_stopped mx"
  using assms create_channels_taken [OF assms(2,1)] by (auto simp: Run_iteration_def Let_def)

lemma stopped_forever: "mx_stopped mx \<Longrightarrow> Run_iteration dec enc arrived mx = Inr (mx, [])"
  by (simp add: Run_iteration_def)

text \<open>Deleting a main channel leaves the names that are linked to it with a dangling pointer.\<close>

lemma delete_main_dangles:
  assumes "map_of (mx_channels mx) a = Some q" "map_of (mx_channels mx) b = Some q" "a \<noteq> b"
    and "mx_delete_channel mx = [a]" and "delete_channel mx = Inr mx'"
  shows "channel_exists b mx' \<and> GotMessage b mx' = Inl Undefined_behaviour"
proof -
  have mx': "mx' = mx\<lparr>mx_delete_channel := [], mx_queues := (mx_queues mx)[q := None],
      mx_channels := AtomicMap_Erase a (mx_channels mx)\<rparr>" and "q < length (mx_queues mx)"
    using assms by (auto simp: delete_channel_def AtomicMap_Lookup_def require_defined_def split: if_splits)
  with assms(2,3) show ?thesis
    by (simp add: GotMessage_def AtomicMap_Lookup_def am_lookup queue_pop_def)
qed

end
