(* ===== verification/Random_Keys.thy ===== *)
theory Random_Keys
  imports Cluster_Config Messages "HOL-Library.Stream"
begin

text \<open>
  What the load generators of \<open>applications/\<close> and \<open>machine/client.h\<close> share: \<open>rand()\<close>, the loops
  that draw until a value suits them, and the choice of random keys. The values \<open>rand()\<close> will return
  are an infinite stream, a parameter of the model; a retry loop need not end, so a generator returns
  an outcome and the rest of the stream, or \<open>None\<close> when it never returns. The judgement \<open>gen_ok\<close> is
  the total correctness used by the clients: no failure, a postcondition, and a return whenever
  \<open>rand()\<close> is fair.
\<close>

section \<open>Generators\<close>

text \<open>\<open>RAND_MAX\<close> is \<open>2^31 - 1\<close>: a value of \<open>rand()\<close> is a non-negative \<open>int\<close>.\<close>

type_synonym rand_value = "31 word"
type_synonym rands = "rand_value stream"
type_synonym 'a gen = "rands \<Rightarrow> ('a \<times> rands) outcome option"

definition returnG :: "'a \<Rightarrow> 'a gen" where
  "returnG a r = Some (Inr (a, r))"

definition bindG :: "'a gen \<Rightarrow> ('a \<Rightarrow> 'b gen) \<Rightarrow> 'b gen" where
  "bindG g f r =
     (case g r of None \<Rightarrow> None | Some (Inl e) \<Rightarrow> Some (Inl e) | Some (Inr (a, r')) \<Rightarrow> f a r')"

definition mapG :: "('a \<Rightarrow> 'b) \<Rightarrow> 'a gen \<Rightarrow> 'b gen" where
  "mapG f g = bindG g (\<lambda>a. returnG (f a))"

definition checkG :: "bool \<Rightarrow> 'a gen \<Rightarrow> 'a gen" where
  "checkG b g = (if b then g else (\<lambda>r. Some (Inl Check_failed)))"

definition definedG :: "bool \<Rightarrow> 'a gen \<Rightarrow> 'a gen" where
  "definedG b g = (if b then g else (\<lambda>r. Some (Inl Undefined_behaviour)))"

definition drawG :: "(rand_value \<Rightarrow> 'a) \<Rightarrow> 'a gen" where
  "drawG f r = Some (Inr (f (shd r), stl r))"

text \<open>\<open>rand() % n\<close>, in the width of \<open>n\<close>; the remainder by zero is undefined.\<close>

definition rand_mod :: "'w::len word \<Rightarrow> 'w word gen" where
  "rand_mod n = definedG (n \<noteq> 0) (drawG (\<lambda>v. ucast v mod n))"

text \<open>\<open>do a = g; while (!p(a))\<close>.\<close>

partial_function (option) repeat_until :: "'a gen \<Rightarrow> ('a \<Rightarrow> bool) \<Rightarrow> 'a gen" where
  "repeat_until g p r =
     (case g r of
        None \<Rightarrow> None
      | Some (Inl e) \<Rightarrow> Some (Inl e)
      | Some (Inr (a, r')) \<Rightarrow> if p a then Some (Inr (a, r')) else repeat_until g p r')"

section \<open>Random keys\<close>

text \<open>
  \<open>fresh_keys n g keys\<close> draws \<open>n\<close> times a key that is not yet in the ordered set. The two functions
  that use it are members of both applications, with the same body; \<open>nparts\<close> and \<open>replica_size\<close> are the
  \<open>uint32\<close> members they read, and the products of two of them are taken in \<open>uint32\<close>.
\<close>

fun fresh_keys :: "nat \<Rightarrow> uint64 gen \<Rightarrow> uint64 list \<Rightarrow> uint64 list gen" where
  "fresh_keys 0 g keys = returnG keys"
| "fresh_keys (Suc n) g keys =
     bindG (repeat_until g (\<lambda>key. key \<notin> set keys)) (\<lambda>key. fresh_keys n g (os_insert key keys))"

definition GetRandomKeys :: "uint32 \<Rightarrow> uint32 \<Rightarrow> uint64 \<Rightarrow> uint64 \<Rightarrow> uint64 \<Rightarrow> uint64 list gen" where
  "GetRandomKeys nparts num_keys key_start key_limit part =
     definedG (nparts \<noteq> 0)
      (checkG (key_start mod ucast nparts = 0)
        (fresh_keys (unat num_keys)
          (mapG (\<lambda>v. key_start + part + ucast nparts * v)
            (rand_mod ((key_limit - key_start) div ucast nparts))) []))"

definition GetRandomKeysReplica ::
  "uint32 \<Rightarrow> uint32 \<Rightarrow> uint32 \<Rightarrow> uint64 \<Rightarrow> uint64 \<Rightarrow> uint64 \<Rightarrow> uint32 \<Rightarrow> uint64 list gen" where
  "GetRandomKeysReplica nparts replica_size num_keys key_start key_limit part replica =
     definedG (nparts * replica_size \<noteq> 0)
      (checkG (key_start mod ucast (nparts * replica_size) = 0)
        (fresh_keys (unat num_keys)
          (mapG (\<lambda>order. key_start + part + ucast nparts * (order * ucast replica_size + ucast replica))
            (rand_mod ((key_limit - key_start) div ucast (nparts * replica_size)))) []))"

text \<open>The first key at or after \<open>key_start\<close> that \<open>GetRandomKeysReplica\<close> accepts as a start.\<close>

definition align_start :: "uint32 \<Rightarrow> uint32 \<Rightarrow> uint64 \<Rightarrow> uint64" where
  "align_start nparts replica_size key_start =
     (if key_start mod ucast (replica_size * nparts) \<noteq> 0
      then key_start + (ucast (replica_size * nparts) - key_start mod ucast (replica_size * nparts))
      else key_start)"

section \<open>Adding a key to a transaction\<close>

text \<open>
  \<open>IntToString\<close> takes an \<open>int\<close>: the key is cut to 32 bits. An entry starts with counter 0.
\<close>

definition key_name :: "uint64 \<Rightarrow> string" where
  "key_name k = IntToString (ucast k)"

definition new_entry :: "uint32 \<Rightarrow> uint64 \<Rightarrow> key_entry" where
  "new_entry master k = \<lparr>ke_key = key_name k, ke_master = master, ke_counter = 0\<rparr>"

definition add_read :: "uint32 \<Rightarrow> uint64 \<Rightarrow> txn_proto \<Rightarrow> txn_proto" where
  "add_read master k txn = txn\<lparr>tx_read_set := tx_read_set txn @ [new_entry master k]\<rparr>"

definition add_read_write :: "uint32 \<Rightarrow> uint64 \<Rightarrow> txn_proto \<Rightarrow> txn_proto" where
  "add_read_write master k txn = txn\<lparr>tx_read_write_set := tx_read_write_set txn @ [new_entry master k]\<rparr>"

lemma fold_add_read_write [simp]:
  "tx_read_write_set (fold (add_read_write m) ks t) = tx_read_write_set t @ map (new_entry m) ks"
  "tx_read_set (fold (add_read_write m) ks t) = tx_read_set t"
  "tx_write_set (fold (add_read_write m) ks t) = tx_write_set t"
  "tx_fake_txn (fold (add_read_write m) ks t) = tx_fake_txn t"
  "tx_txn_id (fold (add_read_write m) ks t) = tx_txn_id t"
  by (induction ks arbitrary: t) (simp_all add: add_read_write_def)

lemma fold_add_read [simp]:
  "tx_read_set (fold (add_read m) ks t) = tx_read_set t @ map (new_entry m) ks"
  "tx_read_write_set (fold (add_read m) ks t) = tx_read_write_set t"
  "tx_write_set (fold (add_read m) ks t) = tx_write_set t"
  "tx_fake_txn (fold (add_read m) ks t) = tx_fake_txn t"
  "tx_txn_id (fold (add_read m) ks t) = tx_txn_id t"
  by (induction ks arbitrary: t) (simp_all add: add_read_def)

section \<open>Total correctness of generators\<close>

definition fair_rand :: "rands \<Rightarrow> bool" where
  "fair_rand r \<longleftrightarrow> (\<forall>n v. \<exists>i \<ge> n. r !! i = v)"

definition gen_ok :: "'a gen \<Rightarrow> ('a \<Rightarrow> bool) \<Rightarrow> bool" where
  "gen_ok g Q \<longleftrightarrow>
     (\<forall>r. (fair_rand r \<longrightarrow> g r \<noteq> None)
        \<and> (\<forall>x. g r = Some x \<longrightarrow> (\<exists>a r'. x = Inr (a, r') \<and> Q a \<and> (fair_rand r \<longrightarrow> fair_rand r'))))"

lemma fair_rand_stl [simp, intro]: "fair_rand r \<Longrightarrow> fair_rand (stl r)"
  unfolding fair_rand_def
proof (intro allI)
  fix n v assume "\<forall>n v. \<exists>i \<ge> n. r !! i = v"
  then obtain i where "Suc n \<le> i" "r !! i = v" by blast
  then show "\<exists>i \<ge> n. stl r !! i = v" by (intro exI [of _ "i - 1"]) (cases i, auto)
qed

lemma gen_okI:
  assumes "\<And>r. fair_rand r \<Longrightarrow> g r \<noteq> None"
    and "\<And>r e. g r \<noteq> Some (Inl e)"
    and "\<And>r a r'. g r = Some (Inr (a, r')) \<Longrightarrow> Q a"
    and "\<And>r a r'. g r = Some (Inr (a, r')) \<Longrightarrow> fair_rand r \<Longrightarrow> fair_rand r'"
  shows "gen_ok g Q"
  unfolding gen_ok_def
proof (intro allI conjI impI)
  fix r x assume "g r = Some x"
  then show "\<exists>a r'. x = Inr (a, r') \<and> Q a \<and> (fair_rand r \<longrightarrow> fair_rand r')"
    using assms(2) [of r] assms(3,4) [of r] by (cases x) auto
qed (use assms(1) in blast)

lemma gen_okD:
  assumes "gen_ok g Q"
  shows "fair_rand r \<Longrightarrow> \<exists>a r'. g r = Some (Inr (a, r')) \<and> Q a \<and> fair_rand r'"
    and "g r = Some x \<Longrightarrow> \<exists>a r'. x = Inr (a, r') \<and> Q a"
  using assms unfolding gen_ok_def by blast+

lemma gen_ok_returnG [intro]: "Q a \<Longrightarrow> gen_ok (returnG a) Q"
  by (rule gen_okI) (auto simp: returnG_def)

lemma gen_ok_mono: "gen_ok g Q \<Longrightarrow> (\<And>a. Q a \<Longrightarrow> Q' a) \<Longrightarrow> gen_ok g Q'"
  unfolding gen_ok_def by blast

lemma gen_ok_bindG:
  assumes g: "gen_ok g Q" and f: "\<And>a. Q a \<Longrightarrow> gen_ok (f a) R"
  shows "gen_ok (bindG g f) R"
proof (rule gen_okI)
  fix r assume "fair_rand r"
  then obtain a r' where "g r = Some (Inr (a, r'))" "Q a" "fair_rand r'" using gen_okD(1) [OF g] by blast
  then show "bindG g f r \<noteq> None" using gen_okD(1) [OF f] by (fastforce simp: bindG_def)
next
  fix r e show "bindG g f r \<noteq> Some (Inl e)"
    using gen_okD(2) [OF g] gen_okD(2) [OF f]
    by (fastforce simp: bindG_def split: option.splits sum.splits prod.splits)
next
  fix r a r' assume "bindG g f r = Some (Inr (a, r'))"
  then obtain b s where "g r = Some (Inr (b, s))" "f b s = Some (Inr (a, r'))"
    by (auto simp: bindG_def split: option.splits sum.splits prod.splits)
  then show "R a" "fair_rand r \<Longrightarrow> fair_rand r'"
    using g f unfolding gen_ok_def by (metis Pair_inject sum.inject(2))+
qed

lemma gen_ok_checkG: "b \<Longrightarrow> gen_ok g Q \<Longrightarrow> gen_ok (checkG b g) Q"
  by (simp add: checkG_def)

lemma gen_ok_definedG: "b \<Longrightarrow> gen_ok g Q \<Longrightarrow> gen_ok (definedG b g) Q"
  by (simp add: definedG_def)

lemma gen_ok_drawG: "(\<And>v. Q (f v)) \<Longrightarrow> gen_ok (drawG f) Q"
  by (rule gen_okI) (auto simp: drawG_def)

lemma mapG_drawG [simp]: "mapG h (drawG f) = drawG (\<lambda>v. h (f v))"
  by (simp add: mapG_def bindG_def drawG_def returnG_def fun_eq_iff)

section \<open>Random text\<close>

text \<open>The functions of \<open>common/utils.cc\<close>; a negative length is that of an empty string.\<close>

fun random_chars :: "nat \<Rightarrow> (rand_value \<Rightarrow> char) \<Rightarrow> string gen" where
  "random_chars 0 f = returnG []"
| "random_chars (Suc n) f = bindG (drawG f) (\<lambda>ch. bindG (random_chars n f) (\<lambda>s. returnG (ch # s)))"

definition RandomString :: "int32 \<Rightarrow> string gen" where
  "RandomString len = random_chars (nat (sint len)) (\<lambda>v. char_of (unat (v mod 26 + 65)))"

definition RandomBytes :: "int32 \<Rightarrow> string gen" where
  "RandomBytes len = random_chars (nat (sint len)) (\<lambda>v. char_of (unat (v mod 256)))"

definition RandomBytesNoZeros :: "int32 \<Rightarrow> string gen" where
  "RandomBytesNoZeros len = random_chars (nat (sint len)) (\<lambda>v. char_of (unat (1 + v mod 255)))"

lemma random_chars_gen_ok:
  assumes "\<And>v. P (f v)"
  shows "gen_ok (random_chars n f) (\<lambda>s. length s = n \<and> (\<forall>ch \<in> set s. P ch))"
proof (induction n)
  case 0
  then show ?case by (auto intro!: gen_ok_returnG)
next
  case (Suc n)
  show ?case unfolding random_chars.simps
    by (rule gen_ok_bindG [OF gen_ok_drawG [where Q = P, OF assms]], rule gen_ok_bindG [OF Suc.IH], rule gen_ok_returnG) simp
qed

lemma unat_mod_add:
  fixes v :: rand_value
  assumes "unat n = a" "unat k = b" "a + b < 2 ^ 31" "0 < a"
  shows "unat (v mod n + k) = unat v mod a + b"
  using assms mod_less_divisor [OF assms(4), of "unat v"] by (simp add: unat_word_ariths unat_mod_distrib)

lemma RandomString_letters:
  "gen_ok (RandomString len) (\<lambda>s. length s = nat (sint len) \<and> (\<forall>ch \<in> set s. 65 \<le> (of_char ch :: nat) \<and> (of_char ch :: nat) \<le> 90))"
  unfolding RandomString_def
proof (rule random_chars_gen_ok)
  fix v :: rand_value
  have "unat (v mod 26 + 65) = unat v mod 26 + 65" using unat_mod_add [of 26 26 65 65 v] by simp
  moreover have "unat v mod 26 < 26" by simp
  ultimately show "65 \<le> (of_char (char_of (unat (v mod 26 + 65)) :: char) :: nat) \<and> (of_char (char_of (unat (v mod 26 + 65)) :: char) :: nat) \<le> 90"
    by simp
qed

lemma RandomBytesNoZeros_no_zero:
  "gen_ok (RandomBytesNoZeros len) (\<lambda>s. length s = nat (sint len) \<and> (\<forall>ch \<in> set s. (of_char ch :: nat) \<noteq> 0))"
  unfolding RandomBytesNoZeros_def
proof (rule random_chars_gen_ok)
  fix v :: rand_value
  have "unat (1 + v mod 255) = unat v mod 255 + 1" using unat_mod_add [of 255 255 1 1 v] by (simp add: add.commute del: One_nat_def)
  moreover have "unat v mod 255 < 255" by simp
  ultimately show "(of_char (char_of (unat (1 + v mod 255)) :: char) :: nat) \<noteq> 0" by simp
qed

lemma rand_mod_drawG: "n \<noteq> 0 \<Longrightarrow> rand_mod n = drawG (\<lambda>v. ucast v mod n)"
  by (simp add: rand_mod_def definedG_def)

lemma gen_ok_rand_mod:
  "n \<noteq> 0 \<Longrightarrow> gen_ok (rand_mod n) (\<lambda>x. x < n)"
  by (simp add: rand_mod_drawG word_mod_less gen_ok_drawG)

section \<open>Retry loops\<close>

lemma repeat_until_drawG:
  "repeat_until (drawG f) p r
     = (if p (f (shd r)) then Some (Inr (f (shd r), stl r)) else repeat_until (drawG f) p (stl r))"
  by (subst repeat_until.simps) (simp add: drawG_def)

lemma repeat_until_returns:
  "p (f (r !! n)) \<Longrightarrow> \<exists>a r'. repeat_until (drawG f) p r = Some (Inr (a, r'))"
proof (induction n arbitrary: r)
  case 0
  then show ?case by (subst repeat_until_drawG) simp
next
  case (Suc n)
  then show ?case by (subst repeat_until_drawG) simp
qed

lemma repeat_until_result:
  assumes "repeat_until (drawG f) p r = Some x"
  shows "\<exists>n. x = Inr (f (r !! n), sdrop (Suc n) r) \<and> p (f (r !! n)) \<and> (\<forall>i < n. \<not> p (f (r !! i)))"
proof -
  let ?P = "\<lambda>g p r x. g = drawG f \<longrightarrow>
    (\<exists>n. x = Inr (f (r !! n), sdrop (Suc n) r) \<and> p (f (r !! n)) \<and> (\<forall>i < n. \<not> p (f (r !! i))))"
  have "?P (drawG f) p r x"
  proof (rule repeat_until.raw_induct [of ?P, OF _ assms], intro impI)
    fix rep g p r x
    assume IH: "\<And>g p r x. rep g p r = Some x \<Longrightarrow> ?P g p r x" and g: "g = drawG f"
      and body: "(case g r of None \<Rightarrow> None | Some (Inl e) \<Rightarrow> Some (Inl e)
        | Some (Inr (a, r')) \<Rightarrow> if p a then Some (Inr (a, r')) else rep g p r') = Some x"
    show "\<exists>n. x = Inr (f (r !! n), sdrop (Suc n) r) \<and> p (f (r !! n)) \<and> (\<forall>i < n. \<not> p (f (r !! i)))"
    proof (cases "p (f (shd r))")
      case True
      with body g show ?thesis by (intro exI [of _ 0]) (simp add: drawG_def)
    next
      case False
      with body g have "rep g p (stl r) = Some x" by (simp add: drawG_def)
      from IH [OF this] g obtain n where n: "x = Inr (f (stl r !! n), sdrop (Suc n) (stl r))"
        "p (f (stl r !! n))" "\<forall>i < n. \<not> p (f (stl r !! i))" by blast
      from n(3) False have "\<not> p (f (r !! i))" if "i < Suc n" for i using that by (cases i) auto
      with n(1,2) show ?thesis by (intro exI [of _ "Suc n"]) simp
    qed
  qed
  then show ?thesis by simp
qed

lemma fair_rand_sdrop [simp, intro]: "fair_rand r \<Longrightarrow> fair_rand (sdrop n r)"
  by (induction n arbitrary: r) auto

lemma gen_ok_repeat_until:
  assumes "p (f v)"
  shows "gen_ok (repeat_until (drawG f) p) (\<lambda>a. p a \<and> a \<in> range f)"
proof (rule gen_okI)
  fix r assume "fair_rand r"
  then obtain n where "r !! n = v" unfolding fair_rand_def by blast
  with assms show "repeat_until (drawG f) p r \<noteq> None"
    using repeat_until_returns [of p f r n] by auto
qed (auto dest!: repeat_until_result)

lemma gen_ok_drawG_iff: "gen_ok (drawG f) Q \<longleftrightarrow> (\<forall>v. Q (f v))"
proof
  assume "gen_ok (drawG f) Q"
  then have "Q (f (shd r))" for r using gen_okD(2) [of "drawG f" Q r] by (simp add: drawG_def)
  then show "\<forall>v. Q (f v)" by (metis stream.sel(1))
qed (simp add: gen_ok_drawG)

lemma gen_ok_retry:
  assumes "gen_ok (drawG f) Q" "p (f v)"
  shows "gen_ok (repeat_until (drawG f) p) (\<lambda>a. p a \<and> Q a)"
  by (rule gen_ok_mono [OF gen_ok_repeat_until [of p f v, OF assms(2)]])
    (use assms(1) in \<open>auto simp: gen_ok_drawG_iff\<close>)

text \<open>The loop ends exactly when the stream has a value that suits it.\<close>

lemma repeat_until_terminates_iff: "repeat_until (drawG f) p r \<noteq> None \<longleftrightarrow> (\<exists>n. p (f (r !! n)))"
  using repeat_until_returns [of p f r] repeat_until_result [of f p r] by fastforce

section \<open>Fresh keys\<close>

definition key_set :: "uint64 list \<Rightarrow> bool" where
  "key_set ks \<longleftrightarrow> sorted ks \<and> distinct ks"

lemma key_set_os_insert [simp]: "key_set ks \<Longrightarrow> key_set (os_insert k ks)"
  by (simp add: key_set_def)

lemma length_os_insert_fresh [simp]: "k \<notin> set ks \<Longrightarrow> length (os_insert k ks) = Suc (length ks)"
  by (simp add: os_insert_def insort_insert_key_def)

lemma gen_ok_fresh_keys:
  assumes "key_set keys" "set keys \<subseteq> range f" "length keys + n \<le> card (range f)"
  shows "gen_ok (fresh_keys n (drawG f) keys)
    (\<lambda>ks. key_set ks \<and> set ks \<subseteq> range f \<and> length ks = length keys + n)"
  using assms
proof (induction n arbitrary: keys)
  case 0
  then show ?case by (simp add: gen_ok_returnG)
next
  case (Suc n)
  have "card (set keys) < card (range f)"
    using Suc.prems(3) card_length [of keys] by linarith
  then have "\<not> range f \<subseteq> set keys" by (meson List.finite_set card_mono not_le)
  then obtain v where v: "f v \<notin> set keys" by blast
  show ?case unfolding fresh_keys.simps
  proof (rule gen_ok_bindG [OF gen_ok_repeat_until [of "\<lambda>k. k \<notin> set keys" f v, OF v]], elim conjE)
    fix k assume k: "k \<notin> set keys" "k \<in> range f"
    then show "gen_ok (fresh_keys n (drawG f) (os_insert k keys))
      (\<lambda>ks. key_set ks \<and> set ks \<subseteq> range f \<and> length ks = length keys + Suc n)"
      using Suc.IH [of "os_insert k keys"] Suc.prems by simp
  qed
qed

text \<open>A draw of an index below \<open>m\<close>, with an injective map from indices to keys.\<close>

lemma card_range_index:
  fixes h :: "uint64 \<Rightarrow> uint64"
  assumes "n \<le> unat m" "n \<le> 2 ^ 31" "m \<noteq> 0"
    and inj: "\<And>x y. x < m \<Longrightarrow> y < m \<Longrightarrow> h x = h y \<Longrightarrow> x = y"
  shows "n \<le> card (range (\<lambda>v::rand_value. h (ucast v mod m)))"
proof -
  let ?f = "\<lambda>v::rand_value. h (ucast v mod m)"
  let ?g = "\<lambda>i::nat. ?f (of_nat i)"
  have idx: "ucast (of_nat i :: rand_value) mod m = (of_nat i :: uint64) \<and> (of_nat i :: uint64) < m" if "i < n" for i
    using that assms(1,2)
    by (simp add: word_unat_eq_iff word_less_nat_alt unsigned_ucast_eq unsigned_of_nat unat_mod_distrib
        take_bit_nat_eq_self)
  have "inj_on ?g {..<n}"
  proof (rule inj_onI)
    fix i j assume i: "i \<in> {..<n}" and j: "j \<in> {..<n}" and "?g i = ?g j"
    with idx [of i] idx [of j] inj have "(of_nat i :: uint64) = of_nat j" by auto
    with i j assms(2) show "i = j" by (auto simp: word_unat_eq_iff unsigned_of_nat take_bit_nat_eq_self)
  qed
  then have "n = card (?g ` {..<n})" by (simp add: card_image)
  also have "\<dots> \<le> card (range ?f)" by (rule card_mono) auto
  finally show ?thesis .
qed

lemma gen_ok_index_keys:
  fixes h :: "uint64 \<Rightarrow> uint64"
  assumes "n \<le> unat m" "n \<le> 2 ^ 31" "m \<noteq> 0"
    and "\<And>x y. x < m \<Longrightarrow> y < m \<Longrightarrow> h x = h y \<Longrightarrow> x = y"
  shows "gen_ok (fresh_keys n (mapG h (rand_mod m)) [])
    (\<lambda>ks. key_set ks \<and> length ks = n \<and> set ks \<subseteq> h ` {x. x < m})"
proof (rule gen_ok_mono)
  show "gen_ok (fresh_keys n (mapG h (rand_mod m)) [])
    (\<lambda>ks. key_set ks \<and> set ks \<subseteq> range (\<lambda>v::rand_value. h (ucast v mod m)) \<and> length ks = length ([] :: uint64 list) + n)"
    using gen_ok_fresh_keys [of "[]" "\<lambda>v. h (ucast v mod m)" n] card_range_index [OF assms] assms(3)
    by (simp add: rand_mod_drawG key_set_def)
  have "range (\<lambda>v::rand_value. h (ucast v mod m)) \<subseteq> h ` {x. x < m}"
    using assms(3) by (auto simp: word_mod_less)
  then show "key_set ks \<and> length ks = n \<and> set ks \<subseteq> h ` {x. x < m}"
    if "key_set ks \<and> set ks \<subseteq> range (\<lambda>v::rand_value. h (ucast v mod m)) \<and> length ks = length ([] :: uint64 list) + n" for ks
    using that by auto
qed

section \<open>The two kinds of keys\<close>

lemma unat_key:
  fixes start part n x :: uint64
  assumes "unat start + unat n * Suc (unat x) < 2 ^ 64" "part < n"
  shows "unat (start + part + n * x) = unat start + unat part + unat n * unat x"
  using assms by (simp add: unat_word_ariths word_less_nat_alt)

lemma key_bound:
  fixes start limit n x :: uint64
  assumes "start \<le> limit" "x < (limit - start) div n"
  shows "unat start + unat n * Suc (unat x) \<le> unat limit"
proof -
  have "Suc (unat x) \<le> (unat limit - unat start) div unat n"
    using assms by (simp add: word_less_nat_alt unat_div_distrib unat_sub)
  then have "unat n * Suc (unat x) \<le> unat n * ((unat limit - unat start) div unat n)" by (rule mult_le_mono2)
  also have "\<dots> \<le> unat limit - unat start" by simp
  finally show ?thesis using assms(1) by (simp add: word_le_nat_alt)
qed

text \<open>
  What the comment above \<open>GetRandomKeys\<close> promises: distinct keys of the requested number, between
  the two ends, and in the requested residue class.
\<close>

definition keys_in :: "uint64 \<Rightarrow> uint64 \<Rightarrow> uint64 \<Rightarrow> uint64 \<Rightarrow> uint64 list \<Rightarrow> bool" where
  "keys_in start limit n part ks \<longleftrightarrow>
     key_set ks \<and> (\<forall>k \<in> set ks. start \<le> k \<and> k < limit \<and> unat k mod unat n = unat part)"

lemma gen_ok_stride:
  fixes start limit N p :: uint64
  defines "m \<equiv> (limit - start) div N" and "h \<equiv> \<lambda>x. start + p + N * x"
  assumes N: "N \<noteq> 0" and start: "start mod N = 0" "p < N" "start \<le> limit"
    and n: "0 < n" "n \<le> unat m" "n \<le> 2 ^ 31"
  shows "gen_ok (fresh_keys n (mapG h (rand_mod m)) []) (\<lambda>ks. keys_in start limit N p ks \<and> length ks = n)"
proof -
  have N0: "0 < unat N" using N by (simp add: unat_gt_0)
  have m: "m \<noteq> 0" using n(1,2) by auto
  have h: "unat (h x) = unat start + unat p + unat N * unat x" "unat (h x) < unat limit" if "x < m" for x
  proof -
    have b: "unat start + unat N * Suc (unat x) \<le> unat limit"
      using start(3) that unfolding m_def by (rule key_bound)
    also have "unat limit < 2 ^ 64" using unsigned_less [of limit] by simp
    finally show "unat (h x) = unat start + unat p + unat N * unat x"
      unfolding h_def using start(2) by (rule unat_key)
    with b start(2) show "unat (h x) < unat limit" by (simp add: word_less_nat_alt)
  qed
  have "unat start mod unat N = 0" using start(1) by (metis unat_0 unat_mod_distrib)
  then have md: "(unat start + unat p + unat N * x) mod unat N = unat p" for x
    using start(2) mod_add_left_eq [of "unat start" "unat N" "unat p"] by (simp add: word_less_nat_alt)
  have "gen_ok (fresh_keys n (mapG h (rand_mod m)) [])
    (\<lambda>ks. key_set ks \<and> length ks = n \<and> set ks \<subseteq> h ` {x. x < m})"
  proof (rule gen_ok_index_keys [OF n(2,3) m])
    fix x y assume xy: "x < m" "y < m" "h x = h y"
    then have "unat N * unat x = unat N * unat y" using h(1) [OF xy(1)] h(1) [OF xy(2)] by (metis add_left_cancel)
    with N0 show "x = y" by (simp add: word_unat_eq_iff)
  qed
  then show ?thesis
  proof (rule gen_ok_mono, elim conjE)
    fix ks assume ks: "key_set ks" "length ks = n" "set ks \<subseteq> h ` {x. x < m}"
    have "start \<le> k \<and> k < limit \<and> unat k mod unat N = unat p" if "k \<in> set ks" for k
      using that ks(3) h md by (auto simp: word_le_nat_alt word_less_nat_alt)
    with ks(1,2) show "keys_in start limit N p ks \<and> length ks = n" by (simp add: keys_in_def)
  qed
qed

lemma GetRandomKeys_gen_ok:
  assumes "nparts \<noteq> 0" "start mod ucast nparts = 0" "part < ucast nparts" "start \<le> limit"
    and "0 < num" "unat num \<le> unat ((limit - start) div ucast nparts)" "unat num \<le> 2 ^ 31"
  shows "gen_ok (GetRandomKeys nparts num start limit part)
    (\<lambda>ks. keys_in start limit (ucast nparts) part ks \<and> length ks = unat num)"
proof -
  have "(ucast nparts :: uint64) \<noteq> 0" using assms(1) by (simp add: word_unat_eq_iff)
  from gen_ok_stride [OF this assms(2-4)] assms show ?thesis
    by (simp add: GetRandomKeys_def definedG_def checkG_def unat_gt_0 word_neq_0_conv)
qed

text \<open>
  The keys of \<open>GetRandomKeysReplica\<close>: the quotient of the key by the number of partitions is the
  replica modulo the number of replicas, which is how \<open>LookupMaster\<close> finds the master.
\<close>

definition replica_keys :: "uint64 \<Rightarrow> uint64 \<Rightarrow> uint32 \<Rightarrow> uint32 \<Rightarrow> uint64 \<Rightarrow> uint32 \<Rightarrow> uint64 list \<Rightarrow> bool" where
  "replica_keys start limit nparts rs part replica ks \<longleftrightarrow>
     keys_in start limit (ucast nparts) part ks
     \<and> (\<forall>k \<in> set ks. (unat k div unat nparts) mod unat rs = unat replica)"

lemma two_digits:
  fixes n r p q x :: nat
  assumes "x mod (n * r) = p + n * q" "p < n" "q < r"
  shows "x mod n = p" "(x div n) mod r = q"
proof -
  have "x mod n = (x mod (n * r)) mod n" by (simp add: mod_mod_cancel)
  with assms show x: "x mod n = p" by simp
  with assms show "(x div n) mod r = q" by (simp add: mod_mult2_eq)
qed

lemma GetRandomKeysReplica_gen_ok:
  assumes "nparts \<noteq> 0" "unat nparts * unat rs < 2 ^ 32" "replica < rs"
    and "start mod ucast (nparts * rs) = 0" "part < ucast nparts" "start \<le> limit"
    and "0 < num" "unat num \<le> unat ((limit - start) div ucast (nparts * rs))" "unat num \<le> 2 ^ 31"
  shows "gen_ok (GetRandomKeysReplica nparts rs num start limit part replica)
    (\<lambda>ks. replica_keys start limit nparts rs part replica ks \<and> length ks = unat num)"
proof -
  let ?n = "ucast nparts :: uint64" and ?N = "ucast (nparts * rs) :: uint64"
  let ?p = "part + ?n * ucast replica"
  have N: "unat (nparts * rs) = unat nparts * unat rs"
    using assms(2) by (simp add: unat_word_ariths)
  have Nw: "?N = ?n * ucast rs"
    using assms(2) by (simp add: word_unat_eq_iff N unat_word_ariths)
  have N0: "nparts * rs \<noteq> 0" "?N \<noteq> 0"
    using assms(1,3) N by (auto simp: word_unat_eq_iff word_less_nat_alt)
  have "unat part + unat nparts * unat replica < unat nparts * Suc (unat replica)"
    using assms(5) by (simp add: word_less_nat_alt)
  also have "\<dots> \<le> unat nparts * unat rs"
    using assms(3) by (intro mult_le_mono2) (simp add: word_less_nat_alt)
  finally have less: "unat part + unat nparts * unat replica < unat nparts * unat rs" .
  with assms(2) have p: "unat ?p = unat part + unat nparts * unat replica" by (simp add: unat_word_ariths)
  have "?p < ?N" using less by (simp add: word_less_nat_alt p N)
  have h: "(\<lambda>order. start + part + ?n * (order * ucast rs + ucast replica)) = (\<lambda>x. start + ?p + ?N * x)"
    by (simp add: Nw fun_eq_iff algebra_simps)
  have "gen_ok (GetRandomKeysReplica nparts rs num start limit part replica)
      (\<lambda>ks. keys_in start limit ?N ?p ks \<and> length ks = unat num)"
    using gen_ok_stride [OF N0(2) assms(4) \<open>?p < ?N\<close> assms(6), of "unat num"] assms N0(1)
    by (simp add: GetRandomKeysReplica_def h definedG_def checkG_def unat_gt_0 word_neq_0_conv)
  then show ?thesis
  proof (rule gen_ok_mono, elim conjE)
    fix ks assume ks: "keys_in start limit ?N ?p ks" "length ks = unat num"
    have "unat k mod unat nparts = unat part \<and> (unat k div unat nparts) mod unat rs = unat replica" if "k \<in> set ks" for k
      using two_digits [of "unat k" "unat nparts" "unat rs" "unat part" "unat replica"] ks(1) that assms(3,5)
      by (simp add: keys_in_def N p word_less_nat_alt)
    with ks show "replica_keys start limit nparts rs part replica ks \<and> length ks = unat num"
      by (simp add: replica_keys_def keys_in_def)
  qed
qed

lemma keys_in_disjoint:
  "keys_in a h n p xs \<Longrightarrow> keys_in s b n q ys \<Longrightarrow> h \<le> s \<Longrightarrow> set xs \<inter> set ys = {}"
  unfolding keys_in_def by (meson disjoint_iff leD order.strict_trans2 order.trans)

lemma keys_in_other_part:
  "keys_in a h n p xs \<Longrightarrow> keys_in s b n q ys \<Longrightarrow> p \<noteq> q \<Longrightarrow> set xs \<inter> set ys = {}"
  unfolding keys_in_def by (auto simp: word_unat_eq_iff)

lemma replica_keys_disjoint:
  assumes "replica_keys a h n rs p r xs" "replica_keys s b n rs q t ys" "h \<le> s \<or> (p, r) \<noteq> (q, t)"
  shows "set xs \<inter> set ys = {}"
proof (cases "h \<le> s \<or> p \<noteq> q")
  case True
  have k: "keys_in a h (ucast n) p xs" "keys_in s b (ucast n) q ys"
    using assms(1,2) by (simp_all add: replica_keys_def)
  from True show ?thesis using keys_in_disjoint [OF k] keys_in_other_part [OF k] by blast
next
  case False
  with assms(3) have "unat r \<noteq> unat t" by (simp add: word_unat_eq_iff)
  with assms(1,2) show ?thesis unfolding replica_keys_def by (metis disjoint_iff)
qed

lemma keys_in_weaken: "keys_in a h n p xs \<Longrightarrow> b \<le> a \<Longrightarrow> h \<le> l \<Longrightarrow> keys_in b l n p xs"
  unfolding keys_in_def by (meson order.strict_trans2 order.trans)

lemma replica_keys_weaken:
  "replica_keys a h n rs p r xs \<Longrightarrow> b \<le> a \<Longrightarrow> h \<le> l \<Longrightarrow> replica_keys b l n rs p r xs"
  unfolding replica_keys_def by (blast intro: keys_in_weaken)

section \<open>Where a key lives\<close>

lemma unat_cut: "unat (k::uint64) < 2 ^ 32 \<Longrightarrow> unat (ucast k :: int32) = unat k"
  by (simp add: unsigned_ucast_eq take_bit_nat_eq_self)

lemma key_name_inj: "unat j < 2 ^ 32 \<Longrightarrow> unat k < 2 ^ 32 \<Longrightarrow> key_name j = key_name k \<longleftrightarrow> j = k"
  by (metis IntToString_inj key_name_def unat_cut word_unat_eq_iff)

lemma key_name_lookup:
  assumes c: "config_ok c" and k: "unat k < 2 ^ 31"
    and "unat k mod unat (nodes_per_replica c) = unat part"
  shows "LookupPartition c (key_name k) = part"
    and "unat (LookupMaster c (key_name k)) = (unat k div unat (nodes_per_replica c)) mod unat (cc_replicas_size c)"
proof -
  have u: "unat (ucast k :: int32) = unat k" using k by (simp add: unat_cut)
  have "0 \<le> sint (ucast k :: int32)"
    using k u by (metis sint_small of_nat_0_le_iff)
  from Lookup_printed_key [OF c this]
  have l: "LookupPartition c (key_name k) = ucast (ucast k :: int32) mod nodes_per_replica c"
    and m: "unat (LookupMaster c (key_name k)) = (unat (ucast k :: int32) div unat (nodes_per_replica c)) mod unat (cc_replicas_size c)"
    by (simp_all add: key_name_def)
  show "LookupPartition c (key_name k) = part"
    using l u assms(3) by (simp add: word_unat_eq_iff unat_mod_distrib)
  show "unat (LookupMaster c (key_name k)) = (unat k div unat (nodes_per_replica c)) mod unat (cc_replicas_size c)"
    using m u by simp
qed

section \<open>Aligning the start\<close>

text \<open>
  \<open>align_start\<close> gives the next multiple, if the sum does not wrap.
\<close>

lemma align_start_correct:
  fixes nparts rs :: uint32
  defines "N \<equiv> ucast (rs * nparts) :: uint64"
  assumes N0: "rs * nparts \<noteq> 0" and room: "unat s + unat N < 2 ^ 64"
  shows "align_start nparts rs s mod N = 0" "s \<le> align_start nparts rs s"
    "unat (align_start nparts rs s) < unat s + unat N"
proof -
  have N: "0 < unat N" using N0 by (simp add: N_def unat_gt_0)
  have lt: "unat s mod unat N < unat N" using N by simp
  have a: "unat (align_start nparts rs s)
      = (if unat s mod unat N = 0 then unat s else unat s + (unat N - unat s mod unat N))"
  proof (cases "s mod N = 0")
    case True
    then have "unat s mod unat N = 0" by (metis unat_0 unat_mod_distrib)
    with True show ?thesis by (simp add: align_start_def N_def)
  next
    case False
    then have nz: "unat s mod unat N \<noteq> 0" by (metis unat_eq_zero unat_mod_distrib)
    have "unat (N - s mod N) = unat N - unat s mod unat N"
      using N by (simp add: unat_sub word_le_nat_alt unat_mod_distrib)
    with False nz room show ?thesis
      by (simp add: align_start_def N_def [symmetric] unat_word_ariths)
  qed
  have "unat (align_start nparts rs s) mod unat N = 0"
  proof (cases "unat s mod unat N = 0")
    case False
    have "unat s + (unat N - unat s mod unat N) = unat N * (unat s div unat N) + unat N"
      using lt mult_div_mod_eq [of "unat N" "unat s"] by linarith
    with False show ?thesis by (simp add: a)
  qed (simp add: a)
  then show "align_start nparts rs s mod N = 0" by (metis unat_eq_zero unat_mod_distrib)
  show "s \<le> align_start nparts rs s" by (simp add: a word_le_nat_alt)
  show "unat (align_start nparts rs s) < unat s + unat N" using N by (simp add: a)
qed

section \<open>A fair sequence\<close>

text \<open>Counting modulo \<open>2^31\<close> is fair, so the hypothesis of the termination results can hold.\<close>

definition counting_rand :: rands where "counting_rand = siterate (\<lambda>v. v + 1) 0"

lemma funpow_Suc_word: "((\<lambda>v. v + 1) ^^ n) (a::'a::len word) = a + of_nat n"
  by (induction n) (simp_all add: algebra_simps)

lemma fair_counting_rand: "fair_rand counting_rand"
  unfolding fair_rand_def counting_rand_def
proof (intro allI)
  fix n and v :: rand_value
  let ?i = "n + unat (v - of_nat n)"
  have "siterate (\<lambda>v. v + 1) 0 !! ?i = v" by (simp add: funpow_Suc_word)
  then show "\<exists>i \<ge> n. siterate (\<lambda>v. v + 1) (0::rand_value) !! i = v" by (intro exI [of _ ?i]) simp
qed

section \<open>Termination of the choice of keys\<close>

lemma image_sset_sdrop: "f ` sset r = f ` set (stake n r) \<union> f ` sset (sdrop n r)"
  by (metis image_Un sset_shift stake_sdrop)

lemma fresh_keys_returns_iff:
  "fresh_keys n (drawG f) keys r \<noteq> None \<longleftrightarrow> n \<le> card (f ` sset r - set keys)"
proof (induction n arbitrary: keys r)
  case 0
  then show ?case by (simp add: returnG_def)
next
  case (Suc n)
  let ?rep = "repeat_until (drawG f) (\<lambda>key. key \<notin> set keys) r"
  show ?case
  proof (cases ?rep)
    case None
    then have "f ` sset r - set keys = {}"
      using repeat_until_terminates_iff [of f "\<lambda>key. key \<notin> set keys" r] by (auto simp: sset_range)
    then have "\<not> Suc n \<le> card (f ` sset r - set keys)" by (simp only: card.empty)
    moreover have "fresh_keys (Suc n) (drawG f) keys r = None" using None by (simp add: bindG_def)
    ultimately show ?thesis by blast
  next
    case (Some x)
    then obtain m where m: "x = Inr (f (r !! m), sdrop (Suc m) r)" "f (r !! m) \<notin> set keys"
      "\<forall>i < m. f (r !! i) \<in> set keys" using repeat_until_result by fastforce
    let ?k = "f (r !! m)" and ?s = "sdrop (Suc m) r"
    have "f ` set (stake m r) \<subseteq> set keys" using m(3) by (auto simp: set_conv_nth)
    moreover have "stake (Suc m) r = stake m r @ [r !! m]" by (rule stake_Suc)
    ultimately have "f ` sset r - set keys = insert ?k (f ` sset ?s - set (os_insert ?k keys))"
      using image_sset_sdrop [of f r "Suc m"] m(2) by auto
    moreover have "finite (f ` sset ?s)" by (rule finite_subset [of _ "range f"]) auto
    ultimately have "card (f ` sset r - set keys) = Suc (card (f ` sset ?s - set (os_insert ?k keys)))"
      by simp
    then show ?thesis using Suc.IH [of "os_insert ?k keys" ?s] Some m(1) by (simp add: bindG_def)
  qed
qed

text \<open>
  C34: \<open>GetRandomKeys\<close> returns exactly if the values that \<open>rand()\<close> will return
  hit at least as many different keys as are asked for; with fewer keys in the range it never returns.
\<close>

theorem GetRandomKeys_returns_iff:
  assumes "nparts \<noteq> 0" and "start mod ucast nparts = 0" and "(limit - start) div ucast nparts \<noteq> 0"
  shows "GetRandomKeys nparts num start limit part r \<noteq> None
    \<longleftrightarrow> unat num \<le> card ((\<lambda>v. start + part + ucast nparts * (ucast v mod ((limit - start) div ucast nparts))) ` sset r)"
  using assms fresh_keys_returns_iff [of "unat num" "\<lambda>v. start + part + ucast nparts * (ucast v mod ((limit - start) div ucast nparts))" "[]" r]
  by (simp add: GetRandomKeys_def definedG_def checkG_def rand_mod_drawG)

text \<open>With three partitions and the keys from 0 to 30, a constant \<open>rand()\<close> gives one key but not two.\<close>

lemma GetRandomKeys_returns_iff_witness:
  "GetRandomKeys 3 1 0 30 2 (sconst 7) \<noteq> None \<and> GetRandomKeys 3 2 0 30 2 (sconst 7) = None"
proof
  have "GetRandomKeys 3 1 0 30 2 (sconst 7) \<noteq> None
    \<longleftrightarrow> unat (1::uint32) \<le> card ((\<lambda>v. 0 + 2 + ucast (3::uint32) * (ucast v mod ((30 - 0) div ucast (3::uint32)))) ` sset (sconst (7::rand_value)) :: uint64 set)"
    by (rule GetRandomKeys_returns_iff) simp_all
  then show "GetRandomKeys 3 1 0 30 2 (sconst 7) \<noteq> None" by simp
  have "GetRandomKeys 3 2 0 30 2 (sconst 7) \<noteq> None
    \<longleftrightarrow> unat (2::uint32) \<le> card ((\<lambda>v. 0 + 2 + ucast (3::uint32) * (ucast v mod ((30 - 0) div ucast (3::uint32)))) ` sset (sconst (7::rand_value)) :: uint64 set)"
    by (rule GetRandomKeys_returns_iff) simp_all
  then show "GetRandomKeys 3 2 0 30 2 (sconst 7) = None" by simp
qed

end
