(* ===== verification/Microbenchmark.thy ===== *)
theory Microbenchmark
  imports Random_Keys Storage_Manager
begin

text \<open>
  \<open>applications/microbenchmark.h\<close> and \<open>applications/microbenchmark.cc\<close>: the six transaction
  generators, the execution of a transaction (with the bookkeeping that decides when a record is
  remastered, and the remaster transaction itself) and the initial load of a machine's storage. Not
  modelled: the busy wait at the end of \<open>Execute\<close>, which changes no state, and the log lines.
\<close>

section \<open>State\<close>

record microbenchmark =
  mb_nparts :: uint32
  mb_hot_records :: uint32
  mb_replica_size :: uint32
  mb_local_replica :: uint32

definition Microbenchmark_new :: "cluster_config \<Rightarrow> uint32 \<Rightarrow> microbenchmark" where
  "Microbenchmark_new conf hotcount =
     \<lparr>mb_nparts = ucast (nodes_per_replica conf), mb_hot_records = hotcount,
      mb_replica_size = cc_replicas_size conf, mb_local_replica = cc_local_replica conf\<rparr>"

definition kRWSetSize :: uint32 where "kRWSetSize = 10"
definition kDBSize :: uint64 where "kDBSize = 10000000"
definition kRecordSize :: uint32 where "kRecordSize = 100"

definition MICROTXN_SP :: uint32 where "MICROTXN_SP = 1"
definition MICROTXN_MP :: uint32 where "MICROTXN_MP = 2"

section \<open>Parts of the generators\<close>

text \<open>\<open>part + nparts * (rand() % hot_records)\<close>: the product is a \<open>uint32\<close>, the sum a \<open>uint64\<close>.\<close>

definition hot_key :: "microbenchmark \<Rightarrow> uint64 \<Rightarrow> uint64 gen" where
  "hot_key mb part = mapG (\<lambda>x. part + ucast (mb_nparts mb * x)) (rand_mod (mb_hot_records mb))"

text \<open>\<open>(rand() % (hot_records/replica_size)) * replica_size + replica\<close>, in \<open>uint32\<close>.\<close>

definition hot_order :: "microbenchmark \<Rightarrow> uint32 \<Rightarrow> uint64 gen" where
  "hot_order mb replica =
     definedG (mb_replica_size mb \<noteq> 0)
       (mapG (\<lambda>x. ucast (x * mb_replica_size mb + replica))
         (rand_mod (mb_hot_records mb div mb_replica_size mb)))"

definition order_key :: "microbenchmark \<Rightarrow> uint64 \<Rightarrow> uint64 \<Rightarrow> uint64" where
  "order_key mb part hotkey_order = part + ucast (mb_nparts mb) * hotkey_order"

text \<open>The cold keys, between \<open>nparts * hot_records\<close> (a \<open>uint32\<close>) and \<open>nparts * kDBSize\<close> (a \<open>uint64\<close>).\<close>

definition cold_keys :: "microbenchmark \<Rightarrow> uint32 \<Rightarrow> uint64 \<Rightarrow> uint64 list gen" where
  "cold_keys mb num part =
     GetRandomKeys (mb_nparts mb) num (ucast (mb_nparts mb * mb_hot_records mb))
       (ucast (mb_nparts mb) * kDBSize) part"

text \<open>A remainder by \<open>replica_size * nparts\<close> precedes the call, and is undefined for zero.\<close>

definition cold_keys_replica :: "microbenchmark \<Rightarrow> uint32 \<Rightarrow> uint64 \<Rightarrow> uint32 \<Rightarrow> uint64 list gen" where
  "cold_keys_replica mb num part replica =
     definedG (mb_replica_size mb * mb_nparts mb \<noteq> 0)
       (GetRandomKeysReplica (mb_nparts mb) (mb_replica_size mb) num
         (align_start (mb_nparts mb) (mb_replica_size mb) (ucast (mb_nparts mb * mb_hot_records mb)))
         (ucast (mb_nparts mb) * kDBSize) part replica)"

definition new_txn :: "int64 \<Rightarrow> uint32 \<Rightarrow> txn_proto" where
  "new_txn txn_id txn_type = TxnProto_new\<lparr>tx_txn_id := txn_id, tx_txn_type := txn_type\<rparr>"

definition mark_fake :: "uint32 \<Rightarrow> uint32 \<Rightarrow> txn_proto \<Rightarrow> txn_proto" where
  "mark_fake replica1 replica2 txn =
     (if replica1 \<noteq> 0 \<and> replica2 \<noteq> 0 then txn\<lparr>tx_fake_txn := True\<rparr> else txn)"

section \<open>The generators\<close>

definition MicroTxnSP :: "microbenchmark \<Rightarrow> int64 \<Rightarrow> uint64 \<Rightarrow> txn_proto gen" where
  "MicroTxnSP mb txn_id part =
     bindG (hot_key mb part) (\<lambda>hotkey1.
     bindG (repeat_until (hot_key mb part) (\<lambda>hotkey2. hotkey2 \<noteq> hotkey1)) (\<lambda>hotkey2.
     bindG (cold_keys mb (kRWSetSize - 2) part) (\<lambda>keys.
     returnG (fold (add_read_write 0) ([hotkey1, hotkey2] @ keys) (new_txn txn_id MICROTXN_SP)))))"

definition MicroTxnMP :: "microbenchmark \<Rightarrow> int64 \<Rightarrow> uint64 \<Rightarrow> uint64 \<Rightarrow> txn_proto gen" where
  "MicroTxnMP mb txn_id part1 part2 =
     checkG (part1 \<noteq> part2 \<or> mb_nparts mb = 1)
      (bindG (hot_key mb part1) (\<lambda>hotkey1.
       bindG (hot_key mb part2) (\<lambda>hotkey2.
       bindG (cold_keys mb (kRWSetSize div 2 - 1) part1) (\<lambda>keys1.
       bindG (cold_keys mb (kRWSetSize div 2 - 1) part2) (\<lambda>keys2.
       returnG (fold (add_read_write 0) ([hotkey1, hotkey2] @ keys1 @ keys2)
         (new_txn txn_id MICROTXN_MP)))))))"

definition MicroTxnSRSP :: "microbenchmark \<Rightarrow> int64 \<Rightarrow> uint64 \<Rightarrow> uint32 \<Rightarrow> txn_proto gen" where
  "MicroTxnSRSP mb txn_id part replica =
     bindG (hot_order mb replica) (\<lambda>hotkey_order1.
     bindG (repeat_until (hot_order mb replica) (\<lambda>hotkey_order2. hotkey_order2 \<noteq> hotkey_order1)) (\<lambda>hotkey_order2.
     let hotkey1 = order_key mb part hotkey_order1; hotkey2 = order_key mb part hotkey_order2
     in bindG (cold_keys_replica mb (kRWSetSize - 2) part replica) (\<lambda>keys.
        returnG (fold (add_read_write replica) ([hotkey1, hotkey2] @ keys) (new_txn txn_id MICROTXN_SP)))))"

definition MicroTxnSRMP :: "microbenchmark \<Rightarrow> int64 \<Rightarrow> uint64 \<Rightarrow> uint64 \<Rightarrow> uint32 \<Rightarrow> txn_proto gen" where
  "MicroTxnSRMP mb txn_id part1 part2 replica =
     checkG (part1 \<noteq> part2 \<or> mb_nparts mb = 1)
      (bindG (hot_order mb replica) (\<lambda>hotkey_order1.
       bindG (hot_order mb replica) (\<lambda>hotkey_order2.
       let hotkey1 = order_key mb part1 hotkey_order1; hotkey2 = order_key mb part2 hotkey_order2
       in bindG (cold_keys_replica mb (kRWSetSize div 2 - 1) part1 replica) (\<lambda>keys1.
          bindG (cold_keys_replica mb (kRWSetSize div 2 - 1) part2 replica) (\<lambda>keys2.
          returnG (fold (add_read_write replica) ([hotkey1, hotkey2] @ keys1 @ keys2)
            (new_txn txn_id MICROTXN_MP)))))))"

text \<open>The smaller replica comes first.\<close>

definition MicroTxnMRSP :: "microbenchmark \<Rightarrow> int64 \<Rightarrow> uint64 \<Rightarrow> uint32 \<Rightarrow> uint32 \<Rightarrow> txn_proto gen" where
  "MicroTxnMRSP mb txn_id part r1 r2 =
     checkG (r1 \<noteq> r2)
      (let (replica1, replica2) = (if r1 > r2 then (r2, r1) else (r1, r2));
           txn = mark_fake replica1 replica2 (new_txn txn_id MICROTXN_SP)
       in bindG (hot_order mb replica1) (\<lambda>hotkey_order1.
          bindG (hot_order mb replica2) (\<lambda>hotkey_order2.
          let hotkey1 = order_key mb part hotkey_order1; hotkey2 = order_key mb part hotkey_order2
          in bindG (cold_keys_replica mb (kRWSetSize div 2 - 1) part replica1) (\<lambda>keys1.
             bindG (cold_keys_replica mb (kRWSetSize div 2 - 1) part replica2) (\<lambda>keys2.
             returnG (fold (add_read_write replica2) keys2 (fold (add_read_write replica1) keys1
               (add_read_write replica2 hotkey2 (add_read_write replica1 hotkey1 txn)))))))))"

text \<open>Here the partitions are swapped with the replicas.\<close>

definition MicroTxnMRMP ::
  "microbenchmark \<Rightarrow> int64 \<Rightarrow> uint64 \<Rightarrow> uint64 \<Rightarrow> uint32 \<Rightarrow> uint32 \<Rightarrow> txn_proto gen" where
  "MicroTxnMRMP mb txn_id p1 p2 r1 r2 =
     checkG (p1 \<noteq> p2 \<or> mb_nparts mb = 1)
      (let (replica1, replica2, part1, part2) = (if r1 > r2 then (r2, r1, p2, p1) else (r1, r2, p1, p2));
           txn = mark_fake replica1 replica2 (new_txn txn_id MICROTXN_MP)
       in bindG (hot_order mb replica1) (\<lambda>hotkey_order1.
          bindG (hot_order mb replica2) (\<lambda>hotkey_order2.
          let hotkey1 = order_key mb part1 hotkey_order1; hotkey2 = order_key mb part2 hotkey_order2
          in bindG (cold_keys_replica mb (kRWSetSize div 2 - 1) part1 replica1) (\<lambda>keys1.
             bindG (cold_keys_replica mb (kRWSetSize div 2 - 1) part2 replica2) (\<lambda>keys2.
             returnG (fold (add_read_write replica2) keys2 (fold (add_read_write replica1) keys1
               (add_read_write replica2 hotkey2 (add_read_write replica1 hotkey1 txn)))))))))"

section \<open>Execution\<close>

text \<open>
  \<open>(val->value)[j] + 1 > 'z'\<close> compares as \<open>int\<close>, after extending the sign of the \<open>char\<close>. Writing one
  of the first eight characters of a shorter value is undefined.
\<close>

definition next_char :: "char \<Rightarrow> char" where
  "next_char ch = (if 122 < sint (of_char ch :: uint8) + 1 then CHR ''a''
     else char_of (unat (of_char ch + 1 :: uint8)))"

definition advance_value :: "string \<Rightarrow> string outcome" where
  "advance_value v = require_defined (8 \<le> length v) (Inr (map next_char (take 8 v) @ drop 8 v))"

text \<open>
  The access statistics of a record that is mastered here: \<open>access_pattern[client] / (LAST_N_TOUCH*1.0) >
  0.90\<close> is, for an integer, more than 9000. The second component says that a remaster transaction
  has to be sent.
\<close>

definition over_threshold :: "uint32 \<Rightarrow> bool" where
  "over_threshold n \<longleftrightarrow> 9000 < n"

definition touch :: "uint32 \<Rightarrow> uint32 \<Rightarrow> db_record \<Rightarrow> (db_record \<times> bool) outcome" where
  "touch local client val =
     require_defined (unat client < length (rec_access_pattern val))
      (let pattern = (rec_access_pattern val)[unat client := rec_access_pattern val ! unat client + 1];
           remaster = (client \<noteq> local \<and> over_threshold (pattern ! unat client));
           cnt = rec_access_cnt val + 1;
           val' = val\<lparr>rec_remastering := (rec_remastering val \<or> remaster)\<rparr>
       in Inr (if cnt > LAST_N_TOUCH
               then val'\<lparr>rec_access_pattern := replicate REPLICA_SIZE 0, rec_access_cnt := 0\<rparr>
               else val'\<lparr>rec_access_pattern := pattern, rec_access_cnt := cnt\<rparr>, remaster))"

text \<open>The transaction that moves a record to the replica of the client, sent to the own sequencer.\<close>

definition remaster_txn :: "uint64 \<Rightarrow> uint32 \<Rightarrow> txn_proto \<Rightarrow> string \<Rightarrow> db_record \<Rightarrow> txn_proto" where
  "remaster_txn guid local txn key val = TxnProto_new
     \<lparr>tx_txn_id := guid,
      tx_read_write_set := [\<lparr>ke_key = key, ke_master = rec_master val, ke_counter = rec_counter val\<rparr>],
      tx_remaster_txn := True, tx_remaster_from := local, tx_remaster_to := tx_client_replica txn,
      tx_involved_replicas := [local]\<rparr>"

definition remaster_message :: "'b codec \<Rightarrow> cluster_config \<Rightarrow> txn_proto \<Rightarrow> 'b message_proto" where
  "remaster_message cd c txn = MessageProto_new
     \<lparr>msg_destination_channel := ''sequencer_txn_receive_'', msg_type := TXN_FORWORD,
      msg_destination_node := cc_local_node_id c, msg_data := [enc_txn cd txn]\<rparr>"

text \<open>
  The state of an execution: the storage manager, the records, the configuration (for its unique
  ids) and the messages sent.
\<close>

type_synonym 'b exec_state = "'b storage_manager \<times> rec_heap \<times> cluster_config \<times> 'b message_proto list"

definition deref :: "rec_ptr option \<Rightarrow> rec_ptr outcome" where
  "deref po = (case po of None \<Rightarrow> Inl Undefined_behaviour | Some p \<Rightarrow> Inr p)"

definition execute_remaster :: "microbenchmark \<Rightarrow> txn_proto \<Rightarrow> 'b exec_state \<Rightarrow> 'b exec_state outcome" where
  "execute_remaster mb txn st =
     (let (sm, h, c, sent) = st
      in bindE (rep_get (tx_read_write_set txn) 0) (\<lambda>ke.
         let (po, sm') = SM_ReadObject (ke_key ke) sm
         in bindE (deref po) (\<lambda>p. bindE (heap_get h p) (\<lambda>val.
            CHECK (ke_master ke = rec_master val)
             (CHECK (ke_counter ke = rec_counter val)
               (bindE (heap_modify p (\<lambda>v. v
                  \<lparr>rec_master := tx_remaster_to txn, rec_counter := ke_counter ke + 1,
                   rec_remastering := (if mb_local_replica mb = tx_remaster_from txn then False
                                       else rec_remastering v)\<rparr>) h) (\<lambda>h'.
                Inr (sm', h', c, sent))))))))"

text \<open>One round of the loop over the read/write set.\<close>

definition counts_access :: "microbenchmark \<Rightarrow> 'b storage_manager \<Rightarrow> db_record \<Rightarrow> bool" where
  "counts_access mb sm val \<longleftrightarrow>
     sm_mode sm = 2 \<and> mb_local_replica mb = rec_master val \<and> \<not> rec_remastering val"

definition execute_entry ::
  "'b codec \<Rightarrow> microbenchmark \<Rightarrow> txn_proto \<Rightarrow> nat \<Rightarrow> 'b exec_state \<Rightarrow> 'b exec_state outcome" where
  "execute_entry cd mb txn i st =
     (let (sm, h, c, sent) = st
      in bindE (rep_get (tx_read_write_set txn) i) (\<lambda>ke.
         let (po, sm') = SM_ReadObject (ke_key ke) sm
         in bindE (deref po) (\<lambda>p. bindE (heap_get h p) (\<lambda>val.
            bindE (if counts_access mb sm' val then touch (mb_local_replica mb) (tx_client_replica txn) val
                   else Inr (val, False)) (\<lambda>(val', remaster).
            bindE (advance_value (rec_value val')) (\<lambda>v.
            let (c', sent') =
                  (if remaster
                   then let (guid, c') = GetGUID c
                        in (c', sent @ [remaster_message cd c'
                              (remaster_txn guid (mb_local_replica mb) txn (ke_key ke) val)])
                   else (c, sent))
            in bindE (heap_modify p (\<lambda>_. val'\<lparr>rec_value := v\<rparr>) h) (\<lambda>h'. Inr (sm', h', c', sent'))))))))"

definition Execute :: "'b codec \<Rightarrow> microbenchmark \<Rightarrow> txn_proto \<Rightarrow> 'b exec_state \<Rightarrow> 'b exec_state outcome" where
  "Execute cd mb txn st =
     (if tx_remaster_txn txn then execute_remaster mb txn st
      else foldE (execute_entry cd mb txn) [0..<unat kRWSetSize] st)"

section \<open>The initial load\<close>

text \<open>\<open>kRecordSize - 1\<close> random letters; the string ends at the null character that follows them.\<close>

definition random_letter :: "char gen" where
  "random_letter = drawG (\<lambda>v. char_of (unat (v mod 26 + 97)))"

fun random_letters :: "nat \<Rightarrow> string gen" where
  "random_letters 0 = returnG []"
| "random_letters (Suc n) =
     bindG random_letter (\<lambda>ch. bindG (random_letters n) (\<lambda>s. returnG (ch # s)))"

definition load_key :: "cluster_config \<Rightarrow> string \<Rightarrow> uint64 \<Rightarrow> simple_storage \<times> rec_heap \<Rightarrow> simple_storage \<times> rec_heap" where
  "load_key conf value i sh =
     (if LookupPartition conf (key_name i) = cc_relative_node_id conf
      then load_entry (key_name i, Record_new value (LookupMaster conf (key_name i))) sh
      else sh)"

definition InitializeStorage ::
  "microbenchmark \<Rightarrow> cluster_config \<Rightarrow> simple_storage \<times> rec_heap \<Rightarrow> (simple_storage \<times> rec_heap) gen" where
  "InitializeStorage mb conf sh =
     bindG (random_letters (unat kRecordSize - 1)) (\<lambda>int_buffer.
       returnG (fold (load_key conf int_buffer)
         (map of_nat [0..<unat (ucast (mb_nparts mb) * kDBSize)]) sh))"

text \<open>\<open>NewTxn\<close>, which the load generators do not use, returns a null pointer.\<close>

definition NewTxn :: "int64 \<Rightarrow> int32 \<Rightarrow> string \<Rightarrow> cluster_config option \<Rightarrow> txn_proto option" where
  "NewTxn txn_id txn_type args config = None"

section \<open>The key space\<close>

text \<open>
  The sizes for which the generators work. The third bound keeps every key below \<open>2^31\<close>, so that it
  survives the conversion to \<open>int\<close> when it is printed (at most 214 nodes per replica); the others leave
  enough hot and cold keys for each replica.
\<close>

definition micro_ok :: "cluster_config \<Rightarrow> uint32 \<Rightarrow> bool" where
  "micro_ok c hot \<longleftrightarrow> config_ok c
     \<and> unat (nodes_per_replica c) * 10000000 \<le> 2 ^ 31
     \<and> 2 * unat (cc_replicas_size c) \<le> unat hot
     \<and> unat hot + 9 * unat (cc_replicas_size c) \<le> 10000000"

definition hot_end :: "cluster_config \<Rightarrow> uint32 \<Rightarrow> uint64" where
  "hot_end c hot = nodes_per_replica c * ucast hot"

definition db_end :: "cluster_config \<Rightarrow> uint64" where
  "db_end c = nodes_per_replica c * kDBSize"

lemma Microbenchmark_new_simps [simp]:
  "mb_hot_records (Microbenchmark_new c hot) = hot"
  "mb_replica_size (Microbenchmark_new c hot) = cc_replicas_size c"
  "mb_local_replica (Microbenchmark_new c hot) = cc_local_replica c"
  by (simp_all add: Microbenchmark_new_def)

lemma micro_sizes:
  assumes "micro_ok c hot"
  defines "N \<equiv> unat (nodes_per_replica c)" and "R \<equiv> unat (cc_replicas_size c)" and "H \<equiv> unat hot"
  shows "0 < N" "0 < R" "2 * R \<le> H" "H + 9 * R \<le> 10000000" "N \<le> 214"
    "unat (mb_nparts (Microbenchmark_new c hot)) = N" "N * H < 2 ^ 32" "N * R < 2 ^ 32"
    "N * H + N * R < 2 ^ 32" "R \<le> 1000000"
proof -
  show N: "0 < N" and "0 < R" and "2 * R \<le> H" and HR: "H + 9 * R \<le> 10000000" and n: "N \<le> 214"
    using assms by (auto simp: micro_ok_def config_ok_def unat_gt_0)
  have le: "N * x \<le> 214 * 10000000" if "x \<le> 10000000" for x using n that by (intro mult_le_mono)
  show "N * H < 2 ^ 32" "N * R < 2 ^ 32" using le [of H] le [of R] HR by auto
  have "N * (H + R) \<le> 214 * 10000000" using HR by (intro le) auto
  then show "N * H + N * R < 2 ^ 32" by (simp add: algebra_simps)
  show "unat (mb_nparts (Microbenchmark_new c hot)) = N"
    using n by (simp add: Microbenchmark_new_def N_def unsigned_ucast_eq take_bit_nat_eq_self)
  show "R \<le> 1000000" using HR \<open>2 * R \<le> H\<close> by linarith
qed

lemma micro_nparts:
  assumes "micro_ok c hot"
  shows "ucast (mb_nparts (Microbenchmark_new c hot)) = nodes_per_replica c"
    and "mb_nparts (Microbenchmark_new c hot) \<noteq> 0"
  using micro_sizes(1,6) [OF assms] by (simp_all add: word_unat_eq_iff)

lemma micro_ends:
  assumes "micro_ok c hot"
  shows "ucast (mb_nparts (Microbenchmark_new c hot) * hot) = hot_end c hot"
    and "unat (hot_end c hot) = unat (nodes_per_replica c) * unat hot"
    and "unat (db_end c) = unat (nodes_per_replica c) * 10000000"
    and "hot_end c hot \<le> db_end c"
    and "unat (db_end c) \<le> 2 ^ 31"
proof -
  note s = micro_sizes [OF assms]
  show h: "unat (hot_end c hot) = unat (nodes_per_replica c) * unat hot"
    using s(7) by (simp add: hot_end_def unat_word_ariths)
  show d: "unat (db_end c) = unat (nodes_per_replica c) * 10000000"
    using s(5) by (simp add: db_end_def kDBSize_def unat_word_ariths)
  show "ucast (mb_nparts (Microbenchmark_new c hot) * hot) = hot_end c hot"
    using s(6,7) h by (simp add: word_unat_eq_iff unat_word_ariths)
  show "hot_end c hot \<le> db_end c" using s(4) by (simp add: word_le_nat_alt h d)
  show "unat (db_end c) \<le> 2 ^ 31" using assms by (simp add: d micro_ok_def)
qed

section \<open>Hot keys\<close>

lemma hot_key_gen_ok:
  assumes m: "micro_ok c hot" and part: "part < nodes_per_replica c"
  defines "mb \<equiv> Microbenchmark_new c hot"
  shows "hot_key mb part = drawG (\<lambda>v. part + ucast (mb_nparts mb * (ucast v mod hot)))"
    and "gen_ok (hot_key mb part) (\<lambda>k. keys_in 0 (hot_end c hot) (nodes_per_replica c) part [k])"
    and "x < hot \<Longrightarrow> unat (part + ucast (mb_nparts mb * x)) = unat part + unat (nodes_per_replica c) * unat x"
proof -
  note s = micro_sizes [OF m]
  have hot: "hot \<noteq> 0" using s(2,3) by auto
  then show d: "hot_key mb part = drawG (\<lambda>v. part + ucast (mb_nparts mb * (ucast v mod hot)))"
    by (simp add: hot_key_def mb_def rand_mod_drawG)
  have key: "unat (part + ucast (mb_nparts mb * x)) = unat part + unat (nodes_per_replica c) * unat x
      \<and> unat part + unat (nodes_per_replica c) * unat x < unat (hot_end c hot)" if "x < hot" for x
  proof -
    let ?N = "unat (nodes_per_replica c)"
    have "unat part + ?N * unat x < ?N * Suc (unat x)" using part by (simp add: word_less_nat_alt)
    also have "\<dots> \<le> ?N * unat hot" using that by (intro mult_le_mono2) (simp add: word_less_nat_alt)
    finally have lt: "unat part + ?N * unat x < ?N * unat hot" .
    with s(7) have "unat (mb_nparts mb * x) = ?N * unat x" by (simp add: unat_word_ariths s(6) mb_def)
    with lt s(7) show ?thesis by (simp add: unat_word_ariths micro_ends(2) [OF m])
  qed
  then show "x < hot \<Longrightarrow> unat (part + ucast (mb_nparts mb * x)) = unat part + unat (nodes_per_replica c) * unat x"
    by blast
  show "gen_ok (hot_key mb part) (\<lambda>k. keys_in 0 (hot_end c hot) (nodes_per_replica c) part [k])"
    unfolding d
  proof (rule gen_ok_drawG)
    fix v :: rand_value
    have "ucast v mod hot < hot" using hot by (rule word_mod_less)
    from key [OF this] show "keys_in 0 (hot_end c hot) (nodes_per_replica c) part
        [part + ucast (mb_nparts mb * (ucast v mod hot))]"
      using part by (simp add: keys_in_def key_set_def word_less_nat_alt)
  qed
qed

lemma hot_key_retry_gen_ok:
  assumes m: "micro_ok c hot" and part: "part < nodes_per_replica c"
  shows "gen_ok (repeat_until (hot_key (Microbenchmark_new c hot) part) (\<lambda>k. k \<noteq> h))
    (\<lambda>k. k \<noteq> h \<and> keys_in 0 (hot_end c hot) (nodes_per_replica c) part [k])"
proof -
  let ?f = "\<lambda>v::rand_value. part + ucast (mb_nparts (Microbenchmark_new c hot) * (ucast v mod hot))"
  note hk = hot_key_gen_ok [OF m part] and s = micro_sizes [OF m]
  have "1 < unat hot" using s(2,3) by linarith
  then have "0 < hot" "1 < hot" "(ucast (0::rand_value) mod hot) = 0" "(ucast (1::rand_value) mod hot) = 1"
    by (auto simp: word_less_nat_alt word_unat_eq_iff unat_mod_distrib)
  then have "unat (?f 0) \<noteq> unat (?f 1)" using s(1) hk(3) [of 0] hk(3) [of 1] by simp
  then obtain v where "?f v \<noteq> h" by metis
  then show ?thesis using gen_ok_retry [of ?f _ "\<lambda>k. k \<noteq> h"] hk(2) by (simp add: hk(1))
qed

definition order_ok :: "cluster_config \<Rightarrow> uint32 \<Rightarrow> uint32 \<Rightarrow> uint64 \<Rightarrow> bool" where
  "order_ok c hot replica o' \<longleftrightarrow> unat o' < unat hot \<and> unat o' mod unat (cc_replicas_size c) = unat replica"

lemma hot_order_gen_ok:
  assumes m: "micro_ok c hot" and rep: "replica < cc_replicas_size c"
  defines "mb \<equiv> Microbenchmark_new c hot" and "R \<equiv> cc_replicas_size c"
  shows "hot_order mb replica = drawG (\<lambda>v. ucast (ucast v mod (hot div R) * R + replica))"
    and "gen_ok (hot_order mb replica) (order_ok c hot replica)"
    and "x < hot div R \<Longrightarrow> unat (ucast (x * R + replica) :: uint64) = unat x * unat R + unat replica"
    and "2 \<le> unat (hot div R)"
proof -
  note s = micro_sizes [OF m, folded R_def]
  have q: "2 \<le> unat hot div unat R"
    using s(2,3) by (metis div_le_mono nonzero_mult_div_cancel_right not_gr_zero)
  then show two: "2 \<le> unat (hot div R)" by (simp add: unat_div_distrib)
  then have nz: "hot div R \<noteq> 0" "R \<noteq> 0" using s(2) by auto
  then show d: "hot_order mb replica = drawG (\<lambda>v. ucast (ucast v mod (hot div R) * R + replica))"
    by (simp add: hot_order_def mb_def R_def rand_mod_drawG definedG_def)
  have key: "unat (ucast (x * R + replica) :: uint64) = unat x * unat R + unat replica
      \<and> unat x * unat R + unat replica < unat hot" if "x < hot div R" for x
  proof -
    have "unat x * unat R + unat replica < Suc (unat x) * unat R"
      using rep by (simp add: R_def word_less_nat_alt)
    also have "\<dots> \<le> (unat hot div unat R) * unat R"
      using that by (intro mult_le_mono1) (simp add: word_less_nat_alt unat_div_distrib)
    also have "\<dots> \<le> unat hot" by simp
    finally have lt: "unat x * unat R + unat replica < unat hot" .
    moreover have "unat hot < 2 ^ 32" using unsigned_less [of hot] by simp
    ultimately have "unat x * unat R + unat replica < 2 ^ 32" by linarith
    with lt show ?thesis by (simp add: unat_word_ariths)
  qed
  then show "x < hot div R \<Longrightarrow> unat (ucast (x * R + replica) :: uint64) = unat x * unat R + unat replica"
    by blast
  show "gen_ok (hot_order mb replica) (order_ok c hot replica)"
    unfolding d
  proof (rule gen_ok_drawG)
    fix v :: rand_value
    have "ucast v mod (hot div R) < hot div R" using nz(1) by (rule word_mod_less)
    from key [OF this] rep show "order_ok c hot replica (ucast (ucast v mod (hot div R) * R + replica))"
      unfolding order_ok_def R_def [symmetric]
      by (simp add: R_def [symmetric] word_less_nat_alt)
  qed
qed

lemma hot_order_retry_gen_ok:
  assumes m: "micro_ok c hot" and rep: "replica < cc_replicas_size c"
  shows "gen_ok (repeat_until (hot_order (Microbenchmark_new c hot) replica) (\<lambda>o2. o2 \<noteq> o1))
    (\<lambda>o2. o2 \<noteq> o1 \<and> order_ok c hot replica o2)"
proof -
  let ?R = "cc_replicas_size c"
  let ?f = "\<lambda>v::rand_value. ucast (ucast v mod (hot div ?R) * ?R + replica) :: uint64"
  note ho = hot_order_gen_ok [OF m rep] and s = micro_sizes [OF m]
  have "0 < hot div ?R" "1 < hot div ?R" "(ucast (0::rand_value) mod (hot div ?R)) = 0"
    "(ucast (1::rand_value) mod (hot div ?R)) = 1"
    using ho(4) by (auto simp: word_less_nat_alt word_unat_eq_iff unat_mod_distrib)
  then have "unat (?f 0) \<noteq> unat (?f 1)" using s(2) ho(3) [of 0] ho(3) [of 1] by simp
  then obtain v where "?f v \<noteq> o1" by metis
  then show ?thesis using gen_ok_retry [of ?f _ "\<lambda>k. k \<noteq> o1"] ho(2) by (simp add: ho(1))
qed

text \<open>The keys of a replica in a partition, as \<open>replica_keys\<close> for this configuration.\<close>

abbreviation home_keys ::
  "cluster_config \<Rightarrow> uint32 \<Rightarrow> uint64 \<Rightarrow> uint64 \<Rightarrow> uint64 \<Rightarrow> uint32 \<Rightarrow> uint64 list \<Rightarrow> bool" where
  "home_keys c hot start limit part replica ks \<equiv>
     replica_keys start limit (mb_nparts (Microbenchmark_new c hot)) (cc_replicas_size c) part replica ks"

lemma order_key_home:
  assumes m: "micro_ok c hot" and part: "part < nodes_per_replica c" and o: "order_ok c hot replica o1"
  defines "mb \<equiv> Microbenchmark_new c hot"
  shows "unat (order_key mb part o1) = unat part + unat (nodes_per_replica c) * unat o1"
    and "home_keys c hot 0 (hot_end c hot) part replica [order_key mb part o1]"
proof -
  note s = micro_sizes [OF m]
  let ?N = "unat (nodes_per_replica c)"
  have p: "unat part < ?N" using part by (simp add: word_less_nat_alt)
  then have "unat part + ?N * unat o1 < ?N * Suc (unat o1)" by simp
  also have "\<dots> \<le> ?N * unat hot" using o by (intro mult_le_mono2) (simp add: order_ok_def)
  finally have lt: "unat part + ?N * unat o1 < ?N * unat hot" .
  with s(7) show u: "unat (order_key mb part o1) = unat part + ?N * unat o1"
    by (simp add: order_key_def mb_def micro_nparts(1) [OF m] unat_word_ariths)
  show "home_keys c hot 0 (hot_end c hot) part replica [order_key mb part o1]"
    using lt p o
    by (simp add: replica_keys_def keys_in_def key_set_def word_less_nat_alt u micro_ends(2) [OF m] s(6)
        micro_nparts(1) [OF m] order_ok_def)
qed

section \<open>Cold keys\<close>

lemma cold_keys_gen_ok:
  assumes m: "micro_ok c hot" and part: "part < nodes_per_replica c" and num: "0 < num" "num \<le> 8"
  shows "gen_ok (cold_keys (Microbenchmark_new c hot) num part)
    (\<lambda>ks. keys_in (hot_end c hot) (db_end c) (nodes_per_replica c) part ks \<and> length ks = unat num)"
proof -
  note s = micro_sizes [OF m] and e = micro_ends [OF m] and n = micro_nparts [OF m]
  have room: "unat ((db_end c - hot_end c hot) div nodes_per_replica c) = 10000000 - unat hot"
    using s(1) e(4) by (simp add: unat_div_distrib unat_sub e(2,3) diff_mult_distrib2 [symmetric])
  have "hot_end c hot mod nodes_per_replica c = 0"
    by (simp add: word_unat_eq_iff unat_mod_distrib e(2))
  moreover have "unat num \<le> 8" using num(2) by (simp add: word_le_nat_alt)
  ultimately show ?thesis
    using GetRandomKeys_gen_ok [OF n(2), of "hot_end c hot" part "db_end c" num] part e(4) num(1) s(2,4)
    by (simp add: cold_keys_def e(1) n(1) db_end_def [symmetric] room)
qed

lemma cold_keys_replica_gen_ok:
  assumes m: "micro_ok c hot" and part: "part < nodes_per_replica c" and rep: "replica < cc_replicas_size c"
    and num: "0 < num" "num \<le> 8"
  shows "gen_ok (cold_keys_replica (Microbenchmark_new c hot) num part replica)
    (\<lambda>ks. home_keys c hot (hot_end c hot) (db_end c) part replica ks \<and> length ks = unat num)"
proof -
  note s = micro_sizes [OF m] and e = micro_ends [OF m] and n = micro_nparts [OF m]
  let ?np = "mb_nparts (Microbenchmark_new c hot)" and ?R = "cc_replicas_size c"
  let ?N = "unat (nodes_per_replica c)"
  let ?s = "align_start ?np ?R (hot_end c hot)"
  have prod: "unat (?R * ?np) = ?N * unat ?R" using s(6,8) by (simp add: unat_word_ariths mult.commute)
  have nz: "?R * ?np \<noteq> 0"
  proof
    assume "?R * ?np = 0"
    then have "unat (?R * ?np) = 0" by simp
    with prod s(1,2) show False by simp
  qed
  have "unat (hot_end c hot) + unat (ucast (?R * ?np) :: uint64) < 2 ^ 64"
    using s(9) by (simp add: prod e(2))
  note al = align_start_correct [OF nz this]
  have "unat ?s < ?N * unat hot + ?N * unat ?R" using al(3) by (simp add: prod e(2))
  moreover have "?N * (unat hot + unat ?R + 8 * unat ?R) \<le> ?N * 10000000"
    using s(4) by (intro mult_le_mono2) simp
  ultimately have room: "unat ?s + 8 * (?N * unat ?R) \<le> unat (db_end c)" by (simp add: e(3) algebra_simps)
  have le: "?s \<le> db_end c" using room by (simp add: word_le_nat_alt)
  have "8 * (?N * unat ?R) \<le> unat (db_end c) - unat ?s" using room by simp
  then have "8 \<le> (unat (db_end c) - unat ?s) div (?N * unat ?R)"
    using s(1,2) by (simp add: less_eq_div_iff_mult_less_eq)
  then have "unat num \<le> unat ((db_end c - ?s) div ucast (?np * ?R))"
    using num(2) le prod by (simp add: unat_div_distrib unat_sub word_le_nat_alt mult.commute [of ?np])
  moreover have "unat num \<le> 8" using num(2) by (simp add: word_le_nat_alt)
  moreover have "unat ?np * unat ?R < 2 ^ 32" using s(6,8) by simp
  ultimately have g: "gen_ok (GetRandomKeysReplica ?np ?R num ?s (db_end c) part replica)
      (\<lambda>ks. home_keys c hot ?s (db_end c) part replica ks \<and> length ks = unat num)"
    using n part rep num(1) al(1) le
    by (intro GetRandomKeysReplica_gen_ok) (simp_all add: mult.commute [of ?np])
  show ?thesis
    unfolding cold_keys_replica_def Microbenchmark_new_simps e(1) n(1) db_end_def [symmetric]
  proof (rule gen_ok_definedG [OF nz], rule gen_ok_mono [OF g])
    fix ks assume "home_keys c hot ?s (db_end c) part replica ks \<and> length ks = unat num"
    then show "home_keys c hot (hot_end c hot) (db_end c) part replica ks \<and> length ks = unat num"
      using replica_keys_weaken al(2) by blast
  qed
qed

section \<open>What the generators return\<close>

text \<open>
  A generated transaction reads and writes ten distinct keys. \<open>homes\<close> is where its keys live, by the
  lookups of the cluster configuration; in the transactions of the low-latency mode every entry
  already names that master, with counter 0.
\<close>

definition homes :: "cluster_config \<Rightarrow> txn_proto \<Rightarrow> (uint64 \<times> uint32) set" where
  "homes c t = (\<lambda>e. (LookupPartition c (ke_key e), LookupMaster c (ke_key e))) ` set (txn_entries t)"

definition masters_known :: "cluster_config \<Rightarrow> txn_proto \<Rightarrow> bool" where
  "masters_known c t \<longleftrightarrow> (\<forall>e \<in> set (txn_entries t). ke_master e = LookupMaster c (ke_key e) \<and> ke_counter e = 0)"

definition distinct_keys :: "txn_proto \<Rightarrow> bool" where
  "distinct_keys t \<longleftrightarrow> distinct (map ke_key (txn_entries t))"

definition micro_shape :: "txn_proto \<Rightarrow> bool" where
  "micro_shape t \<longleftrightarrow> tx_read_set t = [] \<and> tx_write_set t = [] \<and> length (tx_read_write_set t) = unat kRWSetSize
     \<and> distinct_keys t"

lemma new_txn_simps [simp]:
  "tx_read_set (new_txn i ty) = []" "tx_write_set (new_txn i ty) = []" "tx_read_write_set (new_txn i ty) = []"
  "tx_fake_txn (new_txn i ty) = False" "tx_txn_id (new_txn i ty) = i"
  by (simp_all add: new_txn_def TxnProto_new_def)

lemma mark_fake_simps [simp]:
  "tx_read_set (mark_fake a b t) = tx_read_set t" "tx_write_set (mark_fake a b t) = tx_write_set t"
  "tx_read_write_set (mark_fake a b t) = tx_read_write_set t" "tx_txn_id (mark_fake a b t) = tx_txn_id t"
  "tx_fake_txn (mark_fake a b t) = (a \<noteq> 0 \<and> b \<noteq> 0 \<or> tx_fake_txn t)"
  by (simp_all add: mark_fake_def)

lemma add_read_write_simps [simp]:
  "tx_read_write_set (add_read_write m k t) = tx_read_write_set t @ [new_entry m k]"
  "tx_read_set (add_read_write m k t) = tx_read_set t" "tx_write_set (add_read_write m k t) = tx_write_set t"
  "tx_fake_txn (add_read_write m k t) = tx_fake_txn t" "tx_txn_id (add_read_write m k t) = tx_txn_id t"
  by (simp_all add: add_read_write_def)

lemma new_entry_simps [simp]:
  "ke_key (new_entry m k) = key_name k" "ke_master (new_entry m k) = m" "ke_counter (new_entry m k) = 0"
  by (simp_all add: new_entry_def)

lemma distinct_key_names:
  "distinct ks \<Longrightarrow> \<forall>k \<in> set ks. unat k < 2 ^ 32 \<Longrightarrow> distinct (map key_name ks)"
  by (auto simp: distinct_map key_name_inj intro!: inj_onI)

lemma micro_part_lookup:
  assumes m: "micro_ok c hot" and k: "keys_in start (db_end c) (nodes_per_replica c) part ks" "k \<in> set ks"
  shows "unat k < 2 ^ 31" "LookupPartition c (key_name k) = part"
proof -
  have "unat k < unat (db_end c)" using k by (simp add: keys_in_def word_less_nat_alt)
  then show "unat k < 2 ^ 31" using micro_ends(5) [OF m] by (rule less_le_trans)
  with k m show "LookupPartition c (key_name k) = part"
    by (intro key_name_lookup(1)) (simp_all add: keys_in_def micro_ok_def)
qed

lemma micro_home_lookup:
  assumes m: "micro_ok c hot" and k: "home_keys c hot start (db_end c) part replica ks" "k \<in> set ks"
  shows "unat k < 2 ^ 31" "LookupPartition c (key_name k) = part" "LookupMaster c (key_name k) = replica"
proof -
  have ki: "keys_in start (db_end c) (nodes_per_replica c) part ks"
    using k(1) by (simp add: replica_keys_def micro_nparts(1) [OF m])
  show u: "unat k < 2 ^ 31" and "LookupPartition c (key_name k) = part" using micro_part_lookup [OF m ki k(2)] by blast+
  have "unat k mod unat (nodes_per_replica c) = unat part" using ki k(2) by (simp add: keys_in_def)
  from key_name_lookup(2) [OF _ u this] m k micro_sizes(6) [OF m]
  show "LookupMaster c (key_name k) = replica"
    by (simp add: micro_ok_def replica_keys_def word_unat_eq_iff)
qed

text \<open>Every key is one of the keys \<open>InitializeStorage\<close> loads.\<close>

definition in_database :: "uint64 \<Rightarrow> txn_proto \<Rightarrow> bool" where
  "in_database n t \<longleftrightarrow> (\<forall>e \<in> set (txn_entries t). \<exists>k < n. ke_key e = key_name k)"

text \<open>From the list of the keys in the order of the entries to the shape of the transaction.\<close>

lemma micro_shapeI:
  assumes "tx_read_set t = []" "tx_write_set t = []" "map ke_key (tx_read_write_set t) = map key_name ks"
    and "distinct ks" "\<forall>k \<in> set ks. unat k < 2 ^ 31" "length ks = 10"
  shows "micro_shape t"
proof -
  have "length (tx_read_write_set t) = 10" using assms(3,6) by (metis length_map)
  moreover have "distinct (map key_name ks)" using assms(4,5) by (intro distinct_key_names) auto
  ultimately show ?thesis
    using assms(1-3) by (simp add: micro_shape_def distinct_keys_def txn_entries_def kRWSetSize_def)
qed

lemma keys_of_txn:
  "tx_read_set t = [] \<Longrightarrow> map ke_key (tx_read_write_set t) = map key_name ks \<Longrightarrow>
     ke_key ` set (txn_entries t) = key_name ` set ks"
  by (metis append_Nil list.set_map txn_entries_def)

lemma in_databaseI:
  "tx_read_set t = [] \<Longrightarrow> map ke_key (tx_read_write_set t) = map key_name ks \<Longrightarrow> \<forall>k \<in> set ks. k < n \<Longrightarrow>
     in_database n t"
  using keys_of_txn [of t ks] unfolding in_database_def by (smt (verit, best) image_iff)

lemma homes_image: "homes c t = (\<lambda>k. (LookupPartition c k, LookupMaster c k)) ` (ke_key ` set (txn_entries t))"
  by (simp add: homes_def image_image)

definition partitions :: "cluster_config \<Rightarrow> txn_proto \<Rightarrow> uint64 set" where
  "partitions c t = (\<lambda>e. LookupPartition c (ke_key e)) ` set (txn_entries t)"

lemma partitions_image: "partitions c t = LookupPartition c ` (ke_key ` set (txn_entries t))"
  by (simp add: partitions_def image_image)

lemma home_keys_txn:
  assumes m: "micro_ok c hot"
    and hot: "home_keys c hot 0 (hot_end c hot) p1 r1 [h1]" "home_keys c hot 0 (hot_end c hot) p2 r2 [h2]"
    and cold: "home_keys c hot (hot_end c hot) (db_end c) p1 r1 c1" "home_keys c hot (hot_end c hot) (db_end c) p2 r2 c2"
    and len: "length c1 + length c2 = 8"
    and diff: "if (p1, r1) = (p2, r2) then h1 \<noteq> h2 \<and> c2 = [] else True"
    and t: "tx_read_set t = []" "tx_write_set t = []"
      "tx_read_write_set t = [new_entry m1 h1, new_entry m2 h2] @ map (new_entry m1) c1 @ map (new_entry m2) c2"
  shows "micro_shape t \<and> homes c t = {(p1, r1), (p2, r2)} \<and> in_database (db_end c) t
    \<and> (m1 = r1 \<and> m2 = r2 \<longrightarrow> masters_known c t)"
proof -
  let ?ks = "[h1, h2] @ c1 @ c2"
  note le = micro_ends(4) [OF m]
  have hot': "home_keys c hot 0 (db_end c) p1 r1 [h1]" "home_keys c hot 0 (db_end c) p2 r2 [h2]"
    using hot replica_keys_weaken le by blast+
  have keys: "map ke_key (tx_read_write_set t) = map key_name ?ks" by (simp add: t(3))
  have hc: "set [h1] \<inter> set c1 = {}" "set [h1] \<inter> set c2 = {}" "set [h2] \<inter> set c1 = {}" "set [h2] \<inter> set c2 = {}"
    using replica_keys_disjoint hot cold order.refl by blast+
  have "set c1 \<inter> set c2 = {}" "h1 \<noteq> h2"
    using replica_keys_disjoint [OF cold] replica_keys_disjoint [OF hot] diff by (cases "(p1, r1) = (p2, r2)"; auto)+
  moreover have "distinct c1" "distinct c2" using cold by (simp_all add: replica_keys_def keys_in_def key_set_def)
  ultimately have "distinct ?ks" using hc by auto
  note look = micro_home_lookup [OF m hot'(1)] micro_home_lookup [OF m hot'(2)]
    micro_home_lookup [OF m cold(1)] micro_home_lookup [OF m cold(2)]
  have small: "\<forall>k \<in> set ?ks. unat k < 2 ^ 31" using look by auto
  have "micro_shape t" using keys \<open>distinct ?ks\<close> small len t(1,2) by (intro micro_shapeI [where ks = ?ks]) simp_all
  moreover have "in_database (db_end c) t"
    by (rule in_databaseI [OF t(1) keys])
      (use hot' cold in \<open>auto simp: replica_keys_def keys_in_def\<close>)
  moreover have "homes c t = {(p1, r1), (p2, r2)}"
    unfolding homes_image keys_of_txn [OF t(1) keys] using look by auto
  moreover have "masters_known c t" if "m1 = r1 \<and> m2 = r2"
    using that look by (auto simp: masters_known_def txn_entries_def t)
  ultimately show ?thesis by blast
qed

lemma part_keys_txn:
  assumes m: "micro_ok c hot"
  defines "N \<equiv> nodes_per_replica c"
  assumes hot: "keys_in 0 (hot_end c hot) N p1 [h1]" "keys_in 0 (hot_end c hot) N p2 [h2]"
    and cold: "keys_in (hot_end c hot) (db_end c) N p1 c1" "keys_in (hot_end c hot) (db_end c) N p2 c2"
    and len: "length c1 + length c2 = 8"
    and diff: "if p1 = p2 then h1 \<noteq> h2 \<and> c2 = [] else True"
    and t: "tx_read_set t = []" "tx_write_set t = []"
      "map ke_key (tx_read_write_set t) = map key_name ([h1, h2] @ c1 @ c2)"
  shows "micro_shape t \<and> partitions c t = {p1, p2} \<and> in_database (db_end c) t"
proof -
  let ?ks = "[h1, h2] @ c1 @ c2"
  note le = micro_ends(4) [OF m]
  have hot': "keys_in 0 (db_end c) N p1 [h1]" "keys_in 0 (db_end c) N p2 [h2]"
    using hot keys_in_weaken le by blast+
  have hc: "set [h1] \<inter> set c1 = {}" "set [h1] \<inter> set c2 = {}" "set [h2] \<inter> set c1 = {}" "set [h2] \<inter> set c2 = {}"
    using keys_in_disjoint hot cold order.refl by blast+
  have "set c1 \<inter> set c2 = {}" "h1 \<noteq> h2"
    using keys_in_other_part [OF cold] keys_in_other_part [OF hot] diff by (cases "p1 = p2"; auto)+
  moreover have "distinct c1" "distinct c2" using cold by (simp_all add: keys_in_def key_set_def)
  ultimately have "distinct ?ks" using hc by auto
  note look = micro_part_lookup [OF m hot'(1) [unfolded N_def]] micro_part_lookup [OF m hot'(2) [unfolded N_def]]
    micro_part_lookup [OF m cold(1) [unfolded N_def]] micro_part_lookup [OF m cold(2) [unfolded N_def]]
  have small: "\<forall>k \<in> set ?ks. unat k < 2 ^ 31" using look by auto
  have "micro_shape t" using t \<open>distinct ?ks\<close> small len by (intro micro_shapeI [where ks = ?ks]) simp_all
  moreover have "in_database (db_end c) t"
    by (rule in_databaseI [OF t(1,3)]) (use hot' cold in \<open>auto simp: keys_in_def\<close>)
  moreover have "partitions c t = {p1, p2}"
    unfolding partitions_image keys_of_txn [OF t(1,3)] using look by auto
  ultimately show ?thesis by blast
qed

section \<open>Correctness of the generators\<close>

text \<open>The Calvin mode: the partitions are as requested, and the masters all 0.\<close>

definition calvin_txn :: "cluster_config \<Rightarrow> int64 \<Rightarrow> uint64 set \<Rightarrow> txn_proto \<Rightarrow> bool" where
  "calvin_txn c i P t \<longleftrightarrow> micro_shape t \<and> tx_txn_id t = i \<and> partitions c t = P \<and> \<not> tx_fake_txn t
     \<and> in_database (db_end c) t"

text \<open>
  The low-latency mode: the homes are as requested, every entry names its master, and the transaction
  is marked fake exactly if it spans replicas and none of them is replica 0.
\<close>

definition spans_without_0 :: "(uint64 \<times> uint32) set \<Rightarrow> bool" where
  "spans_without_0 H \<longleftrightarrow> (\<exists>a \<in> H. \<exists>b \<in> H. snd a \<noteq> snd b) \<and> (\<forall>a \<in> H. snd a \<noteq> 0)"

definition low_latency_txn :: "cluster_config \<Rightarrow> int64 \<Rightarrow> (uint64 \<times> uint32) set \<Rightarrow> txn_proto \<Rightarrow> bool" where
  "low_latency_txn c i H t \<longleftrightarrow> micro_shape t \<and> tx_txn_id t = i \<and> homes c t = H \<and> masters_known c t
     \<and> in_database (db_end c) t \<and> (tx_fake_txn t \<longleftrightarrow> spans_without_0 H)"

lemma MicroTxnSP_gen_ok:
  assumes m: "micro_ok c hot" and p: "part < nodes_per_replica c"
  shows "gen_ok (MicroTxnSP (Microbenchmark_new c hot) i part) (calvin_txn c i {part})"
  unfolding MicroTxnSP_def
proof (rule gen_ok_bindG [OF hot_key_gen_ok(2) [OF m p]], rule gen_ok_bindG [OF hot_key_retry_gen_ok [OF m p]],
    rule gen_ok_bindG [OF cold_keys_gen_ok [OF m p]], simp_all only: kRWSetSize_def,
    simp, simp, rule gen_ok_returnG, elim conjE)
  fix h1 h2 ks
  assume h: "keys_in 0 (hot_end c hot) (nodes_per_replica c) part [h1]"
    "keys_in 0 (hot_end c hot) (nodes_per_replica c) part [h2]" "h2 \<noteq> h1"
    and ks: "keys_in (hot_end c hot) (db_end c) (nodes_per_replica c) part ks" "length ks = unat (10 - 2 :: uint32)"
  have "keys_in (hot_end c hot) (db_end c) (nodes_per_replica c) part []" by (simp add: keys_in_def key_set_def)
  with part_keys_txn [OF m h(1,2) ks(1), of "[]"] h(3) ks(2)
  show "calvin_txn c i {part} (fold (add_read_write 0) ([h1, h2] @ ks) (new_txn i MICROTXN_SP))"
    by (simp add: calvin_txn_def)
qed

lemma MicroTxnMP_gen_ok:
  assumes m: "micro_ok c hot" and p: "part1 < nodes_per_replica c" "part2 < nodes_per_replica c" "part1 \<noteq> part2"
  shows "gen_ok (MicroTxnMP (Microbenchmark_new c hot) i part1 part2) (calvin_txn c i {part1, part2})"
  unfolding MicroTxnMP_def
proof (rule gen_ok_checkG, use p(3) in simp, rule gen_ok_bindG [OF hot_key_gen_ok(2) [OF m p(1)]],
    rule gen_ok_bindG [OF hot_key_gen_ok(2) [OF m p(2)]], rule gen_ok_bindG [OF cold_keys_gen_ok [OF m p(1)]],
    simp_all only: kRWSetSize_def, simp, simp, rule gen_ok_bindG [OF cold_keys_gen_ok [OF m p(2)]],
    simp, simp, rule gen_ok_returnG, elim conjE)
  fix h1 h2 c1 c2
  assume h: "keys_in 0 (hot_end c hot) (nodes_per_replica c) part1 [h1]"
    "keys_in 0 (hot_end c hot) (nodes_per_replica c) part2 [h2]"
    and ks: "keys_in (hot_end c hot) (db_end c) (nodes_per_replica c) part1 c1"
      "keys_in (hot_end c hot) (db_end c) (nodes_per_replica c) part2 c2"
    and l: "length c1 = unat (10 div 2 - 1 :: uint32)" "length c2 = unat (10 div 2 - 1 :: uint32)"
  have "length c1 + length c2 = 8" by (simp add: l)
  with part_keys_txn [OF m h ks] p(3)
  show "calvin_txn c i {part1, part2} (fold (add_read_write 0) ([h1, h2] @ c1 @ c2) (new_txn i MICROTXN_MP))"
    by (simp add: calvin_txn_def)
qed

lemma MicroTxnSRSP_gen_ok:
  assumes m: "micro_ok c hot" and p: "part < nodes_per_replica c" and r: "replica < cc_replicas_size c"
  shows "gen_ok (MicroTxnSRSP (Microbenchmark_new c hot) i part replica) (low_latency_txn c i {(part, replica)})"
  unfolding MicroTxnSRSP_def Let_def
proof (rule gen_ok_bindG [OF hot_order_gen_ok(2) [OF m r]], rule gen_ok_bindG [OF hot_order_retry_gen_ok [OF m r]],
    rule gen_ok_bindG [OF cold_keys_replica_gen_ok [OF m p r]], simp_all only: kRWSetSize_def,
    simp, simp, rule gen_ok_returnG, elim conjE)
  let ?mb = "Microbenchmark_new c hot"
  fix o1 o2 ks
  assume o1: "order_ok c hot replica o1" and o2: "order_ok c hot replica o2" "o2 \<noteq> o1"
    and ks: "home_keys c hot (hot_end c hot) (db_end c) part replica ks" "length ks = unat (10 - 2 :: uint32)"
  let ?h1 = "order_key ?mb part o1" and ?h2 = "order_key ?mb part o2"
  let ?t = "fold (add_read_write replica) ([?h1, ?h2] @ ks) (new_txn i MICROTXN_SP)"
  note h1 = order_key_home [OF m p o1] and h2 = order_key_home [OF m p o2(1)]
  have "?h1 \<noteq> ?h2"
    using h1(1) h2(1) o2(2) micro_sizes(1) [OF m] by (auto simp: word_unat_eq_iff)
  moreover have "home_keys c hot (hot_end c hot) (db_end c) part replica []"
    by (simp add: replica_keys_def keys_in_def key_set_def)
  ultimately show "low_latency_txn c i {(part, replica)} ?t"
    using home_keys_txn [OF m h1(2) h2(2) ks(1), of "[]" ?t replica replica] ks(2)
    by (simp add: low_latency_txn_def spans_without_0_def)
qed

text \<open>The common end of the generators that take two halves of the keys from different homes.\<close>

lemma two_homes_gen_ok:
  fixes c hot
  defines "mb \<equiv> Microbenchmark_new c hot"
  assumes m: "micro_ok c hot" and p: "p1 < nodes_per_replica c" "p2 < nodes_per_replica c"
    and r: "r1 < cc_replicas_size c" "r2 < cc_replicas_size c" and d: "(p1, r1) \<noteq> (p2, r2)"
    and f: "\<And>o1 o2 k1 k2. tx_read_set (f o1 o2 k1 k2) = [] \<and> tx_write_set (f o1 o2 k1 k2) = []
      \<and> tx_read_write_set (f o1 o2 k1 k2)
          = [new_entry r1 (order_key mb p1 o1), new_entry r2 (order_key mb p2 o2)] @ map (new_entry r1) k1 @ map (new_entry r2) k2
      \<and> tx_txn_id (f o1 o2 k1 k2) = i \<and> tx_fake_txn (f o1 o2 k1 k2) = spans_without_0 {(p1, r1), (p2, r2)}"
  shows "gen_ok (bindG (hot_order mb r1) (\<lambda>o1. bindG (hot_order mb r2) (\<lambda>o2.
      bindG (cold_keys_replica mb (kRWSetSize div 2 - 1) p1 r1) (\<lambda>k1.
      bindG (cold_keys_replica mb (kRWSetSize div 2 - 1) p2 r2) (\<lambda>k2. returnG (f o1 o2 k1 k2))))))
    (low_latency_txn c i {(p1, r1), (p2, r2)})"
  unfolding mb_def
proof (rule gen_ok_bindG [OF hot_order_gen_ok(2) [OF m r(1)]], rule gen_ok_bindG [OF hot_order_gen_ok(2) [OF m r(2)]],
    rule gen_ok_bindG [OF cold_keys_replica_gen_ok [OF m p(1) r(1)]], simp_all only: kRWSetSize_def,
    simp, simp, rule gen_ok_bindG [OF cold_keys_replica_gen_ok [OF m p(2) r(2)]], simp, simp,
    rule gen_ok_returnG, elim conjE)
  fix o1 o2 k1 k2
  assume o: "order_ok c hot r1 o1" "order_ok c hot r2 o2"
    and ks: "home_keys c hot (hot_end c hot) (db_end c) p1 r1 k1" "home_keys c hot (hot_end c hot) (db_end c) p2 r2 k2"
    and l: "length k1 = unat (10 div 2 - 1 :: uint32)" "length k2 = unat (10 div 2 - 1 :: uint32)"
  have "length k1 + length k2 = 8" and "\<not> (p1 = p2 \<and> r1 = r2)" using d by (auto simp: l)
  with home_keys_txn [OF m order_key_home(2) [OF m p(1) o(1)] order_key_home(2) [OF m p(2) o(2)] ks, of "f o1 o2 k1 k2" r1 r2]
  show "low_latency_txn c i {(p1, r1), (p2, r2)} (f o1 o2 k1 k2)"
    using f [of o1 o2 k1 k2] by (simp add: low_latency_txn_def mb_def)
qed

lemma MicroTxnSRMP_gen_ok:
  assumes m: "micro_ok c hot" and p: "part1 < nodes_per_replica c" "part2 < nodes_per_replica c" "part1 \<noteq> part2"
    and r: "replica < cc_replicas_size c"
  shows "gen_ok (MicroTxnSRMP (Microbenchmark_new c hot) i part1 part2 replica)
    (low_latency_txn c i {(part1, replica), (part2, replica)})"
  unfolding MicroTxnSRMP_def Let_def
  by (rule gen_ok_checkG, use p(3) in simp, rule two_homes_gen_ok [OF m p(1,2) r r])
    (use p(3) in \<open>auto simp: spans_without_0_def\<close>)

lemma MicroTxnMRSP_gen_ok:
  assumes m: "micro_ok c hot" and p: "part < nodes_per_replica c"
    and r: "r1 < cc_replicas_size c" "r2 < cc_replicas_size c" "r1 \<noteq> r2"
  shows "gen_ok (MicroTxnMRSP (Microbenchmark_new c hot) i part r1 r2) (low_latency_txn c i {(part, r1), (part, r2)})"
proof (cases "r1 > r2")
  case True
  have "gen_ok (MicroTxnMRSP (Microbenchmark_new c hot) i part r1 r2) (low_latency_txn c i {(part, r2), (part, r1)})"
    unfolding MicroTxnMRSP_def Let_def
    by (rule gen_ok_checkG, use r(3) in simp, simp only: True if_True prod.case,
        rule two_homes_gen_ok [OF m p p r(2,1)]) (use r(3) in \<open>auto simp: spans_without_0_def\<close>)
  then show ?thesis by (simp add: insert_commute)
next
  case False
  show ?thesis
    unfolding MicroTxnMRSP_def Let_def
    by (rule gen_ok_checkG, use r(3) in simp, simp only: False if_False prod.case,
        rule two_homes_gen_ok [OF m p p r(1,2)]) (use r(3) in \<open>auto simp: spans_without_0_def\<close>)
qed

lemma MicroTxnMRMP_gen_ok:
  assumes m: "micro_ok c hot" and p: "p1 < nodes_per_replica c" "p2 < nodes_per_replica c" "p1 \<noteq> p2"
    and r: "r1 < cc_replicas_size c" "r2 < cc_replicas_size c" "r1 \<noteq> r2"
  shows "gen_ok (MicroTxnMRMP (Microbenchmark_new c hot) i p1 p2 r1 r2) (low_latency_txn c i {(p1, r1), (p2, r2)})"
proof (cases "r1 > r2")
  case True
  have "gen_ok (MicroTxnMRMP (Microbenchmark_new c hot) i p1 p2 r1 r2) (low_latency_txn c i {(p2, r2), (p1, r1)})"
    unfolding MicroTxnMRMP_def Let_def
    by (rule gen_ok_checkG, use p(3) in simp, simp only: True if_True prod.case,
        rule two_homes_gen_ok [OF m p(2,1) r(2,1)]) (use r(3) in \<open>auto simp: spans_without_0_def\<close>)
  then show ?thesis by (simp add: insert_commute)
next
  case False
  show ?thesis
    unfolding MicroTxnMRMP_def Let_def
    by (rule gen_ok_checkG, use p(3) in simp, simp only: False if_False prod.case,
        rule two_homes_gen_ok [OF m p(1,2) r(1,2)]) (use r(3) in \<open>auto simp: spans_without_0_def\<close>)
qed

section \<open>Records under execution\<close>

text \<open>
  The invariant of a record: its value is made of small letters, and the access counters sum up to the
  number of counted accesses, which never passes \<open>LAST_N_TOUCH\<close>; so no counter wraps.
\<close>

definition letters :: "string \<Rightarrow> bool" where
  "letters v \<longleftrightarrow> (\<forall>ch \<in> set v. 97 \<le> (of_char ch :: nat) \<and> (of_char ch :: nat) \<le> 122)"

definition record_ok :: "db_record \<Rightarrow> bool" where
  "record_ok r \<longleftrightarrow> 8 \<le> length (rec_value r) \<and> letters (rec_value r)
     \<and> length (rec_access_pattern r) = REPLICA_SIZE
     \<and> sum_list (map unat (rec_access_pattern r)) = unat (rec_access_cnt r) \<and> rec_access_cnt r \<le> LAST_N_TOUCH"

lemma next_char_letter:
  assumes "97 \<le> (of_char ch :: nat)" "(of_char ch :: nat) \<le> 122"
  shows "(of_char (next_char ch) :: nat) = (if of_char ch = (122::nat) then 97 else of_char ch + 1)"
proof -
  let ?n = "of_char ch :: nat"
  have c: "(of_char ch :: uint8) = of_nat ?n" by (simp add: of_nat_of_char)
  have "sint (of_nat ?n :: uint8) = int ?n"
  proof -
    have "signed_take_bit 7 (int ?n) = int ?n" using assms by (intro signed_take_bit_int_eq_self) simp_all
    then show ?thesis by (simp add: signed_of_nat)
  qed
  moreover have "unat (of_nat ?n + 1 :: uint8) = ?n + 1" using assms
    by (simp add: unat_word_ariths unsigned_of_nat take_bit_nat_eq_self)
  ultimately show ?thesis using assms by (auto simp: next_char_def c)
qed

definition advanced :: "string \<Rightarrow> string" where
  "advanced v = map next_char (take 8 v) @ drop 8 v"

lemma letters_advanced: "letters v \<Longrightarrow> letters (advanced v)"
  unfolding letters_def advanced_def
  by (auto dest!: in_set_takeD in_set_dropD simp: next_char_letter)

lemma sum_list_unat_update:
  fixes xs :: "uint32 list"
  assumes "i < length xs" "sum_list (map unat xs) < 2 ^ 32 - 1"
  shows "sum_list (map unat (xs[i := xs ! i + 1])) = Suc (sum_list (map unat xs))"
    and "unat (xs ! i + 1) = Suc (unat (xs ! i))"
proof -
  have "unat (xs ! i) \<le> sum_list (map unat xs)"
    using assms(1) elem_le_sum_list [of i "map unat xs"] by simp
  with assms(2) have "unat (xs ! i) + unat (1::uint32) < 2 ^ 32" by simp
  from unat_add_small [OF this] show u: "unat (xs ! i + 1) = Suc (unat (xs ! i))" by simp
  have "sum_list (map unat (xs[i := xs ! i + 1]))
      = sum_list (map unat xs) + unat (xs ! i + 1) - unat (xs ! i)"
    using assms(1) by (simp add: map_update sum_list_update)
  then show "sum_list (map unat (xs[i := xs ! i + 1])) = Suc (sum_list (map unat xs))" by (simp add: u)
qed

lemma sum_list_zeroes [simp]: "sum_list (map unat (replicate n (0::uint32))) = 0"
  by (induction n) simp_all

text \<open>
  A counted access keeps the invariant; a remaster is only asked for by another replica, for a record
  whose accesses since the last reset were to more than nine tenths of \<open>LAST_N_TOUCH\<close> from there.
\<close>

lemma touch_correct:
  assumes r: "record_ok r" and client: "unat client < REPLICA_SIZE"
  shows "\<exists>r' b. touch local client r = Inr (r', b) \<and> record_ok r' \<and> rec_value r' = rec_value r
    \<and> rec_master r' = rec_master r \<and> rec_counter r' = rec_counter r
    \<and> rec_remastering r' = (rec_remastering r \<or> b)
    \<and> (b \<longleftrightarrow> client \<noteq> local \<and> 9000 \<le> unat (rec_access_pattern r ! unat client))"
proof -
  let ?xs = "rec_access_pattern r" and ?i = "unat client"
  let ?ys = "?xs[?i := ?xs ! ?i + 1]"
  have i: "?i < length ?xs" using assms by (simp add: record_ok_def)
  have total: "sum_list (map unat ?xs) = unat (rec_access_cnt r)" "unat (rec_access_cnt r) \<le> 10000"
    using r by (simp_all add: record_ok_def LAST_N_TOUCH_def word_le_nat_alt)
  then have "sum_list (map unat ?xs) < 2 ^ 32 - 1" by simp
  note upd = sum_list_unat_update [OF i this]
  have cnt: "unat (rec_access_cnt r + 1) = Suc (unat (rec_access_cnt r))"
    using total(2) unat_add_small [of "rec_access_cnt r" 1] by simp
  have "over_threshold (?ys ! ?i) \<longleftrightarrow> 9000 \<le> unat (?xs ! ?i)"
    using i upd(2) by (auto simp: over_threshold_def word_less_nat_alt)
  moreover have "\<not> LAST_N_TOUCH < rec_access_cnt r + 1 \<Longrightarrow> sum_list (map unat ?ys) = unat (rec_access_cnt r + 1)"
    using upd(1) total(1) cnt by simp
  moreover have "length ?ys = REPLICA_SIZE" using r by (simp add: record_ok_def)
  ultimately show ?thesis
    using i r by (auto simp: touch_def Let_def require_defined_def record_ok_def not_less)
qed

text \<open>One access to a record, as a total function, and whether it asks for a remaster.\<close>

definition accessed :: "microbenchmark \<Rightarrow> uint32 \<Rightarrow> uint32 \<Rightarrow> db_record \<Rightarrow> db_record \<times> bool" where
  "accessed mb mode client val =
     (let (val', b) = (if mode = 2 \<and> mb_local_replica mb = rec_master val \<and> \<not> rec_remastering val
                       then (case touch (mb_local_replica mb) client val of Inl _ \<Rightarrow> (val, False) | Inr x \<Rightarrow> x)
                       else (val, False))
      in (val'\<lparr>rec_value := advanced (rec_value val)\<rparr>, b))"

lemma accessed_eq:
  assumes "touch (mb_local_replica mb) client val = Inr (val', b)"
  shows "accessed mb mode client val =
    (if mode = 2 \<and> mb_local_replica mb = rec_master val \<and> \<not> rec_remastering val
     then (val'\<lparr>rec_value := advanced (rec_value val)\<rparr>, b) else (val\<lparr>rec_value := advanced (rec_value val)\<rparr>, False))"
  unfolding accessed_def assms by simp

lemma accessed_correct:
  assumes r: "record_ok r" and client: "unat client < REPLICA_SIZE"
  shows "record_ok (fst (accessed mb mode client r))"
    and "rec_value (fst (accessed mb mode client r)) = advanced (rec_value r)"
    and "rec_master (fst (accessed mb mode client r)) = rec_master r"
    and "rec_counter (fst (accessed mb mode client r)) = rec_counter r"
    and "rec_remastering (fst (accessed mb mode client r)) = (rec_remastering r \<or> snd (accessed mb mode client r))"
    and "snd (accessed mb mode client r) \<longleftrightarrow> mode = 2 \<and> mb_local_replica mb = rec_master r \<and> \<not> rec_remastering r
      \<and> client \<noteq> rec_master r \<and> 9000 \<le> unat (rec_access_pattern r ! unat client)"
proof -
  obtain r' b where t: "touch (mb_local_replica mb) client r = Inr (r', b)" "record_ok r'" "rec_value r' = rec_value r"
    "rec_master r' = rec_master r" "rec_counter r' = rec_counter r" "rec_remastering r' = (rec_remastering r \<or> b)"
    "b \<longleftrightarrow> client \<noteq> mb_local_replica mb \<and> 9000 \<le> unat (rec_access_pattern r ! unat client)"
    using touch_correct [OF assms] by blast
  have ok: "record_ok (x\<lparr>rec_value := advanced (rec_value x)\<rparr>)" if "record_ok x" for x
    using that letters_advanced by (simp add: record_ok_def advanced_def)
  show "record_ok (fst (accessed mb mode client r))" using ok [OF t(2)] ok [OF r] t(3) by (simp add: accessed_eq [OF t(1)])
  show "rec_value (fst (accessed mb mode client r)) = advanced (rec_value r)"
    "rec_master (fst (accessed mb mode client r)) = rec_master r"
    "rec_counter (fst (accessed mb mode client r)) = rec_counter r"
    "rec_remastering (fst (accessed mb mode client r)) = (rec_remastering r \<or> snd (accessed mb mode client r))"
    "snd (accessed mb mode client r) \<longleftrightarrow> mode = 2 \<and> mb_local_replica mb = rec_master r \<and> \<not> rec_remastering r
      \<and> client \<noteq> rec_master r \<and> 9000 \<le> unat (rec_access_pattern r ! unat client)"
    using t(4-7) by (auto simp: accessed_eq [OF t(1)])
qed

text \<open>The pointer that entry \<open>i\<close> of the read/write set reads, when the manager has it.\<close>

definition entry_ptr :: "'b storage_manager \<Rightarrow> txn_proto \<Rightarrow> nat \<Rightarrow> rec_ptr" where
  "entry_ptr sm txn i = the (the (map_of (sm_objects sm) (ke_key (tx_read_write_set txn ! i))))"

definition entry_ready :: "'b storage_manager \<Rightarrow> rec_heap \<Rightarrow> txn_proto \<Rightarrow> nat \<Rightarrow> bool" where
  "entry_ready sm h txn i \<longleftrightarrow> i < length (tx_read_write_set txn)
     \<and> (\<exists>p < length h. map_of (sm_objects sm) (ke_key (tx_read_write_set txn ! i)) = Some (Some p))"

definition heap_ok :: "rec_heap \<Rightarrow> bool" where
  "heap_ok h \<longleftrightarrow> (\<forall>r \<in> set h. record_ok r)"

definition ask_remaster ::
  "'b codec \<Rightarrow> microbenchmark \<Rightarrow> txn_proto \<Rightarrow> string \<Rightarrow> db_record \<Rightarrow> cluster_config \<Rightarrow> cluster_config \<times> 'b message_proto" where
  "ask_remaster cd mb txn key val c =
     (let (guid, c') = GetGUID c
      in (c', remaster_message cd c' (remaster_txn guid (mb_local_replica mb) txn key val)))"

lemma execute_entry_step:
  fixes mb :: microbenchmark
  assumes ready: "entry_ready sm h txn i" and ok: "heap_ok h" and client: "unat (tx_client_replica txn) < REPLICA_SIZE"
  defines "p \<equiv> entry_ptr sm txn i" and "key \<equiv> ke_key (tx_read_write_set txn ! i)"
  defines "a \<equiv> accessed mb (sm_mode sm) (tx_client_replica txn) (h ! p)"
  shows "execute_entry cd mb txn i (sm, h, c, sent) = Inr (sm, h[p := fst a],
    (if snd a then fst (ask_remaster cd mb txn key (h ! p) c) else c),
    (if snd a then sent @ [snd (ask_remaster cd mb txn key (h ! p) c)] else sent))"
proof -
  have p: "map_of (sm_objects sm) key = Some (Some p)" "p < length h" "i < length (tx_read_write_set txn)"
    using ready by (auto simp: entry_ready_def p_def entry_ptr_def key_def)
  with ok have r: "record_ok (h ! p)" by (simp add: heap_ok_def)
  obtain r' b where t: "touch (mb_local_replica mb) (tx_client_replica txn) (h ! p) = Inr (r', b)"
    "rec_value r' = rec_value (h ! p)" using touch_correct [OF r client] by blast
  have read: "SM_ReadObject key sm = (Some p, sm)" by (simp add: SM_ReadObject_def p(1))
  have len: "8 \<le> length (rec_value (h ! p))" using r by (simp add: record_ok_def)
  have adv: "advance_value (rec_value r') = Inr (advanced (rec_value (h ! p)))"
    "advance_value (rec_value (h ! p)) = Inr (advanced (rec_value (h ! p)))"
    using len by (simp_all add: advance_value_def advanced_def t(2))
  have exec: "execute_entry cd mb txn i (sm, h, c, sent) =
      bindE (if counts_access mb sm (h ! p) then Inr (r', b) else Inr (h ! p, False)) (\<lambda>(val', remaster).
        bindE (advance_value (rec_value val')) (\<lambda>v.
        let (c', sent') = (if remaster then let (guid, c') = GetGUID c
               in (c', sent @ [remaster_message cd c' (remaster_txn guid (mb_local_replica mb) txn key (h ! p))])
             else (c, sent))
        in Inr (sm, h[p := val'\<lparr>rec_value := v\<rparr>], c', sent')))"
    using p(2,3) by (simp add: execute_entry_def rep_get_def key_def [symmetric] read deref_def heap_get_def t(1)
        heap_modify_def cong: if_cong)
  show ?thesis
    unfolding exec a_def accessed_eq [OF t(1)] counts_access_def
    by (simp add: adv ask_remaster_def GetGUID_def)
qed

lemma heap_ok_update: "heap_ok h \<Longrightarrow> record_ok r \<Longrightarrow> heap_ok (h[p := r])"
  by (auto simp: heap_ok_def dest!: set_update_subset_insert [THEN subsetD])

lemma entry_ready_update [simp]: "entry_ready sm (h[p := r]) txn i = entry_ready sm h txn i"
  by (simp add: entry_ready_def)

text \<open>A message asks for the remaster of entry \<open>i\<close>, with the master and counter of its record.\<close>

definition remaster_request ::
  "'b codec \<Rightarrow> microbenchmark \<Rightarrow> cluster_config \<Rightarrow> txn_proto \<Rightarrow> string \<Rightarrow> db_record \<Rightarrow> 'b message_proto \<Rightarrow> bool" where
  "remaster_request cd mb c txn key val m \<longleftrightarrow>
     (\<exists>guid. m = remaster_message cd c (remaster_txn guid (mb_local_replica mb) txn key val))"

lemma ask_remaster_request:
  "remaster_request cd mb c txn key val (snd (ask_remaster cd mb txn key val c))"
  "remaster_message cd (fst (ask_remaster cd mb txn key val c)) = remaster_message cd c"
  by (auto simp: ask_remaster_def remaster_request_def GetGUID_def remaster_message_def fun_eq_iff)

lemma execute_entries:
  fixes mb :: microbenchmark and sm :: "'b storage_manager"
  defines "client \<equiv> tx_client_replica" and "ptr \<equiv> entry_ptr sm"
    and "key \<equiv> \<lambda>txn i. ke_key (tx_read_write_set txn ! i)"
  assumes "\<forall>i \<in> set js. entry_ready sm h txn i" "heap_ok h" "unat (client txn) < REPLICA_SIZE"
    and "distinct (map (ptr txn) js)"
  shows "\<exists>h' c' new. foldE (execute_entry cd mb txn) js (sm, h, c, sent) = Inr (sm, h', c', sent @ new)
    \<and> heap_ok h' \<and> length h' = length h
    \<and> (\<forall>q < length h. h' ! q = (if q \<in> ptr txn ` set js then fst (accessed mb (sm_mode sm) (client txn) (h ! q)) else h ! q))
    \<and> length new = length (filter (\<lambda>i. snd (accessed mb (sm_mode sm) (client txn) (h ! ptr txn i))) js)
    \<and> (\<forall>m \<in> set new. \<exists>i \<in> set js. snd (accessed mb (sm_mode sm) (client txn) (h ! ptr txn i))
          \<and> remaster_request cd mb c txn (key txn i) (h ! ptr txn i) m)"
  using assms(4-)
proof (induction js arbitrary: h c sent)
  case Nil
  then show ?case by auto
next
  case (Cons i js)
  let ?p = "ptr txn i"
  let ?acc = "\<lambda>q. accessed mb (sm_mode sm) (client txn) (h ! q)"
  let ?ask = "ask_remaster cd mb txn (key txn i) (h ! ?p) c"
  let ?h = "h[?p := fst (?acc ?p)]" and ?c = "if snd (?acc ?p) then fst ?ask else c"
  let ?sent = "if snd (?acc ?p) then sent @ [snd ?ask] else sent"
  have ready: "entry_ready sm h txn i" using Cons.prems(1) by simp
  then have p: "?p < length h" by (auto simp: entry_ready_def ptr_def entry_ptr_def)
  with Cons.prems(2) have r: "record_ok (h ! ?p)" by (simp add: heap_ok_def)
  have step: "execute_entry cd mb txn i (sm, h, c, sent) = Inr (sm, ?h, ?c, ?sent)"
    using execute_entry_step [OF ready Cons.prems(2), of cd mb c sent] Cons.prems(3)
    by (simp add: ptr_def key_def client_def)
  have ok: "heap_ok ?h"
    using heap_ok_update Cons.prems(2) accessed_correct(1) [OF r] Cons.prems(3) by blast
  have other: "?h ! ptr txn j = h ! ptr txn j" if "j \<in> set js" for j
    using Cons.prems(4) that by (intro nth_list_update_neq) auto
  have rc: "remaster_message cd ?c = remaster_message cd c" by (simp add: ask_remaster_request(2))
  from Cons.IH [of ?h ?c ?sent] Cons.prems ok obtain h' c' new where
    run: "foldE (execute_entry cd mb txn) js (sm, ?h, ?c, ?sent) = Inr (sm, h', c', ?sent @ new)"
    and h': "heap_ok h'" "length h' = length h"
      "\<forall>q < length h. h' ! q = (if q \<in> ptr txn ` set js then fst (accessed mb (sm_mode sm) (client txn) (?h ! q)) else ?h ! q)"
    and n: "length new = length (filter (\<lambda>j. snd (accessed mb (sm_mode sm) (client txn) (?h ! ptr txn j))) js)"
    and ms: "\<forall>m \<in> set new. \<exists>j \<in> set js. snd (accessed mb (sm_mode sm) (client txn) (?h ! ptr txn j))
          \<and> remaster_request cd mb ?c txn (key txn j) (?h ! ptr txn j) m"
    by auto
  let ?new = "(if snd (?acc ?p) then [snd ?ask] else []) @ new"
  have "filter (\<lambda>j. snd (accessed mb (sm_mode sm) (client txn) (?h ! ptr txn j))) js = filter (\<lambda>j. snd (?acc (ptr txn j))) js"
    using other by (intro filter_cong) simp_all
  then have "length ?new = length (filter (\<lambda>j. snd (?acc (ptr txn j))) (i # js))" using n by simp
  moreover have "\<forall>m \<in> set ?new. \<exists>j \<in> set (i # js). snd (?acc (ptr txn j)) \<and> remaster_request cd mb c txn (key txn j) (h ! ptr txn j) m"
    using ms other ask_remaster_request(1) [of cd mb c txn "key txn i" "h ! ?p"]
    by (auto simp: remaster_request_def rc)
  moreover have "\<forall>q < length h. h' ! q = (if q \<in> ptr txn ` set (i # js) then fst (?acc q) else h ! q)"
    using h'(3) other p Cons.prems(4) by (auto simp: nth_list_update image_iff)
  moreover have "foldE (execute_entry cd mb txn) (i # js) (sm, h, c, sent) = Inr (sm, h', c', sent @ ?new)"
    using step run by simp
  ultimately show ?case using h'(1,2) by blast
qed

section \<open>The loaded database\<close>

lemma random_letter_gen_ok: "gen_ok random_letter (\<lambda>ch. 97 \<le> (of_char ch :: nat) \<and> (of_char ch :: nat) \<le> 122)"
  unfolding random_letter_def
proof (rule gen_ok_drawG)
  fix v :: rand_value
  have "unat (v mod 26) < 26" by (simp add: unat_mod_distrib)
  moreover from this have "unat (v mod 26 + 97) = unat (v mod 26) + 97" by (simp add: unat_word_ariths)
  ultimately show "97 \<le> (of_char (char_of (unat (v mod 26 + 97)) :: char) :: nat)
      \<and> (of_char (char_of (unat (v mod 26 + 97)) :: char) :: nat) \<le> 122" by simp
qed

lemma random_letters_gen_ok: "gen_ok (random_letters n) (\<lambda>s. letters s \<and> length s = n)"
proof (induction n)
  case 0
  then show ?case by (auto simp: letters_def intro!: gen_ok_returnG)
next
  case (Suc n)
  show ?case unfolding random_letters.simps
    by (rule gen_ok_bindG [OF random_letter_gen_ok], rule gen_ok_bindG [OF Suc.IH], rule gen_ok_returnG)
      (auto simp: letters_def)
qed

definition initial_record :: "cluster_config \<Rightarrow> string \<Rightarrow> string \<Rightarrow> db_record" where
  "initial_record c v k = Record_new v (LookupMaster c k)"

lemma fold_load_key:
  "fold (load_key c v) js sh = fold load_entry (map (\<lambda>k. (k, initial_record c v k))
     (map key_name (filter (\<lambda>i. LookupPartition c (key_name i) = cc_relative_node_id c) js))) sh"
  by (induction js arbitrary: sh) (simp_all add: load_key_def initial_record_def)

lemma map_of_rev_same: "map_of (rev (map (\<lambda>k. (k, f k)) ks)) j = (if j \<in> set ks then Some (f j) else None)"
  unfolding rev_map by (auto simp: map_of_map_restrict restrict_map_def)

lemma heap_ok_load_entry: "heap_ok (snd sh) \<Longrightarrow> record_ok (snd kr) \<Longrightarrow> heap_ok (snd (load_entry kr sh))"
  by (auto simp: load_entry_def heap_new_def heap_ok_def split: prod.splits)

lemma heap_ok_load: "heap_ok (snd sh) \<Longrightarrow> \<forall>kr \<in> set krs. record_ok (snd kr) \<Longrightarrow> heap_ok (snd (fold load_entry krs sh))"
  by (induction krs arbitrary: sh) (simp_all add: heap_ok_load_entry)

text \<open>A machine's database after the load: exactly the keys of its partition, each with its master.\<close>

definition loaded :: "cluster_config \<Rightarrow> uint64 \<Rightarrow> string \<Rightarrow> simple_storage \<times> rec_heap \<Rightarrow> bool" where
  "loaded c n v sh \<longleftrightarrow> store_ok (fst sh) (snd sh) \<and> heap_ok (snd sh)
     \<and> (\<forall>k. record_of sh k = (if LookupPartition c k = cc_relative_node_id c \<and> (\<exists>i < n. k = key_name i)
                               then Some (initial_record c v k) else None))"

lemma of_nat_image_upto: "of_nat ` {0..<unat n} = {i::uint64. i < n}"
proof
  show "{i::uint64. i < n} \<subseteq> of_nat ` {0..<unat n}"
  proof
    fix i assume "i \<in> {i::uint64. i < n}"
    then show "i \<in> of_nat ` {0..<unat n}"
      by (intro image_eqI [of _ _ "unat i"]) (simp_all add: word_less_nat_alt)
  qed
qed (auto simp: word_less_nat_alt unsigned_of_nat intro: le_less_trans [OF take_bit_nat_less_eq_self])

lemma record_ok_initial: "letters v \<Longrightarrow> 8 \<le> length v \<Longrightarrow> record_ok (initial_record c v k)"
  by (simp add: record_ok_def initial_record_def Record_new_def Record_new_counter_def)

lemma loaded_fold:
  assumes "letters v" "8 \<le> length v"
  shows "loaded c n v (fold (load_key c v) (map of_nat [0..<unat n]) (\<lambda>_. None, []))"
proof -
  let ?ks = "map key_name (filter (\<lambda>i. LookupPartition c (key_name i) = cc_relative_node_id c) (map of_nat [0..<unat n]))"
  let ?krs = "map (\<lambda>k. (k, initial_record c v k)) ?ks"
  let ?sh = "fold load_entry ?krs (\<lambda>_. None, [])"
  have ok: "store_ok (fst (\<lambda>_. None, [])) (snd (\<lambda>_. None, []))" by (simp add: store_ok_def)
  have "record_of ?sh = record_of (\<lambda>_. None, []) ++ map_of (rev ?krs)" by (rule record_of_load [OF ok])
  moreover have "record_of (\<lambda>_. None, []) = (\<lambda>_. None)" by (simp add: record_of_def fun_eq_iff)
  ultimately have "record_of ?sh k = map_of (rev ?krs) k" for k
    by (simp add: map_add_def split: option.splits)
  moreover have "set ?ks = {k. LookupPartition c k = cc_relative_node_id c \<and> (\<exists>i < n. k = key_name i)}"
    using of_nat_image_upto [of n] by (auto simp: image_iff set_eq_iff)
  ultimately have "record_of ?sh k = (if LookupPartition c k = cc_relative_node_id c \<and> (\<exists>i < n. k = key_name i)
      then Some (initial_record c v k) else None)" for k
    using map_of_rev_same [of "initial_record c v" ?ks k] by simp
  moreover have "store_ok (fst ?sh) (snd ?sh)" by (rule load_ok [OF ok refl])
  moreover have "heap_ok (snd ?sh)"
    by (rule heap_ok_load) (use assms in \<open>auto simp: heap_ok_def record_ok_initial\<close>)
  ultimately show ?thesis unfolding loaded_def fold_load_key by blast
qed

lemma InitializeStorage_gen_ok:
  assumes m: "micro_ok c hot"
  shows "gen_ok (InitializeStorage (Microbenchmark_new c hot) c (\<lambda>_. None, [])) (\<lambda>sh. \<exists>v. letters v \<and> length v = 99 \<and> loaded c (db_end c) v sh)"
  unfolding InitializeStorage_def micro_nparts(1) [OF m] db_end_def [symmetric]
proof (rule gen_ok_bindG [OF random_letters_gen_ok], rule gen_ok_returnG, elim conjE)
  fix v assume v: "letters v" "length v = unat kRecordSize - 1"
  then have "length v = 99" by (simp add: kRecordSize_def)
  with v(1) loaded_fold [of v c "db_end c"]
  show "\<exists>w. letters w \<and> length w = 99 \<and> loaded c (db_end c) w (fold (load_key c v) (map of_nat [0..<unat (db_end c)]) (\<lambda>_. None, []))"
    by auto
qed

text \<open>On a freshly loaded machine, the masters a transaction names are the masters of the records.\<close>

lemma loaded_current:
  assumes l: "loaded c n v (s, h)" and e: "e \<in> set (txn_entries t)"
    and t: "masters_known c t" "in_database n t"
    and here: "LookupPartition c (ke_key e) = cc_relative_node_id c"
  shows "current s h e"
proof -
  have "\<exists>i < n. ke_key e = key_name i" using t(2) e by (auto simp: in_database_def)
  with l here have "record_of (s, h) (ke_key e) = Some (initial_record c v (ke_key e))" by (simp add: loaded_def)
  with t(1) e show ?thesis
    by (auto simp: current_def initial_record_def Record_new_def Record_new_counter_def masters_known_def)
qed

section \<open>Execution of a transaction\<close>

text \<open>
  When an access asks for a remaster: the record is mastered here and is not being remastered, and
  the client, at another replica, has just passed the threshold.
\<close>

definition wants_remaster :: "microbenchmark \<Rightarrow> uint32 \<Rightarrow> uint32 \<Rightarrow> db_record \<Rightarrow> bool" where
  "wants_remaster mb mode client r \<longleftrightarrow> mode = 2 \<and> mb_local_replica mb = rec_master r \<and> \<not> rec_remastering r
     \<and> client \<noteq> rec_master r \<and> 9000 \<le> unat (rec_access_pattern r ! unat client)"

text \<open>
  C22: executing a normal transaction whose ten records are at hand never fails; it advances the value
  of exactly those records, once each, leaves their masters and counters alone, keeps the invariant of
  every record (letters only; access counters that sum up and never wrap), and sends one remaster
  request for each record whose client passed the threshold, which is then marked so that it is not
  asked for again.
\<close>

theorem Execute_correct:
  fixes mb :: microbenchmark and sm :: "'b storage_manager"
  assumes "\<not> tx_remaster_txn txn" and "\<forall>i < 10. entry_ready sm h txn i" and "heap_ok h"
    and "unat (tx_client_replica txn) < REPLICA_SIZE" and "distinct (map (entry_ptr sm txn) [0..<10])"
  shows "\<exists>h' c' new. Execute cd mb txn (sm, h, c, sent) = Inr (sm, h', c', sent @ new)
    \<and> heap_ok h' \<and> length h' = length h
    \<and> (\<forall>q < length h. if q \<in> entry_ptr sm txn ` {..<10}
        then rec_value (h' ! q) = advanced (rec_value (h ! q)) \<and> rec_master (h' ! q) = rec_master (h ! q)
          \<and> rec_counter (h' ! q) = rec_counter (h ! q)
          \<and> rec_remastering (h' ! q)
              = (rec_remastering (h ! q) \<or> wants_remaster mb (sm_mode sm) (tx_client_replica txn) (h ! q))
        else h' ! q = h ! q)
    \<and> length new = length (filter (\<lambda>i. wants_remaster mb (sm_mode sm) (tx_client_replica txn) (h ! entry_ptr sm txn i)) [0..<10])
    \<and> (\<forall>m \<in> set new. \<exists>i < 10. wants_remaster mb (sm_mode sm) (tx_client_replica txn) (h ! entry_ptr sm txn i)
          \<and> remaster_request cd mb c txn (ke_key (tx_read_write_set txn ! i)) (h ! entry_ptr sm txn i) m)"
proof -
  let ?js = "[0..<unat kRWSetSize]" and ?acc = "accessed mb (sm_mode sm) (tx_client_replica txn)"
  let ?want = "wants_remaster mb (sm_mode sm) (tx_client_replica txn)"
  have k: "unat kRWSetSize = 10" by (simp add: kRWSetSize_def)
  have ptr: "entry_ptr sm txn i < length h" if "i < 10" for i
    using assms(2) that by (auto simp: entry_ready_def entry_ptr_def)
  note acc = accessed_correct [OF _ assms(4), of _ mb "sm_mode sm"]
  have want: "snd (?acc (h ! q)) = ?want (h ! q)" if "q < length h" for q
    using acc(6) [of "h ! q"] assms(3) that by (simp add: heap_ok_def wants_remaster_def)
  from execute_entries [of ?js sm h txn cd mb c sent] assms obtain h' c' new where
    run: "foldE (execute_entry cd mb txn) ?js (sm, h, c, sent) = Inr (sm, h', c', sent @ new)"
    and h': "heap_ok h'" "length h' = length h"
      "\<forall>q < length h. h' ! q = (if q \<in> entry_ptr sm txn ` set ?js then fst (?acc (h ! q)) else h ! q)"
    and n: "length new = length (filter (\<lambda>i. snd (?acc (h ! entry_ptr sm txn i))) ?js)"
    and ms: "\<forall>m \<in> set new. \<exists>i \<in> set ?js. snd (?acc (h ! entry_ptr sm txn i))
      \<and> remaster_request cd mb c txn (ke_key (tx_read_write_set txn ! i)) (h ! entry_ptr sm txn i) m"
    by (auto simp: k)
  have "Execute cd mb txn (sm, h, c, sent) = Inr (sm, h', c', sent @ new)"
    using run assms(1) by (simp add: Execute_def)
  moreover have "\<forall>q < length h. if q \<in> entry_ptr sm txn ` {..<10}
      then rec_value (h' ! q) = advanced (rec_value (h ! q)) \<and> rec_master (h' ! q) = rec_master (h ! q)
        \<and> rec_counter (h' ! q) = rec_counter (h ! q) \<and> rec_remastering (h' ! q) = (rec_remastering (h ! q) \<or> ?want (h ! q))
      else h' ! q = h ! q"
    using h'(3) acc(2-5) assms(3) want by (simp add: k heap_ok_def atLeast0LessThan)
  moreover have "filter (\<lambda>i. snd (?acc (h ! entry_ptr sm txn i))) ?js = filter (\<lambda>i. ?want (h ! entry_ptr sm txn i)) [0..<10]"
    unfolding k using ptr want by (intro filter_cong) auto
  then have "length new = length (filter (\<lambda>i. ?want (h ! entry_ptr sm txn i)) [0..<10])" using n by simp
  moreover have "\<forall>m \<in> set new. \<exists>i < 10. ?want (h ! entry_ptr sm txn i)
      \<and> remaster_request cd mb c txn (ke_key (tx_read_write_set txn ! i)) (h ! entry_ptr sm txn i) m"
    using ms ptr want by (fastforce simp: k)
  ultimately show ?thesis using h'(1,2) by blast
qed

text \<open>
  A remaster request, executed at a replica, moves the record to the replica of the client and
  raises its counter if the record still has the master and the counter of the request, and otherwise
  aborts on a \<open>CHECK\<close>; the mark is taken back at the replica that asked.
\<close>

theorem remaster_request_executes:
  assumes "codec_ok cd" and "remaster_request cd mb c txn key val m"
    and "map_of (sm_objects sm) key = Some (Some p)" and "p < length h"
  shows "Execute cd mb' (dec_txn cd (hd (msg_data m))) (sm, h, c', sent)
    = (if rec_master (h ! p) = rec_master val \<and> rec_counter (h ! p) = rec_counter val
       then Inr (sm, h[p := (h ! p)\<lparr>rec_master := tx_client_replica txn, rec_counter := rec_counter val + 1,
              rec_remastering := (mb_local_replica mb' \<noteq> mb_local_replica mb \<and> rec_remastering (h ! p))\<rparr>], c', sent)
       else Inl Check_failed)"
proof -
  from assms(2) obtain guid where m: "m = remaster_message cd c (remaster_txn guid (mb_local_replica mb) txn key val)"
    by (auto simp: remaster_request_def)
  have read: "SM_ReadObject key sm = (Some p, sm)" by (simp add: SM_ReadObject_def assms(3))
  show ?thesis
    using assms(1,4)
    by (auto simp: m remaster_message_def MessageProto_new_def Execute_def remaster_txn_def TxnProto_new_def
        execute_remaster_def read deref_def heap_get_def heap_modify_def CHECK_def)
qed

section \<open>Instances\<close>

definition example_txn :: "uint32 \<Rightarrow> txn_proto" where
  "example_txn client = TxnProto_new\<lparr>tx_client_replica := client,
     tx_read_write_set := map (\<lambda>i. \<lparr>ke_key = replicate i CHR ''k'', ke_master = 0, ke_counter = 0\<rparr>) [0..<10]\<rparr>"

definition example_manager :: "payload storage_manager" where
  "example_manager = (StorageManager_init 0 0 (example_config 0) (example_txn 1) 2)
     \<lparr>sm_objects := map (\<lambda>i. (replicate i CHR ''k'', Some i)) [0..<10]\<rparr>"

text \<open>The first record has been read 9500 times from replica 1.\<close>

definition example_heap :: rec_heap where
  "example_heap = (Record_new ''abcdefgz'' 0)\<lparr>rec_access_pattern := [0, 9500, 0], rec_access_cnt := 9500\<rparr>
     # replicate 9 (Record_new ''zzzzzzzz'' 0)"

lemma example_object: "i < 10 \<Longrightarrow> map_of (sm_objects example_manager) (replicate i CHR ''k'') = Some (Some i)"
proof -
  assume i: "i < 10"
  have "distinct (map fst (sm_objects example_manager))"
    by (auto simp: example_manager_def distinct_map comp_def intro!: inj_onI)
  moreover have "(replicate i CHR ''k'', Some i) \<in> set (sm_objects example_manager)"
    using i by (auto simp: example_manager_def)
  ultimately show ?thesis by (rule map_of_is_SomeI)
qed

lemma example_entries:
  "tx_read_write_set (example_txn client) ! i = \<lparr>ke_key = replicate i CHR ''k'', ke_master = 0, ke_counter = 0\<rparr>"
  "length (tx_read_write_set (example_txn client)) = 10" if "i < 10"
  using that by (simp_all add: example_txn_def)

lemma example_entry_ready:
  "i < 10 \<Longrightarrow> entry_ready example_manager example_heap (example_txn 1) i"
  "i < 10 \<Longrightarrow> entry_ptr example_manager (example_txn 1) i = i"
  by (simp_all add: entry_ready_def entry_ptr_def example_entries example_object example_heap_def)

lemma example_heap_ok: "heap_ok example_heap"
  by (simp add: heap_ok_def example_heap_def record_ok_def letters_def Record_new_def Record_new_counter_def
      REPLICA_SIZE_def LAST_N_TOUCH_def)

lemma Execute_correct_witness:
  "\<exists>h' c' new. Execute payload_codec (Microbenchmark_new (example_config 0) 100) (example_txn 1)
      (example_manager, example_heap, example_config 0, []) = Inr (example_manager, h', c', [] @ new)
    \<and> rec_value (h' ! 1) = advanced ''zzzzzzzz''"
proof -
  have "distinct (map (entry_ptr example_manager (example_txn 1)) [0..<10])"
    using map_cong [of "[0..<10]" "[0..<10]" "entry_ptr example_manager (example_txn 1)" id] example_entry_ready(2) by simp
  moreover have "entry_ptr example_manager (example_txn 1) ` {..<10} = {..<10}"
    using example_entry_ready(2) by (auto simp: image_iff)
  moreover have "\<not> tx_remaster_txn (example_txn 1)" "unat (tx_client_replica (example_txn 1)) < REPLICA_SIZE"
    by (simp_all add: example_txn_def TxnProto_new_def REPLICA_SIZE_def)
  ultimately show ?thesis
    using Execute_correct [of "example_txn 1" example_manager example_heap payload_codec
        "Microbenchmark_new (example_config 0) 100" "example_config 0" "[]"] example_entry_ready(1) example_heap_ok
    by (fastforce simp: example_heap_def Record_new_def Record_new_counter_def)
qed

lemma remaster_request_executes_witness:
  "Execute payload_codec (Microbenchmark_new (example_config 0) 100)
     (dec_txn payload_codec (hd (msg_data (remaster_message payload_codec (example_config 0)
        (remaster_txn 7 0 (example_txn 1) [] (example_heap ! 0))))))
     (example_manager, example_heap, example_config 0, [])
   = Inr (example_manager, example_heap[0 := (example_heap ! 0)\<lparr>rec_master := 1, rec_counter := 1, rec_remastering := False\<rparr>],
       example_config 0, [])"
proof -
  let ?mb = "(Microbenchmark_new (example_config 0) 100)\<lparr>mb_local_replica := 0\<rparr>"
  let ?m = "remaster_message payload_codec (example_config 0) (remaster_txn 7 0 (example_txn 1) [] (example_heap ! 0))"
  have "remaster_request payload_codec ?mb (example_config 0) (example_txn 1) [] (example_heap ! 0) ?m"
    by (auto simp: remaster_request_def)
  from remaster_request_executes [OF payload_codec_ok this, of example_manager 0 example_heap
      "Microbenchmark_new (example_config 0) 100" "example_config 0" "[]"] example_object [of 0]
  show ?thesis by (simp add: example_heap_def Record_new_def Record_new_counter_def example_txn_def)
qed

end
