(* ===== verification/Tpcc.thy ===== *)
theory Tpcc
  imports Microbenchmark
begin

text \<open>
  \<open>applications/tpcc.h\<close> and \<open>applications/tpcc.cc\<close>: the layout of the key space (warehouses, districts,
  customers, items), the six transaction generators, the execution and the initial load. A
  transaction reads warehouses and a customer, and reads and writes a district and ten items.
\<close>

section \<open>State\<close>

record tpcc =
  tp_nparts :: uint32
  tp_warehouses_per_node :: uint32
  tp_replica_size :: uint32
  tp_local_replica :: uint32
  tp_warehouse_end :: uint64
  tp_district_end :: uint64
  tp_customer_end :: uint64
  tp_item_end :: uint64
  tp_kDBSize :: uint64

definition DISTRICTS_PER_WAREHOUSE :: uint32 where "DISTRICTS_PER_WAREHOUSE = 10"
definition CUSTOMERS_PER_DISTRICT :: uint32 where "CUSTOMERS_PER_DISTRICT = 3000"
definition NUMBER_OF_ITEMS :: uint32 where "NUMBER_OF_ITEMS = 100000"

definition TPCCTXN_SP :: uint32 where "TPCCTXN_SP = 1"
definition TPCCTXN_MP :: uint32 where "TPCCTXN_MP = 2"

text \<open>Each product is a \<open>uint32\<close>, each sum a \<open>uint64\<close>.\<close>

definition Tpcc_new :: "cluster_config \<Rightarrow> uint32 \<Rightarrow> tpcc" where
  "Tpcc_new conf warehouses =
     (let nparts = ucast (nodes_per_replica conf) :: uint32;
          warehouse_end = ucast (warehouses * nparts) :: uint64;
          district_end = warehouse_end + ucast (nparts * (warehouses * DISTRICTS_PER_WAREHOUSE));
          customer_end = district_end + ucast (nparts * (warehouses * DISTRICTS_PER_WAREHOUSE * CUSTOMERS_PER_DISTRICT));
          item_end = customer_end + ucast (nparts * (warehouses * NUMBER_OF_ITEMS))
      in \<lparr>tp_nparts = nparts, tp_warehouses_per_node = warehouses, tp_replica_size = cc_replicas_size conf,
          tp_local_replica = cc_local_replica conf, tp_warehouse_end = warehouse_end,
          tp_district_end = district_end, tp_customer_end = customer_end, tp_item_end = item_end,
          tp_kDBSize = item_end\<rparr>)"

section \<open>Parts of the generators\<close>

definition Tpcc_GetRandomKeys :: "tpcc \<Rightarrow> uint32 \<Rightarrow> uint64 \<Rightarrow> uint64 \<Rightarrow> uint64 \<Rightarrow> uint64 list gen" where
  "Tpcc_GetRandomKeys tp num_keys key_start key_limit part =
     definedG (tp_nparts tp \<noteq> 0)
      (checkG (key_start mod ucast (tp_nparts tp) = 0)
        (fresh_keys (unat num_keys)
          (mapG (\<lambda>v. key_start + part + ucast (tp_nparts tp) * v)
            (rand_mod ((key_limit - key_start) div ucast (tp_nparts tp)))) []))"

definition Tpcc_GetRandomKeysReplica ::
  "tpcc \<Rightarrow> uint32 \<Rightarrow> uint64 \<Rightarrow> uint64 \<Rightarrow> uint64 \<Rightarrow> uint32 \<Rightarrow> uint64 list gen" where
  "Tpcc_GetRandomKeysReplica tp num_keys key_start key_limit part replica =
     definedG (tp_nparts tp * tp_replica_size tp \<noteq> 0)
      (checkG (key_start mod ucast (tp_nparts tp * tp_replica_size tp) = 0)
        (fresh_keys (unat num_keys)
          (mapG (\<lambda>order. key_start + part
                  + ucast (tp_nparts tp) * (order * ucast (tp_replica_size tp) + ucast replica))
            (rand_mod ((key_limit - key_start) div ucast (tp_nparts tp * tp_replica_size tp)))) []))"

definition warehouse_key :: "tpcc \<Rightarrow> uint64 \<Rightarrow> uint64 gen" where
  "warehouse_key tp part = mapG (\<lambda>x. part + ucast (tp_nparts tp * x)) (rand_mod (tp_warehouses_per_node tp))"

definition warehouse_order :: "tpcc \<Rightarrow> uint32 \<Rightarrow> uint64 gen" where
  "warehouse_order tp replica =
     definedG (tp_replica_size tp \<noteq> 0)
       (mapG (\<lambda>x. ucast (x * tp_replica_size tp + replica))
         (rand_mod (tp_warehouses_per_node tp div tp_replica_size tp)))"

definition warehouse_of :: "tpcc \<Rightarrow> uint64 \<Rightarrow> uint64 \<Rightarrow> uint64" where
  "warehouse_of tp part hotkey_order = part + ucast (tp_nparts tp) * hotkey_order"

text \<open>\<open>key_start % (replica_size*nparts)\<close> is undefined for a zero product.\<close>

definition aligned_keys :: "tpcc \<Rightarrow> uint32 \<Rightarrow> uint64 \<Rightarrow> uint64 \<Rightarrow> uint64 \<Rightarrow> uint32 \<Rightarrow> uint64 list gen" where
  "aligned_keys tp num start limit part replica =
     definedG (tp_replica_size tp * tp_nparts tp \<noteq> 0)
       (Tpcc_GetRandomKeysReplica tp num (align_start (tp_nparts tp) (tp_replica_size tp) start) limit part replica)"

text \<open>
  The district, the customer and the ten items: district and customer come from one home, the items
  from another, which may be the same. Only the start of the customers and of the items is aligned.
\<close>

definition order_lines :: "tpcc \<Rightarrow> uint64 \<Rightarrow> uint32 \<Rightarrow> uint64 \<Rightarrow> uint32 \<Rightarrow> txn_proto \<Rightarrow> txn_proto gen" where
  "order_lines tp part1 replica1 part2 replica2 txn =
     bindG (Tpcc_GetRandomKeysReplica tp 1 (tp_warehouse_end tp) (tp_district_end tp) part1 replica1) (\<lambda>district.
     bindG (aligned_keys tp 1 (tp_district_end tp) (tp_customer_end tp) part1 replica1) (\<lambda>customer.
     bindG (aligned_keys tp 10 (tp_customer_end tp) (tp_item_end tp) part2 replica2) (\<lambda>items.
     returnG (fold (add_read_write replica2) items (fold (add_read replica1) customer
       (fold (add_read_write replica1) district txn))))))"

section \<open>The generators\<close>

definition TpccTxnSP :: "tpcc \<Rightarrow> int64 \<Rightarrow> uint64 \<Rightarrow> txn_proto gen" where
  "TpccTxnSP tp txn_id part =
     bindG (warehouse_key tp part) (\<lambda>hotkey1.
     bindG (Tpcc_GetRandomKeys tp 1 (tp_warehouse_end tp) (tp_district_end tp) part) (\<lambda>district.
     bindG (Tpcc_GetRandomKeys tp 1 (tp_district_end tp) (tp_customer_end tp) part) (\<lambda>customer.
     bindG (Tpcc_GetRandomKeys tp 10 (tp_customer_end tp) (tp_item_end tp) part) (\<lambda>items.
     returnG (fold (add_read_write 0) items (fold (add_read 0) customer (fold (add_read_write 0) district
       (add_read 0 hotkey1 (new_txn txn_id TPCCTXN_SP)))))))))"

definition TpccTxnMP :: "tpcc \<Rightarrow> int64 \<Rightarrow> uint64 \<Rightarrow> uint64 \<Rightarrow> txn_proto gen" where
  "TpccTxnMP tp txn_id part1 part2 =
     checkG (part1 \<noteq> part2 \<or> tp_nparts tp = 1)
      (bindG (warehouse_key tp part1) (\<lambda>hotkey1.
       bindG (warehouse_key tp part2) (\<lambda>hotkey2.
       bindG (Tpcc_GetRandomKeys tp 1 (tp_warehouse_end tp) (tp_district_end tp) part1) (\<lambda>district.
       bindG (Tpcc_GetRandomKeys tp 1 (tp_district_end tp) (tp_customer_end tp) part1) (\<lambda>customer.
       bindG (Tpcc_GetRandomKeys tp 10 (tp_customer_end tp) (tp_item_end tp) part2) (\<lambda>items.
       returnG (fold (add_read_write 0) items (fold (add_read 0) customer (fold (add_read_write 0) district
         (add_read 0 hotkey2 (add_read 0 hotkey1 (new_txn txn_id TPCCTXN_MP))))))))))))"

definition TpccTxnSRSP :: "tpcc \<Rightarrow> int64 \<Rightarrow> uint64 \<Rightarrow> uint32 \<Rightarrow> txn_proto gen" where
  "TpccTxnSRSP tp txn_id part replica =
     bindG (warehouse_order tp replica) (\<lambda>hotkey_order1.
     order_lines tp part replica part replica
       (add_read replica (warehouse_of tp part hotkey_order1) (new_txn txn_id TPCCTXN_SP)))"

definition TpccTxnSRMP :: "tpcc \<Rightarrow> int64 \<Rightarrow> uint64 \<Rightarrow> uint64 \<Rightarrow> uint32 \<Rightarrow> txn_proto gen" where
  "TpccTxnSRMP tp txn_id part1 part2 replica =
     checkG (part1 \<noteq> part2 \<or> tp_nparts tp = 1)
      (bindG (warehouse_order tp replica) (\<lambda>hotkey_order1.
       bindG (warehouse_order tp replica) (\<lambda>hotkey_order2.
       order_lines tp part1 replica part2 replica
         (add_read replica (warehouse_of tp part2 hotkey_order2)
           (add_read replica (warehouse_of tp part1 hotkey_order1) (new_txn txn_id TPCCTXN_MP))))))"

definition TpccTxnMRSP :: "tpcc \<Rightarrow> int64 \<Rightarrow> uint64 \<Rightarrow> uint32 \<Rightarrow> uint32 \<Rightarrow> txn_proto gen" where
  "TpccTxnMRSP tp txn_id part r1 r2 =
     checkG (r1 \<noteq> r2)
      (let (replica1, replica2) = (if r1 > r2 then (r2, r1) else (r1, r2));
           txn = mark_fake replica1 replica2 (new_txn txn_id TPCCTXN_SP)
       in bindG (warehouse_order tp replica1) (\<lambda>hotkey_order1.
          bindG (warehouse_order tp replica2) (\<lambda>hotkey_order2.
          order_lines tp part replica1 part replica2
            (add_read replica2 (warehouse_of tp part hotkey_order2)
              (add_read replica1 (warehouse_of tp part hotkey_order1) txn)))))"

definition TpccTxnMRMP ::
  "tpcc \<Rightarrow> int64 \<Rightarrow> uint64 \<Rightarrow> uint64 \<Rightarrow> uint32 \<Rightarrow> uint32 \<Rightarrow> txn_proto gen" where
  "TpccTxnMRMP tp txn_id p1 p2 r1 r2 =
     checkG (p1 \<noteq> p2 \<or> tp_nparts tp = 1)
      (let (replica1, replica2, part1, part2) = (if r1 > r2 then (r2, r1, p2, p1) else (r1, r2, p1, p2));
           txn = mark_fake replica1 replica2 (new_txn txn_id TPCCTXN_MP)
       in bindG (warehouse_order tp replica1) (\<lambda>hotkey_order1.
          bindG (warehouse_order tp replica2) (\<lambda>hotkey_order2.
          order_lines tp part1 replica1 part2 replica2
            (add_read replica2 (warehouse_of tp part2 hotkey_order2)
              (add_read replica1 (warehouse_of tp part1 hotkey_order1) txn)))))"

section \<open>Execution and initial load\<close>

text \<open>The loop over the first eight characters of a value, one assignment per round.\<close>

definition Tpcc_advance_char :: "nat \<Rightarrow> string \<Rightarrow> string outcome" where
  "Tpcc_advance_char j v = require_defined (j < length v)
     (Inr (v[j := (if 122 < sint (of_char (v ! j) :: uint8) + 1 then CHR ''a''
                   else char_of (unat (of_char (v ! j) + 1 :: uint8)))]))"

definition Tpcc_advance_value :: "string \<Rightarrow> string outcome" where
  "Tpcc_advance_value v = foldE Tpcc_advance_char [0..<8] v"

definition Tpcc_execute_entry :: "txn_proto \<Rightarrow> nat \<Rightarrow> 'b storage_manager \<times> rec_heap \<Rightarrow> ('b storage_manager \<times> rec_heap) outcome" where
  "Tpcc_execute_entry txn i st =
     (let (sm, h) = st
      in bindE (rep_get (tx_read_write_set txn) i) (\<lambda>ke.
         let (po, sm') = SM_ReadObject (ke_key ke) sm
         in bindE (deref po) (\<lambda>p. bindE (heap_get h p) (\<lambda>val.
            bindE (Tpcc_advance_value (rec_value val)) (\<lambda>v.
            bindE (heap_modify p (\<lambda>_. val\<lparr>rec_value := v\<rparr>) h) (\<lambda>h'. Inr (sm', h')))))))"

definition Tpcc_Execute :: "txn_proto \<Rightarrow> 'b storage_manager \<times> rec_heap \<Rightarrow> ('b storage_manager \<times> rec_heap) outcome" where
  "Tpcc_Execute txn st = foldE (Tpcc_execute_entry txn) [0..<length (tx_read_write_set txn)] st"

definition Tpcc_InitializeStorage ::
  "tpcc \<Rightarrow> cluster_config \<Rightarrow> simple_storage \<times> rec_heap \<Rightarrow> (simple_storage \<times> rec_heap) gen" where
  "Tpcc_InitializeStorage tp conf sh =
     bindG (random_letters (unat kRecordSize - 1)) (\<lambda>int_buffer.
       returnG (fold (load_key conf int_buffer) (map of_nat [0..<unat (tp_kDBSize tp)]) sh))"

definition Tpcc_NewTxn :: "int64 \<Rightarrow> int32 \<Rightarrow> string \<Rightarrow> cluster_config option \<Rightarrow> txn_proto option" where
  "Tpcc_NewTxn txn_id txn_type args config = None"

section \<open>The key space\<close>

text \<open>
  One block of \<open>W = nparts * warehouses_per_node\<close> keys for the warehouses, 10 for the districts, 30000
  for the customers and 100000 for the items. The bound keeps all of them below \<open>2^31\<close>. In the
  low-latency mode the number of warehouses has to be a multiple of the number of replicas, or the
  \<open>CHECK\<close> on the start of the districts fails.
\<close>

definition tpcc_sizes :: "cluster_config \<Rightarrow> uint32 \<Rightarrow> bool" where
  "tpcc_sizes c w \<longleftrightarrow> config_ok c \<and> 0 < w \<and> unat (nodes_per_replica c) * unat w * 130011 \<le> 2 ^ 31"

definition tpcc_ok :: "cluster_config \<Rightarrow> uint32 \<Rightarrow> bool" where
  "tpcc_ok c w \<longleftrightarrow> tpcc_sizes c w \<and> unat w mod unat (cc_replicas_size c) = 0"

lemma Tpcc_new_simps [simp]:
  "tp_warehouses_per_node (Tpcc_new c w) = w" "tp_replica_size (Tpcc_new c w) = cc_replicas_size c"
  "tp_kDBSize (Tpcc_new c w) = tp_item_end (Tpcc_new c w)"
  by (simp_all add: Tpcc_new_def Let_def)

lemma tpcc_ends:
  assumes t: "tpcc_sizes c w"
  defines "N \<equiv> unat (nodes_per_replica c)" and "tp \<equiv> Tpcc_new c w"
  shows "0 < N" "0 < unat w" "N * unat w \<le> 16517" "unat (tp_nparts tp) = N"
    "unat (tp_warehouse_end tp) = N * unat w" "unat (tp_district_end tp) = 11 * (N * unat w)"
    "unat (tp_customer_end tp) = 30011 * (N * unat w)" "unat (tp_item_end tp) = 130011 * (N * unat w)"
    "unat (tp_item_end tp) \<le> 2 ^ 31"
proof -
  show N: "0 < N" and w: "0 < unat w" and W: "N * unat w \<le> 16517"
    using t by (auto simp: tpcc_sizes_def config_ok_def N_def unat_gt_0)
  have "N \<le> N * unat w" "unat w \<le> N * unat w" using N w by simp_all
  with W have N': "N \<le> 16517" and w': "unat w \<le> 16517" by linarith+
  then show n: "unat (tp_nparts tp) = N"
    by (simp add: tp_def Tpcc_new_def Let_def N_def unsigned_ucast_eq take_bit_nat_eq_self)
  let ?n = "ucast (nodes_per_replica c) :: uint32"
  have n': "unat ?n = N" using n by (simp add: tp_def Tpcc_new_def Let_def)
  have prod: "unat (?n * (w * b)) = unat b * (N * unat w)" if "unat b \<le> 100000" for b
  proof -
    have "unat w * unat b \<le> 16517 * 100000" using w' that by (intro mult_le_mono)
    moreover have "N * unat w * unat b \<le> 16517 * 100000" using W that by (intro mult_le_mono)
    ultimately show ?thesis by (simp add: unat_word_ariths n' mult.commute mult.left_commute)
  qed
  have "unat (w * ?n) = N * unat w" using W by (simp add: unat_word_ariths n' mult.commute)
  then show we: "unat (tp_warehouse_end tp) = N * unat w"
    by (simp add: tp_def Tpcc_new_def Let_def)
  then show de: "unat (tp_district_end tp) = 11 * (N * unat w)"
    using W prod [of 10] unfolding tp_def Tpcc_new_def Let_def
    by (simp add: unat_word_ariths DISTRICTS_PER_WAREHOUSE_def)
  have "w * DISTRICTS_PER_WAREHOUSE * CUSTOMERS_PER_DISTRICT = w * 30000"
    by (simp add: DISTRICTS_PER_WAREHOUSE_def CUSTOMERS_PER_DISTRICT_def mult.assoc)
  with de show ce: "unat (tp_customer_end tp) = 30011 * (N * unat w)"
    using W prod [of 30000] unfolding tp_def Tpcc_new_def Let_def
    by (simp add: unat_word_ariths)
  then show ie: "unat (tp_item_end tp) = 130011 * (N * unat w)"
    using W prod [of 100000] unfolding tp_def Tpcc_new_def Let_def
    by (simp add: unat_word_ariths NUMBER_OF_ITEMS_def)
  show "unat (tp_item_end tp) \<le> 2 ^ 31" using t by (simp add: ie tpcc_sizes_def N_def)
qed

lemma tpcc_nparts:
  "tpcc_sizes c w \<Longrightarrow> ucast (tp_nparts (Tpcc_new c w)) = nodes_per_replica c"
  "tpcc_sizes c w \<Longrightarrow> tp_nparts (Tpcc_new c w) \<noteq> 0"
  using tpcc_ends(1,4) by (fastforce simp: word_unat_eq_iff)+

lemma tpcc_order:
  assumes "tpcc_sizes c w"
  shows "tp_warehouse_end (Tpcc_new c w) \<le> tp_district_end (Tpcc_new c w)"
    "tp_district_end (Tpcc_new c w) \<le> tp_customer_end (Tpcc_new c w)"
    "tp_customer_end (Tpcc_new c w) \<le> tp_item_end (Tpcc_new c w)"
  by (simp_all add: word_le_nat_alt tpcc_ends [OF assms])

section \<open>The keys of a transaction\<close>

lemma Tpcc_GetRandomKeys_eq:
  "Tpcc_GetRandomKeys tp num start limit part = GetRandomKeys (tp_nparts tp) num start limit part"
  "Tpcc_GetRandomKeysReplica tp num start limit part replica
     = GetRandomKeysReplica (tp_nparts tp) (tp_replica_size tp) num start limit part replica"
  by (simp_all add: Tpcc_GetRandomKeys_def GetRandomKeys_def Tpcc_GetRandomKeysReplica_def GetRandomKeysReplica_def)

text \<open>A block of keys: from \<open>a * W\<close> to \<open>b * W\<close>.\<close>

lemma block_keys_gen_ok:
  assumes t: "tpcc_sizes c w" and part: "part < nodes_per_replica c"
    and s: "unat start = a * (unat (nodes_per_replica c) * unat w)" and l: "unat limit = b * (unat (nodes_per_replica c) * unat w)"
    and num: "0 < num" "a + unat num \<le> b" "num \<le> 10"
  shows "gen_ok (Tpcc_GetRandomKeys (Tpcc_new c w) num start limit part)
    (\<lambda>ks. keys_in start limit (nodes_per_replica c) part ks \<and> length ks = unat num)"
proof -
  let ?N = "unat (nodes_per_replica c)"
  note e = tpcc_ends [OF t] and n = tpcc_nparts [OF t]
  have "a * (?N * unat w) \<le> b * (?N * unat w)" using num(2) by (intro mult_le_mono1) simp
  then have le: "start \<le> limit" by (simp add: word_le_nat_alt s l)
  have "unat start mod ?N = 0" by (simp add: s)
  then have "start mod nodes_per_replica c = 0" by (metis unat_eq_zero unat_mod_distrib)
  moreover have "unat num \<le> unat ((limit - start) div nodes_per_replica c)"
  proof -
    have "unat num * 1 \<le> (b - a) * unat w" using num(2) e(2) by (intro mult_le_mono) simp_all
    also have "(b - a) * unat w = (b * (?N * unat w) - a * (?N * unat w)) div ?N"
      using e(1) by (simp add: diff_mult_distrib [symmetric] mult.left_commute)
    finally show ?thesis using le by (simp add: unat_div_distrib unat_sub s l)
  qed
  moreover have "unat num \<le> 10" using num(3) by (simp add: word_le_nat_alt)
  ultimately show ?thesis
    using GetRandomKeys_gen_ok [OF n(2), of start part limit num] part le num(1)
    by (simp add: Tpcc_GetRandomKeys_eq n(1))
qed

abbreviation tpcc_home_keys ::
  "cluster_config \<Rightarrow> uint32 \<Rightarrow> uint64 \<Rightarrow> uint64 \<Rightarrow> uint64 \<Rightarrow> uint32 \<Rightarrow> uint64 list \<Rightarrow> bool" where
  "tpcc_home_keys c w start limit part replica ks \<equiv>
     replica_keys start limit (tp_nparts (Tpcc_new c w)) (cc_replicas_size c) part replica ks"

lemma tpcc_stride:
  assumes t: "tpcc_sizes c w" and R: "0 < unat (cc_replicas_size c)" "unat (cc_replicas_size c) \<le> unat w"
  shows "unat (tp_nparts (Tpcc_new c w) * cc_replicas_size c) = unat (nodes_per_replica c) * unat (cc_replicas_size c)"
    and "unat (nodes_per_replica c) * unat (cc_replicas_size c) < 2 ^ 32"
    and "tp_nparts (Tpcc_new c w) * cc_replicas_size c \<noteq> 0"
proof -
  note e = tpcc_ends [OF t]
  have "unat (nodes_per_replica c) * unat (cc_replicas_size c) \<le> unat (nodes_per_replica c) * unat w"
    using R(2) by (rule mult_le_mono2)
  also have "\<dots> < 2 ^ 32" using e(3) by simp
  finally show lt: "unat (nodes_per_replica c) * unat (cc_replicas_size c) < 2 ^ 32" .
  then show p: "unat (tp_nparts (Tpcc_new c w) * cc_replicas_size c) = unat (nodes_per_replica c) * unat (cc_replicas_size c)"
    by (simp add: unat_word_ariths e(4))
  show "tp_nparts (Tpcc_new c w) * cc_replicas_size c \<noteq> 0"
  proof
    assume "tp_nparts (Tpcc_new c w) * cc_replicas_size c = 0"
    then have "unat (tp_nparts (Tpcc_new c w) * cc_replicas_size c) = 0" by simp
    with p R(1) e(1) show False by simp
  qed
qed

lemma tpcc_replicas:
  assumes "tpcc_ok c w"
  shows "tpcc_sizes c w" "0 < unat (cc_replicas_size c)" "unat (cc_replicas_size c) \<le> unat w"
    "unat w mod unat (cc_replicas_size c) = 0"
  using assms by (auto simp: tpcc_ok_def tpcc_sizes_def config_ok_def unat_gt_0 word_less_nat_alt intro: dvd_imp_le)

lemma block_home_keys_gen_ok:
  assumes t: "tpcc_ok c w" and part: "part < nodes_per_replica c" and rep: "replica < cc_replicas_size c"
    and s: "unat start = a * (unat (nodes_per_replica c) * unat w)" and l: "unat limit = b * (unat (nodes_per_replica c) * unat w)"
    and num: "0 < num" "a + unat num \<le> b" "num \<le> 10"
  shows "gen_ok (Tpcc_GetRandomKeysReplica (Tpcc_new c w) num start limit part replica)
      (\<lambda>ks. tpcc_home_keys c w start limit part replica ks \<and> length ks = unat num)"
    and "aligned_keys (Tpcc_new c w) num start limit part replica
      = Tpcc_GetRandomKeysReplica (Tpcc_new c w) num start limit part replica"
proof -
  let ?N = "unat (nodes_per_replica c)" and ?R = "unat (cc_replicas_size c)"
  let ?P = "tp_nparts (Tpcc_new c w) * cc_replicas_size c"
  note r = tpcc_replicas [OF t]
  note e = tpcc_ends [OF r(1)] and n = tpcc_nparts [OF r(1)] and st = tpcc_stride [OF r(1-3)]
  obtain q where q: "unat w = ?R * q" using r(4) by (auto elim: dvdE)
  with e(2) have q0: "0 < q" by simp
  have "a * (?N * unat w) \<le> b * (?N * unat w)" using num(2) by (intro mult_le_mono1) simp
  then have le: "start \<le> limit" by (simp add: word_le_nat_alt s l)
  have "unat start = (?N * ?R) * (a * q)" by (simp add: s q)
  then have "unat start mod (?N * ?R) = 0" by simp
  then have "unat (start mod ucast ?P) = 0" by (simp only: unat_mod_distrib unat_ucast_up st(1))
  then have al: "start mod ucast ?P = 0" by (simp only: unat_eq_zero)
  show "aligned_keys (Tpcc_new c w) num start limit part replica
      = Tpcc_GetRandomKeysReplica (Tpcc_new c w) num start limit part replica"
    unfolding aligned_keys_def align_start_def Tpcc_new_simps mult.commute [of "cc_replicas_size c" "tp_nparts (Tpcc_new c w)"]
    using st(3) al by (simp add: definedG_def)
  have "unat num \<le> unat ((limit - start) div ucast ?P)"
  proof -
    have "unat num * 1 \<le> (b - a) * q" using num(2) q0 by (intro mult_le_mono) simp_all
    also have "(b - a) * q = (b * (?N * unat w) - a * (?N * unat w)) div (?N * ?R)"
    proof -
      have "b * (?N * unat w) - a * (?N * unat w) = (?N * ?R) * ((b - a) * q)"
        by (simp add: q diff_mult_distrib [symmetric] mult.left_commute mult.assoc)
      then show ?thesis using e(1) r(2) by simp
    qed
    finally show ?thesis using le by (simp add: unat_div_distrib unat_sub s l st(1))
  qed
  moreover have "unat num \<le> 10" using num(3) by (simp add: word_le_nat_alt)
  ultimately show "gen_ok (Tpcc_GetRandomKeysReplica (Tpcc_new c w) num start limit part replica)
      (\<lambda>ks. tpcc_home_keys c w start limit part replica ks \<and> length ks = unat num)"
    unfolding Tpcc_GetRandomKeys_eq Tpcc_new_simps
    using part rep le num(1) al st(2) e(4) n by (intro GetRandomKeysReplica_gen_ok) simp_all
qed

section \<open>Warehouses\<close>

lemma warehouse_key_gen_ok:
  assumes t: "tpcc_sizes c w" and part: "part < nodes_per_replica c"
  shows "gen_ok (warehouse_key (Tpcc_new c w) part)
    (\<lambda>k. keys_in 0 (tp_warehouse_end (Tpcc_new c w)) (nodes_per_replica c) part [k])"
proof -
  note e = tpcc_ends [OF t]
  have w: "w \<noteq> 0" using e(2) by auto
  let ?N = "unat (nodes_per_replica c)" and ?n = "tp_nparts (Tpcc_new c w)"
  show ?thesis
    unfolding warehouse_key_def Tpcc_new_simps rand_mod_drawG [OF w] mapG_drawG
  proof (rule gen_ok_drawG)
    fix v :: rand_value
    let ?x = "ucast v mod w"
    have "?x < w" using w by (rule word_mod_less)
    then have x: "unat ?x < unat w" by (simp only: word_less_nat_alt)
    have "unat part + ?N * unat ?x < ?N * Suc (unat ?x)" using part by (simp add: word_less_nat_alt)
    also have "\<dots> \<le> ?N * unat w" using x by (intro mult_le_mono2) simp
    finally have lt: "unat part + ?N * unat ?x < ?N * unat w" .
    with e(3) have "unat (?n * ?x) = ?N * unat ?x" by (simp add: unat_mult_lem [THEN iffD1] e(4))
    with lt e(3) have "unat (part + ucast (?n * ?x)) = unat part + ?N * unat ?x"
      by (simp add: unat_plus_simple [THEN iffD1] unat_word_ariths(1))
    with lt part show "keys_in 0 (tp_warehouse_end (Tpcc_new c w)) (nodes_per_replica c) part [part + ucast (?n * ?x)]"
      by (simp add: keys_in_def key_set_def word_less_nat_alt e(5))
  qed
qed

lemma warehouse_order_gen_ok:
  assumes t: "tpcc_ok c w" and rep: "replica < cc_replicas_size c"
  shows "gen_ok (warehouse_order (Tpcc_new c w) replica) (order_ok c w replica)"
proof -
  let ?R = "cc_replicas_size c"
  note r = tpcc_replicas [OF t]
  have R: "?R \<noteq> 0" using r(2) by auto
  have "0 < unat w div unat ?R" using r(2,3) by (simp add: div_greater_zero_iff)
  then have q: "w div ?R \<noteq> 0" by (simp add: word_unat_eq_iff unat_div_distrib)
  show ?thesis
    unfolding warehouse_order_def Tpcc_new_simps rand_mod_drawG [OF q] mapG_drawG
  proof (rule gen_ok_definedG [OF R], rule gen_ok_drawG)
    fix v :: rand_value
    let ?x = "ucast v mod (w div ?R)"
    have "?x < w div ?R" using q by (rule word_mod_less)
    then have x: "unat ?x < unat w div unat ?R" by (simp only: word_less_nat_alt unat_div_distrib)
    have rr: "unat replica < unat ?R" using rep by (simp add: word_less_nat_alt)
    have "unat ?x * unat ?R + unat replica < Suc (unat ?x) * unat ?R" using rr by simp
    also have "\<dots> \<le> (unat w div unat ?R) * unat ?R" using x by (intro mult_le_mono1) simp
    also have "\<dots> \<le> unat w" by simp
    finally have lt: "unat ?x * unat ?R + unat replica < unat w" .
    moreover have "unat w < 2 ^ 32" using unsigned_less [of w] by simp
    ultimately have small: "unat ?x * unat ?R + unat replica < 2 ^ 32" by linarith
    then have "unat (?x * ?R) = unat ?x * unat ?R" by (intro unat_mult_lem [THEN iffD1]) simp
    with small have "unat (?x * ?R + replica) = unat ?x * unat ?R + unat replica"
      using unat_add_small [of "?x * ?R" replica] by simp
    with lt rr show "order_ok c w replica (ucast (?x * ?R + replica))"
      unfolding order_ok_def unat_ucast_up by simp
  qed
qed

lemma warehouse_of_home:
  assumes t: "tpcc_ok c w" and part: "part < nodes_per_replica c" and o: "order_ok c w replica o1"
  shows "tpcc_home_keys c w 0 (tp_warehouse_end (Tpcc_new c w)) part replica [warehouse_of (Tpcc_new c w) part o1]"
proof -
  note e = tpcc_ends [OF tpcc_replicas(1) [OF t]] and n = tpcc_nparts [OF tpcc_replicas(1) [OF t]]
  let ?N = "unat (nodes_per_replica c)"
  have p: "unat part < ?N" using part by (simp add: word_less_nat_alt)
  then have "unat part + ?N * unat o1 < ?N * Suc (unat o1)" by simp
  also have "\<dots> \<le> ?N * unat w" using o by (intro mult_le_mono2) (simp add: order_ok_def)
  finally have lt: "unat part + ?N * unat o1 < ?N * unat w" .
  have u: "unat (warehouse_of (Tpcc_new c w) part o1) = unat part + ?N * unat o1"
    using lt e(3) unat_mult_add_small [of "nodes_per_replica c" o1 part]
    by (simp add: warehouse_of_def n(1) add.commute)
  then show ?thesis
    using lt p o
    by (simp add: replica_keys_def keys_in_def key_set_def word_less_nat_alt e(4,5) n(1) order_ok_def)
qed

section \<open>What the generators return\<close>

text \<open>
  A transaction has \<open>r\<close> keys to read and eleven to read and write (a district and ten items), all
  distinct and all in the database.
\<close>

definition tpcc_shape :: "nat \<Rightarrow> txn_proto \<Rightarrow> bool" where
  "tpcc_shape r t \<longleftrightarrow> tx_write_set t = [] \<and> length (tx_read_set t) = r \<and> length (tx_read_write_set t) = 11
     \<and> distinct_keys t"

lemma add_read_simps [simp]:
  "tx_read_set (add_read m k t) = tx_read_set t @ [new_entry m k]"
  "tx_read_write_set (add_read m k t) = tx_read_write_set t" "tx_write_set (add_read m k t) = tx_write_set t"
  "tx_fake_txn (add_read m k t) = tx_fake_txn t" "tx_txn_id (add_read m k t) = tx_txn_id t"
  by (simp_all add: add_read_def)

lemma distinct_keysI:
  "map ke_key (txn_entries t) = map key_name ks \<Longrightarrow> distinct ks \<Longrightarrow> \<forall>k \<in> set ks. unat k < 2 ^ 32 \<Longrightarrow> distinct_keys t"
  using distinct_key_names by (simp add: distinct_keys_def)

lemma keys_of_entries:
  "map ke_key (txn_entries t) = map key_name ks \<Longrightarrow> ke_key ` set (txn_entries t) = key_name ` set ks"
  by (metis list.set_map)

lemma in_database_entries:
  "map ke_key (txn_entries t) = map key_name ks \<Longrightarrow> \<forall>k \<in> set ks. k < n \<Longrightarrow> in_database n t"
  using keys_of_entries [of t ks] unfolding in_database_def by (smt (verit, best) image_iff)

lemma tpcc_part_lookup:
  assumes t: "tpcc_sizes c w" and k: "unat k mod unat (nodes_per_replica c) = unat part" "k < tp_item_end (Tpcc_new c w)"
  shows "unat k < 2 ^ 31" "LookupPartition c (key_name k) = part"
    "unat (LookupMaster c (key_name k)) = (unat k div unat (nodes_per_replica c)) mod unat (cc_replicas_size c)"
proof -
  have "unat k < unat (tp_item_end (Tpcc_new c w))" using k(2) by (simp add: word_less_nat_alt)
  then show u: "unat k < 2 ^ 31" using tpcc_ends(9) [OF t] by (rule less_le_trans)
  show "LookupPartition c (key_name k) = part"
    "unat (LookupMaster c (key_name k)) = (unat k div unat (nodes_per_replica c)) mod unat (cc_replicas_size c)"
    using key_name_lookup [OF _ u k(1)] t by (simp_all add: tpcc_sizes_def)
qed

text \<open>Lists of keys in the four blocks have no key in common.\<close>

definition in_block :: "uint64 \<Rightarrow> uint64 \<Rightarrow> uint64 list \<Rightarrow> bool" where
  "in_block a b ks \<longleftrightarrow> distinct ks \<and> (\<forall>k \<in> set ks. a \<le> k \<and> k < b)"

lemma in_block_disjoint: "in_block a b xs \<Longrightarrow> in_block s d ys \<Longrightarrow> b \<le> s \<Longrightarrow> set xs \<inter> set ys = {}"
  unfolding in_block_def by (meson disjoint_iff leD order.strict_trans2 order.trans)

lemma keys_in_block: "keys_in a b n p ks \<Longrightarrow> in_block a b ks"
  by (simp add: keys_in_def key_set_def in_block_def)

lemma tpcc_blocks:
  fixes c w
  defines "tp \<equiv> Tpcc_new c w"
  assumes t: "tpcc_sizes c w"
    and b: "in_block 0 (tp_warehouse_end tp) hs" "in_block (tp_warehouse_end tp) (tp_district_end tp) ds"
      "in_block (tp_district_end tp) (tp_customer_end tp) cs" "in_block (tp_customer_end tp) (tp_item_end tp) its"
    and len: "length ds = 1" "length cs = 1" "length its = 10"
    and e: "tx_write_set txn = []" "map ke_key (tx_read_set txn) = map key_name (hs @ cs)"
      "map ke_key (tx_read_write_set txn) = map key_name (ds @ its)"
  shows "tpcc_shape (Suc (length hs)) txn" "in_database (tp_item_end tp) txn"
    "\<forall>k \<in> set (hs @ cs @ ds @ its). k < tp_item_end tp"
    "ke_key ` set (txn_entries txn) = key_name ` set (hs @ cs @ ds @ its)"
proof -
  let ?ks = "hs @ cs @ ds @ its"
  note o = tpcc_order [OF t, folded tp_def]
  note o' = order.trans [OF o(1,2)] order.trans [OF o(2,3)] order.trans [OF o(1) order.trans [OF o(2,3)]]
  note dj = in_block_disjoint [OF b(1,2) order.refl] in_block_disjoint [OF b(1,3) o(1)] in_block_disjoint [OF b(1,4) o'(1)]
    in_block_disjoint [OF b(2,3) order.refl] in_block_disjoint [OF b(2,4) o(2)] in_block_disjoint [OF b(3,4) order.refl]
  have "distinct hs" "distinct ds" "distinct cs" "distinct its" using b by (simp_all add: in_block_def)
  with dj have d: "distinct ?ks" by (simp add: Int_Un_distrib Int_commute)
  show small: "\<forall>k \<in> set ?ks. k < tp_item_end tp"
    using b o o' unfolding in_block_def by (auto dest!: bspec intro: less_le_trans)
  have keys: "map ke_key (txn_entries txn) = map key_name ?ks"
    using e(2,3) by (simp add: txn_entries_def)
  have "unat k < 2 ^ 32" if "k \<in> set ?ks" for k
  proof -
    have "unat k < unat (tp_item_end tp)" using small that by (simp add: word_less_nat_alt)
    also have "\<dots> \<le> 2 ^ 31" using tpcc_ends(9) [OF t] by (simp add: tp_def)
    finally show ?thesis by simp
  qed
  then have "distinct_keys txn" using distinct_keysI [OF keys d] by blast
  moreover have "length (tx_read_set txn) = Suc (length hs)" "length (tx_read_write_set txn) = 11"
    using arg_cong [OF e(2), of length] arg_cong [OF e(3), of length] len by simp_all
  ultimately show "tpcc_shape (Suc (length hs)) txn" using e(1) by (simp add: tpcc_shape_def)
  show "in_database (tp_item_end tp) txn" by (rule in_database_entries [OF keys small])
  show "ke_key ` set (txn_entries txn) = key_name ` set ?ks" by (rule keys_of_entries [OF keys])
qed

lemma replica_keys_in: "replica_keys a b n rs p r ks \<Longrightarrow> keys_in a b (ucast n) p ks"
  by (simp add: replica_keys_def)

definition tpcc_calvin_txn :: "cluster_config \<Rightarrow> uint32 \<Rightarrow> nat \<Rightarrow> int64 \<Rightarrow> uint64 set \<Rightarrow> txn_proto \<Rightarrow> bool" where
  "tpcc_calvin_txn c w r i P t \<longleftrightarrow> tpcc_shape r t \<and> tx_txn_id t = i \<and> partitions c t = P \<and> \<not> tx_fake_txn t
     \<and> in_database (tp_item_end (Tpcc_new c w)) t"

definition tpcc_low_latency_txn ::
  "cluster_config \<Rightarrow> uint32 \<Rightarrow> nat \<Rightarrow> int64 \<Rightarrow> (uint64 \<times> uint32) set \<Rightarrow> txn_proto \<Rightarrow> bool" where
  "tpcc_low_latency_txn c w r i H t \<longleftrightarrow> tpcc_shape r t \<and> tx_txn_id t = i \<and> homes c t = H \<and> masters_known c t
     \<and> in_database (tp_item_end (Tpcc_new c w)) t \<and> (tx_fake_txn t \<longleftrightarrow> spans_without_0 H)"

section \<open>The Calvin mode\<close>

lemma TpccTxnSP_gen_ok:
  assumes t: "tpcc_sizes c w" and p: "part < nodes_per_replica c"
  shows "gen_ok (TpccTxnSP (Tpcc_new c w) i part) (tpcc_calvin_txn c w 2 i {part})"
  unfolding TpccTxnSP_def
proof (rule gen_ok_bindG [OF warehouse_key_gen_ok [OF t p]],
    rule gen_ok_bindG [OF block_keys_gen_ok [OF t p, of _ 1 _ 11]], use tpcc_ends [OF t] in simp_all,
    rule gen_ok_bindG [OF block_keys_gen_ok [OF t p, of _ 11 _ 30011]], use tpcc_ends [OF t] in simp_all,
    rule gen_ok_bindG [OF block_keys_gen_ok [OF t p, of _ 30011 _ 130011]], use tpcc_ends [OF t] in simp_all,
    rule gen_ok_returnG, elim conjE)
  let ?tp = "Tpcc_new c w" and ?N = "nodes_per_replica c"
  fix h d cu its
  assume k: "keys_in 0 (tp_warehouse_end ?tp) ?N part [h]" "keys_in (tp_warehouse_end ?tp) (tp_district_end ?tp) ?N part d"
      "keys_in (tp_district_end ?tp) (tp_customer_end ?tp) ?N part cu" "keys_in (tp_customer_end ?tp) (tp_item_end ?tp) ?N part its"
    and l: "length d = Suc 0" "length cu = Suc 0" "length its = 10"
  let ?t = "fold (add_read_write 0) its (fold (add_read 0) cu (fold (add_read_write 0) d (add_read 0 h (new_txn i TPCCTXN_SP))))"
  note b = tpcc_blocks [OF t k [THEN keys_in_block], of ?t]
  have "LookupPartition c (key_name x) = part" if "x \<in> set ([h] @ cu @ d @ its)" for x
    using that b(3) k l by (intro tpcc_part_lookup(2) [OF t]) (auto simp: keys_in_def)
  then have "partitions c ?t = {part}" unfolding partitions_image using b(4) l by (auto simp: image_image)
  with b(1,2) l show "tpcc_calvin_txn c w 2 i {part} ?t" by (simp add: tpcc_calvin_txn_def numeral_2_eq_2)
qed

lemma TpccTxnMP_gen_ok:
  assumes t: "tpcc_sizes c w" and p: "part1 < nodes_per_replica c" "part2 < nodes_per_replica c" "part1 \<noteq> part2"
  shows "gen_ok (TpccTxnMP (Tpcc_new c w) i part1 part2) (tpcc_calvin_txn c w 3 i {part1, part2})"
  unfolding TpccTxnMP_def
proof (rule gen_ok_checkG, use p(3) in simp, rule gen_ok_bindG [OF warehouse_key_gen_ok [OF t p(1)]],
    rule gen_ok_bindG [OF warehouse_key_gen_ok [OF t p(2)]],
    rule gen_ok_bindG [OF block_keys_gen_ok [OF t p(1), of _ 1 _ 11]], use tpcc_ends [OF t] in simp_all,
    rule gen_ok_bindG [OF block_keys_gen_ok [OF t p(1), of _ 11 _ 30011]], use tpcc_ends [OF t] in simp_all,
    rule gen_ok_bindG [OF block_keys_gen_ok [OF t p(2), of _ 30011 _ 130011]], use tpcc_ends [OF t] in simp_all,
    rule gen_ok_returnG, elim conjE)
  let ?tp = "Tpcc_new c w" and ?N = "nodes_per_replica c"
  fix h1 h2 d cu its
  assume h: "keys_in 0 (tp_warehouse_end ?tp) ?N part1 [h1]" "keys_in 0 (tp_warehouse_end ?tp) ?N part2 [h2]"
    and k: "keys_in (tp_warehouse_end ?tp) (tp_district_end ?tp) ?N part1 d"
      "keys_in (tp_district_end ?tp) (tp_customer_end ?tp) ?N part1 cu" "keys_in (tp_customer_end ?tp) (tp_item_end ?tp) ?N part2 its"
    and l: "length d = Suc 0" "length cu = Suc 0" "length its = 10"
  let ?t = "fold (add_read_write 0) its (fold (add_read 0) cu (fold (add_read_write 0) d
    (add_read 0 h2 (add_read 0 h1 (new_txn i TPCCTXN_MP)))))"
  have "in_block 0 (tp_warehouse_end ?tp) [h1, h2]"
    using keys_in_block [OF h(1)] keys_in_block [OF h(2)] keys_in_other_part [OF h p(3)] by (auto simp: in_block_def)
  note b = tpcc_blocks [OF t this k [THEN keys_in_block], of ?t]
  have "LookupPartition c (key_name x) = part1" if "x \<in> set ([h1] @ cu @ d)" for x
    using that b(3) h k l by (intro tpcc_part_lookup(2) [OF t]) (auto simp: keys_in_def)
  moreover have "LookupPartition c (key_name x) = part2" if "x \<in> set ([h2] @ its)" for x
    using that b(3) h k l by (intro tpcc_part_lookup(2) [OF t]) (auto simp: keys_in_def)
  ultimately have "partitions c ?t = {part1, part2}" unfolding partitions_image using b(4) l by (auto simp: image_image)
  with b(1,2) l show "tpcc_calvin_txn c w 3 i {part1, part2} ?t" by (simp add: tpcc_calvin_txn_def numeral_3_eq_3)
qed

section \<open>The low-latency mode\<close>

lemma tpcc_home_lookup:
  assumes t: "tpcc_ok c w" and k: "tpcc_home_keys c w a b part replica ks" "k \<in> set ks" "k < tp_item_end (Tpcc_new c w)"
  shows "LookupPartition c (key_name k) = part" "LookupMaster c (key_name k) = replica"
proof -
  note s = tpcc_replicas(1) [OF t]
  have md: "unat k mod unat (nodes_per_replica c) = unat part"
    using replica_keys_in [OF k(1)] k(2) by (simp add: keys_in_def tpcc_ends(4) [OF s])
  show "LookupPartition c (key_name k) = part" by (rule tpcc_part_lookup(2) [OF s md k(3)])
  show "LookupMaster c (key_name k) = replica"
    using tpcc_part_lookup(3) [OF s md k(3)] k(1,2) tpcc_ends(4) [OF s]
    by (simp add: word_unat_eq_iff replica_keys_def)
qed

text \<open>
  \<open>order_lines\<close> completes a transaction that has read warehouses \<open>ha\<close> of the first home and \<open>hb\<close> of the
  second.
\<close>

lemma order_lines_gen_ok:
  fixes c w
  defines "tp \<equiv> Tpcc_new c w"
  assumes t: "tpcc_ok c w" and p: "p1 < nodes_per_replica c" "p2 < nodes_per_replica c"
    and r: "r1 < cc_replicas_size c" "r2 < cc_replicas_size c"
    and h: "tpcc_home_keys c w 0 (tp_warehouse_end tp) p1 r1 ha" "tpcc_home_keys c w 0 (tp_warehouse_end tp) p2 r2 hb"
    and d: "hb = [] \<or> (p1, r1) \<noteq> (p2, r2)"
    and x: "tx_write_set txn = []" "tx_read_write_set txn = []" "tx_txn_id txn = i"
      "tx_read_set txn = map (new_entry r1) ha @ map (new_entry r2) hb" "tx_fake_txn txn = spans_without_0 {(p1, r1), (p2, r2)}"
  shows "gen_ok (order_lines tp p1 r1 p2 r2 txn)
    (tpcc_low_latency_txn c w (Suc (length ha + length hb)) i {(p1, r1), (p2, r2)})"
  unfolding order_lines_def tp_def
proof -
  note s = tpcc_replicas(1) [OF t] note e = tpcc_ends [OF s, folded tp_def]
  let ?H = "{(p1, r1), (p2, r2)}"
  let ?f = "\<lambda>dis cu its. fold (add_read_write r2) its (fold (add_read r1) cu (fold (add_read_write r1) dis txn))"
  have gs: "gen_ok (Tpcc_GetRandomKeysReplica tp 1 (tp_warehouse_end tp) (tp_district_end tp) p1 r1)
      (\<lambda>ks. tpcc_home_keys c w (tp_warehouse_end tp) (tp_district_end tp) p1 r1 ks \<and> length ks = 1)"
    "gen_ok (aligned_keys tp 1 (tp_district_end tp) (tp_customer_end tp) p1 r1)
      (\<lambda>ks. tpcc_home_keys c w (tp_district_end tp) (tp_customer_end tp) p1 r1 ks \<and> length ks = 1)"
    "gen_ok (aligned_keys tp 10 (tp_customer_end tp) (tp_item_end tp) p2 r2)
      (\<lambda>ks. tpcc_home_keys c w (tp_customer_end tp) (tp_item_end tp) p2 r2 ks \<and> length ks = 10)"
    using block_home_keys_gen_ok [OF t p(1) r(1), of "tp_warehouse_end tp" 1 "tp_district_end tp" 11 1]
      block_home_keys_gen_ok [OF t p(1) r(1), of "tp_district_end tp" 11 "tp_customer_end tp" 30011 1]
      block_home_keys_gen_ok [OF t p(2) r(2), of "tp_customer_end tp" 30011 "tp_item_end tp" 130011 10] e
    by (simp_all add: tp_def)
  have fin: "tpcc_low_latency_txn c w (Suc (length ha + length hb)) i ?H (?f dis cu its)"
    if k: "tpcc_home_keys c w (tp_warehouse_end tp) (tp_district_end tp) p1 r1 dis"
      "tpcc_home_keys c w (tp_district_end tp) (tp_customer_end tp) p1 r1 cu"
      "tpcc_home_keys c w (tp_customer_end tp) (tp_item_end tp) p2 r2 its"
      and l: "length dis = 1" "length cu = 1" "length its = 10" for dis cu its
  proof -
    let ?t = "?f dis cu its"
    have "set ha \<inter> set hb = {}" using d replica_keys_disjoint [OF h] by auto
    then have hs: "in_block 0 (tp_warehouse_end tp) (ha @ hb)"
      using h [THEN replica_keys_in, THEN keys_in_block] by (auto simp: in_block_def)
    note b = tpcc_blocks [OF s hs [unfolded tp_def] k [THEN replica_keys_in, THEN keys_in_block, unfolded tp_def] l, of ?t, folded tp_def]
    have one: "LookupPartition c (key_name y) = p1 \<and> LookupMaster c (key_name y) = r1" if "y \<in> set (ha @ cu @ dis)" for y
      using that b(3) x tpcc_home_lookup [OF t h(1)] tpcc_home_lookup [OF t k(1)] tpcc_home_lookup [OF t k(2)]
      by (auto simp: tp_def)
    have two: "LookupPartition c (key_name y) = p2 \<and> LookupMaster c (key_name y) = r2" if "y \<in> set (hb @ its)" for y
      using that b(3) x tpcc_home_lookup [OF t h(2)] tpcc_home_lookup [OF t k(3)] by (auto simp: tp_def)
    have ne: "set cu \<noteq> {}" "set its \<noteq> {}" using l by auto
    have "homes c ?t = ?H"
      unfolding homes_image using b(4) x one two ne by (auto simp: image_image image_Un image_constant_conv)
    moreover have "masters_known c ?t"
      using one two by (auto simp: masters_known_def txn_entries_def x)
    ultimately show ?thesis using b(1,2) x by (simp add: tpcc_low_latency_txn_def tp_def)
  qed
  show "gen_ok (bindG (Tpcc_GetRandomKeysReplica (Tpcc_new c w) 1 (tp_warehouse_end (Tpcc_new c w)) (tp_district_end (Tpcc_new c w)) p1 r1)
     (\<lambda>district. bindG (aligned_keys (Tpcc_new c w) 1 (tp_district_end (Tpcc_new c w)) (tp_customer_end (Tpcc_new c w)) p1 r1)
     (\<lambda>customer. bindG (aligned_keys (Tpcc_new c w) 10 (tp_customer_end (Tpcc_new c w)) (tp_item_end (Tpcc_new c w)) p2 r2)
     (\<lambda>items. returnG (?f district customer items)))))
    (tpcc_low_latency_txn c w (Suc (length ha + length hb)) i ?H)"
    by (rule gen_ok_bindG [OF gs(1) [unfolded tp_def]], rule gen_ok_bindG [OF gs(2) [unfolded tp_def]],
        rule gen_ok_bindG [OF gs(3) [unfolded tp_def]], rule gen_ok_returnG) (use fin in \<open>auto simp: tp_def\<close>)
qed

lemma no_replica_keys [simp]: "replica_keys a b n rs p r []"
  by (simp add: replica_keys_def keys_in_def key_set_def)

lemma TpccTxnSRSP_gen_ok:
  assumes t: "tpcc_ok c w" and p: "part < nodes_per_replica c" and r: "replica < cc_replicas_size c"
  shows "gen_ok (TpccTxnSRSP (Tpcc_new c w) i part replica) (tpcc_low_latency_txn c w 2 i {(part, replica)})"
  unfolding TpccTxnSRSP_def
proof (rule gen_ok_bindG [OF warehouse_order_gen_ok [OF t r]])
  fix o1 assume o1: "order_ok c w replica o1"
  show "gen_ok (order_lines (Tpcc_new c w) part replica part replica
      (add_read replica (warehouse_of (Tpcc_new c w) part o1) (new_txn i TPCCTXN_SP)))
    (tpcc_low_latency_txn c w 2 i {(part, replica)})"
    using order_lines_gen_ok [OF t p p r r warehouse_of_home [OF t p o1], of "[]"]
    by (simp add: spans_without_0_def numeral_2_eq_2)
qed

text \<open>The common end of the generators that read a warehouse of each of two homes.\<close>

lemma two_warehouses_gen_ok:
  assumes t: "tpcc_ok c w" and p: "p1 < nodes_per_replica c" "p2 < nodes_per_replica c"
    and r: "r1 < cc_replicas_size c" "r2 < cc_replicas_size c" and d: "(p1, r1) \<noteq> (p2, r2)"
    and x: "tx_write_set txn = []" "tx_read_write_set txn = []" "tx_txn_id txn = i" "tx_read_set txn = []"
      "tx_fake_txn txn = spans_without_0 {(p1, r1), (p2, r2)}"
  shows "gen_ok (bindG (warehouse_order (Tpcc_new c w) r1) (\<lambda>o1. bindG (warehouse_order (Tpcc_new c w) r2) (\<lambda>o2.
      order_lines (Tpcc_new c w) p1 r1 p2 r2 (add_read r2 (warehouse_of (Tpcc_new c w) p2 o2)
        (add_read r1 (warehouse_of (Tpcc_new c w) p1 o1) txn)))))
    (tpcc_low_latency_txn c w 3 i {(p1, r1), (p2, r2)})"
proof (rule gen_ok_bindG [OF warehouse_order_gen_ok [OF t r(1)]], rule gen_ok_bindG [OF warehouse_order_gen_ok [OF t r(2)]])
  fix o1 o2 assume o: "order_ok c w r1 o1" "order_ok c w r2 o2"
  show "gen_ok (order_lines (Tpcc_new c w) p1 r1 p2 r2 (add_read r2 (warehouse_of (Tpcc_new c w) p2 o2)
        (add_read r1 (warehouse_of (Tpcc_new c w) p1 o1) txn))) (tpcc_low_latency_txn c w 3 i {(p1, r1), (p2, r2)})"
    using order_lines_gen_ok [OF t p r warehouse_of_home [OF t p(1) o(1)] warehouse_of_home [OF t p(2) o(2)]] d x
    by (simp add: numeral_3_eq_3)
qed

lemma TpccTxnSRMP_gen_ok:
  assumes t: "tpcc_ok c w" and p: "part1 < nodes_per_replica c" "part2 < nodes_per_replica c" "part1 \<noteq> part2"
    and r: "replica < cc_replicas_size c"
  shows "gen_ok (TpccTxnSRMP (Tpcc_new c w) i part1 part2 replica)
    (tpcc_low_latency_txn c w 3 i {(part1, replica), (part2, replica)})"
  unfolding TpccTxnSRMP_def
  by (rule gen_ok_checkG, use p(3) in simp, rule two_warehouses_gen_ok [OF t p(1,2) r r])
    (use p(3) in \<open>auto simp: spans_without_0_def\<close>)

lemma TpccTxnMRSP_gen_ok:
  assumes t: "tpcc_ok c w" and p: "part < nodes_per_replica c"
    and r: "r1 < cc_replicas_size c" "r2 < cc_replicas_size c" "r1 \<noteq> r2"
  shows "gen_ok (TpccTxnMRSP (Tpcc_new c w) i part r1 r2) (tpcc_low_latency_txn c w 3 i {(part, r1), (part, r2)})"
proof (cases "r1 > r2")
  case True
  have "gen_ok (TpccTxnMRSP (Tpcc_new c w) i part r1 r2) (tpcc_low_latency_txn c w 3 i {(part, r2), (part, r1)})"
    unfolding TpccTxnMRSP_def Let_def
    by (rule gen_ok_checkG, use r(3) in simp, simp only: True if_True prod.case,
        rule two_warehouses_gen_ok [OF t p p r(2,1)]) (use r(3) in \<open>auto simp: spans_without_0_def\<close>)
  then show ?thesis by (simp add: insert_commute)
next
  case False
  show ?thesis
    unfolding TpccTxnMRSP_def Let_def
    by (rule gen_ok_checkG, use r(3) in simp, simp only: False if_False prod.case,
        rule two_warehouses_gen_ok [OF t p p r(1,2)]) (use r(3) in \<open>auto simp: spans_without_0_def\<close>)
qed

lemma TpccTxnMRMP_gen_ok:
  assumes t: "tpcc_ok c w" and p: "p1 < nodes_per_replica c" "p2 < nodes_per_replica c" "p1 \<noteq> p2"
    and r: "r1 < cc_replicas_size c" "r2 < cc_replicas_size c" "r1 \<noteq> r2"
  shows "gen_ok (TpccTxnMRMP (Tpcc_new c w) i p1 p2 r1 r2) (tpcc_low_latency_txn c w 3 i {(p1, r1), (p2, r2)})"
proof (cases "r1 > r2")
  case True
  have "gen_ok (TpccTxnMRMP (Tpcc_new c w) i p1 p2 r1 r2) (tpcc_low_latency_txn c w 3 i {(p2, r2), (p1, r1)})"
    unfolding TpccTxnMRMP_def Let_def
    by (rule gen_ok_checkG, use p(3) in simp, simp only: True if_True prod.case,
        rule two_warehouses_gen_ok [OF t p(2,1) r(2,1)]) (use r(3) in \<open>auto simp: spans_without_0_def\<close>)
  then show ?thesis by (simp add: insert_commute)
next
  case False
  show ?thesis
    unfolding TpccTxnMRMP_def Let_def
    by (rule gen_ok_checkG, use p(3) in simp, simp only: False if_False prod.case,
        rule two_warehouses_gen_ok [OF t p(1,2) r(1,2)]) (use r(3) in \<open>auto simp: spans_without_0_def\<close>)
qed

section \<open>When the warehouses do not divide\<close>

text \<open>
  The start of the districts is the number of warehouses, which nobody aligns: unless it is a multiple
  of the number of replicas, no low-latency transaction is generated, for whatever \<open>rand()\<close> returns.
\<close>

lemma district_check:
  assumes t: "tpcc_sizes c w" and R: "0 < unat (cc_replicas_size c)" "unat (cc_replicas_size c) \<le> unat w"
    and bad: "unat w mod unat (cc_replicas_size c) \<noteq> 0"
  shows "Tpcc_GetRandomKeysReplica (Tpcc_new c w) num (tp_warehouse_end (Tpcc_new c w)) limit part replica r
    = Some (Inl Check_failed)"
proof -
  note st = tpcc_stride [OF t R] and e = tpcc_ends [OF t]
  let ?P = "tp_nparts (Tpcc_new c w) * cc_replicas_size c"
  have "unat (tp_warehouse_end (Tpcc_new c w) mod ucast ?P)
      = unat (nodes_per_replica c) * (unat w mod unat (cc_replicas_size c))"
    unfolding unat_mod_distrib unat_ucast_up st(1) e(5) by (rule mult_mod_right [symmetric])
  also have "\<dots> \<noteq> 0" using bad e(1) by simp
  finally have "tp_warehouse_end (Tpcc_new c w) mod ucast ?P \<noteq> 0" by (metis unat_0)
  with st(3) show ?thesis
    unfolding Tpcc_GetRandomKeysReplica_def Tpcc_new_simps by (simp add: definedG_def checkG_def)
qed

section \<open>Execution\<close>

text \<open>The loop over a value does what the copy of it in \<open>microbenchmark.cc\<close> does.\<close>

lemma Tpcc_advance_chars:
  "foldE Tpcc_advance_char [0..<n] v = require_defined (n \<le> length v) (Inr (map next_char (take n v) @ drop n v))"
proof (induction n)
  case (Suc n)
  show ?case
  proof (cases "Suc n \<le> length v")
    case True
    then have "take (Suc n) v = take n v @ [v ! n]" "drop n v = v ! n # drop (Suc n) v"
      by (simp_all add: take_Suc_conv_app_nth Cons_nth_drop_Suc)
    moreover from this True have "Tpcc_advance_char n (map next_char (take n v) @ drop n v) = Inr (map next_char (take n v) @ next_char (v ! n) # drop (Suc n) v)"
      by (simp add: require_defined_def Tpcc_advance_char_def next_char_def nth_append list_update_append)
    ultimately show ?thesis using True Suc.IH by (simp add: foldE_append require_defined_def)
  next
    case False
    have "length v \<le> n \<Longrightarrow> Tpcc_advance_char n (map next_char (take n v) @ drop n v) = Inl Undefined_behaviour"
      by (simp add: require_defined_def Tpcc_advance_char_def)
    with False Suc.IH show ?thesis by (cases "n = length v") (simp_all add: foldE_append require_defined_def)
  qed
qed (simp add: require_defined_def)

lemma Tpcc_advance_value_eq [simp]: "Tpcc_advance_value v = advance_value v"
  by (simp only: Tpcc_advance_value_def Tpcc_advance_chars advance_value_def)

text \<open>A letter is rotated: \<open>a\<close> follows \<open>z\<close>.\<close>

definition rotated :: "string \<Rightarrow> string \<Rightarrow> bool" where
  "rotated v v' \<longleftrightarrow> length v' = length v \<and> (\<forall>j < length v. (of_char (v' ! j) :: nat)
     = (if j < 8 then 97 + (of_char (v ! j) - 96) mod 26 else of_char (v ! j)))"

lemma rotated_advanced:
  assumes "letters v"
  shows "rotated v (advanced v)"
proof -
  have "(of_char (next_char ch) :: nat) = 97 + (of_char ch - 96) mod 26" if "ch \<in> set v" for ch
  proof -
    have ch: "97 \<le> (of_char ch :: nat)" "(of_char ch :: nat) \<le> 122" using assms that by (auto simp: letters_def)
    moreover have "97 + (n - 96) mod 26 = (if n = 122 then 97 else n + 1)" if "97 \<le> n" "n \<le> 122" for n :: nat
      using that by (cases "n = 122") simp_all
    ultimately show ?thesis by (simp only: next_char_letter)
  qed
  then show ?thesis by (auto simp: rotated_def advanced_def nth_append)
qed

lemma Tpcc_execute_entry_step:
  assumes "entry_ready sm h txn i" and "heap_ok h"
  defines "p \<equiv> entry_ptr sm txn i"
  shows "Tpcc_execute_entry txn i (sm, h) = Inr (sm, h[p := (h ! p)\<lparr>rec_value := advanced (rec_value (h ! p))\<rparr>])"
proof -
  have p: "map_of (sm_objects sm) (ke_key (tx_read_write_set txn ! i)) = Some (Some p)" "p < length h"
    "i < length (tx_read_write_set txn)"
    using assms(1) by (auto simp: entry_ready_def p_def entry_ptr_def)
  then have "8 \<le> length (rec_value (h ! p))" using assms(2) by (simp add: heap_ok_def record_ok_def)
  with p show ?thesis
    by (simp add: Tpcc_execute_entry_def rep_get_def SM_ReadObject_def deref_def heap_get_def heap_modify_def
        advance_value_def advanced_def require_defined_def)
qed

lemma record_ok_advanced: "record_ok r \<Longrightarrow> record_ok (r\<lparr>rec_value := advanced (rec_value r)\<rparr>)"
  using letters_advanced [of "rec_value r"] by (simp add: record_ok_def advanced_def)

lemma Tpcc_execute_entries:
  assumes "\<forall>i \<in> set js. entry_ready sm h txn i" and "heap_ok h" and "distinct (map (entry_ptr sm txn) js)"
  shows "\<exists>h'. foldE (Tpcc_execute_entry txn) js (sm, h) = Inr (sm, h') \<and> heap_ok h' \<and> length h' = length h
    \<and> (\<forall>q < length h. h' ! q = (if q \<in> entry_ptr sm txn ` set js
        then (h ! q)\<lparr>rec_value := advanced (rec_value (h ! q))\<rparr> else h ! q))"
  using assms
proof (induction js arbitrary: h)
  case (Cons i js)
  let ?p = "entry_ptr sm txn i"
  let ?h = "h[?p := (h ! ?p)\<lparr>rec_value := advanced (rec_value (h ! ?p))\<rparr>]"
  have p: "?p < length h" using Cons.prems(1) by (auto simp: entry_ready_def entry_ptr_def)
  then have "heap_ok ?h" using Cons.prems(2) by (intro heap_ok_update record_ok_advanced) (simp_all add: heap_ok_def)
  with Cons.IH [of ?h] Cons.prems obtain h' where run: "foldE (Tpcc_execute_entry txn) js (sm, ?h) = Inr (sm, h')"
    and h': "heap_ok h'" "length h' = length h"
      "\<forall>q < length h. h' ! q = (if q \<in> entry_ptr sm txn ` set js
        then (?h ! q)\<lparr>rec_value := advanced (rec_value (?h ! q))\<rparr> else ?h ! q)" by auto
  have fresh: "?p \<notin> entry_ptr sm txn ` set js" using Cons.prems(3) by simp
  have "foldE (Tpcc_execute_entry txn) (i # js) (sm, h) = Inr (sm, h')"
    using run Tpcc_execute_entry_step [of sm h txn i] Cons.prems by simp
  moreover have "\<forall>q < length h. h' ! q = (if q \<in> entry_ptr sm txn ` set (i # js)
      then (h ! q)\<lparr>rec_value := advanced (rec_value (h ! q))\<rparr> else h ! q)"
    using h'(3) fresh p by (auto simp: nth_list_update)
  ultimately show ?case using h' by blast
qed simp

section \<open>The initial load\<close>

lemma Tpcc_InitializeStorage_gen_ok:
  "gen_ok (Tpcc_InitializeStorage (Tpcc_new c w) c (\<lambda>_. None, []))
    (\<lambda>sh. \<exists>v. letters v \<and> length v = 99 \<and> loaded c (tp_item_end (Tpcc_new c w)) v sh)"
  unfolding Tpcc_InitializeStorage_def Tpcc_new_simps
proof (rule gen_ok_bindG [OF random_letters_gen_ok], rule gen_ok_returnG, elim conjE)
  fix v assume v: "letters v" "length v = unat kRecordSize - 1"
  then have "length v = 99" by (simp add: kRecordSize_def)
  with v(1) loaded_fold [of v c "tp_item_end (Tpcc_new c w)"]
  show "\<exists>u. letters u \<and> length u = 99 \<and> loaded c (tp_item_end (Tpcc_new c w)) u
      (fold (load_key c v) (map of_nat [0..<unat (tp_item_end (Tpcc_new c w))]) (\<lambda>_. None, []))"
    by auto
qed

section \<open>Properties\<close>

text \<open>
  C35: executing a TPC-C transaction, of any number of records to read and write, all at hand and in
  different places, never fails: it rotates the first eight letters of exactly those records by one letter
  (\<open>z\<close> becomes \<open>a\<close>), once each, and leaves the rest of each value, the masters,
  the counters, the access statistics and every other record as they are; the storage manager is
  unchanged.
\<close>

theorem Tpcc_Execute_correct:
  assumes "\<forall>i < length (tx_read_write_set txn). entry_ready sm h txn i" and "heap_ok h"
    and "distinct (map (entry_ptr sm txn) [0..<length (tx_read_write_set txn)])"
  shows "\<exists>h'. Tpcc_Execute txn (sm, h) = Inr (sm, h') \<and> heap_ok h' \<and> length h' = length h
    \<and> (\<forall>q < length h. if q \<in> entry_ptr sm txn ` {..<length (tx_read_write_set txn)}
        then \<exists>v. h' ! q = (h ! q)\<lparr>rec_value := v\<rparr> \<and> rotated (rec_value (h ! q)) v
        else h' ! q = h ! q)"
proof -
  let ?js = "[0..<length (tx_read_write_set txn)]"
  have "\<forall>i \<in> set ?js. entry_ready sm h txn i" using assms(1) by simp
  from Tpcc_execute_entries [OF this assms(2,3)] obtain h' where
    run: "foldE (Tpcc_execute_entry txn) ?js (sm, h) = Inr (sm, h')" and h': "heap_ok h'" "length h' = length h"
    and at: "\<forall>q < length h. h' ! q = (if q \<in> entry_ptr sm txn ` set ?js
        then (h ! q)\<lparr>rec_value := advanced (rec_value (h ! q))\<rparr> else h ! q)" by blast
  have "rotated (rec_value (h ! q)) (advanced (rec_value (h ! q)))" if "q < length h" for q
    using assms(2) that by (intro rotated_advanced) (simp add: heap_ok_def record_ok_def)
  with at have "\<forall>q < length h. if q \<in> entry_ptr sm txn ` {..<length (tx_read_write_set txn)}
      then \<exists>v. h' ! q = (h ! q)\<lparr>rec_value := v\<rparr> \<and> rotated (rec_value (h ! q)) v else h' ! q = h ! q"
    by (auto simp: atLeast0LessThan)
  with run h' show ?thesis unfolding Tpcc_Execute_def by blast
qed

text \<open>An order of a district and ten items.\<close>

definition example_order_txn :: txn_proto where
  "example_order_txn = TxnProto_new\<lparr>tx_txn_type := TPCCTXN_SP,
     tx_read_write_set := map (\<lambda>i. \<lparr>ke_key = replicate i CHR ''k'', ke_master = 0, ke_counter = 0\<rparr>) [0..<11]\<rparr>"

definition example_order_manager :: "payload storage_manager" where
  "example_order_manager = example_manager\<lparr>sm_objects := map (\<lambda>i. (replicate i CHR ''k'', Some i)) [0..<11]\<rparr>"

definition example_order_heap :: rec_heap where
  "example_order_heap = replicate 12 (Record_new ''abcdefgzzz'' 0)"

lemma example_order_ready:
  assumes "i < 11"
  shows "entry_ready example_order_manager example_order_heap example_order_txn i"
    "entry_ptr example_order_manager example_order_txn i = i"
proof -
  have "distinct (map fst (sm_objects example_order_manager))"
    by (auto simp: example_order_manager_def distinct_map comp_def intro!: inj_onI)
  moreover have "(replicate i CHR ''k'', Some i) \<in> set (sm_objects example_order_manager)"
    using assms by (auto simp: example_order_manager_def)
  ultimately have "map_of (sm_objects example_order_manager) (replicate i CHR ''k'') = Some (Some i)" by (rule map_of_is_SomeI)
  with assms show "entry_ready example_order_manager example_order_heap example_order_txn i"
    "entry_ptr example_order_manager example_order_txn i = i"
    by (simp_all add: entry_ready_def entry_ptr_def example_order_txn_def example_order_heap_def)
qed

lemma Tpcc_Execute_correct_witness:
  "\<exists>h'. Tpcc_Execute example_order_txn (example_order_manager, example_order_heap) = Inr (example_order_manager, h')
    \<and> (\<exists>v. rotated ''abcdefgzzz'' v \<and> h' ! 10 = Record_new v 0) \<and> h' ! 11 = Record_new ''abcdefgzzz'' 0"
proof -
  let ?n = "length (tx_read_write_set example_order_txn)"
  have n: "?n = 11" by (simp add: example_order_txn_def)
  have "map (entry_ptr example_order_manager example_order_txn) [0..<?n] = [0..<11]"
    unfolding n by (intro nth_equalityI) (simp_all add: example_order_ready(2))
  then have "distinct (map (entry_ptr example_order_manager example_order_txn) [0..<?n])" by simp
  moreover have "heap_ok example_order_heap"
    by (simp add: heap_ok_def example_order_heap_def record_ok_def letters_def Record_new_def Record_new_counter_def REPLICA_SIZE_def)
  moreover have "\<forall>i < ?n. entry_ready example_order_manager example_order_heap example_order_txn i"
    by (simp add: n example_order_ready(1))
  moreover have "entry_ptr example_order_manager example_order_txn ` {..<?n} = {..<11}"
    unfolding n using example_order_ready(2) by (auto simp: image_iff)
  ultimately obtain h' where run: "Tpcc_Execute example_order_txn (example_order_manager, example_order_heap) = Inr (example_order_manager, h')"
    and at: "\<forall>q < length example_order_heap. if q \<in> {..<11}
        then \<exists>v. h' ! q = (example_order_heap ! q)\<lparr>rec_value := v\<rparr> \<and> rotated (rec_value (example_order_heap ! q)) v
        else h' ! q = example_order_heap ! q"
    using Tpcc_Execute_correct [of example_order_txn example_order_manager example_order_heap] by metis
  from at [rule_format, of 10] at [rule_format, of 11] run show ?thesis
    by (auto simp: example_order_heap_def Record_new_def Record_new_counter_def)
qed

text \<open>
  If the warehouses of a node are not a multiple of the replicas, the generator of single-home
  transactions aborts on the \<open>CHECK\<close> of \<open>GetRandomKeysReplica\<close>, whatever \<open>rand()\<close> returns: the start of
  the districts is not aligned, unlike the starts of the customers and of the items.
\<close>

theorem TpccTxnSRSP_misaligned:
  assumes "tpcc_sizes c w" and "0 < unat (cc_replicas_size c)" and "unat (cc_replicas_size c) \<le> unat w"
    and "unat w mod unat (cc_replicas_size c) \<noteq> 0"
  shows "TpccTxnSRSP (Tpcc_new c w) i part replica r = Some (Inl Check_failed)"
proof -
  have R: "cc_replicas_size c \<noteq> 0" using assms(2) by auto
  have "0 < unat w div unat (cc_replicas_size c)" using assms(2,3) by (simp add: div_greater_zero_iff)
  then have q: "w div cc_replicas_size c \<noteq> 0" by (simp add: word_unat_eq_iff unat_div_distrib)
  show ?thesis
    unfolding TpccTxnSRSP_def warehouse_order_def order_lines_def Tpcc_new_simps rand_mod_drawG [OF q]
    using R by (simp add: bindG_def definedG_def drawG_def district_check [OF assms])
qed

lemma TpccTxnSRSP_misaligned_witness:
  "TpccTxnSRSP (Tpcc_new (example_config 0) 3) 7 0 1 counting_rand = Some (Inl Check_failed)"
  by (rule TpccTxnSRSP_misaligned)
    (simp_all add: tpcc_sizes_def example_config_ok example_config_size, simp_all add: example_config_def)

end
