(* ===== verification/Worker.thy ===== *)
theory Worker
  imports "HOL-Library.Multiset" Scheduler Commit_Abort Connection Tpcc
begin

text \<open>
  \<open>scheduler/deterministic_scheduler.cc\<close>, the worker threads, and a machine's scheduler as a whole: the
  lock manager thread and the workers share the queues, the transactions, the records and the
  connection. One iteration of a thread is one step; the rest of the machine (the multiplexer and the
  threads of the sequencer) may change the connection and the messages for \<open>GetBatch\<close> at any time.
\<close>

section \<open>State\<close>

text \<open>
  The state of a worker: its channel and the transactions that wait for remote reads, by the name of
  their channel. A manager has a copy of the transaction, which nobody else changes while a worker has
  it, and the entry also names its pointer.
\<close>

record 'b worker =
  wk_channel :: string
  wk_active :: "(string \<times> (txn_ptr \<times> 'b storage_manager)) list"   \<comment> \<open>\<open>active_txns\<close>\<close>

definition NUM_THREADS :: nat where "NUM_THREADS = 3"

definition worker_new :: "nat \<Rightarrow> 'b worker" where
  "worker_new thread = \<lparr>wk_channel = ''scheduler'' @ IntToString (of_nat thread), wk_active = []\<rparr>"

text \<open>What a worker shares with the other threads.\<close>

type_synonym 'b shared = "'b lm_thread \<times> 'b multiplexer"

type_synonym 'b app = "txn_proto \<Rightarrow> 'b exec_state \<Rightarrow> 'b exec_state outcome"   \<comment> \<open>\<open>Application::Execute\<close>\<close>

definition set_config :: "cluster_config \<Rightarrow> 'b lm_thread \<Rightarrow> 'b lm_thread" where
  "set_config c s = s\<lparr>ls_lm := (ls_lm s)\<lparr>dlm_config := c\<rparr>\<rparr>"

definition push_done :: "txn_ptr \<Rightarrow> txn_proto \<Rightarrow> 'b lm_thread \<Rightarrow> 'b lm_thread" where
  "push_done t txn s = s\<lparr>ls_heap := (ls_heap s)(t := txn), ls_done_queue := ls_done_queue s @ [t]\<rparr>"

section \<open>One iteration of a worker\<close>

text \<open>
  A ready transaction: in mode 2 it may abort, and goes to the done queue with the status that
  \<open>CheckCommitOrAbort\<close> has left; otherwise it is executed and committed. \<open>rnd\<close> is the value of
  \<open>rand()\<close> in \<open>CheckCommitOrAbort\<close>.
\<close>

definition commit_check ::
  "'b codec \<Rightarrow> uint64 \<Rightarrow> 'b storage_manager \<Rightarrow> 'b shared \<Rightarrow> (bool \<times> 'b storage_manager \<times> 'b shared) outcome" where
  "commit_check cd rnd sm sh =
     (let (s, mx) = sh
      in if dlm_mode (ls_lm s) = 2
         then bindE (CheckCommitOrAbort cd rnd (ls_recs s) sm (dlm_config (ls_lm s))) (\<lambda>(decision, sm', c, sent).
                Inr (decision, sm', set_config c s, fold Send sent mx))
         else Inr (True, sm, sh))"

definition execute_txn :: "'b app \<Rightarrow> 'b storage_manager \<Rightarrow> 'b shared \<Rightarrow> 'b shared outcome" where
  "execute_txn app sm sh =
     (let (s, mx) = sh
      in bindE (app (sm_txn sm) (sm, ls_recs s, dlm_config (ls_lm s), [])) (\<lambda>(sm', recs, c, sent).
           Inr (set_config c (s\<lparr>ls_recs := recs\<rparr>), fold Send sent mx)))"

definition run_ready ::
  "'b codec \<Rightarrow> 'b app \<Rightarrow> uint64 \<Rightarrow> txn_ptr \<Rightarrow> 'b storage_manager \<Rightarrow> 'b shared \<Rightarrow> 'b shared outcome" where
  "run_ready cd app rnd t sm sh =
     bindE (commit_check cd rnd sm sh) (\<lambda>(commit, sm', sh').
       if \<not> commit then Inr (push_done t (sm_txn sm') (fst sh'), snd sh')
       else bindE (execute_txn app sm' sh') (\<lambda>(s, mx).
              Inr (push_done t ((sm_txn sm')\<lparr>tx_status := COMMITTED\<rparr>) s, mx)))"

text \<open>A message in the worker's channel; only remote reads are looked at.\<close>

definition handle_message ::
  "'b codec \<Rightarrow> 'b app \<Rightarrow> uint64 \<Rightarrow> 'b message_proto \<Rightarrow> 'b worker \<times> 'b shared \<Rightarrow> ('b worker \<times> 'b shared) outcome" where
  "handle_message cd app rnd m st =
     (let (w, s, mx) = st; ch = msg_destination_channel m
      in if msg_type m \<noteq> READ_RESULT then Inr st
         else case map_of (wk_active w) ch of
                None \<Rightarrow> Inl Check_failed
              | Some (t, sm) \<Rightarrow>
                  bindE (HandleReadResult cd m (sm, ls_recs s)) (\<lambda>(sm', recs).
                    let s' = s\<lparr>ls_recs := recs\<rparr>
                    in if ReadyToExecute sm'
                       then bindE (run_ready cd app rnd t sm' (s', mx)) (\<lambda>(s'', mx').
                              Inr (w\<lparr>wk_active := AList.delete ch (wk_active w)\<rparr>, s'', UnlinkChannel ch mx'))
                       else Inr (w\<lparr>wk_active := AList.update ch (t, sm') (wk_active w)\<rparr>, s', mx)))"

text \<open>
  No message: the next transaction. \<open>u64\<close> and \<open>u32\<close> are the members its manager leaves uninitialised.
\<close>

definition start_txn ::
  "uint64 \<Rightarrow> uint32 \<Rightarrow> 'b codec \<Rightarrow> 'b app \<Rightarrow> uint64 \<Rightarrow> 'b worker \<times> 'b shared \<Rightarrow> ('b worker \<times> 'b shared) outcome" where
  "start_txn u64 u32 cd app rnd st =
     (let (w, s, mx) = st
      in case ls_txns_queue s of
           [] \<Rightarrow> Inr st
         | t # ts \<Rightarrow>
             bindE (StorageManager u64 u32 cd (dlm_config (ls_lm s)) (ls_storage s) (ls_recs s) (ls_heap s t)
                      (dlm_mode (ls_lm s))) (\<lambda>(sm, sent).
               let s' = s\<lparr>ls_txns_queue := ts\<rparr>; mx' = fold Send sent mx;
                   ch = txn_channel (tx_txn_id (ls_heap s t)) (ucast (tx_origin_replica (ls_heap s t)))
               in if ReadyToExecute sm
                  then bindE (run_ready cd app rnd t sm (s', mx')) (\<lambda>sh. Inr (w, sh))
                  else Inr (w\<lparr>wk_active := AList.update ch (t, sm) (wk_active w)\<rparr>, s',
                            LinkChannel ch (wk_channel w) mx')))"

definition RunWorkerThread_iteration ::
  "uint64 \<Rightarrow> uint32 \<Rightarrow> 'b codec \<Rightarrow> 'b app \<Rightarrow> uint64 \<Rightarrow> 'b worker \<times> 'b shared \<Rightarrow> ('b worker \<times> 'b shared) outcome" where
  "RunWorkerThread_iteration u64 u32 cd app rnd st =
     (let (w, s, mx) = st
      in bindE (GotMessage (wk_channel w) mx) (\<lambda>(got, mx').
           case got of
             Some m \<Rightarrow> handle_message cd app rnd m (w, s, mx')
           | None \<Rightarrow> start_txn u64 u32 cd app rnd (w, s, mx')))"

section \<open>A machine\<close>

record 'b machine =
  mc_lock :: "'b lm_thread"
  mc_workers :: "'b worker list"
  mc_connection :: "'b multiplexer"

text \<open>The constructor of the scheduler also asks for the channels of its threads.\<close>

definition machine_new ::
  "cluster_config \<Rightarrow> uint32 \<Rightarrow> simple_storage \<Rightarrow> rec_heap \<Rightarrow> 'b multiplexer \<Rightarrow> 'b machine" where
  "machine_new c m st recs mx =
     (let ws = map worker_new [0..<NUM_THREADS]
      in \<lparr>mc_lock = DeterministicScheduler_new c m st recs, mc_workers = ws,
          mc_connection = fold NewChannel (''scheduler_'' # map wk_channel ws) mx\<rparr>)"

text \<open>
  Clients name no key twice in a transaction. Channel names are those of transaction ids, which are
  unique; a worker never starts a transaction whose channel it still uses.
\<close>

definition distinct_keys :: "txn_proto \<Rightarrow> bool" where
  "distinct_keys txn \<longleftrightarrow> distinct (map ke_key (txn_entries txn))"

definition batch_ok :: "'b codec \<Rightarrow> 'b lm_thread \<Rightarrow> bool" where
  "batch_ok cd s \<longleftrightarrow>
     (case ls_batch s of None \<Rightarrow> True | Some b \<Rightarrow> \<forall>d \<in> set (msg_data b). distinct_keys (dec_txn cd d))"

definition channel_free :: "'b worker \<Rightarrow> 'b lm_thread \<Rightarrow> bool" where
  "channel_free w s \<longleftrightarrow>
     (case ls_txns_queue s of [] \<Rightarrow> True
      | t # _ \<Rightarrow> map_of (wk_active w) (txn_channel (tx_txn_id (ls_heap s t)) (ucast (tx_origin_replica (ls_heap s t)))) = None)"

definition batches_arrive :: "'b message_proto list \<Rightarrow> 'b lm_thread \<Rightarrow> 'b lm_thread" where
  "batches_arrive ms s = s\<lparr>ls_get := (ls_get s)\<lparr>bs_inbox := bs_inbox (ls_get s) @ ms\<rparr>\<rparr>"

text \<open>
  \<open>G\<close> says which messages may arrive for \<open>GetBatch\<close>; the results that do not depend on the agreed
  order hold for every \<open>G\<close>.
\<close>

inductive machine_from :: "'b codec \<Rightarrow> 'b app \<Rightarrow> ('b message_proto \<Rightarrow> bool) \<Rightarrow> 'b machine \<Rightarrow> 'b machine \<Rightarrow> bool" for cd app G mc0 where
  start: "machine_from cd app G mc0 mc0"
| lock_manager: "machine_from cd app G mc0 mc \<Longrightarrow> batch_ok cd (mc_lock mc) \<Longrightarrow>
    RunLockManagerThread_iteration cd rnd (mc_lock mc) = Inr s \<Longrightarrow> machine_from cd app G mc0 (mc\<lparr>mc_lock := s\<rparr>)"
| worker: "machine_from cd app G mc0 mc \<Longrightarrow> i < length (mc_workers mc) \<Longrightarrow> channel_free (mc_workers mc ! i) (mc_lock mc) \<Longrightarrow>
    RunWorkerThread_iteration u64 u32 cd app r (mc_workers mc ! i, mc_lock mc, mc_connection mc) = Inr (w, s, mx) \<Longrightarrow>
    machine_from cd app G mc0 (mc\<lparr>mc_workers := (mc_workers mc)[i := w], mc_lock := s, mc_connection := mx\<rparr>)"
| others: "machine_from cd app G mc0 mc \<Longrightarrow> \<forall>msg \<in> set ms. G msg \<Longrightarrow>
    machine_from cd app G mc0 (mc\<lparr>mc_lock := batches_arrive ms (mc_lock mc), mc_connection := mx\<rparr>)"

text \<open>A state that a machine can reach in mode \<open>m\<close>, whatever its configuration and database.\<close>

definition machine_run :: "'b codec \<Rightarrow> 'b app \<Rightarrow> ('b message_proto \<Rightarrow> bool) \<Rightarrow> uint32 \<Rightarrow> 'b machine \<Rightarrow> bool" where
  "machine_run cd app G m mc \<longleftrightarrow> (\<exists>c st recs mx. machine_from cd app G (machine_new c m st recs mx) mc)"

lemma machine_run_start: "machine_run cd app G m (machine_new c m st recs mx)"
  unfolding machine_run_def by (blast intro: machine_from.start)

lemma machine_run_lock_manager: "machine_run cd app G m mc \<Longrightarrow> batch_ok cd (mc_lock mc) \<Longrightarrow>
    RunLockManagerThread_iteration cd rnd (mc_lock mc) = Inr s \<Longrightarrow> machine_run cd app G m (mc\<lparr>mc_lock := s\<rparr>)"
  unfolding machine_run_def by (blast intro: machine_from.lock_manager)

lemma machine_run_others: "machine_run cd app G m mc \<Longrightarrow> \<forall>msg \<in> set ms. G msg \<Longrightarrow>
    machine_run cd app G m (mc\<lparr>mc_lock := batches_arrive ms (mc_lock mc), mc_connection := mx\<rparr>)"
  unfolding machine_run_def by (blast intro: machine_from.others)

text \<open>The transactions that have all their locks and are on their way through the workers.\<close>

definition worker_txns :: "'b worker \<Rightarrow> txn_ptr list" where
  "worker_txns w = map (\<lambda>(ch, t, sm). t) (wk_active w)"

definition held :: "'b machine \<Rightarrow> txn_ptr list" where
  "held mc = ls_txns_queue (mc_lock mc) @ concat (map worker_txns (mc_workers mc)) @ ls_done_queue (mc_lock mc)"

section \<open>The lock manager thread keeps its invariant\<close>

text \<open>
  \<open>active\<close> are the transactions in the lock manager, \<open>run\<close> those it has passed on and not got back. The
  counters say how many these are, and every transaction ever admitted is active or deleted. The lock
  manager has them in the order in which they were admitted, and each was finished after all earlier
  ones that conflict with it.
\<close>

definition running_conflict :: "'b lm_thread \<Rightarrow> txn_ptr \<Rightarrow> txn_ptr \<Rightarrow> string \<Rightarrow> bool" where
  "running_conflict s t u k \<longleftrightarrow> conflict (wanted (dlm_config (ls_lm s)) (dlm_mode (ls_lm s)) (ls_heap s t) k)
     (wanted (dlm_config (ls_lm s)) (dlm_mode (ls_lm s)) (ls_heap s u) k)"

definition finish_order :: "'b lm_thread \<Rightarrow> txn_ptr list \<Rightarrow> bool" where
  "finish_order s ts \<longleftrightarrow> (\<forall>i < length ts. \<forall>t < ts ! i. (\<exists>k. running_conflict s t (ts ! i) k) \<longrightarrow> t \<in> set (take i ts))"

definition lm_inv :: "txn_ptr list \<Rightarrow> txn_ptr list \<Rightarrow> 'b lm_thread \<Rightarrow> bool" where
  "lm_inv active run s \<longleftrightarrow>
     dlm_mode (ls_lm s) \<noteq> 2
     \<and> dlm.service_inv (dlm_config (ls_lm s)) (dlm_mode (ls_lm s)) (ls_heap s) active run (ls_lm s)
     \<and> distinct (active @ ls_freed s) \<and> set (active @ ls_freed s) = {..<ls_next s}
     \<and> ls_executing s = of_nat (length run) \<and> ls_pending s + of_nat (length run) = of_nat (length active)
     \<and> sorted active \<and> finish_order s (ls_freed s)"

lemma finish_order_snoc:
  "finish_order s (ts @ [u]) \<longleftrightarrow> finish_order s ts \<and> (\<forall>t < u. (\<exists>k. running_conflict s t u k) \<longrightarrow> t \<in> set ts)"
  unfolding finish_order_def by (simp add: nth_append less_Suc_eq all_conj_distrib imp_conjL disj_imp)

lemma finish_order_Nil [simp]: "finish_order s []" by (simp add: finish_order_def)

lemma finish_order_cong:
  assumes "finish_order s ts" "\<forall>u \<in> set ts. \<forall>t \<le> u.
      wanted (dlm_config (ls_lm s')) (dlm_mode (ls_lm s')) (ls_heap s' t) = wanted (dlm_config (ls_lm s)) (dlm_mode (ls_lm s)) (ls_heap s t)"
  shows "finish_order s' ts"
proof -
  have "running_conflict s' t u k = running_conflict s t u k" if "u \<in> set ts" "t < u" for t u k
    using assms(2) that by (simp add: running_conflict_def)
  with assms(1) show ?thesis unfolding finish_order_def by (metis nth_mem)
qed

lemma finish_order_same:
  assumes "dlm_config (ls_lm s') = dlm_config (ls_lm s)" "dlm_mode (ls_lm s') = dlm_mode (ls_lm s)"
    and "\<forall>u \<in> set ts. \<forall>t \<le> u. ls_heap s' t = ls_heap s t"
  shows "finish_order s' ts = finish_order s ts"
  using assms finish_order_cong [of s ts s'] finish_order_cong [of s' ts s] by auto

lemma finish_order_simps [simp]:
  "finish_order (s\<lparr>ls_batch := b\<rparr>) ts = finish_order s ts" "finish_order (s\<lparr>ls_get := g\<rparr>) ts = finish_order s ts"
  "finish_order (s\<lparr>ls_batch_offset := n\<rparr>) ts = finish_order s ts" "finish_order (s\<lparr>ls_done_queue := q\<rparr>) ts = finish_order s ts"
  "finish_order (s\<lparr>ls_txns_queue := q\<rparr>) ts = finish_order s ts" "finish_order (s\<lparr>ls_recs := h\<rparr>) ts = finish_order s ts"
  by (rule finish_order_same; simp)+

lemma locks_entry_simps [simp]:
  "locks_entry (c\<lparr>cc_next_guid := g\<rparr>) m txn e = locks_entry c m txn e"
  "locks_entry c m (txn\<lparr>tx_status := st\<rparr>) e = locks_entry c m txn e"
  by (simp_all add: locks_entry_def IsLocal_def LookupPartition_def nodes_per_replica_def all_nodes_size_def)

lemma wanted_simps [simp]:
  "wanted (c\<lparr>cc_next_guid := g\<rparr>) m txn = wanted c m txn"
  "wanted c m (txn\<lparr>tx_status := st\<rparr>) = wanted c m txn"
  by (simp_all add: wanted_def locked_keys_def fun_eq_iff cong: filter_cong)

lemma no_duplicate_keys_simps [simp]:
  "no_duplicate_keys (c\<lparr>cc_next_guid := g\<rparr>) m txn = no_duplicate_keys c m txn"
  "no_duplicate_keys c m (txn\<lparr>tx_status := st\<rparr>) = no_duplicate_keys c m txn"
  by (simp_all add: no_duplicate_keys_def locked_keys_def cong: filter_cong)

lemma distinct_keys_no_duplicates: "distinct_keys txn \<Longrightarrow> no_duplicate_keys c m txn"
  by (auto simp: distinct_keys_def no_duplicate_keys_def txn_entries_def locked_keys_def distinct_map intro: inj_on_subset)

text \<open>Only what the active transactions want matters, and the order of the running ones does not.\<close>

lemma service_inv_cong:
  assumes inv: "dlm.service_inv c m h active run lm" and w: "\<forall>t \<in> set active. wanted c' m (h' t) = wanted c m (h t)"
    and dup: "\<forall>t. no_duplicate_keys c' m (h' t)" and run: "mset run' = mset run"
    and lm: "dlm_table lm' = dlm_table lm" "dlm_waits lm' = dlm_waits lm" "dlm_ready lm' = dlm_ready lm"
      "dlm_mode lm' = m" "dlm_config lm' = c'"
  shows "dlm.service_inv c' m h' active run' lm'"
proof -
  have eq: "\<forall>t \<in> set active. wants_of c m h t = wants_of c' m h' t" using w by (simp add: wants_of_def)
  note q = abs_queue_cong [OF eq]
  have wc: "wait_count (wants_of c m h) active t = wait_count (wants_of c' m h') active t" if "t \<in> set active" for t
    using bspec [OF eq that] by (simp add: wait_count_def blocked_def q)
  have "represents (wants_of c m h) active lm" using inv by (simp add: dlm.service_inv_def manager_for_def)
  then have "represents (wants_of c' m h') active lm"
    by (rule represents_cong [OF eq, rotated]) (simp add: wants_of_def wanted_finite)
  then have "manager_for c' m h' active lm'" using dup lm by (simp add: manager_for_def represents_def)
  moreover have "set run' = set run" "distinct run' = distinct run"
    using run mset_eq_setD mset_eq_imp_distinct_iff by blast+
  ultimately show ?thesis using inv lm wc by (auto simp: dlm.service_inv_def)
qed

lemma lm_inv_lock_new:
  assumes inv: "lm_inv active run s" and txn: "distinct_keys txn"
  shows "lm_inv (active @ [ls_next s]) run (lock_txn (ls_next s) (s\<lparr>ls_next := ls_next s + 1, ls_heap := (ls_heap s)(ls_next s := txn)\<rparr>))"
proof -
  let ?s = "s\<lparr>ls_next := ls_next s + 1, ls_heap := (ls_heap s)(ls_next s := txn)\<rparr>"
  let ?c = "dlm_config (ls_lm s)" and ?m = "dlm_mode (ls_lm s)" and ?t = "ls_next s"
  have set: "set (active @ ls_freed s) = {..<?t}" and sv: "dlm.service_inv ?c ?m (ls_heap s) active run (ls_lm s)"
    using inv by (auto simp: lm_inv_def)
  have t: "?t \<notin> set active" "?t \<notin> set (ls_freed s)" using set by auto
  have "dlm.service_inv ?c ?m (ls_heap ?s) active run (ls_lm s)"
    by (rule service_inv_cong [OF sv])
      (use t sv txn in \<open>auto simp: distinct_keys_no_duplicates dlm.service_inv_def manager_for_def\<close>)
  from dlm.inv_acquire [OF this t(1)]
  have "dlm.service_inv ?c ?m (ls_heap ?s) (active @ [?t]) run (snd (Lock ?t txn (ls_lm s)))" by (simp add: acquire_txn_def)
  moreover have "set ((active @ [?t]) @ ls_freed s) = {..<?t + 1}" using set by (auto simp: lessThan_Suc)
  moreover have "ls_pending s + 1 + of_nat (length run) = of_nat (length (active @ [?t]))"
  proof -
    have "ls_pending s + of_nat (length run) = of_nat (length active)" using inv unfolding lm_inv_def by blast
    then show ?thesis by (simp add: algebra_simps)
  qed
  moreover have "sorted (active @ [?t])" proof -
    have "sorted active" using inv unfolding lm_inv_def by blast
    moreover have "x \<in> {..<?t}" if "x \<in> set active" for x unfolding set [symmetric] using that by simp
    ultimately show ?thesis unfolding sorted_append by force
  qed
  moreover have "finish_order (lock_txn ?t ?s) (ls_freed s)"
  proof -
    have "u \<in> {..<?t}" if "u \<in> set (ls_freed s)" for u unfolding set [symmetric] using that by simp
    then have "\<forall>u \<in> set (ls_freed s). \<forall>t \<le> u. t \<noteq> ?t" by fastforce
    then have "finish_order (lock_txn ?t ?s) (ls_freed s) = finish_order s (ls_freed s)"
      by (intro finish_order_same) (simp_all add: lock_txn_def Lock_config)
    moreover have "finish_order s (ls_freed s)" using inv unfolding lm_inv_def by blast
    ultimately show ?thesis by (rule iffD2)
  qed
  moreover have "?m \<noteq> 2" "distinct (active @ ls_freed s)" "ls_executing s = of_nat (length run)" using inv unfolding lm_inv_def by blast+
  ultimately show ?thesis using t by (simp add: lm_inv_def lock_txn_def Lock_config)
qed

lemma lm_inv_batch [simp]:
  "lm_inv active run (s\<lparr>ls_batch := b\<rparr>) = lm_inv active run s"
  "lm_inv active run (s\<lparr>ls_batch_offset := n\<rparr>) = lm_inv active run s"
  "lm_inv active run (s\<lparr>ls_get := g\<rparr>) = lm_inv active run s"
  "lm_inv active run (s\<lparr>ls_done_queue := q\<rparr>) = lm_inv active run s"
  "lm_inv active run (s\<lparr>ls_txns_queue := q\<rparr>) = lm_inv active run s"
  "lm_inv active run (s\<lparr>ls_recs := h\<rparr>) = lm_inv active run s"
  by (simp_all add: lm_inv_def)

text \<open>What admitting transactions leaves alone.\<close>

definition same_queues :: "'b lm_thread \<Rightarrow> 'b lm_thread \<Rightarrow> bool" where
  "same_queues s s' \<longleftrightarrow> ls_txns_queue s' = ls_txns_queue s \<and> ls_done_queue s' = ls_done_queue s
     \<and> (\<forall>t < ls_next s. ls_heap s' t = ls_heap s t) \<and> ls_next s \<le> ls_next s'"

lemma same_queues_refl [simp]: "same_queues s s" by (simp add: same_queues_def)

lemma same_queues_trans: "same_queues s s' \<Longrightarrow> same_queues s' s'' \<Longrightarrow> same_queues s s''"
  by (auto simp: same_queues_def)

lemma lm_inv_admit:
  assumes inv: "lm_inv active run s" and "distinct_keys txn" and "admit_txn txn s = Inr s'"
  shows "lm_inv (active @ [ls_next s]) run s' \<and> same_queues s s'"
proof -
  have "dlm_mode (ls_lm s) \<noteq> 2" using inv by (simp add: lm_inv_def)
  with assms(3) have "s' = lock_txn (ls_next s) (s\<lparr>ls_next := ls_next s + 1, ls_heap := (ls_heap s)(ls_next s := txn)\<rparr>)"
    by (simp add: admit_txn_def Let_def)
  with lm_inv_lock_new [OF assms(1,2)] show ?thesis by (simp add: same_queues_def lock_txn_def)
qed

lemma lm_inv_take_txns:
  "lm_inv active run s \<Longrightarrow> \<forall>d \<in> set (msg_data b). distinct_keys (dec_txn cd d) \<Longrightarrow> take_txns cd b n s = Inr s' \<Longrightarrow>
     \<exists>new. lm_inv (active @ new) run s' \<and> same_queues s s'"
proof (induction n arbitrary: s active)
  case 0
  then show ?case by (intro exI [of _ "[]"]) simp
next
  case (Suc n)
  show ?case
  proof (cases "length (msg_data b) \<le> ls_batch_offset s")
    case True
    with Suc.prems show ?thesis by (intro exI [of _ "[]"]) simp
  next
    case False
    let ?s = "s\<lparr>ls_batch_offset := ls_batch_offset s + 1\<rparr>"
    from False Suc.prems(3) obtain s1 where s1: "admit_txn (dec_txn cd (msg_data b ! ls_batch_offset s)) ?s = Inr s1"
      and rest: "take_txns cd b n s1 = Inr s'" by (auto simp: outcome_simps)
    from lm_inv_admit [OF _ _ s1] Suc.prems(1,2) False
    have 1: "lm_inv (active @ [ls_next s]) run s1" "same_queues ?s s1" by auto
    from Suc.IH [OF 1(1) Suc.prems(2) rest] obtain new where
      "lm_inv ((active @ [ls_next s]) @ new) run s'" "same_queues s1 s'" by blast
    with 1(2) show ?thesis
      by (intro exI [of _ "ls_next s # new"]) (auto simp: same_queues_def)
  qed
qed

lemma lm_inv_new_txns:
  assumes inv: "lm_inv active run s" and ok: "batch_ok cd s" and new: "new_txns cd s = Inr s'"
  shows "\<exists>new. lm_inv (active @ new) run s' \<and> same_queues s s'"
proof -
  have nxt: "lm_inv active run u' \<and> same_queues u u'" if "next_batch cd u = Inr u'" "lm_inv active run u" for u u'
    using that by (auto simp: next_batch_def same_queues_def outcome_simps)
  show ?thesis
  proof (cases "ls_batch s")
    case None
    with new nxt [OF _ inv] show ?thesis by (intro exI [of _ "[]"]) (simp add: new_txns_def)
  next
    case (Some b)
    with new have "next_batch cd (s\<lparr>ls_batch_offset := 0\<rparr>) = Inr s' \<or> take_txns cd b num_txns_once s = Inr s' \<or> s' = s"
      by (auto simp: new_txns_def split: if_splits)
    then consider "next_batch cd (s\<lparr>ls_batch_offset := 0\<rparr>) = Inr s'" | "take_txns cd b num_txns_once s = Inr s'" | "s' = s" by blast
    then show ?thesis
    proof cases
      case 1
      from nxt [OF this] inv show ?thesis by (intro exI [of _ "[]"]) (auto simp: same_queues_def)
    next
      case 2
      from lm_inv_take_txns [OF inv _ this] ok Some show ?thesis by (simp add: batch_ok_def)
    next
      case 3
      with inv show ?thesis by (intro exI [of _ "[]"]) simp
    qed
  qed
qed

lemma length_delete: "distinct xs \<Longrightarrow> x \<in> set xs \<Longrightarrow> Suc (length (filter (\<lambda>y. y \<noteq> x) xs)) = length xs"
proof (induction xs)
  case (Cons y ys)
  show ?case
  proof (cases "y = x")
    case True
    with Cons.prems have "filter (\<lambda>z. z \<noteq> x) ys = ys" by (auto intro: filter_True)
    with True show ?thesis by simp
  qed (use Cons in auto)
qed simp

lemma done_count_counters: "done_count rnd t s = Inr s' \<Longrightarrow> \<exists>r n. s' = s\<lparr>ls_rand := r, ls_txns := n\<rparr>"
  by (cases s) (auto simp: done_count_def Let_def require_defined_def split: if_splits)

text \<open>A transaction that has all its locks comes after no active one that it conflicts with.\<close>

lemma lm_inv_order:
  assumes inv: "lm_inv active run s" and "t < u" and "running_conflict s t u k" and "u \<in> set (dlm_ready (ls_lm s) @ run)"
  shows "t \<in> set (ls_freed s)"
proof (rule ccontr)
  assume "t \<notin> set (ls_freed s)"
  have sv: "dlm.service_inv (dlm_config (ls_lm s)) (dlm_mode (ls_lm s)) (ls_heap s) active run (ls_lm s)"
    and all: "set (active @ ls_freed s) = {..<ls_next s}" and sorted: "sorted active" using inv unfolding lm_inv_def by blast+
  have u: "u \<in> set active" using sv assms(4) by (auto simp: dlm.service_inv_def)
  then have "u \<in> {..<ls_next s}" using all by auto
  with \<open>t < u\<close> have "t \<in> {..<ls_next s}" by simp
  with \<open>t \<notin> set (ls_freed s)\<close> all have "t \<in> set active" by auto
  then obtain us vs where split: "active = us @ t # vs" by (auto simp: in_set_conv_decomp)
  have "u \<notin> set us" using sorted \<open>t < u\<close> by (auto simp: split sorted_append)
  with u \<open>t < u\<close> split have "u \<in> set vs" by auto
  from dlm.order_respected [OF sv split this] assms(3,4) show False by (simp add: wants_of_def running_conflict_def)
qed

lemma lm_inv_handle_done:
  assumes inv: "lm_inv active (t # run) s" and st: "tx_status (ls_heap s t) = COMMITTED" and hd: "handle_done rnd t s = Inr s'"
  shows "lm_inv (filter (\<lambda>u. u \<noteq> t) active) run s' \<and> same_queues s s' \<and> ls_heap s' = ls_heap s \<and> ls_batch s' = ls_batch s"
proof -
  let ?c = "dlm_config (ls_lm s)" and ?m = "dlm_mode (ls_lm s)" and ?a = "filter (\<lambda>u. u \<noteq> t) active"
  have m: "?m \<noteq> 2" and sv: "dlm.service_inv ?c ?m (ls_heap s) active (t # run) (ls_lm s)"
    and dist: "distinct (active @ ls_freed s)" and set: "set (active @ ls_freed s) = {..<ls_next s}"
    and ex: "ls_executing s = of_nat (length (t # run))" and cnt: "ls_pending s + of_nat (length (t # run)) = of_nat (length active)"
    using inv unfolding lm_inv_def by blast+
  from dlm.inv_release [OF sv, of t] obtain lm where rel: "Release t (ls_heap s t) (ls_lm s) = Inr lm"
    and sv': "dlm.service_inv ?c ?m (ls_heap s) ?a (filter (\<lambda>u. u \<noteq> t) (t # run)) lm"
    unfolding release_txn_def by (auto simp del: filter.simps)
  have t: "t \<in> set active" "t \<notin> set run" using sv by (auto simp: dlm.service_inv_def)
  have lm: "dlm_config lm = ?c" "dlm_mode lm = ?m" using sv' by (auto simp: dlm.service_inv_def manager_for_def)
  have run: "filter (\<lambda>u. u \<noteq> t) (t # run) = run" using t by (auto simp: filter_id_conv)
  from hd m st rel obtain s1 where "done_count rnd t (s\<lparr>ls_lm := lm, ls_executing := ls_executing s - 1\<rparr>) = Inr s1"
    and "s' = s1\<lparr>ls_freed := ls_freed s1 @ [t]\<rparr>"
    by (auto simp: handle_done_def done_remaster_def done_release_def outcome_simps)
  with done_count_counters obtain r n where s': "s' = s\<lparr>ls_lm := lm, ls_executing := ls_executing s - 1, ls_rand := r, ls_txns := n,
      ls_freed := ls_freed s @ [t]\<rparr>" by fastforce
  have "set (?a @ ls_freed s') = {..<ls_next s}" using t set by (auto simp: s')
  moreover have "distinct (?a @ ls_freed s')" using t dist by (auto simp: s')
  moreover have "ls_pending s + of_nat (length run) = of_nat (length ?a)"
  proof -
    have "length active = Suc (length ?a)" using length_delete [of active t] dist t by simp
    then have "ls_pending s + of_nat (length run) + 1 = of_nat (length ?a) + 1" using cnt by (simp add: algebra_simps)
    then show ?thesis by (simp add: algebra_simps)
  qed
  moreover have "finish_order s' (ls_freed s')"
  proof -
    have "u \<in> set (ls_freed s)" if "u < t" "running_conflict s u t k" for u k
      using lm_inv_order [OF inv that] by simp
    moreover have "finish_order s (ls_freed s)" using inv unfolding lm_inv_def by blast
    ultimately have "finish_order s (ls_freed s @ [t])" by (auto simp: finish_order_snoc)
    then show ?thesis using finish_order_same [of s' s "ls_freed s'"] lm by (simp add: s')
  qed
  moreover have "sorted ?a" using inv unfolding lm_inv_def by (blast intro: sorted_wrt_filter)
  ultimately show ?thesis using m sv' run ex lm by (simp add: s' lm_inv_def same_queues_def)
qed

lemma lm_inv_drain:
  "lm_inv active (ts @ run) s \<Longrightarrow> \<forall>t \<in> set ts. tx_status (ls_heap s t) = COMMITTED \<Longrightarrow> foldE (handle_done rnd) ts s = Inr s' \<Longrightarrow>
     \<exists>active'. lm_inv active' run s' \<and> same_queues s s' \<and> ls_batch s' = ls_batch s"
proof (induction ts arbitrary: active s)
  case (Cons t ts)
  then obtain s1 where s1: "handle_done rnd t s = Inr s1" "foldE (handle_done rnd) ts s1 = Inr s'" by (auto simp: outcome_simps)
  from lm_inv_handle_done [OF _ _ s1(1)] Cons.prems(1,2)
  have 1: "lm_inv (filter (\<lambda>u. u \<noteq> t) active) (ts @ run) s1" "same_queues s s1" "ls_heap s1 = ls_heap s" "ls_batch s1 = ls_batch s" by auto
  with Cons.IH [OF 1(1) _ s1(2)] Cons.prems(2) show ?case by (metis list.set_intros(2) same_queues_trans)
qed auto

lemma drain_ready_eq:
  "drain_ready s = s\<lparr>ls_lm := (ls_lm s)\<lparr>dlm_ready := []\<rparr>, ls_pending := ls_pending s - of_nat (length (dlm_ready (ls_lm s))),
     ls_executing := ls_executing s + of_nat (length (dlm_ready (ls_lm s))), ls_txns_queue := ls_txns_queue s @ dlm_ready (ls_lm s)\<rparr>"
proof -
  have "fold (\<lambda>t u. u\<lparr>ls_pending := ls_pending u - 1, ls_executing := ls_executing u + 1, ls_txns_queue := ls_txns_queue u @ [t]\<rparr>) ts s
      = s\<lparr>ls_pending := ls_pending s - of_nat (length ts), ls_executing := ls_executing s + of_nat (length ts),
          ls_txns_queue := ls_txns_queue s @ ts\<rparr>" for ts and s :: "'a lm_thread"
    by (induction ts arbitrary: s) (simp_all add: algebra_simps)
  then show ?thesis by (simp add: drain_ready_def)
qed

lemma lm_inv_drain_ready:
  assumes "lm_inv active run s"
  shows "lm_inv active (dlm_ready (ls_lm s) @ run) (drain_ready s)"
proof -
  let ?c = "dlm_config (ls_lm s)" and ?m = "dlm_mode (ls_lm s)" and ?r = "dlm_ready (ls_lm s)"
  have sv: "dlm.service_inv ?c ?m (ls_heap s) active run (ls_lm s)" using assms unfolding lm_inv_def by blast
  then have "dlm.service_inv ?c ?m (ls_heap s) active (?r @ run) ((ls_lm s)\<lparr>dlm_ready := []\<rparr>)"
    by (simp add: dlm.service_inv_def manager_for_def represents_def)
  moreover have "finish_order (drain_ready s) ts = finish_order s ts" for ts
    by (rule finish_order_same) (simp_all add: drain_ready_eq)
  ultimately show ?thesis using assms by (simp add: lm_inv_def drain_ready_eq)
qed

text \<open>One iteration of the thread.\<close>

lemma lm_inv_iteration:
  assumes inv: "lm_inv active (run @ ls_done_queue s) s" and st: "\<forall>t \<in> set (ls_done_queue s). tx_status (ls_heap s t) = COMMITTED"
    and ok: "batch_ok cd s" and iter: "RunLockManagerThread_iteration cd rnd s = Inr s'"
  shows "\<exists>active' new. lm_inv active' (new @ run) s' \<and> ls_done_queue s' = [] \<and> ls_txns_queue s' = ls_txns_queue s @ new
    \<and> (\<forall>t < ls_next s. ls_heap s' t = ls_heap s t) \<and> ls_next s \<le> ls_next s'"
proof -
  from iter obtain s1 s2 where 1: "foldE (handle_done rnd) (ls_done_queue s) (s\<lparr>ls_done_queue := []\<rparr>) = Inr s1"
    and 2: "new_txns cd s1 = Inr s2" and s': "s' = drain_ready s2"
    by (auto simp: RunLockManagerThread_iteration_def drain_done_def outcome_simps)
  have "lm_inv active (ls_done_queue s @ run) (s\<lparr>ls_done_queue := []\<rparr>)"
    using inv service_inv_cong [of "dlm_config (ls_lm s)" "dlm_mode (ls_lm s)" "ls_heap s" active "run @ ls_done_queue s" "ls_lm s"
        "dlm_config (ls_lm s)" "ls_heap s" "ls_done_queue s @ run" "ls_lm s"]
    by (auto simp: lm_inv_def dlm.service_inv_def manager_for_def algebra_simps)
  from lm_inv_drain [OF this _ 1] st obtain a1 where a1: "lm_inv a1 run s1" "same_queues (s\<lparr>ls_done_queue := []\<rparr>) s1"
    and "ls_batch s1 = ls_batch s" by auto
  then have "batch_ok cd s1" using ok by (simp add: batch_ok_def)
  from lm_inv_new_txns [OF a1(1) this 2] obtain new where a2: "lm_inv (a1 @ new) run s2" "same_queues s1 s2" by blast
  from lm_inv_drain_ready [OF a2(1)] a1(2) a2(2) show ?thesis
    unfolding s' by (intro exI [of _ "a1 @ new"] exI [of _ "dlm_ready (ls_lm s2)"]) (auto simp: same_queues_def drain_ready_eq)
qed

section \<open>The workers keep the invariant\<close>

text \<open>
  The interface of the applications that matters here: of the configuration, executing a transaction
  changes at most the counter of the unique ids.
\<close>

locale application =
  fixes execute :: "'b app"
  assumes keeps_config: "execute txn (sm, h, c, sent) = Inr (sm', h', c', sent') \<Longrightarrow> \<exists>g. c' = c\<lparr>cc_next_guid := g\<rparr>"

definition worker_ok :: "'b lm_thread \<Rightarrow> 'b worker \<Rightarrow> bool" where
  "worker_ok s w \<longleftrightarrow> distinct (map fst (wk_active w)) \<and> (\<forall>(ch, t, sm) \<in> set (wk_active w). sm_txn sm = ls_heap s t)"

definition same_locks :: "'b lm_thread \<Rightarrow> 'b lm_thread \<Rightarrow> bool" where
  "same_locks s s' \<longleftrightarrow>
     ls_next s' = ls_next s \<and> ls_freed s' = ls_freed s \<and> ls_executing s' = ls_executing s \<and> ls_pending s' = ls_pending s
     \<and> dlm_table (ls_lm s') = dlm_table (ls_lm s) \<and> dlm_waits (ls_lm s') = dlm_waits (ls_lm s)
     \<and> dlm_ready (ls_lm s') = dlm_ready (ls_lm s) \<and> dlm_mode (ls_lm s') = dlm_mode (ls_lm s)
     \<and> ls_batch s' = ls_batch s \<and> ls_batch_offset s' = ls_batch_offset s \<and> ls_get s' = ls_get s
     \<and> (\<exists>g. dlm_config (ls_lm s') = (dlm_config (ls_lm s))\<lparr>cc_next_guid := g\<rparr>)"

lemma same_locks_simps [simp]:
  "same_locks s s" "same_locks s (s\<lparr>ls_txns_queue := q\<rparr>)" "same_locks s (s\<lparr>ls_recs := h\<rparr>)"
  "same_locks (s\<lparr>ls_txns_queue := q\<rparr>) s' = same_locks s s'" "same_locks (s\<lparr>ls_recs := h\<rparr>) s' = same_locks s s'"
  by (auto simp: same_locks_def intro: exI [of _ "cc_next_guid (dlm_config (ls_lm s))"])

text \<open>What an iteration of a worker does to the shared state, if it finishes the transactions \<open>ts\<close>.\<close>

definition worker_effect :: "txn_ptr list \<Rightarrow> 'b worker \<times> 'b lm_thread \<Rightarrow> 'b worker \<times> 'b lm_thread \<Rightarrow> bool" where
  "worker_effect ts ws ws' \<longleftrightarrow>
     (let (w, s) = ws; (w', s') = ws'
      in mset (ls_txns_queue s' @ worker_txns w') + mset ts = mset (ls_txns_queue s @ worker_txns w)
         \<and> ls_done_queue s' = ls_done_queue s @ ts \<and> wk_channel w' = wk_channel w
         \<and> ls_heap s' = (\<lambda>t. if t \<in> set ts then (ls_heap s t)\<lparr>tx_status := COMMITTED\<rparr> else ls_heap s t)
         \<and> same_locks s s'
         \<and> worker_ok s' w')"

lemma worker_ok_heap: "worker_ok s w \<Longrightarrow> \<forall>u \<in> set (worker_txns w). ls_heap s' u = ls_heap s u \<Longrightarrow> worker_ok s' w"
  by (force simp: worker_ok_def worker_txns_def)

lemma update_new: "map_of xs k = None \<Longrightarrow> AList.update k v xs = xs @ [(k, v)]"
  by (induction xs) auto

lemma update_old: "map_of xs k = Some v \<Longrightarrow> f v' = f v \<Longrightarrow> map (\<lambda>(k, v). f v) (AList.update k v' xs) = map (\<lambda>(k, v). f v) xs"
  by (induction xs) auto

lemma set_update: "set (AList.update k v xs) \<subseteq> insert (k, v) (set xs)"
  by (induction xs) auto

lemma delete_none: "k \<notin> fst ` set xs \<Longrightarrow> AList.delete k xs = xs"
  by (induction xs) auto

lemma delete_old:
  "distinct (map fst xs) \<Longrightarrow> map_of xs k = Some v \<Longrightarrow> add_mset (f v) (mset (map (\<lambda>(k, v). f v) (AList.delete k xs))) = mset (map (\<lambda>(k, v). f v) xs)"
  by (induction xs) (auto simp: delete_none)

lemma StorageManager_txn: "StorageManager u64 u32 cd c st h txn mode = Inr (sm, sent) \<Longrightarrow> sm_txn sm = txn"
proof (cases "cc_relative_node_id c \<in> set (tx_readers txn)")
  case True
  assume "StorageManager u64 u32 cd c st h txn mode = Inr (sm, sent)"
  with True show ?thesis using StorageManager_fields(1) by blast
qed (auto simp: StorageManager_def StorageManager_init_def Let_def)

lemma HandleReadResult_txn: "HandleReadResult cd m (sm, h) = Inr (sm', h') \<Longrightarrow> sm_txn sm' = sm_txn sm"
  using fold_handle_entry_fields by (fastforce simp: HandleReadResult_def outcome_simps)

context application
begin

lemma run_ready_effect:
  assumes "dlm_mode (ls_lm s) \<noteq> 2" "run_ready cd execute rnd t sm (s, mx) = Inr (s', mx')"
  shows "same_locks s s'" and "ls_txns_queue s' = ls_txns_queue s" and "ls_done_queue s' = ls_done_queue s @ [t]"
    and "ls_heap s' = (ls_heap s)(t := (sm_txn sm)\<lparr>tx_status := COMMITTED\<rparr>)"
proof -
  from assms obtain sm1 recs c sent where ex: "execute (sm_txn sm) (sm, ls_recs s, dlm_config (ls_lm s), []) = Inr (sm1, recs, c, sent)"
    and s': "s' = push_done t ((sm_txn sm)\<lparr>tx_status := COMMITTED\<rparr>) (set_config c (s\<lparr>ls_recs := recs\<rparr>))"
    by (auto simp: run_ready_def commit_check_def execute_txn_def outcome_simps)
  from keeps_config [OF ex] show "same_locks s s'" by (simp add: s' same_locks_def push_done_def set_config_def)
  show "ls_txns_queue s' = ls_txns_queue s" "ls_done_queue s' = ls_done_queue s @ [t]"
    "ls_heap s' = (ls_heap s)(t := (sm_txn sm)\<lparr>tx_status := COMMITTED\<rparr>)"
    by (simp_all add: s' push_done_def set_config_def)
qed

lemma start_txn_effect:
  assumes m: "dlm_mode (ls_lm s) \<noteq> 2" and ok: "worker_ok s w" and free: "channel_free w s"
    and dist: "distinct (ls_txns_queue s @ worker_txns w)"
    and run: "start_txn u64 u32 cd execute rnd (w, s, mx) = Inr (w', s', mx')"
  shows "\<exists>ts. worker_effect ts (w, s) (w', s')"
proof (cases "ls_txns_queue s")
  case Nil
  with ok run show ?thesis by (intro exI [of _ "[]"]) (simp add: start_txn_def worker_effect_def)
next
  case (Cons t q)
  let ?ch = "txn_channel (tx_txn_id (ls_heap s t)) (ucast (tx_origin_replica (ls_heap s t)))"
  from run Cons obtain sm sent where sm: "StorageManager u64 u32 cd (dlm_config (ls_lm s)) (ls_storage s) (ls_recs s) (ls_heap s t)
      (dlm_mode (ls_lm s)) = Inr (sm, sent)"
    by (auto simp: start_txn_def outcome_simps)
  note txn = StorageManager_txn [OF sm]
  have new: "map_of (wk_active w) ?ch = None" using free Cons by (simp add: channel_free_def)
  show ?thesis
  proof (cases "ReadyToExecute sm")
    case True
    with run Cons sm have w': "w' = w" and r: "run_ready cd execute rnd t sm (s\<lparr>ls_txns_queue := q\<rparr>, fold Send sent mx) = Inr (s', mx')"
      by (auto simp: start_txn_def Let_def outcome_simps)
    note e = run_ready_effect [OF _ r]
    have "t \<notin> set (worker_txns w)" using dist Cons by simp
    then have "worker_ok s' w" using worker_ok_heap [OF ok] e(4) m by fastforce
    with e m Cons show ?thesis
      by (intro exI [of _ "[t]"]) (auto simp: worker_effect_def w' txn fun_eq_iff)
  next
    case False
    with run Cons sm have w': "w' = w\<lparr>wk_active := AList.update ?ch (t, sm) (wk_active w)\<rparr>" and s': "s' = s\<lparr>ls_txns_queue := q\<rparr>"
      by (auto simp: start_txn_def Let_def outcome_simps)
    have "worker_ok s' w'" using ok new txn by (auto simp: worker_ok_def w' s' update_new map_of_eq_None_iff)
    with Cons show ?thesis
      by (intro exI [of _ "[]"]) (simp add: worker_effect_def worker_txns_def w' s' update_new new)
  qed
qed

lemma handle_message_effect:
  assumes m: "dlm_mode (ls_lm s) \<noteq> 2" and ok: "worker_ok s w" and dist: "distinct (worker_txns w)"
    and run: "handle_message cd execute rnd msg (w, s, mx) = Inr (w', s', mx')"
  shows "\<exists>ts. worker_effect ts (w, s) (w', s')"
proof (cases "msg_type msg = READ_RESULT")
  case False
  with ok run show ?thesis by (intro exI [of _ "[]"]) (simp add: handle_message_def worker_effect_def)
next
  case True
  let ?ch = "msg_destination_channel msg"
  from True run obtain t sm sm' recs where look: "map_of (wk_active w) ?ch = Some (t, sm)"
    and h: "HandleReadResult cd msg (sm, ls_recs s) = Inr (sm', recs)"
    by (auto simp: handle_message_def Let_def outcome_simps split: option.splits)
  have keys: "distinct (map fst (wk_active w))" and old: "sm_txn sm = ls_heap s t"
    using ok map_of_SomeD [OF look] by (auto simp: worker_ok_def)
  note txn = HandleReadResult_txn [OF h]
  show ?thesis
  proof (cases "ReadyToExecute sm'")
    case True
    with run look h \<open>msg_type msg = READ_RESULT\<close> obtain mx1 where w': "w' = w\<lparr>wk_active := AList.delete ?ch (wk_active w)\<rparr>"
      and r: "run_ready cd execute rnd t sm' (s\<lparr>ls_recs := recs\<rparr>, mx) = Inr (s', mx1)"
      by (auto simp: handle_message_def Let_def outcome_simps)
    note e = run_ready_effect [OF _ r]
    have ms: "add_mset t (mset (worker_txns w')) = mset (worker_txns w)"
      using delete_old [OF keys look, of fst] by (simp add: worker_txns_def w' case_prod_unfold)
    have "mset (t # worker_txns w') = mset (worker_txns w)" using ms by simp
    then have "distinct (t # worker_txns w')" using dist mset_eq_imp_distinct_iff by blast
    then have "\<forall>u \<in> set (worker_txns w'). ls_heap s' u = ls_heap s u" using e(4) m by auto
    moreover have "worker_ok s w'" using ok by (auto simp: worker_ok_def w' distinct_delete) (auto simp: AList.delete_eq)
    ultimately have "worker_ok s' w'" by (simp add: worker_ok_heap)
    with e m ms show ?thesis
      by (intro exI [of _ "[t]"]) (auto simp: worker_effect_def w' txn old fun_eq_iff)
  next
    case False
    with run look h \<open>msg_type msg = READ_RESULT\<close> have w': "w' = w\<lparr>wk_active := AList.update ?ch (t, sm') (wk_active w)\<rparr>"
      and s': "s' = s\<lparr>ls_recs := recs\<rparr>"
      by (auto simp: handle_message_def Let_def outcome_simps)
    have ms: "worker_txns w' = worker_txns w"
      using update_old [OF look, of fst "(t, sm')"] by (simp add: worker_txns_def w' case_prod_unfold)
    have "worker_ok s' w'"
      using ok txn old set_update [of ?ch "(t, sm')" "wk_active w"]
      by (fastforce simp: worker_ok_def w' s' distinct_update)
    with ms show ?thesis
      by (intro exI [of _ "[]"]) (simp add: worker_effect_def w' s')
  qed
qed

lemma worker_iteration_effect:
  assumes "dlm_mode (ls_lm s) \<noteq> 2" "worker_ok s w" "channel_free w s" "distinct (ls_txns_queue s @ worker_txns w)"
    and "RunWorkerThread_iteration u64 u32 cd execute rnd (w, s, mx) = Inr (w', s', mx')"
  shows "\<exists>ts. worker_effect ts (w, s) (w', s')"
  using assms(5) handle_message_effect [OF assms(1,2)] start_txn_effect [OF assms(1-4)] assms(4)
  by (auto simp: RunWorkerThread_iteration_def outcome_simps split: option.splits)

end

section \<open>The invariant of a machine\<close>

definition machine_inv :: "txn_ptr list \<Rightarrow> 'b machine \<Rightarrow> bool" where
  "machine_inv active mc \<longleftrightarrow>
     lm_inv active (held mc) (mc_lock mc)
     \<and> (\<forall>t \<in> set (ls_done_queue (mc_lock mc)). tx_status (ls_heap (mc_lock mc) t) = COMMITTED)
     \<and> (\<forall>w \<in> set (mc_workers mc). worker_ok (mc_lock mc) w)"

lemma lm_inv_effect:
  assumes inv: "lm_inv active run s" and same: "same_locks s s'" and run: "mset run' = mset run"
    and h: "ls_heap s' = (\<lambda>t. if t \<in> T then (ls_heap s t)\<lparr>tx_status := st\<rparr> else ls_heap s t)"
  shows "lm_inv active run' s'"
proof -
  let ?c = "dlm_config (ls_lm s)" and ?m = "dlm_mode (ls_lm s)"
  have sv: "dlm.service_inv ?c ?m (ls_heap s) active run (ls_lm s)" using inv unfolding lm_inv_def by blast
  from same obtain g where g: "dlm_config (ls_lm s') = ?c\<lparr>cc_next_guid := g\<rparr>" by (auto simp: same_locks_def)
  have "\<forall>t. no_duplicate_keys ?c ?m (ls_heap s t)" using sv by (simp add: dlm.service_inv_def manager_for_def)
  then have "dlm.service_inv (dlm_config (ls_lm s')) ?m (ls_heap s') active run' (ls_lm s')"
    by (intro service_inv_cong [OF sv]) (use same run in \<open>auto simp: g h same_locks_def\<close>)
  moreover have "length run' = length run" using run mset_eq_length by blast
  moreover have "finish_order s' (ls_freed s)"
    by (rule finish_order_cong [of s]) (use inv same in \<open>auto simp: lm_inv_def g h same_locks_def\<close>)
  ultimately show ?thesis using inv same by (simp add: lm_inv_def same_locks_def)
qed

lemma lm_inv_run:
  assumes "lm_inv active run s"
  shows "distinct run" "set run \<subseteq> set active" "\<forall>t \<in> set run. t < ls_next s"
  using assms by (auto simp: lm_inv_def dlm.service_inv_def)

lemma lm_inv_freed:
  assumes "lm_inv active run s"
  shows "distinct (ls_freed s)" "finish_order s (ls_freed s)" "t \<in> set (ls_freed s) \<Longrightarrow> t < ls_next s"
  using assms by (auto simp: lm_inv_def)

lemma machine_inv_start: "m \<noteq> 2 \<Longrightarrow> machine_inv [] (machine_new c m st recs mx)"
proof -
  assume m: "m \<noteq> 2"
  have "no_duplicate_keys c m TxnProto_new" by (rule distinct_keys_no_duplicates) (simp add: distinct_keys_def txn_entries_def TxnProto_new_def)
  then have "manager_for c m (\<lambda>_. TxnProto_new) [] (DeterministicLockManager_new [] c m)"
    using represents_new [of c m "\<lambda>_. TxnProto_new" "[]"] by (simp add: manager_for_def DeterministicLockManager_new_def)
  moreover have "held (machine_new c m st recs mx) = []"
    by (simp add: held_def machine_new_def worker_txns_def worker_new_def DeterministicScheduler_new_def Let_def)
  ultimately show ?thesis using m
    by (simp add: machine_inv_def machine_new_def DeterministicScheduler_new_def lm_inv_def dlm.service_inv_def
        worker_new_def worker_ok_def Let_def)
      (simp add: DeterministicLockManager_new_def)
qed

lemma machine_inv_lock_manager:
  assumes inv: "machine_inv active mc" and ok: "batch_ok cd (mc_lock mc)"
    and run: "RunLockManagerThread_iteration cd rnd (mc_lock mc) = Inr s"
  shows "\<exists>active'. machine_inv active' (mc\<lparr>mc_lock := s\<rparr>)"
proof -
  let ?s = "mc_lock mc" and ?ws = "concat (map worker_txns (mc_workers mc))"
  have lm: "lm_inv active (held mc) ?s" using inv by (simp add: machine_inv_def)
  have st: "\<forall>t \<in> set (ls_done_queue ?s). tx_status (ls_heap ?s t) = COMMITTED" using inv by (simp add: machine_inv_def)
  have "lm_inv active ((ls_txns_queue ?s @ ?ws) @ ls_done_queue ?s) ?s" using lm by (simp add: held_def)
  from lm_inv_iteration [OF this st ok run] obtain active' new where
    new: "lm_inv active' (new @ ls_txns_queue ?s @ ?ws) s" "ls_done_queue s = []" "ls_txns_queue s = ls_txns_queue ?s @ new"
      "\<forall>t < ls_next ?s. ls_heap s t = ls_heap ?s t" by blast
  have "lm_inv active' (held (mc\<lparr>mc_lock := s\<rparr>)) s"
    by (rule lm_inv_effect [OF new(1), where T = "{}"]) (simp_all add: held_def new)
  moreover have "worker_ok s w" if "w \<in> set (mc_workers mc)" for w
  proof (rule worker_ok_heap)
    show "worker_ok ?s w" using inv that by (simp add: machine_inv_def)
    show "\<forall>u \<in> set (worker_txns w). ls_heap s u = ls_heap ?s u"
      using lm_inv_run(3) [OF lm] new(4) that by (auto simp: held_def)
  qed
  ultimately show ?thesis using new(2) by (auto simp: machine_inv_def)
qed

text \<open>One worker's iteration, with the transactions of the other workers left alone.\<close>

context application
begin

lemma machine_worker_parts:
  assumes inv: "machine_inv active mc" and ws: "mc_workers mc = us @ w # vs"
  shows "distinct (ls_txns_queue (mc_lock mc) @ worker_txns w)"
    and "set (ls_txns_queue (mc_lock mc) @ worker_txns w)
      \<inter> set (concat (map worker_txns us) @ concat (map worker_txns vs) @ ls_done_queue (mc_lock mc)) = {}"
    and "worker_ok (mc_lock mc) w"
proof -
  have "lm_inv active (held mc) (mc_lock mc)" using inv by (simp add: machine_inv_def)
  from lm_inv_run(1) [OF this]
  show "distinct (ls_txns_queue (mc_lock mc) @ worker_txns w)"
    "set (ls_txns_queue (mc_lock mc) @ worker_txns w)
      \<inter> set (concat (map worker_txns us) @ concat (map worker_txns vs) @ ls_done_queue (mc_lock mc)) = {}"
    by (auto simp: held_def ws)
  show "worker_ok (mc_lock mc) w" using inv by (simp add: machine_inv_def ws)
qed

lemma machine_worker_effect:
  assumes inv: "machine_inv active mc" and i: "i < length (mc_workers mc)"
    and free: "channel_free (mc_workers mc ! i) (mc_lock mc)"
    and run: "RunWorkerThread_iteration u64 u32 cd execute r (mc_workers mc ! i, mc_lock mc, mc_connection mc) = Inr (w, s, mx)"
  shows "\<exists>ts. worker_effect ts (mc_workers mc ! i, mc_lock mc) (w, s)"
proof -
  have "mc_workers mc = take i (mc_workers mc) @ mc_workers mc ! i # drop (Suc i) (mc_workers mc)" using id_take_nth_drop [OF i] .
  from machine_worker_parts [OF inv this] have "worker_ok (mc_lock mc) (mc_workers mc ! i)"
    "distinct (ls_txns_queue (mc_lock mc) @ worker_txns (mc_workers mc ! i))" by blast+
  moreover have "dlm_mode (ls_lm (mc_lock mc)) \<noteq> 2" using inv by (simp add: machine_inv_def lm_inv_def)
  ultimately show ?thesis using worker_iteration_effect free run by blast
qed

lemma machine_inv_worker:
  assumes inv: "machine_inv active mc" and i: "i < length (mc_workers mc)"
    and free: "channel_free (mc_workers mc ! i) (mc_lock mc)"
    and run: "RunWorkerThread_iteration u64 u32 cd execute r (mc_workers mc ! i, mc_lock mc, mc_connection mc) = Inr (w, s, mx)"
  shows "machine_inv active (mc\<lparr>mc_workers := (mc_workers mc)[i := w], mc_lock := s, mc_connection := mx\<rparr>)"
    (is "machine_inv active ?mc")
proof -
  let ?s = "mc_lock mc" and ?w = "mc_workers mc ! i"
  define us vs where us: "us = take i (mc_workers mc)" and vs: "vs = drop (Suc i) (mc_workers mc)"
  have ws: "mc_workers mc = us @ ?w # vs" using id_take_nth_drop [OF i] by (simp add: us vs)
  have ws': "(mc_workers mc)[i := w] = us @ w # vs" using i by (simp add: us vs upd_conv_take_nth_drop)
  note parts = machine_worker_parts [OF inv ws]
  let ?others = "concat (map worker_txns us) @ concat (map worker_txns vs)"
  have lm: "lm_inv active (held mc) ?s" using inv by (simp add: machine_inv_def)
  from machine_worker_effect [OF inv i free run] obtain ts where "worker_effect ts (?w, ?s) (w, s)" by blast
  then have ms: "mset (ls_txns_queue s @ worker_txns w) + mset ts = mset (ls_txns_queue ?s @ worker_txns ?w)"
    and q: "ls_done_queue s = ls_done_queue ?s @ ts" and same: "same_locks ?s s" and okw: "worker_ok s w"
    and h: "ls_heap s = (\<lambda>t. if t \<in> set ts then (ls_heap ?s t)\<lparr>tx_status := COMMITTED\<rparr> else ls_heap ?s t)"
    by (auto simp: worker_effect_def)
  have tsub: "set ts \<subseteq> set (ls_txns_queue ?s @ worker_txns ?w)"
    using arg_cong [OF ms, of set_mset] by auto
  have "mset (held ?mc) = mset (ls_txns_queue s @ worker_txns w) + mset ts + mset ?others + mset (ls_done_queue ?s)"
    by (simp add: held_def ws' q)
  also have "\<dots> = mset (held mc)" unfolding ms by (simp add: held_def arg_cong [OF ws, of "\<lambda>l. concat (map worker_txns l)"])
  finally have "lm_inv active (held ?mc) s" by (rule lm_inv_effect [OF lm same _ h])
  moreover have "\<forall>t \<in> set (ls_done_queue s). tx_status (ls_heap s t) = COMMITTED"
    using inv parts(2) tsub by (auto simp: q h machine_inv_def)
  moreover have "worker_ok s v" if "v \<in> set us \<union> set vs" for v
  proof (rule worker_ok_heap)
    have "v \<in> set (mc_workers mc)" using that by (subst ws) auto
    with inv show "worker_ok ?s v" by (simp add: machine_inv_def)
    show "\<forall>u \<in> set (worker_txns v). ls_heap s u = ls_heap ?s u"
      using that parts(2) tsub by (auto simp: h)
  qed
  ultimately show ?thesis using okw by (auto simp: machine_inv_def ws')
qed

lemma machine_from_inv: "machine_from cd execute G mc0 mc \<Longrightarrow> machine_inv a mc0 \<Longrightarrow> \<exists>active. machine_inv active mc"
proof (induction rule: machine_from.induct)
  case (lock_manager mc rnd s)
  then show ?case using machine_inv_lock_manager by blast
next
  case (worker mc i u64 u32 r w s mx)
  then show ?case using machine_inv_worker by blast
next
  case (others mc ms mx)
  then obtain active where "machine_inv active mc" by auto
  then have "machine_inv active (mc\<lparr>mc_lock := batches_arrive ms (mc_lock mc), mc_connection := mx\<rparr>)"
    by (simp add: machine_inv_def held_def worker_ok_def batches_arrive_def)
  then show ?case ..
qed blast

lemma machine_run_inv: "machine_run cd execute G m mc \<Longrightarrow> m \<noteq> 2 \<Longrightarrow> \<exists>active. machine_inv active mc"
  using machine_from_inv machine_inv_start unfolding machine_run_def by blast

end

text \<open>What the invariant says of the transactions, over the wants of the current heap.\<close>

lemma machine_inv_conflicts:
  assumes "machine_inv active mc" "t \<in> set (held mc)" "u \<in> set (held mc)" "t \<noteq> u"
  shows "\<not> running_conflict (mc_lock mc) t u k"
proof -
  let ?s = "mc_lock mc"
  have "dlm.service_inv (dlm_config (ls_lm ?s)) (dlm_mode (ls_lm ?s)) (ls_heap ?s) active (held mc) (ls_lm ?s)"
    using assms(1) unfolding machine_inv_def lm_inv_def by blast
  from dlm.mutual_exclusion [OF this, of t u] assms(2-4) show ?thesis
    by (simp add: running_conflict_def wants_of_def)
qed

lemma machine_inv_progress:
  assumes "machine_inv active mc" "active \<noteq> []"
  shows "dlm_ready (ls_lm (mc_lock mc)) @ held mc \<noteq> []"
proof -
  let ?s = "mc_lock mc"
  have "dlm.service_inv (dlm_config (ls_lm ?s)) (dlm_mode (ls_lm ?s)) (ls_heap ?s) active (held mc) (ls_lm ?s)"
    using assms(1) unfolding machine_inv_def lm_inv_def by blast
  from dlm.first_granted [OF this, of "hd active" "tl active"] assms(2) show ?thesis by auto
qed

section \<open>Both applications are such applications\<close>

definition tpcc_app :: "'b app" where
  "tpcc_app txn st =
     (let (sm, h, c, sent) = st in bindE (Tpcc_Execute txn (sm, h)) (\<lambda>(sm', h'). Inr (sm', h', c, sent)))"

definition guid_only :: "cluster_config \<Rightarrow> cluster_config \<Rightarrow> bool" where
  "guid_only c c' \<longleftrightarrow> (\<exists>g. c' = c\<lparr>cc_next_guid := g\<rparr>)"

lemma guid_only_refl [simp]: "guid_only c c" by (auto simp: guid_only_def intro: exI [of _ "cc_next_guid c"])

lemma guid_only_trans: "guid_only c d \<Longrightarrow> guid_only d e \<Longrightarrow> guid_only c e" by (auto simp: guid_only_def)

lemma GetGUID_guid_only: "GetGUID c = (g, c') \<Longrightarrow> guid_only c c'" by (auto simp: GetGUID_def guid_only_def)

lemma execute_entry_config:
  "execute_entry cd mb txn i (sm, h, c, sent) = Inr (sm', h', c', sent') \<Longrightarrow> guid_only c c'"
  by (auto simp: execute_entry_def Let_def outcome_simps GetGUID_guid_only split: prod.splits if_splits)

lemma Execute_config:
  assumes "Execute cd mb txn (sm, h, c, sent) = Inr (sm', h', c', sent')"
  shows "guid_only c c'"
proof (cases "tx_remaster_txn txn")
  case True
  with assms show ?thesis by (auto simp: Execute_def execute_remaster_def Let_def outcome_simps split: prod.splits)
next
  case False
  with assms have "foldE (execute_entry cd mb txn) [0..<unat kRWSetSize] (sm, h, c, sent) = Inr (sm', h', c', sent')"
    by (simp add: Execute_def)
  then have "(\<lambda>(sm, h, d, sent). guid_only c d) (sm', h', c', sent')"
  proof (rule foldE_invariant)
    show "(\<lambda>(sm, h, d, sent). guid_only c d) v" if "(\<lambda>(sm, h, d, sent). guid_only c d) u" "execute_entry cd mb txn x u = Inr v" for x u v
      using that execute_entry_config guid_only_trans by (cases u, cases v) blast
  qed simp
  then show ?thesis by simp
qed

interpretation micro: application "Execute cd mb" for cd mb
  using Execute_config by unfold_locales (auto simp: guid_only_def)

interpretation tpcc: application tpcc_app
  by unfold_locales (auto simp: tpcc_app_def outcome_simps intro: guid_only_refl [unfolded guid_only_def])

text \<open>Either of the two.\<close>

definition calvin_app :: "'b codec \<Rightarrow> 'b app \<Rightarrow> bool" where
  "calvin_app cd app \<longleftrightarrow> (\<exists>mb. app = Execute cd mb) \<or> app = tpcc_app"

lemma calvin_machine_inv: "machine_run cd app G m mc \<Longrightarrow> m \<noteq> 2 \<Longrightarrow> calvin_app cd app \<Longrightarrow> \<exists>active. machine_inv active mc"
  using micro.machine_run_inv tpcc.machine_run_inv unfolding calvin_app_def by blast

section \<open>Properties of a machine\<close>

text \<open>
  C9: in the original and the low-latency mode (0 and 1; in the background-remaster mode 2 transactions
  aborted without locks reach the workers) no two transactions that conflict are ever executed at the same
  time. In every state that the lock manager thread, the workers and the rest of a machine can reach in
  these modes by steps that do not fail, with either application, any two transactions that wait for a
  worker, are with a worker or wait to be released want no key in conflicting modes. The runs have batches
  whose transactions name no key twice, and a worker starts a transaction only when it has none of the
  same id and origin under way.
\<close>

theorem machine_conflict_free:
  assumes "machine_run cd app G m mc" and "m \<noteq> 2" and "calvin_app cd app"
    and "t \<in> set (held mc)" "u \<in> set (held mc)" "t \<noteq> u"
  shows "\<not> running_conflict (mc_lock mc) t u k"
  using calvin_machine_inv [OF assms(1-3)] machine_inv_conflicts assms(4-6) by blast

text \<open>
  C10: in the original and the low-latency mode (0 and 1, not the background-remaster mode 2, see
  \<open>aborted_waiting_txn_leaks_locks\<close>) a machine loses no transaction and handles none twice:
  in every state it can reach by steps that do not fail, those on their way through the workers and those
  deleted are all different, the counters \<open>executing_txns\<close> and \<open>pending_txns\<close>
  say how many are with the workers and how many wait for locks, up to wrap-around, and while one is left,
  some transaction is ready or with the workers.
\<close>

theorem machine_conserves_txns:
  assumes "machine_run cd app G m mc" and "m \<noteq> 2" and "calvin_app cd app"
  shows "distinct (held mc @ ls_freed (mc_lock mc)) \<and> set (held mc @ ls_freed (mc_lock mc)) \<subseteq> {..<ls_next (mc_lock mc)}
    \<and> ls_executing (mc_lock mc) = of_nat (length (held mc))
    \<and> ls_executing (mc_lock mc) + ls_pending (mc_lock mc) = of_nat (ls_next (mc_lock mc) - length (ls_freed (mc_lock mc)))
    \<and> (length (ls_freed (mc_lock mc)) < ls_next (mc_lock mc) \<longrightarrow> dlm_ready (ls_lm (mc_lock mc)) @ held mc \<noteq> [])"
proof -
  let ?s = "mc_lock mc"
  from calvin_machine_inv [OF assms] obtain active where inv: "machine_inv active mc" ..
  then have lm: "lm_inv active (held mc) ?s" by (simp add: machine_inv_def)
  note run = lm_inv_run [OF lm]
  have a: "distinct (active @ ls_freed ?s)" "set (active @ ls_freed ?s) = {..<ls_next ?s}"
      "ls_executing ?s = of_nat (length (held mc))" "ls_pending ?s + of_nat (length (held mc)) = of_nat (length active)"
    using lm unfolding lm_inv_def by blast+
  have "length active + length (ls_freed ?s) = ls_next ?s" using distinct_card [OF a(1)] unfolding a(2) by simp
  then have len: "length active = ls_next ?s - length (ls_freed ?s)" by simp
  have "ls_executing ?s + ls_pending ?s = of_nat (ls_next ?s - length (ls_freed ?s))"
    using a(3,4) len by (simp add: add.commute)
  moreover have "dlm_ready (ls_lm ?s) @ held mc \<noteq> []" if "length (ls_freed ?s) < ls_next ?s"
    using that len machine_inv_progress [OF inv] by fastforce
  moreover have "distinct (held mc @ ls_freed ?s)" using run a(1) by auto
  moreover have "set (held mc @ ls_freed ?s) \<subseteq> {..<ls_next ?s}" using run(2) a(2) by (simp only: set_append) blast
  ultimately show ?thesis using a(3) by blast
qed

section \<open>A distributed transaction at one worker\<close>

lemma update_last_key: "map_of xs k = None \<Longrightarrow> AList.update k v (xs @ [(k, u)]) = xs @ [(k, v)]"
  by (induction xs) (auto split: if_splits)

lemma delete_last_key: "map_of xs k = None \<Longrightarrow> AList.delete k (xs @ [(k, u)]) = xs"
  by (induction xs) (auto split: if_splits)

lemma lookup_last_key: "map_of xs k = None \<Longrightarrow> map_of (xs @ [(k, u)]) k = Some u"
  by (induction xs) (auto split: if_splits)

lemma bindE_foldE_Nil: "bindE m (foldE f []) = m"
  by (cases m) simp_all

lemma inbox_Nil: "inbox cd cfg st txn i [] = []"
  by (simp add: inbox_def)

lemma run_ready_mode0:
  assumes "dlm_mode (ls_lm s) = 0"
  shows "run_ready cd app rnd t sm (s, mx) = bindE (app (sm_txn sm) (sm, ls_recs s, dlm_config (ls_lm s), [])) (\<lambda>(sm', recs, c, sent).
     Inr (push_done t ((sm_txn sm)\<lparr>tx_status := COMMITTED\<rparr>) (set_config c (s\<lparr>ls_recs := recs\<rparr>)), fold Send sent mx))"
  using assms by (cases "app (sm_txn sm) (sm, ls_recs s, dlm_config (ls_lm s), [])")
    (auto simp: run_ready_def commit_check_def execute_txn_def)

text \<open>
  The messages of the senders \<open>js\<close> after those of \<open>J\<close>: the worker keeps the manager up to the last, then
  executes the transaction.
\<close>

lemma worker_receives:
  assumes cd: "codec_ok cd" and r: "replica_machines cfg st txn i" and dist: "distinct (map ke_key (txn_entries txn))"
    and i: "i \<in> LookupPartition (cfg i) ` ke_key ` set (tx_read_write_set txn)"
    and mode: "dlm_mode (ls_lm s) = 0" and new: "map_of (wk_active w) ch = None"
    and ch: "ch = txn_channel (tx_txn_id txn) (ucast (tx_origin_replica txn))"
  shows "received cfg st txn i J sm h \<Longrightarrow> distinct js \<Longrightarrow> set js = set (tx_readers txn) - insert i J \<Longrightarrow> js \<noteq> [] \<Longrightarrow>
    \<exists>sm' h'. received cfg st txn i (J \<union> set js) sm' h'
      \<and> foldE (handle_message cd app rnd) (inbox cd cfg st txn i js)
          (w\<lparr>wk_active := wk_active w @ [(ch, t, sm)]\<rparr>, s\<lparr>ls_recs := h\<rparr>, mx)
        = bindE (app txn (sm', h', dlm_config (ls_lm s), [])) (\<lambda>(sm'', recs, c, sent).
            Inr (w, push_done t (txn\<lparr>tx_status := COMMITTED\<rparr>) (set_config c (s\<lparr>ls_recs := recs\<rparr>)), UnlinkChannel ch (fold Send sent mx)))"
proof (induction js arbitrary: J sm h)
  case (Cons j js)
  let ?es = "local_results (cfg j) (fst (st j)) (snd (st j)) txn 0"
  have j: "j \<in> set (tx_readers txn)" "j \<noteq> i" "j \<notin> insert i J" using Cons.prems(3) by auto
  from inbox_Cons [OF r i j(1,2)] obtain x where x: "inbox cd cfg st txn i (j # js) = x # inbox cd cfg st txn i js"
    and res: "results_message cd ?es x" and dest: "msg_destination_channel x = ch"
    unfolding reads_message_def ch by blast
  obtain sm1 h1 where F: "fold handle_entry ?es (sm, h) = (sm1, h1)" by (cases "fold handle_entry ?es (sm, h)")
  have rec: "received cfg st txn i (insert j J) sm1 h1" by (rule received_step [OF r dist Cons.prems(1) j(1,3) F])
  then have txn: "sm_txn sm1 = txn" by (simp add: received_def)
  have H: "HandleReadResult cd x (sm, h) = Inr (sm1, h1)" using HandleReadResult_results [OF cd res, of "(sm, h)"] F by simp
  have ready: "ReadyToExecute sm1 \<longleftrightarrow> js = []"
    using received_ready [OF r dist rec] Cons.prems(2,3) by (cases js) auto
  have type: "msg_type x = READ_RESULT" using res by (simp add: results_message_def)
  note active = update_last_key [OF new] delete_last_key [OF new] lookup_last_key [OF new]
  show ?case
  proof (cases "js = []")
    case True
    have "handle_message cd app rnd x (w\<lparr>wk_active := wk_active w @ [(ch, t, sm)]\<rparr>, s\<lparr>ls_recs := h\<rparr>, mx)
        = bindE (run_ready cd app rnd t sm1 (s\<lparr>ls_recs := h1\<rparr>, mx)) (\<lambda>(s', mx'). Inr (w, s', UnlinkChannel ch mx'))"
      using True ready type dest H by (simp add: handle_message_def active Let_def del: map_of_append)
    also have "\<dots> = bindE (app txn (sm1, h1, dlm_config (ls_lm s), [])) (\<lambda>(sm'', recs, c, sent).
        Inr (w, push_done t (txn\<lparr>tx_status := COMMITTED\<rparr>) (set_config c (s\<lparr>ls_recs := recs\<rparr>)), UnlinkChannel ch (fold Send sent mx)))"
      using mode by (cases "app txn (sm1, h1, dlm_config (ls_lm s), [])") (auto simp: run_ready_mode0 txn)
    finally show ?thesis using True rec x
      by (intro exI [of _ sm1] exI [of _ h1]) (simp add: bindE_foldE_Nil inbox_Nil)
  next
    case False
    have "handle_message cd app rnd x (w\<lparr>wk_active := wk_active w @ [(ch, t, sm)]\<rparr>, s\<lparr>ls_recs := h\<rparr>, mx)
        = Inr (w\<lparr>wk_active := wk_active w @ [(ch, t, sm1)]\<rparr>, s\<lparr>ls_recs := h1\<rparr>, mx)"
      using False ready type dest H by (simp add: handle_message_def active Let_def del: map_of_append)
    then have "foldE (handle_message cd app rnd) (inbox cd cfg st txn i (j # js))
        (w\<lparr>wk_active := wk_active w @ [(ch, t, sm)]\<rparr>, s\<lparr>ls_recs := h\<rparr>, mx)
      = foldE (handle_message cd app rnd) (inbox cd cfg st txn i js)
          (w\<lparr>wk_active := wk_active w @ [(ch, t, sm1)]\<rparr>, s\<lparr>ls_recs := h1\<rparr>, mx)" by (simp add: x)
    moreover have "set js = set (tx_readers txn) - insert i (insert j J)" "distinct js" using Cons.prems(2,3) by auto
    moreover have "J \<union> set (j # js) = insert j J \<union> set js" by simp
    ultimately show ?thesis using Cons.IH [OF rec _ _ False] by metis
  qed
qed simp

text \<open>A worker that takes a transaction executes it at once, or links its channel and waits.\<close>

lemma start_txn_mode0:
  assumes "ls_txns_queue s = t # q" "dlm_mode (ls_lm s) = 0" "ls_heap s t = txn" "sm_txn sm = txn"
    and "StorageManager u64 u32 cd (dlm_config (ls_lm s)) (ls_storage s) (ls_recs s) txn 0 = Inr (sm, sent)"
    and "ch = txn_channel (tx_txn_id txn) (ucast (tx_origin_replica txn))"
  shows "ReadyToExecute sm \<Longrightarrow> start_txn u64 u32 cd app rnd (w, s, mx)
      = bindE (app txn (sm, ls_recs s, dlm_config (ls_lm s), [])) (\<lambda>(sm', recs, c, out).
          Inr (w, push_done t (txn\<lparr>tx_status := COMMITTED\<rparr>) (set_config c (s\<lparr>ls_txns_queue := q, ls_recs := recs\<rparr>)),
               fold Send out (fold Send sent mx)))"
    and "\<not> ReadyToExecute sm \<Longrightarrow> map_of (wk_active w) ch = None \<Longrightarrow> start_txn u64 u32 cd app rnd (w, s, mx)
      = Inr (w\<lparr>wk_active := wk_active w @ [(ch, t, sm)]\<rparr>, s\<lparr>ls_txns_queue := q\<rparr>, LinkChannel ch (wk_channel w) (fold Send sent mx))"
proof -
  show "start_txn u64 u32 cd app rnd (w, s, mx)
      = bindE (app txn (sm, ls_recs s, dlm_config (ls_lm s), [])) (\<lambda>(sm', recs, c, out).
          Inr (w, push_done t (txn\<lparr>tx_status := COMMITTED\<rparr>) (set_config c (s\<lparr>ls_txns_queue := q, ls_recs := recs\<rparr>)),
               fold Send out (fold Send sent mx)))" if "ReadyToExecute sm"
    using assms that by (cases "app txn (sm, ls_recs s, dlm_config (ls_lm s), [])")
      (auto simp: start_txn_def run_ready_mode0 Let_def)
  show "start_txn u64 u32 cd app rnd (w, s, mx)
      = Inr (w\<lparr>wk_active := wk_active w @ [(ch, t, sm)]\<rparr>, s\<lparr>ls_txns_queue := q\<rparr>, LinkChannel ch (wk_channel w) (fold Send sent mx))"
    if "\<not> ReadyToExecute sm" "map_of (wk_active w) ch = None"
    using assms that by (simp add: start_txn_def update_new Let_def)
qed

lemma received_values:
  assumes r: "replica_machines cfg st txn i" and rec: "received cfg st txn i J sm h" and all: "set (tx_readers txn) \<subseteq> insert i J"
  shows "\<forall>ke \<in> set (txn_entries txn). \<exists>r r'.
     record_of (st (LookupPartition (cfg i) (ke_key ke))) (ke_key ke) = Some r \<and> object_at h sm (ke_key ke) = Inr r'
     \<and> rec_value r' = rec_value r \<and> rec_master r' = rec_master r \<and> rec_counter r' = rec_counter r"
proof -
  have "LookupPartition (cfg i) (ke_key ke) \<in> insert i J" if "ke \<in> set (txn_entries txn)" for ke
    using that replica_machinesD(3) [OF r] all by auto
  with rec show ?thesis unfolding received_def by blast
qed

text \<open>
  C12: in the original mode (0) the worker of a machine that writes runs a distributed transaction to its
  end. Take a machine that writes, in the replica of the machines that read a transaction with distinct
  keys, each storing the keys of its partition. When a worker takes the transaction and then handles the
  messages of the other readers, in any order of the senders, the outcome is that of executing it exactly
  once, on a manager that has for every key the value, master and counter stored on the key's machine: an
  error of the application is an error, and otherwise the transaction is committed and pushed to the done
  queue, and the worker has forgotten it. A machine that only reads is another matter
  (\<open>reader_only_machine_waits\<close>).
\<close>

theorem worker_runs_distributed_txn:
  assumes "codec_ok cd" and "distinct (map ke_key (txn_entries txn))" and "replica_machines cfg st txn i"
    and "i \<in> LookupPartition (cfg i) ` ke_key ` set (tx_read_write_set txn)"
    and "distinct js" and "set js = set (tx_readers txn) - {i}"
    and "ls_txns_queue s = t # q" and "ls_heap s t = txn" and "(ls_storage s, ls_recs s) = st i"
    and "dlm_config (ls_lm s) = cfg i" and "dlm_mode (ls_lm s) = 0" and "channel_free w s"
  shows "\<exists>sm recs sendings.
    ReadyToExecute sm
    \<and> (\<forall>ke \<in> set (txn_entries txn). \<exists>r r'.
         record_of (st (LookupPartition (cfg i) (ke_key ke))) (ke_key ke) = Some r \<and> object_at recs sm (ke_key ke) = Inr r'
         \<and> rec_value r' = rec_value r \<and> rec_master r' = rec_master r \<and> rec_counter r' = rec_counter r)
    \<and> bindE (start_txn u64 u32 cd app rnd (w, s, mx)) (foldE (handle_message cd app rnd) (inbox cd cfg st txn i js))
      = bindE (app txn (sm, recs, cfg i, [])) (\<lambda>(sm', recs', c, sent).
          Inr (w, push_done t (txn\<lparr>tx_status := COMMITTED\<rparr>) (set_config c (s\<lparr>ls_txns_queue := q, ls_recs := recs'\<rparr>)), sendings sent))"
proof -
  let ?ch = "txn_channel (tx_txn_id txn) (ucast (tx_origin_replica txn))"
  note m = replica_machinesD [OF assms(3)]
  have reader: "cc_relative_node_id (cfg i) \<in> set (tx_readers txn)" using m(1,2) by simp
  have st: "fst (st i) = ls_storage s" "snd (st i) = ls_recs s" using assms(9) by (metis fst_conv, metis snd_conv)
  obtain sm sent where S: "StorageManager u64 u32 cd (cfg i) (fst (st i)) (snd (st i)) txn 0 = Inr (sm, sent)"
    using StorageManager_defined_mode0 [OF reader m(8) [OF m(1)], of u64 u32 cd] by blast
  note rec = received_start [OF assms(3) S]
  have new: "map_of (wk_active w) ?ch = None" using assms(7,8,12) by (simp add: channel_free_def)
  have all: "ReadyToExecute sm' \<and> (\<forall>ke \<in> set (txn_entries txn). \<exists>r r'.
      record_of (st (LookupPartition (cfg i) (ke_key ke))) (ke_key ke) = Some r \<and> object_at h' sm' (ke_key ke) = Inr r'
      \<and> rec_value r' = rec_value r \<and> rec_master r' = rec_master r \<and> rec_counter r' = rec_counter r)"
    if "received cfg st txn i (set js) sm' h'" for sm' :: "'a storage_manager" and h'
    using received_ready [OF assms(3,2) that] received_values [OF assms(3) that] assms(6) by auto
  have ready: "ReadyToExecute sm \<longleftrightarrow> js = []"
    using received_ready [OF assms(3,2) rec] assms(6) m(1) by (cases js) auto
  have txn: "sm_txn sm = txn" using rec by (simp add: received_def)
  note start = start_txn_mode0 [OF assms(7,11,8) txn S [unfolded st, folded assms(10)] refl, where app = app and rnd = rnd and w = w and mx = mx]
  show ?thesis
  proof (cases "js = []")
    case True
    then have rec': "received cfg st txn i (set js) sm (ls_recs s)" using rec by (simp add: st)
    from all [OF this] start(1) True ready show ?thesis
      by (intro exI [of _ sm] exI [of _ "ls_recs s"] exI [of _ "\<lambda>out. fold Send out (fold Send sent mx)"])
        (simp add: assms(10) inbox_Nil bindE_foldE_Nil)
  next
    case False
    let ?s = "s\<lparr>ls_txns_queue := q\<rparr>" and ?mx = "LinkChannel ?ch (wk_channel w) (fold Send sent mx)"
    have s: "?s\<lparr>ls_recs := snd (st i)\<rparr> = ?s" by (simp add: st)
    have "dlm_mode (ls_lm ?s) = 0" "set js = set (tx_readers txn) - insert i {}" using assms(6,11) by simp_all
    from worker_receives [OF assms(1,3,2,4) this(1) new refl rec assms(5) this(2) False, where app = app and rnd = rnd and t = t and mx = ?mx]
    obtain sm' h' where rec': "received cfg st txn i ({} \<union> set js) sm' h'"
      and run: "foldE (handle_message cd app rnd) (inbox cd cfg st txn i js) (w\<lparr>wk_active := wk_active w @ [(?ch, t, sm)]\<rparr>, ?s, ?mx)
        = bindE (app txn (sm', h', dlm_config (ls_lm ?s), [])) (\<lambda>(sm'', recs, c, out).
            Inr (w, push_done t (txn\<lparr>tx_status := COMMITTED\<rparr>) (set_config c (?s\<lparr>ls_recs := recs\<rparr>)), UnlinkChannel ?ch (fold Send out ?mx)))"
      unfolding s by (elim exE conjE) (rule that)
    have "ReadyToExecute sm \<longleftrightarrow> False" using ready False by simp
    note start(2) [unfolded this, OF _ new]
    with run all [of sm' h'] rec' show ?thesis
      by (intro exI [of _ sm'] exI [of _ h'] exI [of _ "\<lambda>out. UnlinkChannel ?ch (fold Send out ?mx)"]) (simp add: assms(10))
  qed
qed

section \<open>A concrete run\<close>

definition example_connection :: "payload multiplexer" where
  "example_connection = \<lparr>mx_config = example_config 0, mx_channels = [], mx_queues = [], mx_link_unlink = [],
     mx_new_channel = [], mx_delete_channel = [], mx_send = [], mx_undelivered = (\<lambda>_. []), mx_stopped = False\<rparr>"

text \<open>Two transactions that read the same key, one of which also writes another one.\<close>

definition example_pair :: "txn_proto list" where
  "example_pair =
     [TxnProto_new\<lparr>tx_txn_id := 1, tx_read_set := [\<lparr>ke_key = ''0'', ke_master = 0, ke_counter = 0\<rparr>],
        tx_read_write_set := [\<lparr>ke_key = ''2'', ke_master = 0, ke_counter = 0\<rparr>]\<rparr>,
      TxnProto_new\<lparr>tx_txn_id := 2, tx_read_set := [\<lparr>ke_key = ''0'', ke_master = 0, ke_counter = 0\<rparr>]\<rparr>]"

definition example_batch :: "payload message_proto" where
  "example_batch = (example_subbatch 7)\<lparr>msg_data := map Txn_bytes example_pair\<rparr>"

definition example_inbox :: "payload batch_state" where
  "example_inbox = batch_state_new\<lparr>bs_inbox := [example_order, example_batch]\<rparr>"

lemma example_GetBatch: "\<exists>g. GetBatch payload_codec example_inbox = Inr (Some example_batch, g)"
  by (simp add: GetBatch_def find_sequence_def find_batch_def example_inbox_def batch_state_new_def example_order_def
      example_batch_def example_subbatch_def MessageProto_new_def advance_batch_def payload_codec_def Let_def)

lemma example_locks: "\<exists>lm. Lock 0 (example_pair ! 0) (DeterministicLockManager_new [] (example_config 0) 0) = (0, lm)
    \<and> dlm_ready lm = [0] \<and> dlm_config lm = example_config 0 \<and> dlm_mode lm = 0 \<and> dlm_ready (snd (Lock 1 (example_pair ! 1) lm)) = [0, 1]"
  by (simp add: Lock_def example_pair_def TxnProto_new_def Lock_write_entry_def Lock_read_entry_def locks_entry_def
      example_IsLocal DeterministicLockManager_new_def find_requests_def Let_def)

lemma example_batch_data: "length (msg_data example_batch) = 2" "dec_txn payload_codec (msg_data example_batch ! 0) = example_pair ! 0"
  "dec_txn payload_codec (msg_data example_batch ! 1) = example_pair ! 1"
  by (simp_all add: example_batch_def example_pair_def payload_codec_def)

lemma example_machine_run:
  assumes G: "G example_order" "G example_batch"
  shows "\<exists>mc. machine_run payload_codec app G 0 mc \<and> held mc = [0, 1] \<and> ls_next (mc_lock mc) = 2 \<and> ls_freed (mc_lock mc) = []
     \<and> dlm_config (ls_lm (mc_lock mc)) = example_config 0 \<and> dlm_mode (ls_lm (mc_lock mc)) = 0
     \<and> ls_heap (mc_lock mc) 0 = example_pair ! 0 \<and> ls_heap (mc_lock mc) 1 = example_pair ! 1"
proof -
  let ?s0 = "(DeterministicScheduler_new (example_config 0) 0 Map.empty [])\<lparr>ls_get := example_inbox\<rparr>"
  let ?M = "\<lambda>s. \<lparr>mc_lock = s, mc_workers = map worker_new [0..<NUM_THREADS], mc_connection = example_connection\<rparr>"
  have 0: "machine_run payload_codec app G 0 (?M ?s0)"
    using machine_run_others [OF machine_run_start [where c = "example_config 0" and st = Map.empty and recs = "[]" and mx = example_connection],
        where mx = example_connection and ms = "[example_order, example_batch]" and cd = payload_codec and app = app and m = 0 and G = G] G
    by (simp add: machine_new_def batches_arrive_def example_inbox_def DeterministicScheduler_new_def batch_state_new_def Let_def)
  have step: "machine_run payload_codec app G 0 (?M s')"
    if "machine_run payload_codec app G 0 (?M s)" "batch_ok payload_codec s"
      "RunLockManagerThread_iteration payload_codec (\<lambda>_. 0) s = Inr s'" for s s'
    using machine_run_lock_manager [of payload_codec app G 0 "?M s" "\<lambda>_. 0" s'] that by simp
  obtain g where g: "GetBatch payload_codec example_inbox = Inr (Some example_batch, g)" using example_GetBatch by blast
  let ?s1 = "?s0\<lparr>ls_batch := Some example_batch, ls_get := g\<rparr>"
  have "RunLockManagerThread_iteration payload_codec (\<lambda>_. 0) ?s0 = Inr ?s1"
    using g by (simp add: RunLockManagerThread_iteration_def drain_done_def new_txns_def next_batch_def drain_ready_eq
        DeterministicScheduler_new_def DeterministicLockManager_new_def)
  from step [OF 0 _ this] have 1: "machine_run payload_codec app G 0 (?M ?s1)"
    by (simp add: batch_ok_def DeterministicScheduler_new_def)
  obtain lm where lm: "Lock 0 (example_pair ! 0) (DeterministicLockManager_new [] (example_config 0) 0) = (0, lm)"
    "dlm_ready lm = [0]" "dlm_config lm = example_config 0" "dlm_mode lm = 0" "dlm_ready (snd (Lock 1 (example_pair ! 1) lm)) = [0, 1]"
    using example_locks by blast
  have "num_txns_once = Suc (Suc (Suc 7))" and room: "0 < maximum_txns" by (simp_all add: num_txns_once_def maximum_txns_def)
  then obtain k where num: "num_txns_once = Suc (Suc (Suc k))" by blast
  have dlm: "dlm_config (DeterministicLockManager_new r c m) = c" "dlm_mode (DeterministicLockManager_new r c m) = m" for r c m
    by (simp_all add: DeterministicLockManager_new_def)
  obtain s2 where "RunLockManagerThread_iteration payload_codec (\<lambda>_. 0) ?s1 = Inr s2" and s2: "ls_txns_queue s2 = [0, 1]" "ls_done_queue s2 = []"
      "ls_next s2 = 2" "ls_freed s2 = []" "dlm_config (ls_lm s2) = example_config 0" "dlm_mode (ls_lm s2) = 0"
      "ls_heap s2 0 = example_pair ! 0" "ls_heap s2 1 = example_pair ! 1"
    using lm Lock_config [of 1 "example_pair ! 1" lm]
    by (simp add: RunLockManagerThread_iteration_def drain_done_def new_txns_def num room dlm admit_txn_def lock_txn_def
        example_batch_data example_batch_data [unfolded One_nat_def] drain_ready_eq DeterministicScheduler_new_def Let_def)
  then have "machine_run payload_codec app G 0 (?M s2)"
    by (intro step [OF 1]) (simp_all add: batch_ok_def, simp add: example_batch_def payload_codec_def example_pair_def distinct_keys_def txn_entries_def TxnProto_new_def)
  moreover have "held (?M s2) = [0, 1]" by (simp add: held_def s2 worker_txns_def worker_new_def)
  ultimately show ?thesis using s2 by (intro exI [of _ "?M s2"]) simp
qed

lemma machine_conflict_free_witness:
  "\<exists>mc :: payload machine. held mc = [0, 1] \<and> \<not> running_conflict (mc_lock mc) 0 1 ''0''
     \<and> wanted (dlm_config (ls_lm (mc_lock mc))) (dlm_mode (ls_lm (mc_lock mc))) (ls_heap (mc_lock mc) 0) ''0'' = READ"
proof -
  obtain mc where mc: "machine_run payload_codec tpcc_app (\<lambda>_. True) 0 mc" "held mc = [0, 1]"
    "dlm_config (ls_lm (mc_lock mc)) = example_config 0" "dlm_mode (ls_lm (mc_lock mc)) = 0" "ls_heap (mc_lock mc) 0 = example_pair ! 0"
    using example_machine_run [of "\<lambda>_. True" tpcc_app] by blast
  have "calvin_app payload_codec tpcc_app" by (simp add: calvin_app_def)
  from machine_conflict_free [OF mc(1) _ this, of 0 1 "''0''"] mc show ?thesis
    by (intro exI [of _ mc]) (simp add: example_pair_def wanted_def locked_keys_def locks_entry_def TxnProto_new_def example_IsLocal)
qed

lemma machine_conserves_txns_witness:
  "\<exists>mc :: payload machine. held mc = [0, 1] \<and> ls_executing (mc_lock mc) = 2 \<and> ls_pending (mc_lock mc) = 0"
proof -
  obtain mc where mc: "machine_run payload_codec tpcc_app (\<lambda>_. True) 0 mc" "held mc = [0, 1]" "ls_next (mc_lock mc) = 2" "ls_freed (mc_lock mc) = []"
    using example_machine_run [of "\<lambda>_. True" tpcc_app] by blast
  have "calvin_app payload_codec tpcc_app" by (simp add: calvin_app_def)
  have "(0 :: uint32) \<noteq> 2" by simp
  note c = machine_conserves_txns [OF mc(1) this \<open>calvin_app payload_codec tpcc_app\<close>, simplified mc(2-4)]
  from c have e: "ls_executing (mc_lock mc) = of_nat (length [0, 1 :: nat])" by simp
  from c have "ls_executing (mc_lock mc) + ls_pending (mc_lock mc) = of_nat (2 - length ([] :: nat list))" by blast
  then have "2 + ls_pending (mc_lock mc) = 2" unfolding e by simp
  then have "ls_pending (mc_lock mc) = 0" unfolding add_cancel_left_right .
  with e mc(2) show ?thesis by (intro exI [of _ mc]) simp
qed

definition example_thread :: "payload lm_thread" where
  "example_thread = (DeterministicScheduler_new (example_config 0) 0 (fst (pair_stores 0)) (snd (pair_stores 0)))
     \<lparr>ls_heap := (\<lambda>_. pair_txn), ls_txns_queue := [5]\<rparr>"

lemma worker_runs_distributed_txn_witness:
  "\<exists>(sm :: payload storage_manager) recs sendings. ReadyToExecute sm
     \<and> bindE (start_txn 0 0 payload_codec tpcc_app 0 (worker_new 1, example_thread, example_connection))
         (foldE (handle_message payload_codec tpcc_app 0) (inbox payload_codec example_config pair_stores pair_txn 0 [1]))
       = bindE (tpcc_app pair_txn (sm, recs, example_config 0, [])) (\<lambda>(sm', recs', c, sent).
          Inr (worker_new 1, push_done 5 (pair_txn\<lparr>tx_status := COMMITTED\<rparr>)
            (set_config c (example_thread\<lparr>ls_txns_queue := [], ls_recs := recs'\<rparr>)), sendings sent))"
proof -
  have pair: "distinct (map ke_key (txn_entries pair_txn))"
      "0 \<in> LookupPartition (example_config 0) ` ke_key ` set (tx_read_write_set pair_txn)"
      "set [1] = set (tx_readers pair_txn) - {0}" "distinct [1 :: uint64]"
    by auto
  have machines: "replica_machines example_config pair_stores pair_txn 0"
    by (auto simp: replica_machines_def stores_hold_def pair_stores_def)
  have s: "ls_txns_queue example_thread = 5 # []" "ls_heap example_thread 5 = pair_txn"
    "(ls_storage example_thread, ls_recs example_thread) = pair_stores 0" "dlm_config (ls_lm example_thread) = example_config 0"
    "dlm_mode (ls_lm example_thread) = 0" "channel_free (worker_new 1) example_thread"
    by (simp_all add: example_thread_def DeterministicScheduler_new_def DeterministicLockManager_new_def worker_new_def channel_free_def)
  show ?thesis
    using worker_runs_distributed_txn [OF payload_codec_ok pair(1) machines pair(2,4,3) s(1-6), of 0 0 tpcc_app 0 example_connection]
    by (elim exE conjE) (intro exI conjI)
qed

end
