(* ===== verification/Mem_Log.thy ===== *)
theory Mem_Log
  imports Calvin_Prelude
begin

text \<open>
  \<open>log/local_mem_log.cc\<close>: the in-memory log of versioned entries, its readers with \<open>Next\<close>
  and the binary search of \<open>Seek\<close>, and the reader contract of \<open>log/log.h\<close> as the locale
  \<open>append_log\<close>. Offsets are natural numbers: a log in memory stays far below \<open>2 ^ 63\<close>
  entries, so \<open>min + max\<close> does not wrap. An append and a step of a reader are atomic, which is
  what the size counter (incremented after the entry is stored) and the read lock give.
\<close>

section \<open>The log\<close>

text \<open>The first \<open>size_\<close> cells of \<open>entries_\<close>; \<open>allocated_\<close> counts the cells malloc'ed.\<close>

record 'e mem_log =
  ml_max_version :: uint64
  ml_entries :: "(uint64 \<times> 'e) list"
  ml_allocated :: nat

definition LocalMemLog_new :: "'e mem_log" where
  "LocalMemLog_new = \<lparr>ml_max_version = 0, ml_entries = [], ml_allocated = 1024 * 1024\<rparr>"

definition ml_size :: "'e mem_log \<Rightarrow> nat" where
  "ml_size l = length (ml_entries l)"

definition LocalMemLog_Append :: "uint64 \<Rightarrow> 'e \<Rightarrow> 'e mem_log \<Rightarrow> 'e mem_log outcome" where
  "LocalMemLog_Append version entry l =
     CHECK (ml_max_version l \<le> version)
      (CHECK (ml_size l \<ge> ml_allocated l \<longrightarrow> ml_allocated l = ml_size l)
        (let alloc = (if ml_size l \<ge> ml_allocated l then ml_allocated l * 2 else ml_allocated l)
         in require_defined (ml_size l < alloc)
              (Inr (l\<lparr>ml_allocated := alloc,
                      ml_entries := ml_entries l @ [(version, entry)],
                      ml_max_version := version\<rparr>))))"

definition LastVersion :: "'e mem_log \<Rightarrow> uint64" where
  "LastVersion l = ml_max_version l"

section \<open>Readers\<close>

text \<open>\<open>entry_\<close> is a copy of a cell; \<open>None\<close> until the first one is copied.\<close>

record 'e log_reader =
  lr_started :: bool
  lr_offset :: nat
  lr_entry :: "(uint64 \<times> 'e) option"

definition LocalMemLogReader_new :: "'e log_reader" where
  "LocalMemLogReader_new = \<lparr>lr_started = False, lr_offset = 0, lr_entry = None\<rparr>"

definition Reader_Valid :: "'e log_reader \<Rightarrow> bool" where
  "Reader_Valid r = lr_started r"

definition Reader_Reset :: "'e log_reader \<Rightarrow> 'e log_reader" where
  "Reader_Reset r = r\<lparr>lr_started := False\<rparr>"

definition Reader_Next :: "'e mem_log \<Rightarrow> 'e log_reader \<Rightarrow> (bool \<times> 'e log_reader) outcome" where
  "Reader_Next l r =
     (if ml_size l = 0 \<or> (lr_started r \<and> lr_offset r = ml_size l - 1) then Inr (False, r)
      else
        let r' = (if \<not> lr_started r then r\<lparr>lr_started := True, lr_offset := 0\<rparr>
                  else r\<lparr>lr_offset := lr_offset r + 1\<rparr>)
        in CHECK (lr_offset r' < ml_size l)
             (Inr (True, r'\<lparr>lr_entry := Some (ml_entries l ! lr_offset r')\<rparr>)))"

text \<open>The loop of \<open>Seek\<close>: \<open>Inl\<close> is the early return at an equal version.\<close>

function seek_loop :: "(uint64 \<times> 'e) list \<Rightarrow> uint64 \<Rightarrow> nat \<Rightarrow> nat \<Rightarrow> nat + nat \<times> nat" where
  "seek_loop e target mn mx =
     (if mn + 1 < mx then
        let mid = (mn + mx) div 2
        in if fst (e ! mid) = target then Inl mid
           else if target < fst (e ! mid) then seek_loop e target mn mid
           else seek_loop e target mid mx
      else Inr (mn, mx))"
  by pat_completeness auto
termination by (relation "measure (\<lambda>(e, t, mn, mx). mx - mn)") auto

declare seek_loop.simps [simp del]

definition reader_at :: "'e mem_log \<Rightarrow> nat \<Rightarrow> 'e log_reader \<Rightarrow> 'e log_reader" where
  "reader_at l i r = r\<lparr>lr_started := True, lr_offset := i, lr_entry := Some (ml_entries l ! i)\<rparr>"

definition Reader_Seek :: "'e mem_log \<Rightarrow> uint64 \<Rightarrow> 'e log_reader \<Rightarrow> (bool \<times> 'e log_reader) outcome" where
  "Reader_Seek l target r =
     CHECK (0 < target)
      (if LastVersion l < target then Inr (False, r)
       else let e = ml_entries l; mn = 0; mx = ml_size l - 1
            in require_defined (0 < ml_size l)
                (if fst (e ! mn) = target then Inr (True, reader_at l mn r)
                 else if fst (e ! mx) = target then Inr (True, reader_at l mx r)
                 else case seek_loop e target mn mx of
                     Inl mid \<Rightarrow> Inr (True, reader_at l mid r)
                   | Inr (mn', mx') \<Rightarrow>
                       CHECK (fst (e ! mn') < target)
                        (CHECK (target < fst (e ! mx')) (Inr (True, reader_at l mx' r)))))"

definition Reader_Version :: "'e log_reader \<Rightarrow> uint64 outcome" where
  "Reader_Version r = CHECK (Reader_Valid r)
     (case lr_entry r of Some (v, e) \<Rightarrow> Inr v | None \<Rightarrow> Inl Undefined_behaviour)"

definition Reader_Entry :: "'e log_reader \<Rightarrow> 'e outcome" where
  "Reader_Entry r = CHECK (Reader_Valid r)
     (case lr_entry r of Some (v, e) \<Rightarrow> Inr e | None \<Rightarrow> Inl Undefined_behaviour)"

section \<open>Well-formed logs and readers\<close>

definition versions :: "'e mem_log \<Rightarrow> uint64 list" where
  "versions l = map fst (ml_entries l)"

definition log_ok :: "'e mem_log \<Rightarrow> bool" where
  "log_ok l \<longleftrightarrow> sorted (versions l) \<and> 0 < ml_allocated l \<and> ml_size l \<le> ml_allocated l
     \<and> ml_max_version l = (if ml_entries l = [] then 0 else last (versions l))"

text \<open>The number of entries a reader has consumed.\<close>

definition position :: "'e log_reader \<Rightarrow> nat" where
  "position r = (if lr_started r then Suc (lr_offset r) else 0)"

definition reader_ok :: "'e mem_log \<Rightarrow> 'e log_reader \<Rightarrow> bool" where
  "reader_ok l r \<longleftrightarrow> (lr_started r \<longrightarrow> lr_offset r < ml_size l \<and> lr_entry r = Some (ml_entries l ! lr_offset r))"

lemma LocalMemLog_new_ok: "log_ok LocalMemLog_new"
  by (simp add: log_ok_def LocalMemLog_new_def versions_def ml_size_def)

lemma log_ok_max: "log_ok l \<Longrightarrow> v \<in> set (versions l) \<Longrightarrow> v \<le> ml_max_version l"
  using sorted_le_last [of "versions l" v] by (auto simp: log_ok_def versions_def split: if_splits)

lemma Append_accepts_iff:
  "log_ok l \<Longrightarrow> (\<exists>l'. LocalMemLog_Append v e l = Inr l') \<longleftrightarrow> ml_max_version l \<le> v"
  by (auto simp: LocalMemLog_Append_def CHECK_def require_defined_def Let_def log_ok_def)

lemma Append_fields:
  assumes "LocalMemLog_Append v e l = Inr l'"
  shows "ml_entries l' = ml_entries l @ [(v, e)]" "ml_max_version l' = v" "ml_max_version l \<le> v"
    "ml_size l' \<le> ml_allocated l'" "ml_allocated l \<le> ml_allocated l'"
  using assms
  by (auto simp: LocalMemLog_Append_def CHECK_def require_defined_def Let_def ml_size_def Suc_le_eq
      split: if_splits)

lemma Append_ok:
  assumes "log_ok l" and "LocalMemLog_Append v e l = Inr l'"
  shows "log_ok l'"
proof -
  note f = Append_fields [OF assms(2)]
  have "\<forall>w \<in> set (versions l). w \<le> v" using log_ok_max [OF assms(1)] f(3) by force
  moreover have "0 < ml_allocated l'" using f(5) assms(1) unfolding log_ok_def by linarith
  ultimately show ?thesis
    using assms(1) f(1,2,4) by (simp add: log_ok_def versions_def sorted_append)
qed

section \<open>The reader contract\<close>

text \<open>
  What the clients of \<open>Log\<close> rely on: a reader yields the entries in append order and each once,
  and goes on with entries that are appended later. \<open>read_loop\<close> is the clients'
  \<open>while (reader->Next()) ...\<close>, for at most \<open>n\<close> rounds.
\<close>

fun read_loop :: "('r \<Rightarrow> (bool \<times> 'r) outcome) \<Rightarrow> ('r \<Rightarrow> 'e option) \<Rightarrow> nat \<Rightarrow> 'r \<Rightarrow> ('e option list \<times> 'r) outcome" where
  "read_loop step current 0 r = Inr ([], r)"
| "read_loop step current (Suc n) r =
     bindE (step r) (\<lambda>(found, r').
       if found then bindE (read_loop step current n r') (\<lambda>(es, r''). Inr (current r' # es, r''))
       else Inr ([], r'))"

locale append_log =
  fixes entries :: "'l \<Rightarrow> 'e list" and append :: "'e \<Rightarrow> 'l \<Rightarrow> 'l outcome"
    and step :: "'l \<Rightarrow> 'r \<Rightarrow> (bool \<times> 'r) outcome" and pos :: "'r \<Rightarrow> nat" and current :: "'r \<Rightarrow> 'e option"
    and rok :: "'l \<Rightarrow> 'r \<Rightarrow> bool"
  assumes append_entries: "append e l = Inr l' \<Longrightarrow> entries l' = entries l @ [e]"
    and append_rok: "append e l = Inr l' \<Longrightarrow> rok l r \<Longrightarrow> rok l' r"
    and pos_le: "rok l r \<Longrightarrow> pos r \<le> length (entries l)"
    and step_found: "rok l r \<Longrightarrow> pos r < length (entries l)
      \<Longrightarrow> \<exists>r'. step l r = Inr (True, r') \<and> rok l r' \<and> pos r' = Suc (pos r)
            \<and> current r' = Some (entries l ! pos r)"
    and step_end: "rok l r \<Longrightarrow> pos r = length (entries l) \<Longrightarrow> step l r = Inr (False, r)"
begin

lemma read_loop_entries:
  "rok l r \<Longrightarrow> \<exists>r'. read_loop (step l) current n r = Inr (map Some (take n (drop (pos r) (entries l))), r')
     \<and> rok l r' \<and> pos r' = min (pos r + n) (length (entries l))"
proof (induction n arbitrary: r)
  case 0
  then show ?case using pos_le by fastforce
next
  case (Suc n)
  show ?case
  proof (cases "pos r < length (entries l)")
    case True
    from step_found [OF Suc.prems True] obtain r' where r':
      "step l r = Inr (True, r')" "rok l r'" "pos r' = Suc (pos r)" "current r' = Some (entries l ! pos r)"
      by blast
    from Suc.IH [OF r'(2)] r' True show ?thesis
      by (auto simp: Cons_nth_drop_Suc [symmetric])
  next
    case False
    with pos_le [OF Suc.prems] have "pos r = length (entries l)" by simp
    with step_end [OF Suc.prems] Suc.prems show ?thesis by auto
  qed
qed

lemma read_loop_all:
  assumes "rok l r" and "length (entries l) - pos r \<le> n"
  shows "\<exists>r'. read_loop (step l) current n r = Inr (map Some (drop (pos r) (entries l)), r')
     \<and> rok l r' \<and> pos r' = length (entries l)"
  using read_loop_entries [OF assms(1), of n] assms pos_le [OF assms(1)] by (auto simp: min_def)

end

definition reader_entry :: "'e log_reader \<Rightarrow> (uint64 \<times> 'e) option" where
  "reader_entry r = (if lr_started r then lr_entry r else None)"

interpretation ml: append_log ml_entries "\<lambda>(v, e). LocalMemLog_Append v e" Reader_Next position reader_entry reader_ok
proof
  show "reader_ok l' r" if "(\<lambda>(v, e). LocalMemLog_Append v e) x l = Inr l'" "reader_ok l r" for x l l' r
    using that by (cases x) (auto simp: reader_ok_def ml_size_def Append_fields nth_append)
  show "\<exists>r'. Reader_Next l r = Inr (True, r') \<and> reader_ok l r' \<and> position r' = Suc (position r)
      \<and> reader_entry r' = Some (ml_entries l ! position r)"
    if "reader_ok l r" "position r < length (ml_entries l)" for l r
    using that
    by (auto simp: Reader_Next_def reader_ok_def position_def reader_entry_def ml_size_def CHECK_def Let_def
        split: if_splits)
  show "Reader_Next l r = Inr (False, r)" if "reader_ok l r" "position r = length (ml_entries l)" for l r
    using that by (auto simp: Reader_Next_def reader_ok_def position_def ml_size_def split: if_splits)
qed (auto simp: Append_fields position_def reader_ok_def ml_size_def split: if_splits)

text \<open>Appending a list of versioned entries, stopping at the first refused one.\<close>

definition Append_all :: "(uint64 \<times> 'e) list \<Rightarrow> 'e mem_log \<Rightarrow> 'e mem_log outcome" where
  "Append_all ves l = foldE (\<lambda>(v, e). LocalMemLog_Append v e) ves l"

lemma Append_all_ok: "Append_all ves l = Inr l' \<Longrightarrow> log_ok l \<Longrightarrow> log_ok l'"
  unfolding Append_all_def by (erule foldE_invariant) (auto dest: Append_ok)

lemma Append_all_entries: "Append_all ves l = Inr l' \<Longrightarrow> ml_entries l' = ml_entries l @ ves"
proof (induction ves arbitrary: l)
  case (Cons x ves)
  then obtain l1 where "(\<lambda>(v, e). LocalMemLog_Append v e) x l = Inr l1" "Append_all ves l1 = Inr l'"
    by (auto simp: Append_all_def bindE_Inr_iff)
  with Cons.IH [of l1] show ?case by (cases x) (auto simp: Append_fields)
qed (simp add: Append_all_def)

lemma Append_all_reader: "Append_all ves l = Inr l' \<Longrightarrow> reader_ok l r \<Longrightarrow> reader_ok l' r"
  unfolding Append_all_def by (erule foldE_invariant) (use ml.append_rok in auto)

text \<open>
  C37: a reader created on an empty log, run, left alone while more entries are appended, and run
  again, has delivered exactly the appended entries: in append order, each once, none missing.
\<close>

theorem Reader_delivers_appends:
  assumes "Append_all xs LocalMemLog_new = Inr l1" and "Append_all ys l1 = Inr l2"
  shows "\<exists>r1 r2. read_loop (Reader_Next l1) reader_entry (length xs) LocalMemLogReader_new = Inr (map Some xs, r1)
    \<and> read_loop (Reader_Next l2) reader_entry (length ys) r1 = Inr (map Some ys, r2)
    \<and> Reader_Next l2 r2 = Inr (False, r2)"
proof -
  have xs: "ml_entries l1 = xs" using Append_all_entries [OF assms(1)] by (simp add: LocalMemLog_new_def)
  have ys: "ml_entries l2 = xs @ ys" using Append_all_entries [OF assms(2)] xs by simp
  have new: "reader_ok l1 LocalMemLogReader_new" and pos0: "position LocalMemLogReader_new = 0"
    by (simp_all add: reader_ok_def LocalMemLogReader_new_def position_def)
  from ml.read_loop_all [OF new, of "length xs"] obtain r1 where r1:
    "read_loop (Reader_Next l1) reader_entry (length xs) LocalMemLogReader_new = Inr (map Some xs, r1)"
    "reader_ok l1 r1" "position r1 = length xs"
    by (auto simp: xs pos0)
  from Append_all_reader [OF assms(2) r1(2)] ml.read_loop_all [of l2 r1 "length ys"] r1(3) obtain r2 where
    "read_loop (Reader_Next l2) reader_entry (length ys) r1 = Inr (map Some ys, r2)"
    "reader_ok l2 r2" "position r2 = length (ml_entries l2)"
    by (auto simp: ys)
  with r1 ml.step_end [of l2 r2] show ?thesis by blast
qed

lemma Reader_delivers_appends_witness:
  "\<exists>l1 l2 r1 r2. read_loop (Reader_Next l1) reader_entry (Suc (Suc 0)) LocalMemLogReader_new = Inr ([Some (1, ''a''), Some (3, ''b'')], r1)
    \<and> read_loop (Reader_Next l2) reader_entry (Suc 0) r1 = Inr ([Some (4, ''c'')], r2)"
proof -
  let ?l1 = "\<lparr>ml_max_version = 3, ml_entries = [(1, ''a''), (3, ''b'')], ml_allocated = 1048576\<rparr>"
  let ?l2 = "\<lparr>ml_max_version = 4, ml_entries = [(1, ''a''), (3, ''b''), (4, ''c'')], ml_allocated = 1048576\<rparr>"
  have "Append_all [(1, ''a''), (3, ''b'')] LocalMemLog_new = Inr ?l1" "Append_all [(4, ''c'')] ?l1 = Inr ?l2"
    by (simp_all add: Append_all_def LocalMemLog_Append_def LocalMemLog_new_def ml_size_def Let_def)
  from Reader_delivers_appends [OF this] show ?thesis by (simp del: read_loop.simps) blast
qed

section \<open>Seek\<close>

text \<open>The invariant in the comment of the loop: the version at \<open>min\<close> is below the target, the one at \<open>max\<close> above.\<close>

lemma seek_loop_correct:
  assumes "fst (e ! mn) < t" "t < fst (e ! mx)" "mn < mx"
  shows "case seek_loop e t mn mx of
      Inl i \<Rightarrow> mn < i \<and> i < mx \<and> fst (e ! i) = t
    | Inr (i, j) \<Rightarrow> mn \<le> i \<and> j = Suc i \<and> j \<le> mx \<and> fst (e ! i) < t \<and> t < fst (e ! j)"
  using assms
proof (induction e t mn mx rule: seek_loop.induct)
  case (1 e t mn mx)
  let ?mid = "(mn + mx) div 2"
  show ?case
  proof (cases "mn + 1 < mx")
    case True
    then have mid: "mn < ?mid" "?mid < mx" by auto
    consider "fst (e ! ?mid) = t" | "t < fst (e ! ?mid)" | "fst (e ! ?mid) < t" by (rule linorder_cases)
    then show ?thesis
    proof cases
      case 1
      with mid True show ?thesis by (simp add: seek_loop.simps [of e t mn mx] Let_def)
    next
      case 2
      with 1(1) [OF True refl] "1.prems" mid True show ?thesis
        by (auto simp: seek_loop.simps [of e t mn mx] Let_def split: sum.splits)
    next
      case 3
      with 1(2) [OF True refl] "1.prems" mid True show ?thesis
        by (auto simp: seek_loop.simps [of e t mn mx] Let_def split: sum.splits)
    qed
  next
    case False
    with "1.prems" show ?thesis by (auto simp: seek_loop.simps [of e t mn mx])
  qed
qed

text \<open>
  On a log with strictly increasing versions, as the header of \<open>Log\<close> requires, \<open>Seek\<close> to a
  target between the first and the last version stops at the first entry whose version is at least
  the target.
\<close>

theorem Reader_Seek_correct:
  assumes "log_ok l" and "distinct (versions l)" and "0 < target"
    and "ml_entries l \<noteq> []" and "hd (versions l) \<le> target" and "target \<le> LastVersion l"
  shows "\<exists>i r'. Reader_Seek l target r = Inr (True, r') \<and> reader_ok l r' \<and> lr_offset r' = i
    \<and> i < ml_size l \<and> target \<le> versions l ! i \<and> (\<forall>j < i. versions l ! j < target)"
proof -
  let ?e = "ml_entries l" and ?n = "ml_size l"
  have n: "0 < ?n" and len: "length (versions l) = ?n" using assms(4) by (simp_all add: ml_size_def versions_def)
  have v: "versions l ! i = fst (?e ! i)" if "i < ?n" for i using that by (simp add: versions_def ml_size_def)
  have less: "versions l ! i < versions l ! j" if "i < j" "j < ?n" for i j
    using assms(1,2) that len by (intro sorted_wrt_nth_less [of "(<)"]) (auto simp: log_ok_def strict_sorted_iff)
  have found: ?thesis if "Reader_Seek l target r = Inr (True, reader_at l i r)" "i < ?n"
      "target \<le> versions l ! i" "\<forall>j < i. versions l ! j < target" for i
    using that by (auto simp: reader_at_def reader_ok_def)
  have first: "fst (?e ! 0) \<le> target" and last: "target \<le> fst (?e ! (?n - 1))"
    using assms n by (auto simp: hd_conv_nth versions_def LastVersion_def log_ok_def last_conv_nth ml_size_def)
  have seek: "Reader_Seek l target r = (if fst (?e ! 0) = target then Inr (True, reader_at l 0 r)
      else if fst (?e ! (?n - 1)) = target then Inr (True, reader_at l (?n - 1) r)
      else case seek_loop ?e target 0 (?n - 1) of Inl mid \<Rightarrow> Inr (True, reader_at l mid r)
        | Inr (i, j) \<Rightarrow> CHECK (fst (?e ! i) < target) (CHECK (target < fst (?e ! j)) (Inr (True, reader_at l j r))))"
    using assms(3) leD [OF assms(6)] n by (simp add: Reader_Seek_def Let_def)
  have hit: ?thesis if "Reader_Seek l target r = Inr (True, reader_at l i r)" "i < ?n" "fst (?e ! i) = target" for i
    using that less [of _ i] by (intro found [of i]) (auto simp: v)
  show ?thesis
  proof (cases "fst (?e ! 0) = target \<or> fst (?e ! (?n - 1)) = target")
    case True
    then show ?thesis using hit [of 0] hit [of "?n - 1"] seek n by auto
  next
    case False
    with first last have lt: "fst (?e ! 0) < target" "target < fst (?e ! (?n - 1))" by auto
    then have "0 < ?n - 1" using n by (cases "?n - 1") auto
    note loop = seek_loop_correct [OF lt this]
    show ?thesis
    proof (cases "seek_loop ?e target 0 (?n - 1)")
      case (Inl i)
      then show ?thesis using hit [of i] seek False loop by auto
    next
      case (Inr ij)
      obtain i j where ij: "ij = (i, j)" by (cases ij)
      with loop Inr have *: "j = Suc i" "j < ?n" "fst (?e ! i) < target" "target < fst (?e ! j)" by auto
      then have "\<forall>k < j. versions l ! k < target"
        using less [of _ i] v [of i] by (auto simp: less_Suc_eq intro: less_trans)
      then show ?thesis using found [of j] seek False Inr ij * v [of j] by auto
    qed
  qed
qed

lemma Reader_Seek_correct_witness:
  "\<exists>i r'. Reader_Seek \<lparr>ml_max_version = 9, ml_entries = [(2, ''a''), (5, ''b''), (9, ''c'')], ml_allocated = 4\<rparr> 4
      LocalMemLogReader_new = Inr (True, r') \<and> lr_offset r' = i"
  using Reader_Seek_correct [of "\<lparr>ml_max_version = 9, ml_entries = [(2, ''a''), (5, ''b''), (9, ''c'')], ml_allocated = 4\<rparr>" 4
      LocalMemLogReader_new]
  by (simp add: log_ok_def versions_def ml_size_def LastVersion_def) blast

lemma seek_loop_all_above:
  "\<forall>i \<le> mx. t < fst (e ! i) \<Longrightarrow> \<exists>j. seek_loop e t mn mx = Inr (mn, j)"
proof (induction e t mn mx rule: seek_loop.induct)
  case (1 e t mn mx)
  let ?mid = "(mn + mx) div 2"
  show ?case
  proof (cases "mn + 1 < mx")
    case True
    then have mid: "?mid \<le> mx" by auto
    with 1(3) have "t < fst (e ! ?mid)" by blast
    with 1(1) [OF True refl] 1(3) mid True show ?thesis
      by (auto simp: seek_loop.simps [of e t mn mx] Let_def)
  qed (simp add: seek_loop.simps [of e t mn mx])
qed

text \<open>
  A target below the first version is not found, as the header promises, but aborts: with the
  target below every version the loop's invariant does not hold and its final check fails.
\<close>

theorem Reader_Seek_before_first:
  assumes "log_ok l" and "0 < target" and "ml_entries l \<noteq> []" and "target < hd (versions l)"
  shows "Reader_Seek l target r = Inl Check_failed"
proof -
  let ?e = "ml_entries l" and ?n = "ml_size l"
  have n: "0 < ?n" using assms(3) by (simp add: ml_size_def)
  have above: "target < fst (?e ! i)" if "i < ?n" for i
  proof -
    have "hd (versions l) \<le> fst (?e ! i)"
      using assms(1) that by (intro hd_le_sorted) (auto simp: log_ok_def versions_def ml_size_def)
    with assms(4) show ?thesis by (rule less_le_trans)
  qed
  have "fst (?e ! (?n - 1)) = LastVersion l"
    using assms(1,3) by (simp add: log_ok_def LastVersion_def versions_def last_conv_nth ml_size_def)
  with above [of 0] above [of "?n - 1"] n have *: "fst (?e ! 0) \<noteq> target" "\<not> fst (?e ! 0) < target"
      "fst (?e ! (?n - 1)) \<noteq> target" "\<not> LastVersion l < target" by auto
  obtain j where "seek_loop ?e target 0 (?n - 1) = Inr (0, j)"
    using seek_loop_all_above [of "?n - 1" target ?e 0] above n by fastforce
  with * n assms(2) show ?thesis by (simp add: Reader_Seek_def Let_def)
qed

lemma Reader_Seek_before_first_witness:
  "Reader_Seek \<lparr>ml_max_version = 9, ml_entries = [(5, ''b''), (9, ''c'')], ml_allocated = 4\<rparr> 4
      LocalMemLogReader_new = Inl Check_failed"
  by (rule Reader_Seek_before_first) (simp_all add: log_ok_def versions_def ml_size_def)

end
