(* ===== verification/Paxos.thy ===== *)
theory Paxos
  imports Mem_Log Cluster_Config Messages
begin

text \<open>
  \<open>log/paxos.{h,cc}\<close>: the replicated log of the original mode. The machine 0 of each replica takes part;
  the first one leads: it numbers the sequences of batches, proposes each to the followers, waits for
  a majority, sends the order to the schedulers of its replica, tells the followers to commit and
  appends to its log. The threads are machines that react to one message at a time; a channel is the
  list of the messages waiting in it. \<open>paxos_step\<close> interleaves them.
\<close>

section \<open>State\<close>

record 'b paxos =
  px_participants :: "uint64 list"
  px_sequence :: sequence
  px_count :: uint64
  px_log :: "'b mem_log"
  px_config :: cluster_config
  px_machine_id :: uint64

definition Paxos_new :: "cluster_config \<Rightarrow> 'b paxos" where
  "Paxos_new c =
     \<lparr>px_participants = 0 # map (\<lambda>i. of_nat i * nodes_per_replica c) [1..<unat (cc_replicas_size c)],
      px_sequence = [], px_count = 0, px_log = LocalMemLog_new, px_config = c,
      px_machine_id = cc_local_node_id c\<rparr>"

definition IsLeader :: "'b paxos \<Rightarrow> bool" where
  "IsLeader p \<longleftrightarrow> px_machine_id p = hd (px_participants p)"

definition Paxos_Append :: "uint64 \<Rightarrow> 'b paxos \<Rightarrow> 'b paxos" where
  "Paxos_Append blockid p = p\<lparr>px_sequence := px_sequence p @ [blockid], px_count := px_count p + 1\<rparr>"

text \<open>The machines of the local replica: the loop over \<open>uint64\<close> numbers.\<close>

definition local_machines :: "cluster_config \<Rightarrow> uint64 list" where
  "local_machines c = map of_nat
     [unat (ucast (cc_local_replica c) * nodes_per_replica c)
        ..< unat (ucast (cc_local_replica c + 1) * nodes_per_replica c)]"

section \<open>The leader\<close>

text \<open>\<open>pl_pending\<close>: version and bytes of the current proposal and the acks so far.\<close>

record 'b paxos_leader =
  pl_paxos :: "'b paxos"
  pl_next_version :: uint64
  pl_pending :: "(uint64 \<times> 'b \<times> uint64) option"

definition quorum :: "'b paxos \<Rightarrow> uint64" where
  "quorum p = of_nat (length (px_participants p) div 2 + 1)"

definition sequence_message :: "uint64 \<Rightarrow> 'b \<Rightarrow> 'b message_proto" where
  "sequence_message version encoded = MessageProto_new\<lparr>msg_data := [encoded], msg_misc_int := [version]\<rparr>"

definition to_followers :: "'b paxos \<Rightarrow> 'b message_proto \<Rightarrow> 'b message_proto list" where
  "to_followers p m = map (\<lambda>d. m\<lparr>msg_destination_node := d\<rparr>) (tl (px_participants p))"

definition order_messages :: "cluster_config \<Rightarrow> 'b message_proto \<Rightarrow> 'b message_proto list" where
  "order_messages c m = map (\<lambda>d. m\<lparr>msg_type := PAXOS_BATCH_ORDER, msg_destination_channel := ''scheduler_'',
     msg_destination_node := d\<rparr>) (local_machines c)"

definition leader_propose :: "'b codec \<Rightarrow> 'b paxos_leader \<Rightarrow> 'b paxos_leader \<times> 'b message_proto list" where
  "leader_propose cd l =
     (let p = pl_paxos l; version = pl_next_version l; encoded = enc_seq cd (px_sequence p);
          m = (sequence_message version encoded)\<lparr>msg_type := PAXOS_DATA, msg_destination_channel := ''paxos_log_''\<rparr>
      in (l\<lparr>pl_paxos := p\<lparr>px_sequence := [], px_count := 0\<rparr>, pl_next_version := version + 1,
            pl_pending := Some (version, encoded, 1)\<rparr>,
          to_followers p m))"

text \<open>An ack while fewer than \<open>quorum\<close> have been counted.\<close>

definition leader_ack :: "'b message_proto \<Rightarrow> 'b paxos_leader \<Rightarrow> 'b paxos_leader outcome" where
  "leader_ack m l =
     (case pl_pending l of None \<Rightarrow> Inr l
      | Some (version, encoded, acks) \<Rightarrow>
          CHECK (msg_type m = PAXOS_DATA_ACK)
            (bindE (rep_get (msg_misc_int m) 0) (\<lambda>v.
               Inr (l\<lparr>pl_pending := Some (version, encoded, if v = version then acks + 1 else acks)\<rparr>))))"

text \<open>What follows the collection of the acks; the messages are in the order in which they are sent.\<close>

definition leader_commit :: "'b paxos_leader \<Rightarrow> ('b paxos_leader \<times> 'b message_proto list) outcome" where
  "leader_commit l =
     (case pl_pending l of None \<Rightarrow> Inr (l, [])
      | Some (version, encoded, acks) \<Rightarrow>
          if acks < quorum (pl_paxos l) then Inr (l, [])
          else let p = pl_paxos l; m = sequence_message version encoded;
                   commit = (m\<lparr>msg_data := [], msg_type := PAXOS_COMMIT, msg_destination_channel := ''paxos_log_''\<rparr>)
               in bindE (LocalMemLog_Append version encoded (px_log p)) (\<lambda>log.
                    Inr (l\<lparr>pl_paxos := p\<lparr>px_log := log\<rparr>, pl_pending := None\<rparr>,
                         order_messages (px_config p) m @ to_followers p commit)))"

section \<open>The followers\<close>

record 'b paxos_follower =
  pf_paxos :: "'b paxos"
  pf_uncommitted :: "'b message_proto list"

definition follower_message ::
  "'b message_proto \<Rightarrow> 'b paxos_follower \<Rightarrow> ('b paxos_follower \<times> 'b message_proto list) outcome" where
  "follower_message m f =
     (let p = pf_paxos f in
      if msg_type m = PAXOS_DATA
      then bindE (rep_get (msg_misc_int m) 0) (\<lambda>v.
             Inr (f\<lparr>pf_uncommitted := pf_uncommitted f @ [m]\<rparr>,
                  [MessageProto_new\<lparr>msg_destination_node := hd (px_participants p), msg_type := PAXOS_DATA_ACK,
                     msg_destination_channel := ''paxos_log_'', msg_misc_int := [v]\<rparr>]))
      else if msg_type m = PAXOS_COMMIT
      then CHECK (pf_uncommitted f \<noteq> [])
             (let append_message = hd (pf_uncommitted f)
              in bindE (rep_get (msg_misc_int append_message) 0) (\<lambda>version.
                 bindE (rep_get (msg_data append_message) 0) (\<lambda>data.
                 bindE (LocalMemLog_Append version data (px_log p)) (\<lambda>log.
                   Inr (f\<lparr>pf_paxos := p\<lparr>px_log := log\<rparr>, pf_uncommitted := tl (pf_uncommitted f)\<rparr>,
                        order_messages (px_config p) append_message)))))
      else Inr (f, []))"

section \<open>The protocol\<close>

text \<open>
  Participant 0 leads and the participants \<open>i\<close> with \<open>1 \<le> i < N\<close> follow. The connection keeps the
  messages of the leader to one follower in order; acks of different followers reach the leader in
  any order. What a machine sends on \<open>scheduler_\<close> is recorded in \<open>pw_orders\<close>, \<open>pw_rounds\<close> counts the
  proposals.
\<close>

record 'b paxos_world =
  pw_leader :: "'b paxos_leader"
  pw_follower :: "nat \<Rightarrow> 'b paxos_follower"
  pw_to_follower :: "nat \<Rightarrow> 'b message_proto list"
  pw_to_leader :: "'b message_proto list"
  pw_orders :: "nat \<Rightarrow> 'b message_proto list"
  pw_rounds :: nat

definition paxos_start :: "(nat \<Rightarrow> cluster_config) \<Rightarrow> 'b paxos_world" where
  "paxos_start cfg =
     \<lparr>pw_leader = \<lparr>pl_paxos = Paxos_new (cfg 0), pl_next_version = 0, pl_pending = None\<rparr>,
      pw_follower = (\<lambda>i. \<lparr>pf_paxos = Paxos_new (cfg i), pf_uncommitted = []\<rparr>),
      pw_to_follower = (\<lambda>_. []), pw_to_leader = [], pw_orders = (\<lambda>_. []), pw_rounds = 0\<rparr>"

text \<open>The delivery of what the leader sends.\<close>

definition delivered :: "uint64 \<Rightarrow> 'b message_proto list \<Rightarrow> 'b message_proto list" where
  "delivered d ms = filter (\<lambda>m. msg_destination_node m = d \<and> msg_destination_channel m = ''paxos_log_'') ms"

definition orders_in :: "'b message_proto list \<Rightarrow> 'b message_proto list" where
  "orders_in ms = filter (\<lambda>m. msg_destination_channel m = ''scheduler_'') ms"

definition deliver :: "'b message_proto list \<Rightarrow> 'b paxos_world \<Rightarrow> 'b paxos_world" where
  "deliver ms w = w
     \<lparr>pw_to_follower := (\<lambda>i. pw_to_follower w i @ delivered (px_participants (pl_paxos (pw_leader w)) ! i) ms),
      pw_orders := (pw_orders w)(0 := pw_orders w 0 @ orders_in ms)\<rparr>"

inductive paxos_step :: "'b codec \<Rightarrow> nat \<Rightarrow> 'b paxos_world \<Rightarrow> 'b paxos_world \<Rightarrow> bool"
  for cd :: "'b codec" and N :: nat where
  step_append:
    "paxos_step cd N w (w\<lparr>pw_leader := (pw_leader w)\<lparr>pl_paxos := Paxos_Append b (pl_paxos (pw_leader w))\<rparr>\<rparr>)"
| step_propose:
    "pl_pending (pw_leader w) = None \<Longrightarrow> px_count (pl_paxos (pw_leader w)) \<noteq> 0 \<Longrightarrow>
     leader_propose cd (pw_leader w) = (l, ms) \<Longrightarrow>
     paxos_step cd N w (deliver ms (w\<lparr>pw_leader := l, pw_rounds := pw_rounds w + 1\<rparr>))"
| step_ack:
    "pl_pending (pw_leader w) = Some (v, e, acks) \<Longrightarrow> acks < quorum (pl_paxos (pw_leader w)) \<Longrightarrow>
     pw_to_leader w = xs @ m # ys \<Longrightarrow> leader_ack m (pw_leader w) = Inr l \<Longrightarrow>
     paxos_step cd N w (w\<lparr>pw_leader := l, pw_to_leader := xs @ ys\<rparr>)"
| step_commit:
    "pl_pending (pw_leader w) = Some (v, e, acks) \<Longrightarrow> \<not> acks < quorum (pl_paxos (pw_leader w)) \<Longrightarrow>
     leader_commit (pw_leader w) = Inr (l, ms) \<Longrightarrow>
     paxos_step cd N w (deliver ms (w\<lparr>pw_leader := l\<rparr>))"
| step_follower:
    "1 \<le> i \<Longrightarrow> i < N \<Longrightarrow> pw_to_follower w i = m # ms \<Longrightarrow> follower_message m (pw_follower w i) = Inr (f, sent) \<Longrightarrow>
     paxos_step cd N w (w\<lparr>pw_follower := (pw_follower w)(i := f), pw_to_follower := (pw_to_follower w)(i := ms),
       pw_to_leader := pw_to_leader w @ filter (\<lambda>m. msg_destination_channel m = ''paxos_log_'') sent,
       pw_orders := (pw_orders w)(i := pw_orders w i @ orders_in sent)\<rparr>)"

definition paxos_reachable :: "'b codec \<Rightarrow> (nat \<Rightarrow> cluster_config) \<Rightarrow> nat \<Rightarrow> 'b paxos_world \<Rightarrow> bool" where
  "paxos_reachable cd cfg N w \<longleftrightarrow> (paxos_step cd N)\<^sup>*\<^sup>* (paxos_start cfg) w"

inductive_simps paxos_step_iff: "paxos_step cd N w w'"

section \<open>The invariant\<close>

text \<open>
  The leader sends one follower, for each proposal \<open>k\<close> with bytes \<open>P k\<close>, the data and then the commit:
  message \<open>j\<close> of this script is about proposal \<open>j div 2\<close>. A follower that has handled \<open>p\<close> messages of the
  script has \<open>p div 2\<close> entries in its log and holds one more if \<open>p\<close> is odd.
\<close>

definition script_at :: "uint64 \<Rightarrow> (nat \<Rightarrow> 'b) \<Rightarrow> nat \<Rightarrow> 'b message_proto" where
  "script_at d P j =
     (let m = (sequence_message (of_nat (j div 2)) (P (j div 2)))
            \<lparr>msg_destination_channel := ''paxos_log_'', msg_destination_node := d\<rparr>
      in if even j then m\<lparr>msg_type := PAXOS_DATA\<rparr> else m\<lparr>msg_type := PAXOS_COMMIT, msg_data := []\<rparr>)"

definition entries_of :: "(nat \<Rightarrow> 'b) \<Rightarrow> nat \<Rightarrow> (uint64 \<times> 'b) list" where
  "entries_of P k = map (\<lambda>j. (of_nat j, P j)) [0..<k]"

definition orders_of :: "cluster_config \<Rightarrow> (nat \<Rightarrow> 'b) \<Rightarrow> nat \<Rightarrow> 'b message_proto list" where
  "orders_of c P k = concat (map (\<lambda>j. order_messages c (sequence_message (of_nat j) (P j))) [0..<k])"

definition committed :: "'b paxos_world \<Rightarrow> nat" where
  "committed w = (if pl_pending (pw_leader w) = None then pw_rounds w else pw_rounds w - 1)"

definition acks_in :: "uint64 \<Rightarrow> 'b message_proto list \<Rightarrow> nat" where
  "acks_in v ms = length (filter (\<lambda>m. msg_misc_int m = [v]) ms)"

definition holders :: "nat \<Rightarrow> (nat \<Rightarrow> nat) \<Rightarrow> nat \<Rightarrow> nat" where
  "holders N p k = 1 + card {i \<in> {1..<N}. 2 * k < p i}"

definition leader_inv :: "(nat \<Rightarrow> cluster_config) \<Rightarrow> nat \<Rightarrow> (nat \<Rightarrow> 'b) \<Rightarrow> (nat \<Rightarrow> nat) \<Rightarrow> 'b paxos_world \<Rightarrow> bool" where
  "leader_inv cfg N P p w \<longleftrightarrow>
     (let l = pw_leader w; n = pw_rounds w in
      px_participants (pl_paxos l) = px_participants (Paxos_new (cfg 0) :: 'b paxos) \<and> px_config (pl_paxos l) = cfg 0
      \<and> pl_next_version l = of_nat n \<and> log_ok (px_log (pl_paxos l))
      \<and> ml_entries (px_log (pl_paxos l)) = entries_of P (committed w)
      \<and> pw_orders w 0 = orders_of (cfg 0) P (committed w)
      \<and> (\<forall>v e acks. pl_pending l = Some (v, e, acks) \<longrightarrow> (\<exists>k. n = Suc k \<and> v = of_nat k \<and> e = P k
           \<and> unat acks + acks_in v (pw_to_leader w) = holders N p k)))"

definition follower_inv ::
  "cluster_config \<Rightarrow> uint64 \<Rightarrow> (nat \<Rightarrow> 'b) \<Rightarrow> nat \<Rightarrow> nat \<Rightarrow> 'b paxos_follower \<Rightarrow> 'b message_proto list \<Rightarrow> 'b message_proto list \<Rightarrow> bool" where
  "follower_inv c d P sent q f channel orders \<longleftrightarrow>
     q \<le> sent \<and> channel = map (script_at d P) [q..<sent] \<and> px_config (pf_paxos f) = c \<and> log_ok (px_log (pf_paxos f))
     \<and> ml_entries (px_log (pf_paxos f)) = entries_of P (q div 2)
     \<and> pf_uncommitted f = (if odd q then [script_at d P (q - 1)] else [])
     \<and> orders = orders_of c P (q div 2)"

definition paxos_inv :: "(nat \<Rightarrow> cluster_config) \<Rightarrow> nat \<Rightarrow> (nat \<Rightarrow> 'b) \<Rightarrow> (nat \<Rightarrow> nat) \<Rightarrow> 'b paxos_world \<Rightarrow> bool" where
  "paxos_inv cfg N P p w \<longleftrightarrow>
     leader_inv cfg N P p w
     \<and> (\<forall>i. 1 \<le> i \<longrightarrow> i < N \<longrightarrow> follower_inv (cfg i) (px_participants (Paxos_new (cfg 0) :: 'b paxos) ! i) P
           (committed w + pw_rounds w) (p i) (pw_follower w i) (pw_to_follower w i) (pw_orders w i))
     \<and> (\<forall>m \<in> set (pw_to_leader w). msg_type m = PAXOS_DATA_ACK
           \<and> (\<exists>k < pw_rounds w. msg_misc_int m = [of_nat k]))
     \<and> (\<forall>k < committed w. N div 2 + 1 \<le> holders N p k)"

lemma paxos_invI:
  assumes "leader_inv cfg N P p (w :: 'b paxos_world)"
    and "\<And>i. 1 \<le> i \<Longrightarrow> i < N \<Longrightarrow> follower_inv (cfg i) (px_participants (Paxos_new (cfg 0) :: 'b paxos) ! i) P
           (committed w + pw_rounds w) (p i) (pw_follower w i) (pw_to_follower w i) (pw_orders w i)"
    and "\<forall>m \<in> set (pw_to_leader w). msg_type m = PAXOS_DATA_ACK \<and> (\<exists>k < pw_rounds w. msg_misc_int m = [of_nat k])"
    and "\<forall>k < committed w. N div 2 + 1 \<le> holders N p k"
  shows "paxos_inv cfg N P p w"
  unfolding paxos_inv_def by (intro conjI allI impI assms)

lemma paxos_invD:
  assumes "paxos_inv cfg N P p (w :: 'b paxos_world)"
  shows "leader_inv cfg N P p w"
    and "1 \<le> i \<Longrightarrow> i < N \<Longrightarrow> follower_inv (cfg i) (px_participants (Paxos_new (cfg 0) :: 'b paxos) ! i) P
           (committed w + pw_rounds w) (p i) (pw_follower w i) (pw_to_follower w i) (pw_orders w i)"
    and "m \<in> set (pw_to_leader w) \<Longrightarrow> msg_type m = PAXOS_DATA_ACK \<and> (\<exists>k < pw_rounds w. msg_misc_int m = [of_nat k])"
    and "k < committed w \<Longrightarrow> N div 2 + 1 \<le> holders N p k"
  using assms unfolding paxos_inv_def by simp_all

lemma leader_invD:
  assumes "leader_inv cfg N P p (w :: 'b paxos_world)"
  shows "px_participants (pl_paxos (pw_leader w)) = px_participants (Paxos_new (cfg 0) :: 'b paxos)"
    "px_config (pl_paxos (pw_leader w)) = cfg 0" "pl_next_version (pw_leader w) = of_nat (pw_rounds w)"
    "log_ok (px_log (pl_paxos (pw_leader w)))"
    "ml_entries (px_log (pl_paxos (pw_leader w))) = entries_of P (committed w)"
    "pw_orders w 0 = orders_of (cfg 0) P (committed w)"
    "pl_pending (pw_leader w) = Some (v, e, acks) \<Longrightarrow> \<exists>k. pw_rounds w = Suc k \<and> v = of_nat k \<and> e = P k
       \<and> unat acks + acks_in v (pw_to_leader w) = holders N p k"
  using assms unfolding leader_inv_def Let_def by simp_all

text \<open>A cluster whose machine numbers fit: the participants are distinct.\<close>

definition paxos_cluster :: "cluster_config \<Rightarrow> nat \<Rightarrow> bool" where
  "paxos_cluster c N \<longleftrightarrow> N = unat (cc_replicas_size c) \<and> 1 \<le> N \<and> nodes_per_replica c \<noteq> 0
     \<and> length (cc_machines c) < 2 ^ 64"

lemma participants_eq:
  assumes "1 \<le> unat (cc_replicas_size c)"
  shows "px_participants (Paxos_new c) = map (\<lambda>i. of_nat i * nodes_per_replica c) [0..<unat (cc_replicas_size c)]"
  using assms by (simp add: Paxos_new_def upt_conv_Cons)

lemma paxos_participants_distinct:
  assumes "paxos_cluster c N"
  shows "distinct (px_participants (Paxos_new c :: 'b paxos))" "length (px_participants (Paxos_new c :: 'b paxos)) = N"
proof -
  let ?n = "nodes_per_replica c"
  have N: "N = unat (cc_replicas_size c)" "1 \<le> N" using assms by (simp_all add: paxos_cluster_def)
  have small: "i * unat ?n < 2 ^ 64" if "i < N" for i
  proof -
    have "i * unat ?n \<le> unat (cc_replicas_size c) * (unat (all_nodes_size c) div unat (cc_replicas_size c))"
      using that N by (simp add: nodes_per_replica_def unat_div_distrib)
    also have "\<dots> \<le> unat (all_nodes_size c)" by (rule times_div_less_eq_dividend)
    finally show ?thesis using unsigned_less [of "all_nodes_size c", where 'a = nat] by simp
  qed
  have unat_eq: "unat (of_nat i * ?n) = i * unat ?n" if "i < N" for i
  proof -
    have "i < 2 ^ 64" using that N(1) unsigned_less [of "cc_replicas_size c", where 'a = nat] by simp
    then have "unat (of_nat i :: uint64) = i" by (simp add: unsigned_of_nat take_bit_nat_eq_self)
    then show ?thesis using small [OF that] by (simp add: unat_word_ariths)
  qed
  have "0 < unat ?n" using assms by (simp add: paxos_cluster_def unat_gt_0)
  then have "inj_on (\<lambda>i. of_nat i * ?n) (set [0..<N])"
    by (intro inj_onI) (metis unat_eq atLeastLessThan_iff mult_right_cancel not_less_zero set_upt)
  then show "distinct (px_participants (Paxos_new c :: 'b paxos))" "length (px_participants (Paxos_new c :: 'b paxos)) = N"
    using N by (simp_all add: participants_eq distinct_map)
qed

lemma delivered_to_followers:
  assumes "distinct (px_participants p)" and "1 \<le> i" and "i < length (px_participants p)"
  shows "delivered (px_participants p ! i) (to_followers p m)
     = (if msg_destination_channel m = ''paxos_log_'' then [m\<lparr>msg_destination_node := px_participants p ! i\<rparr>] else [])"
proof -
  let ?d = "px_participants p ! i"
  have i: "?d = tl (px_participants p) ! (i - 1)" using assms by (simp add: nth_tl)
  then have "?d \<in> set (tl (px_participants p))" using assms by simp
  moreover have "distinct (tl (px_participants p))" using assms(1) by (rule distinct_tl)
  ultimately have "filter (\<lambda>d. d = ?d) (tl (px_participants p)) = [?d]"
    by (intro filter_eq_in_distinct)
  then show ?thesis by (simp add: delivered_def to_followers_def filter_map o_def)
qed

lemma delivered_append [simp]: "delivered d (xs @ ys) = delivered d xs @ delivered d ys"
  by (simp add: delivered_def)

lemma orders_in_append [simp]: "orders_in (xs @ ys) = orders_in xs @ orders_in ys"
  by (simp add: orders_in_def)

lemma order_messages_routing [simp]:
  "delivered d (order_messages c m) = []" "orders_in (order_messages c m) = order_messages c m"
  "filter (\<lambda>m. msg_destination_channel m = ''paxos_log_'') (order_messages c m) = []"
  by (auto simp: delivered_def orders_in_def order_messages_def filter_empty_conv)

lemma to_followers_routing [simp]:
  "msg_destination_channel m = ''paxos_log_'' \<Longrightarrow> orders_in (to_followers p m) = []"
  by (auto simp: orders_in_def to_followers_def filter_empty_conv)

lemma entries_of_Suc [simp]: "entries_of P (Suc k) = entries_of P k @ [(of_nat k, P k)]"
  by (simp add: entries_of_def)

lemma orders_of_Suc [simp]:
  "orders_of c P (Suc k) = orders_of c P k @ order_messages c (sequence_message (of_nat k) (P k))"
  by (simp add: orders_of_def)

lemma entries_of_upd [simp]: "k \<le> n \<Longrightarrow> entries_of (P(n := e)) k = entries_of P k"
  by (simp add: entries_of_def)

lemma orders_of_upd [simp]: "k \<le> n \<Longrightarrow> orders_of c (P(n := e)) k = orders_of c P k"
  by (auto simp: orders_of_def intro!: arg_cong [where f = concat])

lemma script_at_upd [simp]: "j div 2 \<noteq> n \<Longrightarrow> script_at d (P(n := e)) j = script_at d P j"
  by (simp add: script_at_def Let_def)

lemma script_at_fields [simp]:
  "msg_type (script_at d P j) = (if even j then PAXOS_DATA else PAXOS_COMMIT)"
  "msg_misc_int (script_at d P j) = [of_nat (j div 2)]"
  "even j \<Longrightarrow> msg_data (script_at d P j) = [P (j div 2)]"
  "order_messages c (script_at d P (2 * k)) = order_messages c (sequence_message (of_nat k) (P k))"
  by (simp_all add: script_at_def Let_def sequence_message_def MessageProto_new_def order_messages_def)

lemma of_nat_word_eq: "i < 2 ^ 64 \<Longrightarrow> j < 2 ^ 64 \<Longrightarrow> (of_nat i :: uint64) = of_nat j \<longleftrightarrow> i = j"
proof -
  assume ij: "i < 2 ^ 64" "j < 2 ^ 64"
  have "i = j" if "(of_nat i :: uint64) = of_nat j"
  proof -
    from that have "unat (of_nat i :: uint64) = unat (of_nat j :: uint64)" by simp
    with ij show ?thesis by (simp add: unsigned_of_nat take_bit_nat_eq_self)
  qed
  then show "(of_nat i :: uint64) = of_nat j \<longleftrightarrow> i = j" by blast
qed

lemma holders_mono: "\<forall>i. p i \<le> p' i \<Longrightarrow> holders N p k \<le> holders N p' k"
  unfolding holders_def by (intro add_left_mono card_mono) (auto intro: less_le_trans)

lemma holders_le: "1 \<le> N \<Longrightarrow> holders N p k \<le> N"
proof -
  assume "1 \<le> N"
  moreover have "card {i \<in> {1..<N}. 2 * k < p i} \<le> card {1..<N}" by (intro card_mono) auto
  ultimately show ?thesis by (simp add: holders_def)
qed

lemma holders_step:
  assumes "1 \<le> i" and "i < N"
  shows "holders N (p(i := Suc (p i))) k = (if p i = 2 * k then Suc (holders N p k) else holders N p k)"
proof -
  let ?A = "{j \<in> {1..<N}. 2 * k < p j}"
  have "{j \<in> {1..<N}. 2 * k < (p(i := Suc (p i))) j} = (if p i = 2 * k then insert i ?A else ?A)"
    using assms by auto
  then show ?thesis by (auto simp: holders_def)
qed

lemma Append_in_order:
  assumes "log_ok l" and "ml_entries l = entries_of P k" and "k < 2 ^ 64"
  shows "\<exists>l'. LocalMemLog_Append (of_nat k) e l = Inr l'"
proof -
  have "ml_max_version l \<le> of_nat k"
  proof (cases k)
    case (Suc j)
    then have "ml_max_version l = of_nat j" using assms(1,2) by (simp add: log_ok_def versions_def)
    moreover have "(of_nat j :: uint64) \<le> of_nat k"
      using Suc assms(3) by (simp add: word_le_nat_alt unsigned_of_nat take_bit_nat_eq_self del: of_nat_Suc)
    ultimately show ?thesis by simp
  qed (use assms in \<open>simp add: log_ok_def entries_of_def\<close>)
  then show ?thesis using Append_accepts_iff [OF assms(1)] by blast
qed

lemma LocalMemLog_new_entries [simp]: "ml_entries LocalMemLog_new = []"
  by (simp add: LocalMemLog_new_def)

lemma paxos_start_inv: "paxos_inv cfg N P (\<lambda>_. 0) (paxos_start cfg)"
  by (auto simp: paxos_inv_def leader_inv_def follower_inv_def paxos_start_def committed_def entries_of_def
      orders_of_def Paxos_new_def LocalMemLog_new_ok Let_def LocalMemLog_new_entries)

section \<open>The steps keep the invariant\<close>

lemma propose_keeps:
  fixes w :: "'b paxos_world"
  assumes "paxos_cluster (cfg 0) N" and inv: "paxos_inv cfg N P p w" and "Suc (pw_rounds w) < 2 ^ 64"
    and none: "pl_pending (pw_leader w) = None" and pr: "leader_propose cd (pw_leader w) = (l, ms)"
  shows "paxos_inv cfg N (P(pw_rounds w := enc_seq cd (px_sequence (pl_paxos (pw_leader w))))) p
    (deliver ms (w\<lparr>pw_leader := l, pw_rounds := pw_rounds w + 1\<rparr>))"
proof -
  let ?n = "pw_rounds w" and ?e = "enc_seq cd (px_sequence (pl_paxos (pw_leader w)))"
  let ?P = "P(?n := ?e)" and ?w = "deliver ms (w\<lparr>pw_leader := l, pw_rounds := pw_rounds w + 1\<rparr>)"
  let ?ps = "px_participants (Paxos_new (cfg 0) :: 'b paxos)"
  have c: "committed w = ?n" "committed ?w = ?n"
    using none pr by (auto simp: committed_def deliver_def leader_propose_def Let_def)
  note L = paxos_invD(1) [OF inv]
  note nv = leader_invD(3) [OF L] and ps = leader_invD(1) [OF L]
  have ps': "px_participants (pl_paxos l) = ?ps" using pr ps by (auto simp: leader_propose_def Let_def)
  have part: "delivered (?ps ! i) ms = [script_at (?ps ! i) ?P (2 * ?n)]" 
    if "1 \<le> i" "i < N" for i
    using that pr paxos_participants_distinct [OF assms(1), where 'b = 'b] ps
    by (auto simp: leader_propose_def Let_def delivered_to_followers [of "pl_paxos (pw_leader w)", unfolded ps]
        script_at_def nv sequence_message_def MessageProto_new_def)
  have orders: "orders_in ms = []"
    using pr by (auto simp: leader_propose_def Let_def)
  have acks0: "acks_in (of_nat ?n) (pw_to_leader w) = 0"
  proof -
    have "msg_misc_int m \<noteq> [of_nat ?n]" if "m \<in> set (pw_to_leader w)" for m
    proof -
      from inv that obtain k where "k < ?n" "msg_misc_int m = [of_nat k]" by (auto simp: paxos_inv_def)
      with assms(3) show ?thesis by (simp add: of_nat_word_eq)
    qed
    then show ?thesis by (simp add: acks_in_def filter_empty_conv)
  qed
  have F: "follower_inv (cfg i) (?ps ! i) P (?n + ?n) (p i) (pw_follower w i) (pw_to_follower w i) (pw_orders w i)"
    if "1 \<le> i" "i < N" for i using inv that c by (simp add: paxos_inv_def)
  have hold1: "holders N p ?n = 1"
    using F by (auto simp: holders_def follower_inv_def) (metis (no_types, lifting) not_less mult_2)
  have "leader_inv cfg N ?P p ?w"
    unfolding leader_inv_def Let_def c(2) using L c(1) ps' pr acks0 hold1 orders
    by (auto simp: leader_inv_def Let_def deliver_def leader_propose_def)
  moreover have "follower_inv (cfg i) (?ps ! i) ?P (committed ?w + pw_rounds ?w) (p i) (pw_follower ?w i)
      (pw_to_follower ?w i) (pw_orders ?w i)" if "1 \<le> i" "i < N" for i
  proof -
    have "map (script_at (?ps ! i) ?P) [p i..<?n + ?n] = map (script_at (?ps ! i) P) [p i..<?n + ?n]"
      by (intro map_cong refl script_at_upd) auto
    moreover have "script_at (?ps ! i) ?P (p i - 1) = script_at (?ps ! i) P (p i - 1)" if "odd (p i)"
    proof (rule script_at_upd)
      have "p i \<le> ?n + ?n" using F [OF \<open>1 \<le> i\<close> \<open>i < N\<close>] by (simp add: follower_inv_def)
      with that show "(p i - 1) div 2 \<noteq> ?n" by presburger
    qed
    ultimately show ?thesis unfolding c(2) using F [OF that] part [OF that] ps' that
      by (auto simp: follower_inv_def deliver_def mult_2)
  qed
  moreover have "\<forall>k < committed ?w. N div 2 + 1 \<le> holders N p k"
    using inv by (simp only: c) (simp add: paxos_inv_def c)
  moreover have "\<forall>m \<in> set (pw_to_leader ?w). msg_type m = PAXOS_DATA_ACK \<and> (\<exists>k < pw_rounds ?w. msg_misc_int m = [of_nat k])"
    using paxos_invD(3) [OF inv] by (auto simp: deliver_def intro: less_SucI)
  ultimately show ?thesis by (intro paxos_invI)
qed

lemma ack_keeps:
  fixes w :: "'b paxos_world"
  assumes "1 \<le> N" and "N < 2 ^ 63" and inv: "paxos_inv cfg N P p w"
    and pend: "pl_pending (pw_leader w) = Some (v, e, acks)"
    and msgs: "pw_to_leader w = xs @ m # ys" and ack: "leader_ack m (pw_leader w) = Inr l"
  shows "paxos_inv cfg N P p (w\<lparr>pw_leader := l, pw_to_leader := xs @ ys\<rparr>)"
proof -
  let ?w = "w\<lparr>pw_leader := l, pw_to_leader := xs @ ys\<rparr>"
  have "m \<in> set (pw_to_leader w)" using msgs by simp
  with inv obtain k where k: "msg_misc_int m = [of_nat k]" by (auto simp: paxos_inv_def)
  then have l: "l = (pw_leader w)\<lparr>pl_pending := Some (v, e, if of_nat k = v then acks + 1 else acks)\<rparr>"
    using ack pend by (auto simp: leader_ack_def outcome_simps rep_get_def)
  have c: "committed ?w = committed w" using pend l by (simp add: committed_def)
  note L = paxos_invD(1) [OF inv]
  obtain n where n: "pw_rounds w = Suc n" "v = of_nat n" "e = P n"
    and total: "unat acks + acks_in v (pw_to_leader w) = holders N p n"
    using leader_invD(7) [OF L pend] by (elim exE conjE) (rule that)
  have "unat (if of_nat k = v then acks + 1 else acks) + acks_in v (xs @ ys) = holders N p n"
  proof (cases "of_nat k = v")
    case True
    then have "unat acks + 1 \<le> N"
      using total holders_le [OF assms(1), of p n] k by (simp add: acks_in_def msgs)
    then have "unat (acks + 1) = unat acks + 1" using assms(2) by (simp add: unat_word_ariths)
    with True total k show ?thesis by (simp add: acks_in_def msgs)
  next
    case False
    with total k show ?thesis by (simp add: acks_in_def msgs)
  qed
  then have "leader_inv cfg N P p ?w"
    unfolding leader_inv_def Let_def c using leader_invD(1-6) [OF L] n by (simp add: l)
  then show ?thesis using inv msgs unfolding paxos_inv_def c by simp
qed

lemma commit_keeps:
  fixes w :: "'b paxos_world"
  assumes "paxos_cluster (cfg 0) N" and inv: "paxos_inv cfg N P p w" and "N < 2 ^ 63"
    and pend: "pl_pending (pw_leader w) = Some (v, e, acks)" and enough: "\<not> acks < quorum (pl_paxos (pw_leader w))"
    and com: "leader_commit (pw_leader w) = Inr (l, ms)"
  shows "paxos_inv cfg N P p (deliver ms (w\<lparr>pw_leader := l\<rparr>))"
proof -
  let ?w = "deliver ms (w\<lparr>pw_leader := l\<rparr>)" and ?ps = "px_participants (Paxos_new (cfg 0) :: 'b paxos)"
  note L = paxos_invD(1) [OF inv]
  note ps = leader_invD(1) [OF L] and cf = leader_invD(2) [OF L]
  obtain k where k: "pw_rounds w = Suc k" and v: "v = of_nat k" "e = P k"
    and total: "unat acks + acks_in v (pw_to_leader w) = holders N p k"
    using leader_invD(7) [OF L pend] by (elim exE conjE) (rule that)
  let ?commit = "(sequence_message v e)\<lparr>msg_data := [], msg_type := PAXOS_COMMIT, msg_destination_channel := ''paxos_log_''\<rparr>"
  obtain log where log: "LocalMemLog_Append v e (px_log (pl_paxos (pw_leader w))) = Inr log"
    and l: "l = (pw_leader w)\<lparr>pl_paxos := (pl_paxos (pw_leader w))\<lparr>px_log := log\<rparr>, pl_pending := None\<rparr>"
    and ms: "ms = order_messages (cfg 0) (sequence_message v e) @ to_followers (pl_paxos (pw_leader w)) ?commit"
    using com pend enough cf by (auto simp: leader_commit_def outcome_simps Let_def)
  have c: "committed w = k" "committed ?w = Suc k"
    using pend k l by (auto simp: committed_def deliver_def)
  have part: "delivered (?ps ! i) ms = [script_at (?ps ! i) P (Suc (2 * k))]" if "1 \<le> i" "i < N" for i
    using that paxos_participants_distinct [OF assms(1), where 'b = 'b] delivered_to_followers [of "pl_paxos (pw_leader w)" i ?commit]
    by (simp add: ms ps script_at_def Let_def v k sequence_message_def MessageProto_new_def)
  have maj: "N div 2 + 1 \<le> holders N p k"
  proof -
    have "quorum (pl_paxos (pw_leader w)) = of_nat (N div 2 + 1)"
      using paxos_participants_distinct [OF assms(1), where 'b = 'b] by (simp add: quorum_def ps)
    moreover have "unat (of_nat (N div 2 + 1) :: uint64) = N div 2 + 1"
      using assms(3) by (simp add: unsigned_of_nat take_bit_nat_eq_self del: of_nat_Suc of_nat_add)
    ultimately have "N div 2 + 1 \<le> unat acks" using enough by (simp add: word_less_nat_alt)
    also have "\<dots> \<le> holders N p k" using total k by simp
    finally show ?thesis .
  qed
  have "leader_inv cfg N P p ?w"
    unfolding leader_inv_def Let_def c(2)
    using leader_invD(1-6) [OF L] c(1) Append_fields(1) [OF log] Append_ok [OF _ log] k v
    by (simp add: deliver_def l ms)
  moreover have "follower_inv (cfg i) (?ps ! i) P (committed ?w + pw_rounds ?w) (p i) (pw_follower ?w i)
      (pw_to_follower ?w i) (pw_orders ?w i)" if "1 \<le> i" "i < N" for i
  proof -
    have F: "follower_inv (cfg i) (?ps ! i) P (k + pw_rounds w) (p i) (pw_follower w i) (pw_to_follower w i) (pw_orders w i)"
      using paxos_invD(2) [OF inv that] by (simp only: c)
    then show ?thesis unfolding c(2) using part [OF that] that k l ps
      by (auto simp: follower_inv_def deliver_def mult_2)
  qed
  moreover have "\<forall>j < committed ?w. N div 2 + 1 \<le> holders N p j"
    using inv maj by (simp only: c) (simp add: paxos_inv_def c less_Suc_eq)
  moreover have "\<forall>m \<in> set (pw_to_leader ?w). msg_type m = PAXOS_DATA_ACK \<and> (\<exists>k < pw_rounds ?w. msg_misc_int m = [of_nat k])"
    using paxos_invD(3) [OF inv] by (auto simp: deliver_def intro: less_SucI)
  ultimately show ?thesis by (intro paxos_invI)
qed

lemma follower_next:
  assumes "follower_inv c d P s q f (m # ms) orders"
  shows "q < s" "m = script_at d P q" "ms = map (script_at d P) [Suc q..<s]"
proof -
  have *: "m # ms = map (script_at d P) [q..<s]" using assms by (simp add: follower_inv_def)
  then show "q < s" by (cases "q < s") auto
  with * show "m = script_at d P q" "ms = map (script_at d P) [Suc q..<s]" by (simp_all add: upt_conv_Cons)
qed

lemma follower_keeps_inv:
  assumes inv: "follower_inv c d P s q f (m # ms) orders" and step: "follower_message m f = Inr (f', sent)"
  shows "follower_inv c d P s (Suc q) f' ms (orders @ orders_in sent)"
    and "even q \<Longrightarrow> \<exists>a. filter (\<lambda>m. msg_destination_channel m = ''paxos_log_'') sent = [a]
           \<and> msg_type a = PAXOS_DATA_ACK \<and> msg_misc_int a = [of_nat (q div 2)]"
    and "odd q \<Longrightarrow> filter (\<lambda>m. msg_destination_channel m = ''paxos_log_'') sent = []"
proof -
  note nx = follower_next [OF inv]
  have F: "px_config (pf_paxos f) = c" "log_ok (px_log (pf_paxos f))"
    "ml_entries (px_log (pf_paxos f)) = entries_of P (q div 2)"
    "pf_uncommitted f = (if odd q then [script_at d P (q - 1)] else [])" "orders = orders_of c P (q div 2)"
    using inv unfolding follower_inv_def by simp_all
  have "follower_inv c d P s (Suc q) f' ms (orders @ orders_in sent) \<and>
    (even q \<longrightarrow> (\<exists>a. filter (\<lambda>m. msg_destination_channel m = ''paxos_log_'') sent = [a]
           \<and> msg_type a = PAXOS_DATA_ACK \<and> msg_misc_int a = [of_nat (q div 2)])) \<and>
    (odd q \<longrightarrow> filter (\<lambda>m. msg_destination_channel m = ''paxos_log_'') sent = [])"
  proof (cases "even q")
    case True
    then have f': "f' = f\<lparr>pf_uncommitted := [script_at d P q]\<rparr>"
      and sent: "sent = [MessageProto_new\<lparr>msg_destination_node := hd (px_participants (pf_paxos f)),
        msg_type := PAXOS_DATA_ACK, msg_destination_channel := ''paxos_log_'', msg_misc_int := [of_nat (q div 2)]\<rparr>]"
      using step F(4) nx(2) by (simp_all add: follower_message_def Let_def)
    then show ?thesis
      using True F nx(1,3) by (simp add: follower_inv_def orders_in_def)
  next
    case False
    then obtain k where q: "q = Suc (2 * k)" by (auto elim: oddE)
    obtain log where log: "LocalMemLog_Append (of_nat k) (P k) (px_log (pf_paxos f)) = Inr log"
      and f': "f' = f\<lparr>pf_paxos := (pf_paxos f)\<lparr>px_log := log\<rparr>, pf_uncommitted := []\<rparr>"
      and sent: "sent = order_messages c (sequence_message (of_nat k) (P k))"
      using step F(1,4) nx(2) by (auto simp: follower_message_def Let_def outcome_simps q)
    then show ?thesis
      using F nx(1,3) Append_fields(1) [OF log] Append_ok [OF F(2) log] by (simp add: follower_inv_def q)
  qed
  then show "follower_inv c d P s (Suc q) f' ms (orders @ orders_in sent)"
    "even q \<Longrightarrow> \<exists>a. filter (\<lambda>m. msg_destination_channel m = ''paxos_log_'') sent = [a]
           \<and> msg_type a = PAXOS_DATA_ACK \<and> msg_misc_int a = [of_nat (q div 2)]"
    "odd q \<Longrightarrow> filter (\<lambda>m. msg_destination_channel m = ''paxos_log_'') sent = []" by blast+
qed

lemma follower_defined:
  assumes inv: "follower_inv c d P s q f (m # ms) orders" and "q div 2 < 2 ^ 64"
  shows "\<exists>f' sent. follower_message m f = Inr (f', sent)"
proof -
  note nx = follower_next [OF inv]
  have F: "log_ok (px_log (pf_paxos f))" "ml_entries (px_log (pf_paxos f)) = entries_of P (q div 2)"
    "pf_uncommitted f = (if odd q then [script_at d P (q - 1)] else [])"
    using inv unfolding follower_inv_def by simp_all
  show ?thesis
  proof (cases "even q")
    case True
    with nx(2) show ?thesis by (simp add: follower_message_def Let_def)
  next
    case False
    then obtain k where q: "q = Suc (2 * k)" by (auto elim: oddE)
    obtain log where "LocalMemLog_Append (of_nat k) (P k) (px_log (pf_paxos f)) = Inr log"
      using Append_in_order [OF F(1), of P k] F(2) assms(2) q by auto
    with F(3) nx(2) q show ?thesis by (simp add: follower_message_def Let_def)
  qed
qed

lemma follower_step_keeps:
  fixes w :: "'b paxos_world"
  assumes inv: "paxos_inv cfg N P p w" and i: "1 \<le> i" "i < N" and bound: "pw_rounds w < 2 ^ 64"
    and msgs: "pw_to_follower w i = m # ms" and step: "follower_message m (pw_follower w i) = Inr (f, sent)"
  shows "paxos_inv cfg N P (p(i := Suc (p i))) (w\<lparr>pw_follower := (pw_follower w)(i := f),
     pw_to_follower := (pw_to_follower w)(i := ms),
     pw_to_leader := pw_to_leader w @ filter (\<lambda>m. msg_destination_channel m = ''paxos_log_'') sent,
     pw_orders := (pw_orders w)(i := pw_orders w i @ orders_in sent)\<rparr>)"
proof -
  let ?acks = "filter (\<lambda>m. msg_destination_channel m = ''paxos_log_'') sent"
  let ?w = "w\<lparr>pw_follower := (pw_follower w)(i := f), pw_to_follower := (pw_to_follower w)(i := ms),
     pw_to_leader := pw_to_leader w @ ?acks, pw_orders := (pw_orders w)(i := pw_orders w i @ orders_in sent)\<rparr>"
  have c: "committed ?w = committed w" "pw_rounds ?w = pw_rounds w" by (simp_all add: committed_def)
  note F = paxos_invD(2) [OF inv i, unfolded msgs]
  note K = follower_keeps_inv [OF F step] and L = leader_invD [OF paxos_invD(1) [OF inv]]
  have pi: "p i < committed w + pw_rounds w" using follower_next(1) [OF F] .
  have acks: "acks_in (of_nat k) (pw_to_leader w @ ?acks) = acks_in (of_nat k) (pw_to_leader w) + (if p i = 2 * k then 1 else 0)"
    if "k < pw_rounds w" for k
  proof (cases "even (p i)")
    case True
    then obtain a where a: "?acks = [a]" "msg_misc_int a = [of_nat (p i div 2)]" using K(2) by blast
    have "p i div 2 < pw_rounds w" using pi by (simp add: committed_def split: if_splits)
    then have "(of_nat (p i div 2) :: uint64) = of_nat k \<longleftrightarrow> p i = 2 * k"
      using that bound True by (auto simp: of_nat_word_eq simp del: of_nat_div)
    with a show ?thesis by (simp add: acks_in_def)
  next
    case False
    then show ?thesis using K(3) by (auto simp: acks_in_def)
  qed
  have "leader_inv cfg N P (p(i := Suc (p i))) ?w"
    unfolding leader_inv_def Let_def c using L(1-6) i
    by (auto simp: holders_step acks dest!: L(7))
  moreover have "follower_inv (cfg j) (px_participants (Paxos_new (cfg 0) :: 'b paxos) ! j) P
      (committed ?w + pw_rounds ?w) ((p(i := Suc (p i))) j) (pw_follower ?w j) (pw_to_follower ?w j) (pw_orders ?w j)"
    if "1 \<le> j" "j < N" for j
    unfolding c using paxos_invD(2) [OF inv that] K(1) by simp
  moreover have "\<forall>m \<in> set (pw_to_leader ?w). msg_type m = PAXOS_DATA_ACK \<and> (\<exists>k < pw_rounds ?w. msg_misc_int m = [of_nat k])"
  proof -
    have "\<forall>a \<in> set ?acks. msg_type a = PAXOS_DATA_ACK \<and> (\<exists>k < pw_rounds w. msg_misc_int a = [of_nat k])"
    proof (cases "even (p i)")
      case True
      moreover have "p i div 2 < pw_rounds w" using pi by (simp add: committed_def split: if_splits)
      ultimately show ?thesis using K(2) by (metis list.set_cases set_ConsD list.distinct(1) list.set_intros(1) empty_iff list.set(1))
    next
      case False
      then show ?thesis using K(3) by simp
    qed
    then show ?thesis using paxos_invD(3) [OF inv] by auto
  qed
  moreover have "\<forall>k < committed ?w. N div 2 + 1 \<le> holders N (p(i := Suc (p i))) k"
    unfolding c using paxos_invD(4) [OF inv] holders_step [OF i, of p] by (metis le_SucI)
  ultimately show ?thesis by (intro paxos_invI)
qed

lemma append_keeps:
  "paxos_inv cfg N P p w \<Longrightarrow>
     paxos_inv cfg N P p (w\<lparr>pw_leader := (pw_leader w)\<lparr>pl_paxos := Paxos_Append b (pl_paxos (pw_leader w))\<rparr>\<rparr>)"
proof -
  let ?w = "w\<lparr>pw_leader := (pw_leader w)\<lparr>pl_paxos := Paxos_Append b (pl_paxos (pw_leader w))\<rparr>\<rparr>"
  have c: "committed ?w = committed w" by (simp add: committed_def)
  assume "paxos_inv cfg N P p w"
  then show "paxos_inv cfg N P p ?w"
    unfolding paxos_inv_def leader_inv_def Let_def c by (simp add: Paxos_Append_def)
qed

lemma deliver_rounds [simp]: "pw_rounds (deliver ms w) = pw_rounds w"
  by (simp add: deliver_def)

lemma paxos_cluster_bounds: "paxos_cluster c N \<Longrightarrow> 1 \<le> N \<and> N < 2 ^ 63"
  using unsigned_less [of "cc_replicas_size c", where 'a = nat] by (simp add: paxos_cluster_def)

lemma paxos_reachable_inv:
  assumes "paxos_cluster (cfg 0) N" and "paxos_reachable cd cfg N w" and "pw_rounds w < 2 ^ 64"
  shows "\<exists>P p. paxos_inv cfg N P p w"
  using assms(2,3) unfolding paxos_reachable_def
proof (induction rule: rtranclp_induct)
  case base
  show ?case using paxos_start_inv by blast
next
  case (step w w')
  have N: "1 \<le> N" "N < 2 ^ 63" using paxos_cluster_bounds [OF assms(1)] by simp_all
  from step.hyps(2) have "pw_rounds w \<le> pw_rounds w'" by cases simp_all
  with step.prems step.IH obtain P p where inv: "paxos_inv cfg N P p w" and b: "pw_rounds w < 2 ^ 64" by auto
  from step.hyps(2) show ?case
  proof cases
    case step_append
    then show ?thesis using append_keeps [OF inv] by blast
  next
    case (step_propose l ms)
    then show ?thesis using propose_keeps [OF assms(1) inv _ step_propose(2,4)] step.prems by auto
  next
    case (step_ack v e acks xs m ys l)
    then show ?thesis using ack_keeps [OF N inv step_ack(2,4,5)] by blast
  next
    case (step_commit v e acks l ms)
    then show ?thesis using commit_keeps [OF assms(1) inv N(2) step_commit(2,3,4)] by blast
  next
    case (step_follower i m ms f sent)
    then show ?thesis using follower_step_keeps [OF inv step_follower(2,3) b step_follower(4,5)] by blast
  qed
qed

section \<open>What the log guarantees\<close>

definition leader_entries :: "'b paxos_world \<Rightarrow> (uint64 \<times> 'b) list" where
  "leader_entries w = ml_entries (px_log (pl_paxos (pw_leader w)))"

definition follower_entries :: "nat \<Rightarrow> 'b paxos_world \<Rightarrow> (uint64 \<times> 'b) list" where
  "follower_entries i w = ml_entries (px_log (pf_paxos (pw_follower w i)))"

text \<open>What the schedulers of a replica are sent for a list of log entries.\<close>

definition orders_for :: "cluster_config \<Rightarrow> (uint64 \<times> 'b) list \<Rightarrow> 'b message_proto list" where
  "orders_for c es = concat (map (\<lambda>(v, e). order_messages c (sequence_message v e)) es)"

lemma take_entries_of: "j \<le> k \<Longrightarrow> take j (entries_of P k) = entries_of P j"
  by (simp add: entries_of_def take_map)

lemma length_entries_of [simp]: "length (entries_of P k) = k"
  by (simp add: entries_of_def)

lemma orders_for_entries_of: "orders_for c (entries_of P k) = orders_of c P k"
  by (simp add: orders_for_def orders_of_def entries_of_def o_def)

text \<open>
  C11: Agreement. In every reachable state the leader's log holds the versions 0, 1, 2, ... in this
  order, every follower's log is a prefix of it, and on every replica the schedulers have been sent
  exactly the entries of the replica's log, in order.
\<close>

theorem paxos_agreement:
  assumes "paxos_cluster (cfg 0) N" and "paxos_reachable cd cfg N w" and "pw_rounds w < 2 ^ 64"
  shows "map fst (leader_entries w) = map of_nat [0..<length (leader_entries w)]
    \<and> pw_orders w 0 = orders_for (cfg 0) (leader_entries w)
    \<and> (\<forall>i. 1 \<le> i \<longrightarrow> i < N \<longrightarrow>
         follower_entries i w = take (length (follower_entries i w)) (leader_entries w)
         \<and> pw_orders w i = orders_for (cfg i) (follower_entries i w))"
proof -
  obtain P p where inv: "paxos_inv cfg N P p w" using paxos_reachable_inv [OF assms] by blast
  note L = leader_invD [OF paxos_invD(1) [OF inv]]
  have le: "leader_entries w = entries_of P (committed w)" using L(5) by (simp add: leader_entries_def)
  have "follower_entries i w = entries_of P (p i div 2) \<and> pw_orders w i = orders_of (cfg i) P (p i div 2)
      \<and> p i div 2 \<le> committed w" if "1 \<le> i" "i < N" for i
    using paxos_invD(2) [OF inv that] by (auto simp: follower_inv_def follower_entries_def committed_def split: if_splits)
  with L(6) show ?thesis
    by (simp add: le orders_for_entries_of take_entries_of) (simp add: entries_of_def)
qed

text \<open>A participant holds an entry in its log or among the proposals it has acknowledged.\<close>

definition holds_entry :: "uint64 \<times> 'b \<Rightarrow> 'b paxos_follower \<Rightarrow> bool" where
  "holds_entry e f \<longleftrightarrow> e \<in> set (ml_entries (px_log (pf_paxos f)))
     \<or> (\<exists>m \<in> set (pf_uncommitted f). msg_misc_int m = [fst e] \<and> msg_data m = [snd e])"

text \<open>
  Durability. Every entry of the leader's log, and so everything a scheduler is told to execute,
  is held by a majority of the participants, the leader included.
\<close>

theorem paxos_majority_holds:
  assumes "paxos_cluster (cfg 0) N" and "paxos_reachable cd cfg N w" and "pw_rounds w < 2 ^ 64"
    and "e \<in> set (leader_entries w)"
  shows "N < 2 * (1 + card {i \<in> {1..<N}. holds_entry e (pw_follower w i)})"
proof -
  obtain P p where inv: "paxos_inv cfg N P p w" using paxos_reachable_inv [OF assms(1-3)] by blast
  note L = leader_invD [OF paxos_invD(1) [OF inv]]
  obtain k where k: "k < committed w" "e = (of_nat k, P k)"
    using assms(4) L(5) by (auto simp: leader_entries_def entries_of_def)
  have "holds_entry e (pw_follower w i)" if "1 \<le> i" "i < N" "2 * k < p i" for i
  proof -
    note F = paxos_invD(2) [OF inv that(1,2), unfolded follower_inv_def]
    show ?thesis
    proof (cases "k < p i div 2")
      case True
      then show ?thesis using F k by (auto simp: holds_entry_def entries_of_def)
    next
      case False
      then have "p i = Suc (2 * k)" using that(3) by presburger
      then show ?thesis using F k by (simp add: holds_entry_def)
    qed
  qed
  then have "card {i \<in> {1..<N}. 2 * k < p i} \<le> card {i \<in> {1..<N}. holds_entry e (pw_follower w i)}"
    by (intro card_mono) auto
  then have "N div 2 + 1 \<le> 1 + card {i \<in> {1..<N}. holds_entry e (pw_follower w i)}"
    using paxos_invD(4) [OF inv k(1)] unfolding holders_def by (meson add_left_mono le_trans)
  then have "2 * (N div 2 + 1) \<le> 2 * (1 + card {i \<in> {1..<N}. holds_entry e (pw_follower w i)})"
    by (rule mult_le_mono2)
  moreover have "N < 2 * (N div 2 + 1)" by presburger
  ultimately show ?thesis by (rule order.strict_trans2 [rotated])
qed

text \<open>
  C30: No handler fails. In every reachable state the next message of a follower, any ack of the leader
  and the leader's commit are handled without a failed check and without undefined behaviour.
\<close>

theorem paxos_never_fails:
  assumes "paxos_cluster (cfg 0) N" and "paxos_reachable cd cfg N w" and "pw_rounds w < 2 ^ 64"
  shows "(\<forall>i m ms. 1 \<le> i \<and> i < N \<and> pw_to_follower w i = m # ms \<longrightarrow>
         (\<exists>r. follower_message m (pw_follower w i) = Inr r))
    \<and> (\<forall>m \<in> set (pw_to_leader w). \<exists>l. leader_ack m (pw_leader w) = Inr l)
    \<and> (\<exists>r. leader_commit (pw_leader w) = Inr r)"
proof -
  obtain P p where inv: "paxos_inv cfg N P p w" using paxos_reachable_inv [OF assms] by blast
  note L = leader_invD [OF paxos_invD(1) [OF inv]]
  have "\<exists>r. follower_message m (pw_follower w i) = Inr r"
    if "1 \<le> i" "i < N" "pw_to_follower w i = m # ms" for i m ms
  proof -
    note F = paxos_invD(2) [OF inv that(1,2), unfolded that(3)]
    have "p i < committed w + pw_rounds w" using follower_next(1) [OF F] .
    then have "p i div 2 < 2 ^ 64" using assms(3) by (auto simp: committed_def split: if_splits)
    from follower_defined [OF F this] show ?thesis by blast
  qed
  moreover have "\<exists>l. leader_ack m (pw_leader w) = Inr l" if "m \<in> set (pw_to_leader w)" for m
    using paxos_invD(3) [OF inv that] by (auto simp: leader_ack_def split: option.split)
  moreover have "\<exists>r. leader_commit (pw_leader w) = Inr r"
  proof (cases "pl_pending (pw_leader w)")
    case (Some pending)
    obtain v e acks where pend: "pl_pending (pw_leader w) = Some (v, e, acks)" using Some by (cases pending) auto
    obtain k where k: "pw_rounds w = Suc k" "v = of_nat k" "e = P k" using L(7) [OF pend] by blast
    then have "committed w = k" using pend by (simp add: committed_def)
    then obtain log where "LocalMemLog_Append v e (px_log (pl_paxos (pw_leader w))) = Inr log"
      using Append_in_order [OF L(4,5), of e] k assms(3) by auto
    with pend show ?thesis by (simp add: leader_commit_def Let_def)
  qed (simp add: leader_commit_def)
  ultimately show ?thesis by blast
qed

text \<open>
  No deadlock. While a proposal is pending, the leader has a majority of acks or some message is on
  its way: to a follower, or an ack to the leader.
\<close>

theorem paxos_no_deadlock:
  assumes "paxos_cluster (cfg 0) N" and "paxos_reachable cd cfg N w" and "pw_rounds w < 2 ^ 64"
    and "pl_pending (pw_leader w) = Some (v, e, acks)"
  shows "quorum (pl_paxos (pw_leader w)) \<le> acks \<or> pw_to_leader w \<noteq> []
    \<or> (\<exists>i. 1 \<le> i \<and> i < N \<and> pw_to_follower w i \<noteq> [])"
proof (rule ccontr)
  assume stuck: "\<not> ?thesis"
  obtain P p where inv: "paxos_inv cfg N P p w" using paxos_reachable_inv [OF assms(1-3)] by blast
  note L = leader_invD [OF paxos_invD(1) [OF inv]]
  have N: "1 \<le> N" "N < 2 ^ 63" using paxos_cluster_bounds [OF assms(1)] by simp_all
  obtain k where k: "pw_rounds w = Suc k" "unat acks + acks_in v (pw_to_leader w) = holders N p k"
    using L(7) [OF assms(4)] by blast
  have "2 * k < p i" if "1 \<le> i" "i < N" for i
  proof -
    have "committed w + pw_rounds w \<le> p i"
      using paxos_invD(2) [OF inv that] stuck that by (auto simp: follower_inv_def)
    moreover have "committed w = k" using assms(4) k by (simp add: committed_def)
    ultimately show ?thesis using k(1) by simp
  qed
  then have "{i \<in> {1..<N}. 2 * k < p i} = {1..<N}" by auto
  then have "unat acks = N" using k(2) stuck N by (simp add: holders_def acks_in_def)
  moreover have "unat (quorum (pl_paxos (pw_leader w))) = N div 2 + 1"
    using paxos_participants_distinct(2) [OF assms(1), where 'b = 'a] N
    by (simp add: quorum_def L(1) unsigned_of_nat take_bit_nat_eq_self del: of_nat_Suc of_nat_add)
  ultimately have "quorum (pl_paxos (pw_leader w)) \<le> acks" using N by (simp add: word_le_nat_alt)
  with stuck show False by simp
qed

section \<open>An instance\<close>

text \<open>Two replicas: the leader and one follower agree on the sequence \<open>[7]\<close>.\<close>

definition example_cfg :: "nat \<Rightarrow> cluster_config" where
  "example_cfg i = example_config (of_nat i * 2)"

lemma example_paxos_cluster: "paxos_cluster (example_cfg 0) 2"
  by (simp add: paxos_cluster_def example_cfg_def example_config_size)
    (simp add: example_config_def example_entries_def)

lemma example_participants: "px_participants (Paxos_new (example_cfg 0)) = [0, 2]"
proof -
  have "[Suc 0..<2] = [1]" by (simp add: upt_rec)
  then show ?thesis
    by (simp add: Paxos_new_def example_cfg_def example_config_size) (simp add: example_config_def)
qed

text \<open>The world after an append and a proposal.\<close>

definition example_leader :: "payload paxos_leader" where
  "example_leader = \<lparr>pl_paxos = Paxos_Append 7 (Paxos_new (example_cfg 0)), pl_next_version = 0, pl_pending = None\<rparr>"

definition example_proposed :: "payload paxos_world" where
  "example_proposed = deliver (snd (leader_propose payload_codec example_leader))
     ((paxos_start example_cfg)\<lparr>pw_leader := fst (leader_propose payload_codec example_leader), pw_rounds := 1\<rparr>)"

lemma example_proposed_reachable: "paxos_reachable payload_codec example_cfg 2 example_proposed"
proof -
  let ?w1 = "(paxos_start example_cfg)\<lparr>pw_leader := example_leader\<rparr>"
  have "paxos_step payload_codec 2 (paxos_start example_cfg) ?w1"
    using step_append [of payload_codec 2 "paxos_start example_cfg" 7]
    by (simp add: paxos_start_def example_leader_def)
  moreover have "paxos_step payload_codec 2 ?w1 example_proposed"
    using step_propose [of ?w1 payload_codec "fst (leader_propose payload_codec example_leader)"
        "snd (leader_propose payload_codec example_leader)" 2]
    by (simp add: example_proposed_def example_leader_def Paxos_Append_def Paxos_new_def)
      (simp add: paxos_start_def)
  ultimately show ?thesis by (simp add: paxos_reachable_def)
qed

lemma example_proposed_facts:
  "pw_rounds example_proposed = 1" "pl_pending (pw_leader example_proposed) = Some (0, Seq_bytes [7], 1)"
  "pw_to_follower example_proposed 1 \<noteq> []" "quorum (pl_paxos (pw_leader example_proposed)) = 2"
  using example_participants
  by (simp_all add: example_proposed_def deliver_def leader_propose_def example_leader_def Paxos_Append_def
      Let_def paxos_start_def payload_codec_def quorum_def to_followers_def delivered_def Paxos_new_def
      sequence_message_def)

lemma paxos_no_deadlock_witness:
  "quorum (pl_paxos (pw_leader example_proposed)) \<le> 1 \<or> pw_to_leader example_proposed \<noteq> []
    \<or> (\<exists>i. 1 \<le> i \<and> i < 2 \<and> pw_to_follower example_proposed i \<noteq> [])"
  using paxos_no_deadlock [of example_cfg 2 payload_codec example_proposed 0 "Seq_bytes [7]" 1]
    example_paxos_cluster example_proposed_reachable
  by (simp add: example_proposed_facts)

text \<open>The follower acknowledges, the leader counts the ack and commits.\<close>

lemma example_committed:
  "\<exists>w. paxos_reachable payload_codec example_cfg 2 w \<and> pw_rounds w = 1 \<and> leader_entries w = [(0, Seq_bytes [7])]"
proof -
  let ?w = example_proposed
  have inv: "\<exists>P p. paxos_inv example_cfg 2 P p w" if "paxos_reachable payload_codec example_cfg 2 w" "pw_rounds w = 1"
    for w :: "payload paxos_world"
    using paxos_reachable_inv [of example_cfg 2 payload_codec w] example_paxos_cluster that by simp
  obtain m ms where m: "pw_to_follower ?w 1 = m # ms" using example_proposed_facts(3)
    by (cases "pw_to_follower ?w 1") auto
  obtain P p where I: "paxos_inv example_cfg 2 P p ?w"
    using inv [OF example_proposed_reachable example_proposed_facts(1)] by blast
  note L = leader_invD [OF paxos_invD(1) [OF I]] 
    and F = paxos_invD(2) [OF I order.refl one_less_numeral_iff [THEN iffD2, OF semiring_norm(76) [THEN iffD2, OF TrueI]], unfolded m]
  have c: "committed ?w = 0" by (simp add: committed_def example_proposed_facts)
  have p: "p 1 = 0" using follower_next(1) [OF F] c example_proposed_facts(1) by simp
  obtain f sent where s: "follower_message m (pw_follower ?w 1) = Inr (f, sent)"
    using follower_defined [OF F] p by auto
  let ?w2 = "?w\<lparr>pw_follower := (pw_follower ?w)(1 := f), pw_to_follower := (pw_to_follower ?w)(1 := ms),
     pw_to_leader := pw_to_leader ?w @ filter (\<lambda>m. msg_destination_channel m = ''paxos_log_'') sent,
     pw_orders := (pw_orders ?w)(1 := pw_orders ?w 1 @ orders_in sent)\<rparr>"
  have r2: "paxos_reachable payload_codec example_cfg 2 ?w2"
    using example_proposed_reachable step_follower [OF _ _ m s, of 2 payload_codec]
    unfolding paxos_reachable_def by (simp add: rtranclp.rtrancl_into_rtrancl)
  obtain a where a: "filter (\<lambda>m. msg_destination_channel m = ''paxos_log_'') sent = [a]"
    "msg_type a = PAXOS_DATA_ACK" "msg_misc_int a = [0]"
    using follower_keeps_inv(2) [OF F s] p by auto
  let ?l3 = "(pw_leader ?w)\<lparr>pl_pending := Some (0, Seq_bytes [7], 2)\<rparr>"
  let ?w3 = "?w2\<lparr>pw_leader := ?l3, pw_to_leader := pw_to_leader ?w\<rparr>"
  have "leader_ack a (pw_leader ?w2) = Inr ?l3"
    using a by (simp add: leader_ack_def example_proposed_facts)
  then have r3: "paxos_reachable payload_codec example_cfg 2 ?w3"
    using r2 step_ack [of ?w2 0 "Seq_bytes [7]" 1 "pw_to_leader ?w" a "[]" ?l3 payload_codec 2] a(1)
    unfolding paxos_reachable_def by (simp add: example_proposed_facts rtranclp.rtrancl_into_rtrancl)
  obtain log where log: "LocalMemLog_Append 0 (Seq_bytes [7]) (px_log (pl_paxos (pw_leader ?w))) = Inr log"
    using Append_in_order [OF L(4), of P 0] L(5) c by auto
  then obtain l4 sent4 where l4: "leader_commit ?l3 = Inr (l4, sent4)"
    "ml_entries (px_log (pl_paxos l4)) = [(0, Seq_bytes [7])]"
    using Append_fields(1) [OF log] L(5) c
    by (auto simp: leader_commit_def Let_def example_proposed_facts entries_of_def)
  have "paxos_reachable payload_codec example_cfg 2 (deliver sent4 (?w3\<lparr>pw_leader := l4\<rparr>))"
    using r3 step_commit [of ?w3 0 "Seq_bytes [7]" 2 l4 sent4 payload_codec 2] l4(1)
    unfolding paxos_reachable_def by (simp add: example_proposed_facts rtranclp.rtrancl_into_rtrancl)
  then show ?thesis using l4(2)
    by (intro exI [of _ "deliver sent4 (?w3\<lparr>pw_leader := l4\<rparr>)"])
      (simp add: leader_entries_def deliver_def example_proposed_facts)
qed

lemma paxos_agreement_witness:
  "\<exists>w :: payload paxos_world. leader_entries w = [(0, Seq_bytes [7])]
     \<and> pw_orders w 0 = orders_for (example_cfg 0) [(0, Seq_bytes [7])]"
proof -
  obtain w :: "payload paxos_world" where "paxos_reachable payload_codec example_cfg 2 w" "pw_rounds w = 1"
    "leader_entries w = [(0, Seq_bytes [7])]" using example_committed by blast
  then show ?thesis using paxos_agreement [of example_cfg 2 payload_codec w] example_paxos_cluster by auto
qed

lemma paxos_majority_holds_witness:
  "\<exists>w :: payload paxos_world. 2 < 2 * (1 + card {i \<in> {1..<2}. holds_entry (0, Seq_bytes [7]) (pw_follower w i)})"
proof -
  obtain w :: "payload paxos_world" where "paxos_reachable payload_codec example_cfg 2 w" "pw_rounds w = 1"
    "leader_entries w = [(0, Seq_bytes [7])]" using example_committed by blast
  then show ?thesis
    using paxos_majority_holds [of example_cfg 2 payload_codec w "(0, Seq_bytes [7])"] example_paxos_cluster by auto
qed

lemma paxos_never_fails_witness:
  "\<exists>r. leader_commit (pw_leader example_proposed) = Inr r"
  using paxos_never_fails [of example_cfg 2 payload_codec example_proposed] example_paxos_cluster
    example_proposed_reachable example_proposed_facts(1) by simp

end
