(* ===== verification/Sequencer.thy ===== *)
theory Sequencer
  imports Paxos
begin

text \<open>
  \<open>machine/sequencer.{h,cc}\<close>, the sequencer of the original mode. The writer collects the transactions of
  its clients into batches; the reader gives each transaction the set of machines that read and write
  it, passes the parts of a batch to the schedulers of its replica, votes for the batch, and on machine 0
  counts the votes and submits a batch to the Paxos log when a majority of the replicas has it. The
  virtual \<open>Client::GetTxn\<close> is a parameter here; the clients are modelled in theory Clients.
\<close>

section \<open>The writer\<close>

definition SAMPLES :: uint64 where "SAMPLES = 180"
definition SAMPLE_RATE :: uint64 where "SAMPLE_RATE = 199"

text \<open>
  One round of the inner loop, for the value of \<open>latency_counter\<close> in that round. The state is the batch
  message, the offset and the client. \<open>GetTxn\<close> takes an \<open>int\<close>, so the 64-bit id is cut to 32 bits.
\<close>

definition collect_txn ::
  "'b codec \<Rightarrow> (int32 \<Rightarrow> 'c \<Rightarrow> txn_proto \<times> 'c) \<Rightarrow> cluster_config \<Rightarrow> uint32 \<Rightarrow> uint64 \<Rightarrow> uint64
    \<Rightarrow> 'b message_proto \<times> uint32 \<times> 'c \<Rightarrow> 'b message_proto \<times> uint32 \<times> 'c" where
  "collect_txn cd GetTxn c max_batch_size batch_number latency_counter st =
     (case st of (msg, offset, client) \<Rightarrow>
       if (of_nat (length (msg_data msg)) :: uint32) < max_batch_size
       then let (txn0, client') = GetTxn (ucast (batch_number * ucast max_batch_size + ucast offset)) client;
                txn1 = txn0\<lparr>tx_origin_replica := cc_local_replica c,
                            tx_involved_replicas := tx_involved_replicas txn0 @ [cc_local_replica c]\<rparr>;
                txn = (if tx_txn_id txn1 mod SAMPLE_RATE = 0 \<and> latency_counter < SAMPLES
                       then txn1\<lparr>tx_generated_machine := cc_local_node_id c\<rparr> else txn1)
            in (msg\<lparr>msg_data := msg_data msg @ [enc_txn cd txn]\<rparr>, offset + 1, client')
       else st)"

text \<open>An epoch; \<open>ticks\<close> has one value of \<open>latency_counter\<close> for every round before the time is over.\<close>

definition RunWriter_epoch ::
  "'b codec \<Rightarrow> (int32 \<Rightarrow> 'c \<Rightarrow> txn_proto \<times> 'c) \<Rightarrow> uint32 \<Rightarrow> uint64 list \<Rightarrow> cluster_config \<times> 'c
    \<Rightarrow> (cluster_config \<times> 'c) \<times> 'b message_proto list" where
  "RunWriter_epoch cd GetTxn max_batch_size ticks st =
     (let (batch_number, c) = GetGUID (fst st);
          msg0 = MessageProto_new\<lparr>msg_destination_channel := ''sequencer_'', msg_type := TXN_BATCH,
                   msg_batch_number := batch_number\<rparr>;
          (msg, offset, client) =
            fold (collect_txn cd GetTxn c max_batch_size batch_number) ticks (msg0, 0, snd st)
      in ((c, client),
          map (\<lambda>i. msg\<lparr>msg_destination_node := LookupMachineID c (HashBatchID c batch_number) (of_nat i)\<rparr>)
            [0..<unat (cc_replicas_size c)]))"

section \<open>The reader\<close>

record 'b sequencer =
  sq_config :: cluster_config
  sq_batches :: "(uint64, 'b message_proto) omap"
  sq_batch_votes :: "uint64 \<rightharpoonup> uint32"
  sq_paxos_log :: "'b paxos"

definition new_subbatch :: "cluster_config \<Rightarrow> uint64 \<Rightarrow> 'b message_proto" where
  "new_subbatch c i = MessageProto_new\<lparr>msg_destination_channel := ''scheduler_'',
     msg_destination_node := LookupMachineID c i (ucast (cc_local_replica c)), msg_type := TXN_SUBBATCH\<rparr>"

definition Sequencer_new :: "cluster_config \<Rightarrow> 'b paxos \<Rightarrow> 'b sequencer" where
  "Sequencer_new c paxos =
     \<lparr>sq_config = c,
      sq_batches = fold (\<lambda>i. om_insert (of_nat i) (new_subbatch c (of_nat i))) [0..<unat (nodes_per_replica c)] [],
      sq_batch_votes = Map.empty, sq_paxos_log = paxos\<rparr>"

text \<open>The readers and writers of a transaction, and the machines that get it.\<close>

definition mark_txn :: "cluster_config \<Rightarrow> txn_proto \<Rightarrow> txn_proto \<times> uint64 list" where
  "mark_txn c txn =
     (let readers0 = participants (LookupPartition c) (map ke_key (tx_read_set txn)) [];
          writers = participants (LookupPartition c) (map ke_key (tx_read_write_set txn)) [];
          readers = participants (LookupPartition c) (map ke_key (tx_read_write_set txn)) readers0
      in (txn\<lparr>tx_readers := tx_readers txn @ readers, tx_writers := tx_writers txn @ writers\<rparr>,
          fold os_insert writers readers))"

text \<open>\<open>batches[*it].add_data(txn_data)\<close>; \<open>operator[]\<close> makes an empty message for a new key.\<close>

definition add_to_batch ::
  "'b \<Rightarrow> uint64 \<Rightarrow> (uint64, 'b message_proto) omap \<Rightarrow> (uint64, 'b message_proto) omap" where
  "add_to_batch d n bs =
     (let m = get_or MessageProto_new (map_of bs n) in om_insert n (m\<lparr>msg_data := msg_data m @ [d]\<rparr>) bs)"

definition forward_txn ::
  "'b codec \<Rightarrow> cluster_config \<Rightarrow> 'b \<Rightarrow> (uint64, 'b message_proto) omap \<Rightarrow> (uint64, 'b message_proto) omap" where
  "forward_txn cd c d bs =
     (let (txn, machines) = mark_txn c (dec_txn cd d) in fold (add_to_batch (enc_txn cd txn)) machines bs)"

definition flush_batches ::
  "uint64 \<Rightarrow> (uint64, 'b message_proto) omap \<Rightarrow> (uint64, 'b message_proto) omap \<times> 'b message_proto list" where
  "flush_batches batch_number bs =
     (let numbered = map (\<lambda>(n, m). (n, m\<lparr>msg_batch_number := batch_number\<rparr>)) bs
      in (map (\<lambda>(n, m). (n, m\<lparr>msg_data := []\<rparr>)) numbered, map snd numbered))"

definition handle_txn_batch ::
  "'b codec \<Rightarrow> 'b message_proto \<Rightarrow> 'b sequencer \<Rightarrow> 'b sequencer \<times> 'b message_proto list" where
  "handle_txn_batch cd m s =
     (let (bs, sent) = flush_batches (msg_batch_number m)
            (fold (forward_txn cd (sq_config s)) (msg_data m) (sq_batches s));
          vote = MessageProto_new\<lparr>msg_destination_channel := ''sequencer_'', msg_destination_node := 0,
                   msg_type := BATCH_VOTE, msg_misc_int := [msg_batch_number m]\<rparr>
      in (s\<lparr>sq_batches := bs\<rparr>, sent @ [vote]))"

definition handle_vote :: "uint64 \<Rightarrow> 'b sequencer \<Rightarrow> 'b sequencer" where
  "handle_vote batch_id s =
     (let votes = (case sq_batch_votes s batch_id of None \<Rightarrow> 1 | Some v \<Rightarrow> v + 1);
          s1 = s\<lparr>sq_batch_votes := (sq_batch_votes s)(batch_id \<mapsto> votes)\<rparr>;
          s2 = (if votes = cc_replicas_size (sq_config s)
                then s1\<lparr>sq_batch_votes := (sq_batch_votes s1)(batch_id := None)\<rparr> else s1)
      in if votes = cc_replicas_size (sq_config s) div 2 + 1
         then s2\<lparr>sq_paxos_log := Paxos_Append batch_id (sq_paxos_log s2)\<rparr> else s2)"

definition RunReader_message ::
  "'b codec \<Rightarrow> 'b message_proto \<Rightarrow> 'b sequencer \<Rightarrow> ('b sequencer \<times> 'b message_proto list) outcome" where
  "RunReader_message cd m s =
     (if msg_type m = TXN_BATCH then Inr (handle_txn_batch cd m s)
      else if msg_type m = BATCH_VOTE
      then bindE (rep_get (msg_misc_int m) 0) (\<lambda>b. Inr (handle_vote b s, []))
      else Inr (s, []))"

section \<open>Votes\<close>

text \<open>What has been submitted since, and the table: the votes so far, none once all replicas have voted.\<close>

definition votes_inv :: "'b sequencer \<Rightarrow> uint64 list \<Rightarrow> 'b sequencer \<Rightarrow> bool" where
  "votes_inv s0 bs s \<longleftrightarrow> sq_config s = sq_config s0
     \<and> (\<exists>new. px_sequence (sq_paxos_log s) = px_sequence (sq_paxos_log s0) @ new
          \<and> px_count (sq_paxos_log s) = px_count (sq_paxos_log s0) + of_nat (length new)
          \<and> (\<forall>b. count_list new b = (if unat (cc_replicas_size (sq_config s0)) div 2 < count_list bs b then 1 else 0)))
     \<and> (\<forall>b. sq_batch_votes s b = (if count_list bs b = 0 \<or> count_list bs b = unat (cc_replicas_size (sq_config s0))
          then None else Some (of_nat (count_list bs b))))"

lemma handle_vote_inv:
  assumes "votes_inv s0 bs s" and "count_list bs b < unat (cc_replicas_size (sq_config s0))"
  shows "votes_inv s0 (bs @ [b]) (handle_vote b s)"
proof -
  let ?R = "cc_replicas_size (sq_config s0)" and ?k = "count_list bs b"
  from assms(1) obtain new where c: "sq_config s = sq_config s0"
    and new: "px_sequence (sq_paxos_log s) = px_sequence (sq_paxos_log s0) @ new"
      "px_count (sq_paxos_log s) = px_count (sq_paxos_log s0) + of_nat (length new)"
      "\<And>b. count_list new b = (if unat ?R div 2 < count_list bs b then 1 else 0)"
    and votes: "\<And>b. sq_batch_votes s b = (if count_list bs b = 0 \<or> count_list bs b = unat ?R
          then None else Some (of_nat (count_list bs b)))"
    unfolding votes_inv_def by (elim conjE exE) (rule that; blast)
  have k: "?k < 2 ^ 32" using assms(2) unsigned_less [of ?R, where 'a = nat] by simp
  define v where "v = (of_nat (Suc ?k) :: uint32)"
  have v: "(case sq_batch_votes s b of None \<Rightarrow> 1 | Some v \<Rightarrow> v + 1) = v"
    using votes [of b] assms(2) by (auto simp: v_def)
  have Sk: "Suc ?k < 2 ^ 32" using assms(2) unsigned_less [of ?R, where 'a = nat] by simp
  have uv: "unat v = Suc ?k"
    unfolding v_def using Sk by (simp add: unsigned_of_nat take_bit_nat_eq_self del: of_nat_Suc)
  have all: "v = ?R \<longleftrightarrow> Suc ?k = unat ?R" by (simp add: word_unat_eq_iff uv)
  have "unat (?R div 2 + 1) = unat ?R div 2 + 1"
  proof -
    have "unat ?R div 2 + 1 < 2 ^ 32" using unsigned_less [of ?R, where 'a = nat] by simp
    then show ?thesis by (simp add: unat_word_ariths unat_div_distrib)
  qed
  then have maj: "v = ?R div 2 + 1 \<longleftrightarrow> ?k = unat ?R div 2" by (simp add: word_unat_eq_iff uv)
  have table: "sq_batch_votes (handle_vote b s) = (sq_batch_votes s)(b := if Suc ?k = unat ?R then None else Some v)"
    by (simp add: handle_vote_def Let_def v c flip: all)
  have paxos: "sq_paxos_log (handle_vote b s)
      = (if ?k = unat ?R div 2 then Paxos_Append b (sq_paxos_log s) else sq_paxos_log s)"
    "sq_config (handle_vote b s) = sq_config s0"
    by (simp_all add: handle_vote_def Let_def v c all maj)
  let ?new = "new @ (if ?k = unat ?R div 2 then [b] else [])"
  have "px_sequence (sq_paxos_log (handle_vote b s)) = px_sequence (sq_paxos_log s0) @ ?new"
    "px_count (sq_paxos_log (handle_vote b s)) = px_count (sq_paxos_log s0) + of_nat (length ?new)"
    by (simp_all add: paxos new Paxos_Append_def)
  moreover have "count_list ?new x = (if unat ?R div 2 < count_list (bs @ [b]) x then 1 else 0)" for x
    using new(3) [of x] new(3) [of b] by (auto simp: count_list_append)
  ultimately show ?thesis
    unfolding votes_inv_def using paxos(2) table votes assms(2) v_def
    by (intro conjI exI [of _ ?new]) (auto simp: count_list_append)
qed

text \<open>
  C15: When no replica's vote for a batch is counted twice (at most \<open>replicas_size\<close> votes for
  it arrive), then for every order of arrival the votes submit to the Paxos log exactly the batches that
  have a majority, each exactly once, and leave nothing in the table for a batch every replica has voted
  for.
\<close>

theorem votes_submit_once:
  assumes "\<forall>b. count_list votes b \<le> unat (cc_replicas_size (sq_config s))" and "sq_batch_votes s = Map.empty"
  shows "\<exists>new. px_sequence (sq_paxos_log (fold handle_vote votes s)) = px_sequence (sq_paxos_log s) @ new
    \<and> (\<forall>b. count_list new b = (if unat (cc_replicas_size (sq_config s)) div 2 < count_list votes b then 1 else 0))
    \<and> (\<forall>b. count_list votes b = unat (cc_replicas_size (sq_config s)) \<longrightarrow>
          sq_batch_votes (fold handle_vote votes s) b = None)"
proof -
  have "votes_inv s votes (fold handle_vote votes s)"
    using assms(1)
  proof (induction votes rule: rev_induct)
    case Nil
    then show ?case using assms(2) by (simp add: votes_inv_def)
  next
    case (snoc b votes)
    from snoc.prems have "count_list votes b < unat (cc_replicas_size (sq_config s))"
      by (auto simp: count_list_append dest: spec [of _ b])
    moreover have "count_list votes x \<le> unat (cc_replicas_size (sq_config s))" for x
      using spec [OF snoc.prems, of x] by (simp add: count_list_append split: if_splits)
    ultimately show ?case using handle_vote_inv [OF snoc.IH] by simp
  qed
  then show ?thesis unfolding votes_inv_def by (elim conjE exE) (rule exI, auto)
qed

section \<open>Distribution of a batch\<close>

lemma om_eq:
  assumes "om_ok m" and "om_ok m'" and "map_of m = map_of m'"
  shows "m = m'"
proof -
  have "set (om_keys m) = set (om_keys m')"
    using assms(3) by (metis om_lookup_None Set.set_eqI)
  then have keys: "om_keys m = om_keys m'"
    using assms(1,2) unfolding om_ok_def by (metis strict_sorted_equal)
  have "x = map (\<lambda>k. (k, the (map_of x k))) (om_keys x)" if "om_ok x" for x :: "('a \<times> 'b) list"
  proof (intro nth_equalityI)
    fix i assume "i < length x"
    then have "map_of x (fst (x ! i)) = Some (snd (x ! i))"
      using om_ok_distinct [OF that] by (intro map_of_is_SomeI) (simp_all add: om_keys_def)
    with \<open>i < length x\<close> show "x ! i = map (\<lambda>k. (k, the (map_of x k))) (om_keys x) ! i"
      by (simp add: om_keys_def prod_eq_iff)
  qed (simp add: om_keys_def)
  from this [OF assms(1)] this [OF assms(2)] show ?thesis using keys assms(3) by metis
qed

definition table :: "(uint64 \<Rightarrow> 'v) \<Rightarrow> nat \<Rightarrow> (uint64, 'v) omap" where
  "table f n = map (\<lambda>i. (of_nat i, f (of_nat i))) [0..<n]"

lemma table_ok: "n \<le> 2 ^ 64 \<Longrightarrow> om_ok (table f n)"
  unfolding om_ok_def om_keys_def table_def
  by (simp add: sorted_wrt_map o_def)
    (auto simp: sorted_wrt_iff_nth_less word_less_nat_alt unsigned_of_nat take_bit_nat_eq_self)

lemma table_lookup: "n \<le> 2 ^ 64 \<Longrightarrow> map_of (table f n) k = (if unat k < n then Some (f k) else None)"
proof (induction n)
  case (Suc n)
  have "unat (of_nat n :: uint64) = n" using Suc.prems by (simp add: unsigned_of_nat take_bit_nat_eq_self)
  then show ?case using Suc by (auto simp: table_def map_add_def less_Suc_eq word_unat_eq_iff)
qed (simp add: table_def)

lemma table_update:
  "n \<le> 2 ^ 64 \<Longrightarrow> unat k < n \<Longrightarrow> om_insert k v (table f n) = table (f(k := v)) n"
  by (intro om_eq) (auto simp: table_ok table_lookup fun_eq_iff)

text \<open>The messages for the schedulers, with data \<open>D i\<close> for machine \<open>i\<close>.\<close>

definition subbatches :: "cluster_config \<Rightarrow> uint64 \<Rightarrow> (uint64 \<Rightarrow> 'b list) \<Rightarrow> (uint64, 'b message_proto) omap" where
  "subbatches c bn D = table (\<lambda>i. (new_subbatch c i)\<lparr>msg_batch_number := bn, msg_data := D i\<rparr>) (unat (nodes_per_replica c))"

lemma unat_le_64: "unat (x :: uint64) \<le> 2 ^ 64"
  using unsigned_less [of x, where 'a = nat] by simp

lemma add_to_batch_subbatches:
  assumes "n < nodes_per_replica c"
  shows "add_to_batch d n (subbatches c bn D) = subbatches c bn (D(n := D n @ [d]))"
proof -
  have n: "unat n < unat (nodes_per_replica c)" using assms by (simp add: word_less_nat_alt)
  show ?thesis
    unfolding add_to_batch_def subbatches_def Let_def
    by (simp add: table_lookup [OF unat_le_64] n table_update [OF unat_le_64] get_or_def)
      (auto intro!: arg_cong [where f = "\<lambda>f. table f _"])
qed

lemma fold_add_to_batch:
  assumes "\<forall>n \<in> set ns. n < nodes_per_replica c" and "distinct ns"
  shows "fold (add_to_batch d) ns (subbatches c bn D)
    = subbatches c bn (\<lambda>i. D i @ (if i \<in> set ns then [d] else []))"
  using assms
proof (induction ns arbitrary: D)
  case (Cons n ns)
  then show ?case
    by (simp add: add_to_batch_subbatches) (auto intro!: arg_cong [where f = "subbatches c bn"])
qed simp

text \<open>The machines of a transaction: the partitions of its keys.\<close>

definition txn_machines :: "cluster_config \<Rightarrow> txn_proto \<Rightarrow> uint64 set" where
  "txn_machines c txn = LookupPartition c ` ke_key ` (set (tx_read_set txn) \<union> set (tx_read_write_set txn))"

lemma fold_os_insert_absorb:
  "sorted ys \<Longrightarrow> distinct ys \<Longrightarrow> set xs \<subseteq> set ys \<Longrightarrow> fold os_insert xs ys = ys"
  by (induction xs) (auto simp: os_insert_def insort_insert_key_def)

lemma mark_txn_facts:
  "set (snd (mark_txn c txn)) = txn_machines c txn" "distinct (snd (mark_txn c txn))"
  "tx_readers (fst (mark_txn c txn)) = tx_readers txn @ snd (mark_txn c txn)"
  "tx_writers (fst (mark_txn c txn))
     = tx_writers txn @ participants (LookupPartition c) (map ke_key (tx_read_write_set txn)) []"
  "fst (mark_txn c txn) = txn\<lparr>tx_readers := tx_readers (fst (mark_txn c txn)), tx_writers := tx_writers (fst (mark_txn c txn))\<rparr>"
proof -
  let ?ws = "participants (LookupPartition c) (map ke_key (tx_read_write_set txn)) []"
  let ?rs = "participants (LookupPartition c) (map ke_key (tx_read_write_set txn))
     (participants (LookupPartition c) (map ke_key (tx_read_set txn)) [])"
  have "fold os_insert ?ws ?rs = ?rs"
    by (intro fold_os_insert_absorb cp.participants_sorted cp.participants_distinct)
      (auto simp: cp.participants_set)
  then have m: "mark_txn c txn = (txn\<lparr>tx_readers := tx_readers txn @ ?rs, tx_writers := tx_writers txn @ ?ws\<rparr>, ?rs)"
    by (simp add: mark_txn_def Let_def)
  show "set (snd (mark_txn c txn)) = txn_machines c txn" "distinct (snd (mark_txn c txn))"
    "tx_readers (fst (mark_txn c txn)) = tx_readers txn @ snd (mark_txn c txn)"
    "tx_writers (fst (mark_txn c txn)) = tx_writers txn @ ?ws"
    "fst (mark_txn c txn) = txn\<lparr>tx_readers := tx_readers (fst (mark_txn c txn)), tx_writers := tx_writers (fst (mark_txn c txn))\<rparr>"
    unfolding m by (auto simp: cp.participants_set txn_machines_def intro!: cp.participants_distinct)
qed

lemma fold_forward_txn:
  assumes "config_ok c"
  shows "fold (forward_txn cd c) ds (subbatches c bn D) = subbatches c bn (\<lambda>i. D i @
     map (\<lambda>d. enc_txn cd (fst (mark_txn c (dec_txn cd d)))) (filter (\<lambda>d. i \<in> txn_machines c (dec_txn cd d)) ds))"
proof (induction ds arbitrary: D)
  case (Cons d ds)
  have bound: "\<forall>n \<in> set (snd (mark_txn c (dec_txn cd d))). n < nodes_per_replica c"
    using LookupPartition_bound [OF assms] by (auto simp: mark_txn_facts(1) txn_machines_def)
  have "forward_txn cd c d (subbatches c bn D) = subbatches c bn
      (\<lambda>i. D i @ (if i \<in> txn_machines c (dec_txn cd d) then [enc_txn cd (fst (mark_txn c (dec_txn cd d)))] else []))"
    unfolding forward_txn_def case_prod_unfold Let_def fold_add_to_batch [OF bound mark_txn_facts(2)] mark_txn_facts(1) ..
  then show ?case using Cons.IH by (simp, intro arg_cong [where f = "subbatches c bn"]) auto
qed simp

lemma flush_subbatches:
  "flush_batches bn (subbatches c bn0 D) = (subbatches c bn (\<lambda>_. []), map snd (subbatches c bn D))"
  by (simp add: flush_batches_def subbatches_def table_def)

lemma fold_insert_table:
  "n \<le> 2 ^ 64 \<Longrightarrow> fold (\<lambda>i. om_insert (of_nat i :: uint64) (f (of_nat i))) [0..<n] [] = table f n"
proof (induction n)
  case (Suc n)
  have n: "unat (of_nat n :: uint64) = n" using Suc.prems by (simp add: unsigned_of_nat take_bit_nat_eq_self)
  have "map_of (table f (Suc n)) = (map_of (table f n))(of_nat n \<mapsto> f (of_nat n))"
    using Suc.prems n by (auto simp: table_lookup fun_eq_iff less_Suc_eq word_unat_eq_iff)
  then have "om_insert (of_nat n) (f (of_nat n)) (table f n) = table f (Suc n)"
    using Suc.prems by (intro om_eq) (auto simp: table_ok)
  then show ?case using Suc by simp
qed (simp add: table_def)

lemma Sequencer_new_batches: "sq_batches (Sequencer_new c (paxos :: 'b paxos)) = subbatches c 0 (\<lambda>_. [])"
proof -
  have "(new_subbatch c i :: 'b message_proto)\<lparr>msg_batch_number := 0, msg_data := []\<rparr> = new_subbatch c i" for i
    by (simp add: new_subbatch_def MessageProto_new_def)
  then show ?thesis by (simp add: Sequencer_new_def subbatches_def fold_insert_table [OF unat_le_64])
qed

text \<open>The sub-batch of a batch for machine \<open>i\<close>, and what the reader sends for a batch after others.\<close>

definition sub_batch :: "'b codec \<Rightarrow> cluster_config \<Rightarrow> uint64 \<Rightarrow> 'b message_proto \<Rightarrow> 'b message_proto" where
  "sub_batch cd c i m = (new_subbatch c i)\<lparr>msg_batch_number := msg_batch_number m,
     msg_data := map (\<lambda>d. enc_txn cd (fst (mark_txn c (dec_txn cd d)))) (filter (\<lambda>d. i \<in> txn_machines c (dec_txn cd d)) (msg_data m))\<rparr>"

definition reader_after :: "'b codec \<Rightarrow> 'b message_proto list \<Rightarrow> 'b sequencer \<Rightarrow> 'b sequencer outcome" where
  "reader_after cd ms = foldE (\<lambda>m s. bindE (RunReader_message cd m s) (\<lambda>(s', _). Inr s')) ms"

lemma handle_txn_batch_sent:
  assumes "config_ok c" "sq_batches s = subbatches c bn (\<lambda>_. [])" "sq_config s = c"
  shows "sq_batches (fst (handle_txn_batch cd m s)) = subbatches c (msg_batch_number m) (\<lambda>_. [])"
    and "sq_config (fst (handle_txn_batch cd m s)) = c"
    and "snd (handle_txn_batch cd m s) = map (\<lambda>i. sub_batch cd c (of_nat i) m) [0..<unat (nodes_per_replica c)]
      @ [MessageProto_new\<lparr>msg_destination_channel := ''sequencer_'', msg_destination_node := 0,
            msg_type := BATCH_VOTE, msg_misc_int := [msg_batch_number m]\<rparr>]"
  using assms
  by (simp_all add: handle_txn_batch_def Let_def case_prod_unfold fold_forward_txn [OF assms(1)] flush_subbatches)
    (simp add: subbatches_def table_def sub_batch_def)

lemma reader_after_batches:
  "config_ok c \<Longrightarrow> \<forall>m \<in> set ms. msg_type m = TXN_BATCH \<Longrightarrow> sq_batches s0 = subbatches c bn (\<lambda>_. []) \<Longrightarrow> sq_config s0 = c \<Longrightarrow>
    \<exists>s bn. reader_after cd ms s0 = Inr s \<and> sq_batches s = subbatches c bn (\<lambda>_. []) \<and> sq_config s = c"
proof (induction ms arbitrary: s0 bn)
  case (Cons m ms)
  from Cons.IH [OF Cons.prems(1) _ handle_txn_batch_sent(1,2) [OF Cons.prems(1,3,4)]] Cons.prems(2) show ?case
    by (auto simp: reader_after_def RunReader_message_def case_prod_unfold)
qed (auto simp: reader_after_def)

lemma reader_sends:
  assumes "config_ok c" and "\<forall>m \<in> set (before @ [m]). msg_type m = TXN_BATCH"
  shows "\<exists>s s'. reader_after cd before (Sequencer_new c paxos) = Inr s
    \<and> RunReader_message cd m s = Inr (s', map (\<lambda>i. sub_batch cd c (of_nat i) m) [0..<unat (nodes_per_replica c)]
       @ [MessageProto_new\<lparr>msg_destination_channel := ''sequencer_'', msg_destination_node := 0,
            msg_type := BATCH_VOTE, msg_misc_int := [msg_batch_number m]\<rparr>])"
proof -
  have "\<forall>m \<in> set before. msg_type m = TXN_BATCH" "sq_config (Sequencer_new c paxos) = c"
    using assms(2) by (simp_all add: Sequencer_new_def)
  from reader_after_batches [OF assms(1) this(1) Sequencer_new_batches this(2)] obtain s bn where
    s: "reader_after cd before (Sequencer_new c paxos) = Inr s" "sq_batches s = subbatches c bn (\<lambda>_. [])" "sq_config s = c" by blast
  with handle_txn_batch_sent(3) [OF assms(1) s(2,3), of cd m] assms(2) show ?thesis
    by (intro exI [of _ s] exI [of _ "fst (handle_txn_batch cd m s)"]) (simp add: RunReader_message_def prod_eq_iff)
qed

text \<open>What the marks are meant to be: the partitions of the keys, in ascending order.\<close>

definition partition_list :: "cluster_config \<Rightarrow> key_entry set \<Rightarrow> uint64 list" where
  "partition_list c kes = sorted_list_of_set (LookupPartition c ` ke_key ` kes)"

lemma partition_list_set [simp]: "finite kes \<Longrightarrow> set (partition_list c kes) = LookupPartition c ` ke_key ` kes"
  by (simp add: partition_list_def)

lemma partition_listI:
  "sorted ps \<Longrightarrow> distinct ps \<Longrightarrow> set ps = LookupPartition c ` ke_key ` kes \<Longrightarrow> ps = partition_list c kes"
  unfolding partition_list_def by (metis sorted_list_of_set.idem_if_sorted_distinct)

definition marked :: "cluster_config \<Rightarrow> (key_entry \<Rightarrow> bool) \<Rightarrow> txn_proto \<Rightarrow> txn_proto" where
  "marked c counts txn = txn
     \<lparr>tx_readers := tx_readers txn @ partition_list c {ke \<in> set (tx_read_set txn) \<union> set (tx_read_write_set txn). counts ke},
      tx_writers := tx_writers txn @ partition_list c {ke \<in> set (tx_read_write_set txn). counts ke}\<rparr>"

lemma all_marked: "marked c (\<lambda>_. True) txn = txn
   \<lparr>tx_readers := tx_readers txn @ partition_list c (set (tx_read_set txn) \<union> set (tx_read_write_set txn)),
    tx_writers := tx_writers txn @ partition_list c (set (tx_read_write_set txn))\<rparr>"
  unfolding marked_def simp_thms Collect_mem_eq ..

lemma mark_txn_marked: "fst (mark_txn c txn) = marked c (\<lambda>_. True) txn"
proof -
  let ?ws = "participants (LookupPartition c) (map ke_key (tx_read_write_set txn)) []"
  let ?rs = "participants (LookupPartition c) (map ke_key (tx_read_write_set txn))
     (participants (LookupPartition c) (map ke_key (tx_read_set txn)) [])"
  have "?ws = partition_list c {ke \<in> set (tx_read_write_set txn). True}"
    by (rule partition_listI) (auto simp: cp.participants_set intro!: cp.participants_sorted cp.participants_distinct)
  moreover have "?rs = partition_list c {ke \<in> set (tx_read_set txn) \<union> set (tx_read_write_set txn). True}"
    by (rule partition_listI) (auto simp: cp.participants_set intro!: cp.participants_sorted cp.participants_distinct)
  ultimately show ?thesis by (simp add: mark_txn_def marked_def Let_def)
qed

text \<open>
  C17: After any batches before it, a batch is distributed so that every machine \<open>i\<close> of the
  replica is sent exactly one sub-batch, to its scheduler, with the batch's number; its transactions are
  those of the batch that have a key on machine \<open>i\<close>, in batch order and each once, with the
  partitions of all its keys, sorted, added to the readers and those of the keys it writes added to the
  writers; the last message is the vote for the batch, to the sequencer of machine 0.
\<close>

theorem reader_distributes_batch:
  assumes "config_ok c" and "\<forall>m \<in> set (before @ [m]). msg_type m = TXN_BATCH"
  shows "\<exists>s sent s'. foldE (\<lambda>m s. bindE (RunReader_message cd m s) (\<lambda>(s', _). Inr s')) before (Sequencer_new c paxos) = Inr s
    \<and> RunReader_message cd m s = Inr (s', sent)
    \<and> sent = map (\<lambda>i. MessageProto_new\<lparr>msg_type := TXN_SUBBATCH, msg_destination_channel := ''scheduler_'',
          msg_destination_node := LookupMachineID c (of_nat i) (ucast (cc_local_replica c)), msg_batch_number := msg_batch_number m,
          msg_data := map (\<lambda>d. let txn = dec_txn cd d in enc_txn cd (txn
              \<lparr>tx_readers := tx_readers txn @ partition_list c (set (tx_read_set txn) \<union> set (tx_read_write_set txn)),
               tx_writers := tx_writers txn @ partition_list c (set (tx_read_write_set txn))\<rparr>))
            (filter (\<lambda>d. \<exists>ke \<in> set (tx_read_set (dec_txn cd d)) \<union> set (tx_read_write_set (dec_txn cd d)).
               LookupPartition c (ke_key ke) = of_nat i) (msg_data m))\<rparr>)
         [0..<unat (nodes_per_replica c)]
       @ [MessageProto_new\<lparr>msg_type := BATCH_VOTE, msg_destination_channel := ''sequencer_'', msg_destination_node := 0,
            msg_misc_int := [msg_batch_number m]\<rparr>]"
proof -
  have machines: "i \<in> txn_machines c t \<longleftrightarrow> (\<exists>ke \<in> set (tx_read_set t) \<union> set (tx_read_write_set t). LookupPartition c (ke_key ke) = i)" for i t
    by (auto simp: txn_machines_def)
  have "sub_batch cd c i m = MessageProto_new\<lparr>msg_type := TXN_SUBBATCH, msg_destination_channel := ''scheduler_'',
          msg_destination_node := LookupMachineID c i (ucast (cc_local_replica c)), msg_batch_number := msg_batch_number m,
          msg_data := map (\<lambda>d. let txn = dec_txn cd d in enc_txn cd (txn
              \<lparr>tx_readers := tx_readers txn @ partition_list c (set (tx_read_set txn) \<union> set (tx_read_write_set txn)),
               tx_writers := tx_writers txn @ partition_list c (set (tx_read_write_set txn))\<rparr>))
            (filter (\<lambda>d. \<exists>ke \<in> set (tx_read_set (dec_txn cd d)) \<union> set (tx_read_write_set (dec_txn cd d)).
               LookupPartition c (ke_key ke) = i) (msg_data m))\<rparr>" for i
    by (simp add: sub_batch_def new_subbatch_def mark_txn_marked all_marked machines Let_def MessageProto_new_def)
  with reader_sends [OF assms, of cd paxos] show ?thesis
    unfolding reader_after_def by (simp add: MessageProto_new_def)
qed

section \<open>Batches and identifiers of the writer\<close>

lemma collect_txn_length:
  assumes "\<And>n cl. tx_txn_id (fst (GetTxn n cl)) = scast n"
    and "fold (collect_txn cd GetTxn c mx bn) ticks (msg, offset, client) = (msg', offset', client')"
    and "length (msg_data msg) = unat offset" and "unat offset \<le> unat mx" and "codec_ok cd"
    and "map (\<lambda>d. tx_txn_id (dec_txn cd d)) (msg_data msg)
           = map (\<lambda>i. scast (ucast (bn * ucast mx + of_nat i) :: int32)) [0..<unat offset]"
  shows "length (msg_data msg') = unat offset' \<and> unat offset' \<le> unat mx
    \<and> map (\<lambda>d. tx_txn_id (dec_txn cd d)) (msg_data msg')
        = map (\<lambda>i. scast (ucast (bn * ucast mx + of_nat i) :: int32)) [0..<unat offset']
    \<and> msg' = msg\<lparr>msg_data := msg_data msg'\<rparr>"
  using assms(2-4,6)
proof (induction ticks arbitrary: msg offset client)
  case (Cons lc ticks)
  have len: "unat (of_nat (length (msg_data msg)) :: uint32) = unat offset" by (simp add: Cons.prems(2))
  show ?case
  proof (cases "offset < mx")
    case False
    then have "\<not> (of_nat (length (msg_data msg)) :: uint32) < mx" using len by (simp add: word_less_nat_alt)
    then show ?thesis using Cons by (simp add: collect_txn_def)
  next
    case True
    obtain txn0 client1 where g: "GetTxn (ucast (bn * ucast mx + ucast offset)) client = (txn0, client1)"
      by (cases "GetTxn (ucast (bn * ucast mx + ucast offset)) client")
    have "(of_nat (length (msg_data msg)) :: uint32) < mx" using True len by (simp add: word_less_nat_alt)
    then obtain d where step: "collect_txn cd GetTxn c mx bn lc (msg, offset, client)
        = (msg\<lparr>msg_data := msg_data msg @ [enc_txn cd d]\<rparr>, offset + 1, client1)" "tx_txn_id d = tx_txn_id txn0"
      by (simp add: collect_txn_def g Let_def)
    have off: "unat (offset + 1) = Suc (unat offset)"
      using True unsigned_less [of mx, where 'a = nat] by (subst unat_add_small) (simp_all add: word_less_nat_alt)
    have id: "tx_txn_id txn0 = scast (ucast (bn * ucast mx + of_nat (unat offset)) :: int32)"
      using assms(1) [of "ucast (bn * ucast mx + ucast offset)" client] g by simp
    let ?msg = "msg\<lparr>msg_data := msg_data msg @ [enc_txn cd d]\<rparr>"
    have "length (msg_data msg') = unat offset' \<and> unat offset' \<le> unat mx
      \<and> map (\<lambda>d. tx_txn_id (dec_txn cd d)) (msg_data msg')
          = map (\<lambda>i. scast (ucast (bn * ucast mx + of_nat i) :: int32)) [0..<unat offset']
      \<and> msg' = ?msg\<lparr>msg_data := msg_data msg'\<rparr>"
    proof (rule Cons.IH)
      show "unat (offset + 1) \<le> unat mx" using True off by (simp add: word_less_nat_alt)
    qed (use Cons.prems step off id assms(5) in simp_all)
    then show ?thesis by simp
  qed
qed simp

text \<open>
  C33: For clients that give a transaction the id they are asked for, an epoch sends every replica the
  same batch, to the machine its number hashes to: at most \<open>max_batch_size\<close> transactions, all
  with the local replica as origin and numbered \<open>batch_number * max_batch_size + i\<close>, as long
  as these numbers fit into a non-negative \<open>int\<close>.
\<close>

theorem RunWriter_epoch_correct:
  assumes "codec_ok cd" and "\<And>n cl. tx_txn_id (fst (GetTxn n cl)) = scast n"
    and "RunWriter_epoch cd GetTxn mx ticks (c, client) = ((c', client'), sent)"
    and "unat (fst (GetGUID c)) * unat mx + unat mx < 2 ^ 31"
  shows "\<exists>msg n. sent = map (\<lambda>i. msg\<lparr>msg_destination_node :=
        LookupMachineID c' (HashBatchID c' (fst (GetGUID c))) (of_nat i)\<rparr>) [0..<unat (cc_replicas_size c')]
    \<and> msg_type msg = TXN_BATCH \<and> msg_batch_number msg = fst (GetGUID c)
    \<and> length (msg_data msg) = n \<and> n \<le> unat mx
    \<and> map (\<lambda>d. unat (tx_txn_id (dec_txn cd d))) (msg_data msg) = map (\<lambda>i. unat (fst (GetGUID c)) * unat mx + i) [0..<n]
    \<and> distinct (map (\<lambda>d. tx_txn_id (dec_txn cd d)) (msg_data msg))"
proof -
  let ?bn = "fst (GetGUID c)"
  let ?msg0 = "MessageProto_new\<lparr>msg_destination_channel := ''sequencer_'', msg_type := TXN_BATCH, msg_batch_number := ?bn\<rparr>"
  obtain msg offset client1 where F: "fold (collect_txn cd GetTxn c' mx ?bn) ticks (?msg0, 0, client) = (msg, offset, client1)"
    by (cases "fold (collect_txn cd GetTxn c' mx ?bn) ticks (?msg0, 0, client)")
  have c': "snd (GetGUID c) = c'" and sent: "sent = map (\<lambda>i. msg\<lparr>msg_destination_node :=
        LookupMachineID c' (HashBatchID c' ?bn) (of_nat i)\<rparr>) [0..<unat (cc_replicas_size c')]"
    using assms(3) F by (auto simp: RunWriter_epoch_def Let_def case_prod_unfold)
  have L: "length (msg_data msg) = unat offset \<and> unat offset \<le> unat mx
    \<and> map (\<lambda>d. tx_txn_id (dec_txn cd d)) (msg_data msg)
        = map (\<lambda>i. scast (ucast (?bn * ucast mx + of_nat i) :: int32)) [0..<unat offset]
    \<and> msg = ?msg0\<lparr>msg_data := msg_data msg\<rparr>"
    by (rule collect_txn_length [OF assms(2) F]) (simp_all add: MessageProto_new_def assms(1))
  have id: "unat (scast (ucast (?bn * ucast mx + of_nat i) :: int32) :: uint64) = unat ?bn * unat mx + i"
    if "i < unat offset" for i
  proof -
    have small: "unat ?bn * unat mx + i < 2 ^ 31" using assms(4) L that by linarith
    have "unat (of_nat i :: uint64) = i" using small by (simp add: unsigned_of_nat take_bit_nat_eq_self)
    then have u: "unat (?bn * ucast mx + of_nat i) = unat ?bn * unat mx + i"
      using small by (subst unat_mult_add_small) simp_all
    then have v: "unat (ucast (?bn * ucast mx + of_nat i) :: int32) = unat ?bn * unat mx + i"
      using small by (simp add: unsigned_ucast_eq take_bit_nat_eq_self)
    have "scast (ucast (?bn * ucast mx + of_nat i) :: int32) = (ucast (ucast (?bn * ucast mx + of_nat i) :: int32) :: uint64)"
      using small by (intro scast_small) (simp only: v)
    then show ?thesis using v by simp
  qed
  have ids: "map (\<lambda>d. unat (tx_txn_id (dec_txn cd d))) (msg_data msg) = map (\<lambda>i. unat ?bn * unat mx + i) [0..<unat offset]"
  proof -
    have "map unat (map (\<lambda>d. tx_txn_id (dec_txn cd d)) (msg_data msg)) = map (\<lambda>i. unat ?bn * unat mx + i) [0..<unat offset]"
      using L id by (simp add: o_def)
    then show ?thesis by (simp add: o_def)
  qed
  have "distinct (map unat (map (\<lambda>d. tx_txn_id (dec_txn cd d)) (msg_data msg)))"
    using ids by (simp add: o_def distinct_map inj_on_def)
  then have "distinct (map (\<lambda>d. tx_txn_id (dec_txn cd d)) (msg_data msg))" by (simp only: distinct_map)
  moreover have "msg_type msg = TXN_BATCH" "msg_batch_number msg = ?bn"
    using arg_cong [OF conjunct2 [OF conjunct2 [OF conjunct2 [OF L]]], of msg_type]
      arg_cong [OF conjunct2 [OF conjunct2 [OF conjunct2 [OF L]]], of msg_batch_number] by simp_all
  ultimately show ?thesis using sent ids L by (intro exI [of _ msg] exI [of _ "unat offset"]) simp
qed

section \<open>Instances\<close>

lemma votes_submit_once_witness:
  "\<exists>new. px_sequence (sq_paxos_log (fold handle_vote [5, 7, 7, 5] (Sequencer_new (example_config 0) (Paxos_new (example_config 0) :: payload paxos))))
      = new \<and> count_list new 5 = 1 \<and> count_list new 7 = 1 \<and> count_list new 8 = 0"
proof -
  let ?s = "Sequencer_new (example_config 0) (Paxos_new (example_config 0) :: payload paxos)"
  have R: "unat (cc_replicas_size (sq_config ?s)) = 2" by (simp add: Sequencer_new_def example_config_def)
  have start: "px_sequence (sq_paxos_log ?s) = []" "sq_batch_votes ?s = Map.empty"
    by (simp_all add: Sequencer_new_def Paxos_new_def)
  have few: "\<forall>b :: uint64. count_list [5, 7, 7, 5] b \<le> unat (cc_replicas_size (sq_config ?s))" by (simp add: R)
  obtain new where "px_sequence (sq_paxos_log (fold handle_vote [5, 7, 7, 5] ?s)) = px_sequence (sq_paxos_log ?s) @ new"
    and new: "\<forall>b. count_list new b = (if unat (cc_replicas_size (sq_config ?s)) div 2 < count_list [5, 7, 7, 5] b then 1 else 0)"
    using votes_submit_once [OF few start(2)] by blast
  moreover have "count_list new 5 = 1" "count_list new 7 = 1" "count_list new 8 = 0"
    using spec [OF new, of 5] spec [OF new, of 7] spec [OF new, of 8] by (simp_all add: R)
  ultimately show ?thesis using start(1) by (intro exI [of _ new]) (simp only: append_Nil simp_thms)
qed

lemma reader_distributes_batch_witness:
  "\<exists>s s' sent. RunReader_message payload_codec (MessageProto_new\<lparr>msg_type := TXN_BATCH,
        msg_data := [Txn_bytes (TxnProto_new\<lparr>tx_read_set := [\<lparr>ke_key = ''1'', ke_master = 0, ke_counter = 0\<rparr>]\<rparr>)]\<rparr>) s = Inr (s', sent)
      \<and> length sent = 3"
  using reader_distributes_batch [OF example_config_ok [of 0], of "[]" "MessageProto_new\<lparr>msg_type := TXN_BATCH,
        msg_data := [Txn_bytes (TxnProto_new\<lparr>tx_read_set := [\<lparr>ke_key = ''1'', ke_master = 0, ke_counter = 0\<rparr>]\<rparr>)]\<rparr>" payload_codec]
  by (fastforce simp: example_config_size)

definition example_client :: "int32 \<Rightarrow> nat \<Rightarrow> txn_proto \<times> nat" where
  "example_client n k = (TxnProto_new\<lparr>tx_txn_id := scast n\<rparr>, Suc k)"

lemma RunWriter_epoch_correct_witness:
  "\<exists>c' client' sent msg. RunWriter_epoch payload_codec example_client 2 [0, 0, 200] (example_config 0, 0) = ((c', client'), sent)
    \<and> msg_type msg = TXN_BATCH \<and> length (msg_data (msg :: payload message_proto)) \<le> 2"
proof -
  obtain c' client' sent where R: "RunWriter_epoch payload_codec example_client 2 [0, 0, 200] (example_config 0, 0) = ((c', client'), sent)"
    by (metis surj_pair)
  have "unat (fst (GetGUID (example_config 0))) * unat (2 :: uint32) + unat (2 :: uint32) < 2 ^ 31"
    by (simp add: GetGUID_def example_config_size) (simp add: example_config_def)
  moreover have "tx_txn_id (fst (example_client n cl)) = scast n" for n cl
    by (simp add: example_client_def TxnProto_new_def)
  ultimately obtain msg n where "msg_type msg = TXN_BATCH" "length (msg_data (msg :: payload message_proto)) = n" "n \<le> unat (2 :: uint32)"
    using RunWriter_epoch_correct [of payload_codec example_client, OF payload_codec_ok _ R] by auto
  with R show ?thesis by (intro exI [of _ c'] exI [of _ client'] exI [of _ sent] exI [of _ msg]) simp
qed

end
