(* ===== verification/Agreed_Order.thy ===== *)
theory Agreed_Order
  imports Worker Sequencer
begin

text \<open>
  Why the replicas agree: outside the remaster mode a machine admits the transactions of the agreed
  batches one by one in their order, whatever the other threads do, and finishes each of them after all
  earlier ones that it conflicts with.
\<close>

section \<open>The log\<close>

text \<open>The transactions of the agreed batches, one after the other; \<open>data\<close> has the sub-batches for this machine.\<close>

definition txn_log :: "'b codec \<Rightarrow> (uint64 \<Rightarrow> 'b message_proto) \<Rightarrow> uint64 list \<Rightarrow> txn_proto list" where
  "txn_log cd data bs = concat (map (\<lambda>b. map (dec_txn cd) (msg_data (data b))) bs)"

lemma txn_log_simps [simp]:
  "txn_log cd data [] = []"
  "txn_log cd data (b # bs) = map (dec_txn cd) (msg_data (data b)) @ txn_log cd data bs"
  "txn_log cd data (as @ bs) = txn_log cd data as @ txn_log cd data bs"
  by (simp_all add: txn_log_def)

lemma txn_log_split:
  assumes "k < length bs"
  shows "txn_log cd data bs = txn_log cd data (take k bs) @ map (dec_txn cd) (msg_data (data (bs ! k))) @ txn_log cd data (drop (Suc k) bs)"
  using arg_cong [OF id_take_nth_drop [OF assms], of "txn_log cd data"] by simp

lemma txn_log_take: "length (txn_log cd data (take k bs)) \<le> length (txn_log cd data bs)"
proof -
  have "txn_log cd data bs = txn_log cd data (take k bs) @ txn_log cd data (drop k bs)"
    using txn_log_simps(3) [of cd data "take k bs" "drop k bs"] by simp
  then show ?thesis by simp
qed

text \<open>Where the thread is in the log: \<open>n\<close> batches were taken from \<open>GetBatch\<close>, the last one perhaps only in part.\<close>

definition batch_position ::
  "'b codec \<Rightarrow> (uint64 \<Rightarrow> 'b message_proto) \<Rightarrow> uint64 list \<Rightarrow> nat \<Rightarrow> 'b lm_thread \<Rightarrow> bool" where
  "batch_position cd data bs n s \<longleftrightarrow>
     (case ls_batch s of
        None \<Rightarrow> ls_batch_offset s = 0 \<and> n \<le> length bs \<and> ls_next s = length (txn_log cd data (take n bs))
      | Some b \<Rightarrow> \<exists>k < length bs. n = Suc k \<and> b = data (bs ! k) \<and> ls_batch_offset s \<le> length (msg_data b)
          \<and> ls_next s = length (txn_log cd data (take k bs)) + ls_batch_offset s)"

text \<open>Apart from the status, which a worker sets, a transaction in memory is the one in the log.\<close>

definition committed :: "txn_proto \<Rightarrow> txn_proto" where
  "committed txn = txn\<lparr>tx_status := COMMITTED\<rparr>"

definition from_log :: "txn_proto list \<Rightarrow> 'b lm_thread \<Rightarrow> bool" where
  "from_log log s \<longleftrightarrow> ls_next s \<le> length log
     \<and> (\<forall>t < ls_next s. committed (ls_heap s t) = committed (log ! t))"

definition follows ::
  "'b codec \<Rightarrow> sequence list \<Rightarrow> (uint64 \<Rightarrow> 'b message_proto) \<Rightarrow> 'b lm_thread \<Rightarrow> bool" where
  "follows cd seqs data s \<longleftrightarrow>
     from_log (txn_log cd data (concat seqs)) s
     \<and> (\<exists>n. received_ok cd seqs data (ls_get s) \<and> position_ok seqs n (ls_get s) \<and> batch_position cd data (concat seqs) n s)"

lemma follows_new: "follows cd seqs data (DeterministicScheduler_new c m st recs)"
  unfolding follows_def from_log_def batch_position_def
  by (auto simp: DeterministicScheduler_new_def batch_state_new_ok intro!: exI [of _ 0])

text \<open>Only the position matters, and of the transactions not the status.\<close>

definition same_position :: "'b lm_thread \<Rightarrow> 'b lm_thread \<Rightarrow> bool" where
  "same_position s s' \<longleftrightarrow> ls_get s' = ls_get s \<and> ls_batch s' = ls_batch s \<and> ls_batch_offset s' = ls_batch_offset s
     \<and> ls_next s' = ls_next s \<and> (\<forall>t. committed (ls_heap s' t) = committed (ls_heap s t))"

lemma follows_same: "follows cd seqs data s \<Longrightarrow> same_position s s' \<Longrightarrow> follows cd seqs data s'"
proof -
  assume "follows cd seqs data s" "same_position s s'"
  moreover from this have "batch_position cd data bs n s' = batch_position cd data bs n s" for bs n
    by (simp add: same_position_def batch_position_def split: option.split)
  ultimately show ?thesis by (simp add: follows_def same_position_def from_log_def)
qed

section \<open>The lock manager thread follows the log\<close>

lemma Release_config: "Release t txn lm = Inr lm' \<Longrightarrow> dlm_mode lm' = dlm_mode lm \<and> dlm_config lm' = dlm_config lm"
proof -
  let ?P = "\<lambda>u. dlm_mode u = dlm_mode lm \<and> dlm_config u = dlm_config lm"
  have step: "?P v" if "?P u" "Release_entry t txn e u = Inr v" for e u v
    using that Release_key_config by (fastforce simp: Release_entry_def split: if_splits)
  assume "Release t txn lm = Inr lm'"
  then obtain lm1 where 1: "foldE (Release_entry t txn) (tx_read_set txn) lm = Inr lm1"
    and 2: "foldE (Release_entry t txn) (tx_read_write_set txn) lm1 = Inr lm'"
    by (auto simp: Release_def outcome_simps)
  from foldE_invariant [OF 1, of ?P] step have "?P lm1" by blast
  with foldE_invariant [OF 2, of ?P] step show "?P lm'" by blast
qed

lemma handle_done_position:
  assumes "dlm_mode (ls_lm s) \<noteq> 2" "handle_done rnd t s = Inr s'"
  shows "same_position s s' \<and> dlm_mode (ls_lm s') = dlm_mode (ls_lm s)"
proof -
  from assms obtain s1 where 1: "done_release t s = Inr s1"
    and "\<exists>s2. done_count rnd t (s1\<lparr>ls_executing := ls_executing s1 - 1\<rparr>) = Inr s2 \<and> s' = s2\<lparr>ls_freed := ls_freed s2 @ [t]\<rparr>"
    by (auto simp: handle_done_def done_remaster_def outcome_simps)
  then obtain r n where s': "s' = s1\<lparr>ls_executing := ls_executing s1 - 1, ls_rand := r, ls_txns := n, ls_freed := ls_freed s1 @ [t]\<rparr>"
    using done_count_counters by fastforce
  have "same_position s s1 \<and> dlm_mode (ls_lm s1) = dlm_mode (ls_lm s)"
    using 1 Release_config by (auto simp: done_release_def same_position_def outcome_simps split: if_splits)
  then show ?thesis by (simp add: s' same_position_def)
qed

lemma same_position_trans: "same_position s s1 \<Longrightarrow> same_position s1 s2 \<Longrightarrow> same_position s s2"
  by (simp add: same_position_def)

lemma drain_done_position:
  assumes "dlm_mode (ls_lm s) \<noteq> 2" "drain_done rnd s = Inr s'"
  shows "same_position s s' \<and> dlm_mode (ls_lm s') = dlm_mode (ls_lm s)"
proof -
  have "foldE (handle_done rnd) (ls_done_queue s) (s\<lparr>ls_done_queue := []\<rparr>) = Inr s'" using assms(2) by (simp add: drain_done_def)
  then show ?thesis
  proof (rule foldE_invariant [where P = "\<lambda>u. same_position s u \<and> dlm_mode (ls_lm u) = dlm_mode (ls_lm s)"])
    show "same_position s v \<and> dlm_mode (ls_lm v) = dlm_mode (ls_lm s)"
      if "same_position s u \<and> dlm_mode (ls_lm u) = dlm_mode (ls_lm s)" "handle_done rnd t u = Inr v" for t u v
      using that handle_done_position [of u rnd t v] assms(1) same_position_trans by metis
  qed (simp add: same_position_def)
qed

text \<open>The next batch, once the last one is used up.\<close>

lemma next_batch_follows:
  assumes log: "from_log (txn_log cd data (concat seqs)) s" and ok: "seqs_ok seqs" "received_ok cd seqs data (ls_get s)"
    "position_ok seqs n (ls_get s)"
    and pos: "ls_batch_offset s = 0" "n \<le> length (concat seqs)" "ls_next s = length (txn_log cd data (take n (concat seqs)))"
    and run: "next_batch cd s = Inr s'"
  shows "follows cd seqs data s'"
proof -
  obtain r g where g: "GetBatch cd (ls_get s) = Inr (r, g)" "received_ok cd seqs data g"
    and r: "case r of None \<Rightarrow> position_ok seqs n g
      | Some m \<Rightarrow> n < length (concat seqs) \<and> m = data (concat seqs ! n) \<and> position_ok seqs (Suc n) g"
    using GetBatch_correct [OF ok(2,1,3)] by (auto split: option.splits)
  have s': "s' = s\<lparr>ls_batch := r, ls_get := g\<rparr>" using run g(1) by (simp add: next_batch_def)
  have "\<exists>n. position_ok seqs n g \<and> batch_position cd data (concat seqs) n s'"
  proof (cases r)
    case None
    with r pos show ?thesis by (intro exI [of _ n]) (simp add: s' batch_position_def)
  next
    case (Some m)
    with r pos show ?thesis by (intro exI [of _ "Suc n"]) (simp add: s' batch_position_def)
  qed
  with log g(2) show ?thesis by (simp add: follows_def from_log_def s')
qed

text \<open>One transaction of the current batch.\<close>

lemma admit_follows:
  assumes m: "dlm_mode (ls_lm s) \<noteq> 2" and fol: "follows cd seqs data s" and b: "ls_batch s = Some b"
    and off: "ls_batch_offset s < length (msg_data b)"
    and run: "admit_txn (dec_txn cd (msg_data b ! ls_batch_offset s)) (s\<lparr>ls_batch_offset := ls_batch_offset s + 1\<rparr>) = Inr s'"
  shows "follows cd seqs data s' \<and> dlm_mode (ls_lm s') \<noteq> 2 \<and> ls_batch s' = Some b"
proof -
  let ?t = "ls_next s" and ?log = "txn_log cd data (concat seqs)" and ?txn = "dec_txn cd (msg_data b ! ls_batch_offset s)"
  from fol b obtain n k where g: "received_ok cd seqs data (ls_get s)" "position_ok seqs n (ls_get s)" "n = Suc k"
    and k: "k < length (concat seqs)" "b = data (concat seqs ! k)" "?t = length (txn_log cd data (take k (concat seqs))) + ls_batch_offset s"
    by (auto simp: follows_def batch_position_def)
  have t: "?t < length ?log" "?log ! ?t = ?txn"
    using off txn_log_split [OF k(1), of cd data] by (simp_all add: k(2,3) nth_append)
  have s': "s' = lock_txn ?t (s\<lparr>ls_batch_offset := ls_batch_offset s + 1, ls_next := ?t + 1, ls_heap := (ls_heap s)(?t := ?txn)\<rparr>)"
    using m run by (simp add: admit_txn_def Let_def)
  have "from_log ?log s'" using fol t by (auto simp: follows_def from_log_def s' lock_txn_def less_Suc_eq)
  moreover have "batch_position cd data (concat seqs) n s'"
    using k off b g(3) by (simp add: batch_position_def s' lock_txn_def)
  ultimately show ?thesis using g m b by (auto simp: follows_def s' lock_txn_def Lock_config)
qed

lemma take_txns_follows:
  "dlm_mode (ls_lm s) \<noteq> 2 \<Longrightarrow> follows cd seqs data s \<Longrightarrow> ls_batch s = Some b \<Longrightarrow> take_txns cd b n s = Inr s' \<Longrightarrow>
     follows cd seqs data s'"
proof (induction n arbitrary: s)
  case (Suc n)
  show ?case
  proof (cases "length (msg_data b) \<le> ls_batch_offset s")
    case False
    with Suc.prems(4) obtain s1 where
      s1: "admit_txn (dec_txn cd (msg_data b ! ls_batch_offset s)) (s\<lparr>ls_batch_offset := ls_batch_offset s + 1\<rparr>) = Inr s1"
      "take_txns cd b n s1 = Inr s'" by (auto simp: outcome_simps)
    have "follows cd seqs data s1 \<and> dlm_mode (ls_lm s1) \<noteq> 2 \<and> ls_batch s1 = Some b"
      using admit_follows [OF Suc.prems(1-3) _ s1(1)] False by simp
    with Suc.IH s1(2) show ?thesis by blast
  qed (use Suc.prems in simp)
qed simp

lemma new_txns_follows:
  assumes ok: "seqs_ok seqs" and m: "dlm_mode (ls_lm s) \<noteq> 2" and fol: "follows cd seqs data s" and run: "new_txns cd s = Inr s'"
  shows "follows cd seqs data s'"
proof -
  from fol obtain n where log: "from_log (txn_log cd data (concat seqs)) s" and g: "received_ok cd seqs data (ls_get s)"
    "position_ok seqs n (ls_get s)" and pos: "batch_position cd data (concat seqs) n s" by (auto simp: follows_def)
  note next' = next_batch_follows [OF _ ok]
  show ?thesis
  proof (cases "ls_batch s")
    case None
    with run pos show ?thesis by (intro next' [OF log g]) (simp_all add: batch_position_def new_txns_def)
  next
    case (Some b)
    then obtain k where k: "k < length (concat seqs)" "n = Suc k" "b = data (concat seqs ! k)" "ls_batch_offset s \<le> length (msg_data b)"
      "ls_next s = length (txn_log cd data (take k (concat seqs))) + ls_batch_offset s" using pos by (auto simp: batch_position_def)
    show ?thesis
    proof (cases "length (msg_data b) \<le> ls_batch_offset s")
      case True
      have "take n (concat seqs) = take k (concat seqs) @ [concat seqs ! k]" using k(1,2) by (simp add: take_Suc_conv_app_nth)
      then have "ls_next s = length (txn_log cd data (take n (concat seqs)))" using True k by simp
      moreover have "from_log (txn_log cd data (concat seqs)) (s\<lparr>ls_batch_offset := 0\<rparr>)" using log by (simp add: from_log_def)
      moreover have "next_batch cd (s\<lparr>ls_batch_offset := 0\<rparr>) = Inr s'" using True Some run by (simp add: new_txns_def)
      ultimately show ?thesis using g k(1,2) by (intro next') simp_all
    next
      case False
      with Some run have "take_txns cd b num_txns_once s = Inr s' \<or> s' = s" by (auto simp: new_txns_def split: if_splits)
      with take_txns_follows [OF m fol Some] fol show ?thesis by blast
    qed
  qed
qed

lemma iteration_follows:
  assumes "seqs_ok seqs" and "dlm_mode (ls_lm s) \<noteq> 2" and "follows cd seqs data s" and "RunLockManagerThread_iteration cd rnd s = Inr s'"
  shows "follows cd seqs data s'"
proof -
  from assms(4) obtain s1 s2 where 1: "drain_done rnd s = Inr s1" and 2: "new_txns cd s1 = Inr s2" and s': "s' = drain_ready s2"
    by (auto simp: RunLockManagerThread_iteration_def outcome_simps)
  note d = drain_done_position [OF assms(2) 1]
  have "follows cd seqs data s2" using new_txns_follows [OF assms(1) _ _ 2] follows_same [OF assms(3)] d assms(2) by metis
  then show ?thesis by (rule follows_same) (simp add: s' drain_ready_eq same_position_def)
qed

section \<open>A machine follows the log\<close>

lemma genuine_arrive:
  assumes "follows cd seqs data s" "\<forall>msg \<in> set ms. genuine cd seqs data msg"
  shows "follows cd seqs data (batches_arrive ms s)"
proof -
  have "received_ok cd seqs data (g\<lparr>bs_inbox := bs_inbox g @ ms\<rparr>) \<and> position_ok seqs n (g\<lparr>bs_inbox := bs_inbox g @ ms\<rparr>)"
    if "received_ok cd seqs data g" "position_ok seqs n g" for g n
    using that assms(2)
  proof (induction ms arbitrary: g)
    case (Cons msg ms)
    have "received_ok cd seqs data (g\<lparr>bs_inbox := bs_inbox g @ [msg]\<rparr>)" "position_ok seqs n (g\<lparr>bs_inbox := bs_inbox g @ [msg]\<rparr>)"
      using deliver_ok Cons.prems by auto
    from Cons.IH [OF this] Cons.prems(3) show ?case by simp
  qed simp
  moreover from assms(1) obtain n where n: "received_ok cd seqs data (ls_get s)" "position_ok seqs n (ls_get s)"
    "batch_position cd data (concat seqs) n s" by (auto simp: follows_def)
  moreover have "batch_position cd data (concat seqs) n (batches_arrive ms s) = batch_position cd data (concat seqs) n s"
    by (simp add: batch_position_def batches_arrive_def split: option.split)
  moreover have "from_log (txn_log cd data (concat seqs)) (batches_arrive ms s)"
    using assms(1) by (simp add: follows_def from_log_def batches_arrive_def)
  ultimately show ?thesis unfolding follows_def by (intro conjI exI [of _ n]) (simp_all add: batches_arrive_def)
qed

lemma worker_effect_position: "worker_effect ts (w, s) (w', s') \<Longrightarrow> same_position s s'"
  by (auto simp: worker_effect_def same_locks_def same_position_def committed_def)

context application
begin

lemma machine_from_follows:
  "machine_from cd execute (genuine cd seqs data) mc0 mc \<Longrightarrow> machine_inv a mc0 \<Longrightarrow> follows cd seqs data (mc_lock mc0) \<Longrightarrow>
    seqs_ok seqs \<Longrightarrow> follows cd seqs data (mc_lock mc)"
proof (induction rule: machine_from.induct)
  case (lock_manager mc rnd s)
  then have "dlm_mode (ls_lm (mc_lock mc)) \<noteq> 2" using machine_from_inv by (auto simp: machine_inv_def lm_inv_def)
  with lock_manager show ?case using iteration_follows by fastforce
next
  case (worker mc i u64 u32 r w s mx)
  then obtain active where "machine_inv active mc" using machine_from_inv by blast
  from machine_worker_effect [OF this worker.hyps(2-4)] worker show ?case
    using worker_effect_position follows_same by fastforce
next
  case (others mc ms mx)
  then show ?case using genuine_arrive by simp
qed

lemma machine_run_follows:
  assumes "machine_run cd execute (genuine cd seqs data) m mc" "m \<noteq> 2" "seqs_ok seqs"
  shows "follows cd seqs data (mc_lock mc)"
proof -
  from assms(1) obtain c st recs mx where run: "machine_from cd execute (genuine cd seqs data) (machine_new c m st recs mx) mc"
    unfolding machine_run_def by blast
  have "follows cd seqs data (mc_lock (machine_new c m st recs mx))" using follows_new by (simp add: machine_new_def Let_def)
  from machine_from_follows [OF run machine_inv_start [OF assms(2)] this assms(3)] show ?thesis .
qed

end

lemma calvin_follows:
  "machine_run cd app (genuine cd seqs data) m mc \<Longrightarrow> m \<noteq> 2 \<Longrightarrow> calvin_app cd app \<Longrightarrow> seqs_ok seqs \<Longrightarrow> follows cd seqs data (mc_lock mc)"
  using micro.machine_run_follows tpcc.machine_run_follows unfolding calvin_app_def by blast

section \<open>The agreed order\<close>

text \<open>
  C1: in the original and the low-latency mode (0 and 1, not the background-remaster mode 2, where
  transactions that wait for a remaster leave the order) a machine executes the agreed log. In every state
  that it can reach by steps that do not fail, with either application and whatever the interleaving of
  its threads, from messages that carry the agreed sequences and sub-batches in any order, the
  transactions it has admitted are the first ones of the log, apart from their status; a transaction has
  all its locks only after all earlier ones in the log that conflict with it were executed and released;
  and each was released after all of these. The runs are those of \<open>machine_from\<close>: batches
  whose transactions name no key twice, and a worker starts a transaction only when it has none of the
  same id and origin under way.
\<close>

theorem machine_follows_log:
  assumes "machine_run cd app (genuine cd seqs data) m mc" and "m \<noteq> 2" and "calvin_app cd app" and "seqs_ok seqs"
  shows "let s = mc_lock mc; log = txn_log cd data (concat seqs) in
    ls_next s \<le> length log
    \<and> (\<forall>t < ls_next s. committed (ls_heap s t) = committed (log ! t))
    \<and> (\<forall>u \<in> set (held mc). \<forall>t < u. (\<exists>k. running_conflict s t u k) \<longrightarrow> t \<in> set (ls_freed s))
    \<and> finish_order s (ls_freed s)"
proof -
  obtain active where inv: "lm_inv active (held mc) (mc_lock mc)"
    using calvin_machine_inv [OF assms(1-3)] by (auto simp: machine_inv_def)
  have "t \<in> set (ls_freed (mc_lock mc))" if "u \<in> set (held mc)" "t < u" "running_conflict (mc_lock mc) t u k" for t u k
    using lm_inv_order [OF inv that(2,3)] that(1) by simp
  with lm_inv_freed(2) [OF inv] calvin_follows [OF assms] show ?thesis by (auto simp: follows_def from_log_def Let_def)
qed

definition before :: "'a list \<Rightarrow> 'a \<Rightarrow> 'a \<Rightarrow> bool" where
  "before xs x y \<longleftrightarrow> (\<exists>j < length xs. xs ! j = y \<and> x \<in> set (take j xs))"

lemma before_antisym: "distinct xs \<Longrightarrow> before xs x y \<Longrightarrow> \<not> before xs y x"
  by (fastforce simp: before_def in_set_conv_nth nth_eq_iff_index_eq)

lemma running_conflict_sym: "running_conflict s t u k = running_conflict s u t k"
  by (auto simp: running_conflict_def conflict_def)

lemma finish_order_before:
  assumes order: "finish_order s ts" and dist: "distinct ts" and ts: "t \<in> set ts" "u \<in> set ts" "t \<noteq> u" and conf: "running_conflict s t u k"
  shows "before ts t u \<longleftrightarrow> t < u"
proof -
  have less: "before ts x y" if xy: "x < y" "y \<in> set ts" "running_conflict s x y k" for x y
  proof -
    obtain j where "j < length ts" "ts ! j = y" using xy(2) by (auto simp: in_set_conv_nth)
    with xy order show ?thesis unfolding before_def finish_order_def by blast
  qed
  then show ?thesis using ts conf running_conflict_sym before_antisym [OF dist] by (metis linorder_neqE_nat)
qed


section \<open>A concrete run\<close>

definition example_sequences :: "sequence list" where
  "example_sequences = [[7, 8]]"

definition example_data :: "uint64 \<Rightarrow> payload message_proto" where
  "example_data b = (if b = 7 then example_batch else example_subbatch b)"

lemma example_data_genuine:
  "genuine payload_codec example_sequences example_data example_order" "genuine payload_codec example_sequences example_data example_batch"
  by (simp_all add: genuine_def example_sequences_def example_data_def example_order_def example_batch_def example_subbatch_def
      MessageProto_new_def payload_codec_def)

lemma machine_follows_log_witness:
  "\<exists>mc. machine_run payload_codec tpcc_app (genuine payload_codec example_sequences example_data) 0 mc \<and> ls_next (mc_lock mc) = 2
     \<and> 2 \<le> length (txn_log payload_codec example_data (concat example_sequences))
     \<and> committed (ls_heap (mc_lock mc) 1) = committed (txn_log payload_codec example_data (concat example_sequences) ! 1)"
proof -
  obtain mc where mc: "machine_run payload_codec tpcc_app (genuine payload_codec example_sequences example_data) 0 mc"
    "ls_next (mc_lock mc) = 2"
    using example_machine_run [OF example_data_genuine, of tpcc_app] by blast
  have "calvin_app payload_codec tpcc_app" "seqs_ok example_sequences"
    by (simp_all add: calvin_app_def example_sequences_def example_seqs_ok)
  with machine_follows_log [OF mc(1)] mc show ?thesis by (intro exI [of _ mc]) (simp add: Let_def)
qed

text \<open>Two transactions that write the same key, and their locks.\<close>

definition write_txn :: "uint64 \<Rightarrow> txn_proto" where
  "write_txn i = TxnProto_new\<lparr>tx_txn_id := i, tx_read_write_set := [\<lparr>ke_key = ''0'', ke_master = 0, ke_counter = 0\<rparr>],
     tx_readers := [0], tx_writers := [0], tx_involved_replicas := [0]\<rparr>"

lemma conflict_locks:
  "\<exists>lm1 lm2 lm3 lm4. Lock 0 (write_txn 1) (DeterministicLockManager_new [] (example_config 0) 0) = (0, lm1)
     \<and> Lock 1 (write_txn 2) lm1 = (1, lm2) \<and> dlm_ready lm2 = [0]
     \<and> Release 0 ((write_txn 1)\<lparr>tx_status := COMMITTED\<rparr>) (lm2\<lparr>dlm_ready := []\<rparr>) = Inr lm3 \<and> dlm_ready lm3 = [1]
     \<and> Release 1 ((write_txn 2)\<lparr>tx_status := COMMITTED\<rparr>) (lm3\<lparr>dlm_ready := []\<rparr>) = Inr lm4 \<and> dlm_ready lm4 = []
     \<and> (\<forall>lm \<in> {lm1, lm2, lm3, lm4}. dlm_config lm = example_config 0 \<and> dlm_mode lm = 0)"
  by (simp add: Lock_def write_txn_def TxnProto_new_def Lock_write_entry_def Lock_read_entry_def locks_entry_def
      example_IsLocal DeterministicLockManager_new_def find_requests_def Release_def Release_entry_def Release_key_def new_owners_def grant_def Let_def)


definition two_writes :: "payload message_proto" where
  "two_writes = (new_subbatch (example_config 0) 0)\<lparr>msg_batch_number := 7, msg_data := [Txn_bytes (write_txn 1), Txn_bytes (write_txn 2)]\<rparr>"

definition two_writes_connection :: "payload multiplexer" where
  "two_writes_connection = example_connection\<lparr>mx_channels := [(wk_channel (worker_new 0 :: payload worker), 0)], mx_queues := [Some []]\<rparr>"

lemma two_writes_GetBatch:
  "\<exists>g g1 g2. GetBatch payload_codec (batch_state_new\<lparr>bs_inbox := [example_order, two_writes]\<rparr>) = Inr (Some two_writes, g)
     \<and> GetBatch payload_codec g = Inr (None, g1) \<and> GetBatch payload_codec g1 = Inr (None, g2)"
  by (simp add: GetBatch_def find_sequence_def find_batch_def batch_state_new_def example_order_def
      two_writes_def new_subbatch_def MessageProto_new_def advance_batch_def payload_codec_def Let_def)

text \<open>The state after \<open>n\<close> of the two have been executed.\<close>

definition write_heap :: "nat \<Rightarrow> txn_heap" where
  "write_heap n = (\<lambda>_. TxnProto_new)(0 := (write_txn 1)\<lparr>tx_status := if 0 < n then COMMITTED else NEW\<rparr>,
     1 := (write_txn 2)\<lparr>tx_status := if 1 < n then COMMITTED else NEW\<rparr>)"

definition two_writes_state ::
  "nat \<Rightarrow> lock_manager \<Rightarrow> txn_ptr list \<Rightarrow> txn_ptr list \<Rightarrow> txn_ptr list \<Rightarrow> payload batch_state \<Rightarrow> db_record list \<Rightarrow> string \<Rightarrow> payload lm_thread" where
  "two_writes_state n lm tq dq fr g pad v =
     \<lparr>ls_lm = lm, ls_heap = write_heap n, ls_next = 2, ls_freed = fr, ls_waits = remaster_waits_new, ls_done_queue = dq,
      ls_txns_queue = tq, ls_batch = (if fr = [] then Some two_writes else None), ls_batch_offset = (if fr = [] then 2 else 0),
      ls_executing = of_nat (length (tq @ dq)), ls_pending = of_nat (2 - length (tq @ dq @ fr)), ls_txns = length fr, ls_rand = 2 * length fr,
      ls_get = g, ls_storage = [''0'' \<mapsto> length pad], ls_recs = (pad @ [Record_new v 0])\<rparr>"

lemma two_writes_worker:
  assumes lm: "dlm_mode lm = 0" "dlm_config lm = example_config 0" and v: "advance_value v = Inr v'" and n: "n < 2"
  shows "RunWorkerThread_iteration 0 0 payload_codec tpcc_app 0 (worker_new 0, two_writes_state n lm [n] [] fr g pad v, two_writes_connection)
   = Inr (worker_new 0, two_writes_state (Suc n) lm [] [n] fr g pad v', two_writes_connection)"
proof -
  have got: "GotMessage (wk_channel (worker_new 0 :: payload worker)) two_writes_connection = Inr (None, two_writes_connection)"
    by (simp add: two_writes_connection_def GotMessage_def AtomicMap_Lookup_def queue_pop_def example_connection_def)
  have txn: "write_heap n n = write_txn (of_nat (Suc n))"
    "(write_heap n)(n := (write_txn (of_nat (Suc n)))\<lparr>tx_status := COMMITTED\<rparr>) = write_heap (Suc n)"
    using n by (auto simp: write_heap_def write_txn_def TxnProto_new_def less_2_cases_iff fun_eq_iff)
  show ?thesis
    by (simp add: RunWorkerThread_iteration_def start_txn_def got lm)
      (simp add: lm v two_writes_state_def txn,
       simp add: lm v write_txn_def TxnProto_new_def StorageManager_def
        StorageManager_init_def process_write_def note_involved_def read_local_def heap_get_def ReadObject_def ReadyToExecute_def broadcast_reads_def
        run_ready_def commit_check_def execute_txn_def tpcc_app_def Tpcc_Execute_def Tpcc_execute_entry_def rep_get_def SM_ReadObject_def deref_def
        heap_modify_def push_done_def set_config_def Record_new_def Record_new_counter_def txn [unfolded write_txn_def TxnProto_new_def, simplified] Let_def)
qed

lemma two_writes_start:
  assumes lm: "Lock 0 (write_txn 1) (DeterministicLockManager_new [] (example_config 0) 0) = (0, lm1)" "Lock 1 (write_txn 2) lm1 = (1, lm2)"
     "dlm_ready lm2 = [0]" "dlm_mode lm1 = 0"
    and g: "GetBatch payload_codec (batch_state_new\<lparr>bs_inbox := [example_order, two_writes]\<rparr>) = Inr (Some two_writes, g)"
  shows "\<exists>s. RunLockManagerThread_iteration payload_codec (\<lambda>_. 0)
      (batches_arrive [example_order, two_writes] (DeterministicScheduler_new (example_config 0) 0 [''0'' \<mapsto> length pad] (pad @ [Record_new v 0]))) = Inr s
    \<and> batch_ok payload_codec s
    \<and> RunLockManagerThread_iteration payload_codec (\<lambda>_. 0) s = Inr (two_writes_state 0 (lm2\<lparr>dlm_ready := []\<rparr>) [0] [] [] g pad v)"
proof -
  let ?s = "(DeterministicScheduler_new (example_config 0) 0 [''0'' \<mapsto> length pad] (pad @ [Record_new v 0]))\<lparr>ls_batch := Some two_writes, ls_get := g\<rparr>"
  have ready: "dlm_ready (DeterministicLockManager_new r c m) = r" "dlm_mode (DeterministicLockManager_new r c m) = m" for r c m
    by (simp_all add: DeterministicLockManager_new_def)
  have lm0: "DeterministicLockManager_new [] c m\<lparr>dlm_ready := []\<rparr> = DeterministicLockManager_new [] c m" for c m
    by (simp add: DeterministicLockManager_new_def)
  have inbox: "bs_inbox batch_state_new = []" by (simp add: batch_state_new_def)
  have b: "msg_data two_writes = [Txn_bytes (write_txn 1), Txn_bytes (write_txn 2)]" by (simp add: two_writes_def)
  have dec: "dec_txn payload_codec (Txn_bytes txn) = txn" for txn by (simp add: payload_codec_def)
  have "num_txns_once = Suc (Suc (Suc 7))" and room: "0 < maximum_txns" by (simp_all add: num_txns_once_def maximum_txns_def)
  then obtain k where num: "num_txns_once = Suc (Suc (Suc k))" by blast
  have heap: "(\<lambda>_. TxnProto_new)(0 := write_txn 1, Suc 0 := write_txn 2) = write_heap 0"
    by (simp add: write_heap_def write_txn_def TxnProto_new_def fun_eq_iff)
  have "RunLockManagerThread_iteration payload_codec (\<lambda>_. 0)
      (batches_arrive [example_order, two_writes] (DeterministicScheduler_new (example_config 0) 0 [''0'' \<mapsto> length pad] (pad @ [Record_new v 0]))) = Inr ?s"
    using g by (simp add: RunLockManagerThread_iteration_def drain_done_def new_txns_def next_batch_def drain_ready_eq
        DeterministicScheduler_new_def batches_arrive_def ready lm0 inbox)
  moreover have "batch_ok payload_codec ?s"
    by (simp add: batch_ok_def b dec distinct_keys_def txn_entries_def write_txn_def TxnProto_new_def)
  moreover have "RunLockManagerThread_iteration payload_codec (\<lambda>_. 0) ?s = Inr (two_writes_state 0 (lm2\<lparr>dlm_ready := []\<rparr>) [0] [] [] g pad v)"
    using lm by (simp add: RunLockManagerThread_iteration_def drain_done_def new_txns_def num room admit_txn_def lock_txn_def b dec
        drain_ready_eq DeterministicScheduler_new_def two_writes_state_def ready heap Let_def)
  ultimately show ?thesis by blast
qed

lemma two_writes_done:
  assumes lm: "Release n ((write_txn (of_nat (Suc n)))\<lparr>tx_status := COMMITTED\<rparr>) lm = Inr lm'" "dlm_mode lm = 0"
      "dlm_ready lm' = [Suc n..<2]"
    and g: "GetBatch payload_codec g = Inr (None, g')" and n: "n < 2"
  shows "RunLockManagerThread_iteration payload_codec (\<lambda>_. 0) (two_writes_state (Suc n) lm [] [n] [0..<n] g pad v)
    = Inr (two_writes_state (Suc n) (lm'\<lparr>dlm_ready := []\<rparr>) [Suc n..<2] [] [0..<Suc n] g' pad v)"
proof -
  have txn: "write_heap (Suc n) n = (write_txn (of_nat (Suc n)))\<lparr>tx_status := COMMITTED\<rparr>"
    using n by (auto simp: write_heap_def write_txn_def TxnProto_new_def less_2_cases_iff fun_eq_iff)
  have b: "length (msg_data two_writes) = 2" by (simp add: two_writes_def)
  have st: "tx_status (write_txn i) = NEW" "tx_writers (write_txn i) = [0]" "tx_involved_replicas (write_txn i) = [0]" for i
    by (simp_all add: write_txn_def TxnProto_new_def)
  show ?thesis using n lm g
    by (auto simp add: less_2_cases_iff RunLockManagerThread_iteration_def drain_done_def two_writes_state_def handle_done_def done_remaster_def done_release_def done_count_def
       txn st b new_txns_def next_batch_def drain_ready_eq Let_def)
qed


text \<open>Steps of this machine, with the first worker.\<close>

definition two_writes_machine :: "payload lm_thread \<Rightarrow> payload machine" where
  "two_writes_machine s = \<lparr>mc_lock = s, mc_workers = map worker_new [0..<NUM_THREADS], mc_connection = two_writes_connection\<rparr>"

lemma two_writes_steps:
  assumes "machine_from payload_codec tpcc_app G mc0 (two_writes_machine s)"
  shows "batch_ok payload_codec s \<Longrightarrow> RunLockManagerThread_iteration payload_codec (\<lambda>_. 0) s = Inr s' \<Longrightarrow>
      machine_from payload_codec tpcc_app G mc0 (two_writes_machine s')"
    and "RunWorkerThread_iteration 0 0 payload_codec tpcc_app 0 (worker_new 0, s, two_writes_connection)
        = Inr (worker_new 0, s', two_writes_connection) \<Longrightarrow> machine_from payload_codec tpcc_app G mc0 (two_writes_machine s')"
  using machine_from.lock_manager [OF assms, of "\<lambda>_. 0" s'] machine_from.worker [OF assms, of 0 0 0 0 "worker_new 0" s' two_writes_connection]
  by (simp_all add: two_writes_machine_def NUM_THREADS_def channel_free_def worker_new_def numeral_3_eq_3 split: list.split)

definition two_writes_new :: "db_record list \<Rightarrow> string \<Rightarrow> payload machine" where
  "two_writes_new pad v = machine_new (example_config 0) 0 [''0'' \<mapsto> length pad] (pad @ [Record_new v 0]) example_connection"

lemma two_writes_arrive:
  assumes G: "G example_order" "G two_writes"
  shows "machine_from payload_codec tpcc_app G (two_writes_new pad v) (two_writes_machine
    (batches_arrive [example_order, two_writes] (DeterministicScheduler_new (example_config 0) 0 [''0'' \<mapsto> length pad] (pad @ [Record_new v 0]))))"
  using machine_from.others [OF machine_from.start, of "[example_order, two_writes]" G payload_codec tpcc_app "two_writes_new pad v" two_writes_connection] G
  by (simp add: machine_new_def two_writes_new_def two_writes_machine_def Let_def)

lemma two_writes_batch_ok: "batch_ok payload_codec (two_writes_state n lm tq dq fr g pad v)"
  by (simp add: batch_ok_def two_writes_state_def two_writes_def payload_codec_def distinct_keys_def txn_entries_def write_txn_def TxnProto_new_def)

lemma two_writes_run:
  assumes G: "G example_order" "G two_writes"
    and v: "advance_value v = Inr v1" "advance_value v1 = Inr v2"
  shows "\<exists>lm g. machine_from payload_codec tpcc_app G (two_writes_new pad v) (two_writes_machine (two_writes_state 2 lm [] [] [0, 1] g pad v2))
    \<and> dlm_config lm = example_config 0 \<and> dlm_mode lm = 0"
proof -
  let ?run = "\<lambda>s. machine_from payload_codec tpcc_app G (two_writes_new pad v) (two_writes_machine s)"
  obtain lm1 lm2 lm3 lm4 where lm: "Lock 0 (write_txn 1) (DeterministicLockManager_new [] (example_config 0) 0) = (0, lm1)"
    "Lock 1 (write_txn 2) lm1 = (1, lm2)" "dlm_ready lm2 = [0]"
    "Release 0 ((write_txn 1)\<lparr>tx_status := COMMITTED\<rparr>) (lm2\<lparr>dlm_ready := []\<rparr>) = Inr lm3" "dlm_ready lm3 = [1]"
    "Release 1 ((write_txn 2)\<lparr>tx_status := COMMITTED\<rparr>) (lm3\<lparr>dlm_ready := []\<rparr>) = Inr lm4" "dlm_ready lm4 = []"
    and cfg: "\<forall>lm \<in> {lm1, lm2, lm3, lm4}. dlm_config lm = example_config 0 \<and> dlm_mode lm = 0"
    using conflict_locks by (elim exE conjE) (rule that)
  obtain g g1 g2 where g: "GetBatch payload_codec (batch_state_new\<lparr>bs_inbox := [example_order, two_writes]\<rparr>) = Inr (Some two_writes, g)"
    "GetBatch payload_codec g = Inr (None, g1)" "GetBatch payload_codec g1 = Inr (None, g2)" using two_writes_GetBatch by blast
  let ?s0 = "DeterministicScheduler_new (example_config 0) 0 [''0'' \<mapsto> length pad] (pad @ [Record_new v 0])"
  have "batch_ok payload_codec (batches_arrive [example_order, two_writes] ?s0)"
    by (simp add: batch_ok_def batches_arrive_def DeterministicScheduler_new_def)
  then have "?run (two_writes_state 0 (lm2\<lparr>dlm_ready := []\<rparr>) [0] [] [] g pad v)"
    using two_writes_start [OF lm(1-3) _ g(1), of pad v] two_writes_arrive [OF G, of pad v] two_writes_steps(1) cfg by blast
  from two_writes_steps(2) [OF this two_writes_worker [OF _ _ v(1)]]
  have "?run (two_writes_state 1 (lm2\<lparr>dlm_ready := []\<rparr>) [] [0] [] g pad v1)" using cfg by simp
  from two_writes_steps(1) [OF this two_writes_batch_ok] two_writes_done [of 0 "lm2\<lparr>dlm_ready := []\<rparr>" lm3 g g1 pad v1] lm(4,5) cfg g(2)
  have "?run (two_writes_state 1 (lm3\<lparr>dlm_ready := []\<rparr>) [1] [] [0] g1 pad v1)" by (simp add: lm(5) numeral_2_eq_2)
  from two_writes_steps(2) [OF this two_writes_worker [OF _ _ v(2)]]
  have "?run (two_writes_state 2 (lm3\<lparr>dlm_ready := []\<rparr>) [] [1] [0] g1 pad v2)" using cfg by (simp add: numeral_2_eq_2)
  from two_writes_steps(1) [OF this two_writes_batch_ok] two_writes_done [of 1 "lm3\<lparr>dlm_ready := []\<rparr>" lm4 g1 g2 pad v2] lm(6,7) cfg g(3)
  have "?run (two_writes_state 2 (lm4\<lparr>dlm_ready := []\<rparr>) [] [] [0, 1] g2 pad v2)" by (simp add: lm(7) numeral_2_eq_2)
  then show ?thesis using cfg by (intro exI [of _ "lm4\<lparr>dlm_ready := []\<rparr>"] exI [of _ g2]) simp
qed

lemma two_writes_genuine:
  "genuine payload_codec example_sequences (example_data(7 := two_writes)) example_order"
  "genuine payload_codec example_sequences (example_data(7 := two_writes)) two_writes"
  by (simp_all add: genuine_def example_sequences_def example_data_def example_order_def two_writes_def new_subbatch_def
      MessageProto_new_def payload_codec_def)

lemma two_writes_runs:
  "\<exists>mc. machine_run payload_codec tpcc_app (genuine payload_codec example_sequences (example_data(7 := two_writes))) 0 mc
     \<and> ls_freed (mc_lock mc) = [0, 1] \<and> running_conflict (mc_lock mc) 0 1 ''0'' \<and> ls_storage (mc_lock mc) ''0'' = Some (length (pad :: db_record list))"
proof -
  have "\<exists>v v1 v2. advance_value v = Inr v1 \<and> advance_value v1 = Inr v2"
    by (rule exI [of _ "replicate 8 (CHR ''A'')"]) (simp add: advance_value_def require_defined_def)
  then obtain lm g v where run: "machine_run payload_codec tpcc_app (genuine payload_codec example_sequences (example_data(7 := two_writes))) 0
      (two_writes_machine (two_writes_state 2 lm [] [] [0, 1] g pad v))" and lm: "dlm_config lm = example_config 0" "dlm_mode lm = 0"
    using two_writes_run [OF two_writes_genuine] unfolding machine_run_def two_writes_new_def by blast
  have "running_conflict (two_writes_state 2 lm [] [] [0, 1] g pad v) 0 1 ''0''"
    by (simp add: running_conflict_def two_writes_state_def lm write_heap_def wanted_def locked_keys_def
        locks_entry_def write_txn_def TxnProto_new_def example_IsLocal conflict_def)
  with run show ?thesis
    by (intro exI [of _ "two_writes_machine (two_writes_state 2 lm [] [] [0, 1] g pad v)"] conjI)
      (simp_all add: two_writes_machine_def, simp_all add: two_writes_state_def)
qed


end
