(* ===== verification/Local_Paxos.thy ===== *)
theory Local_Paxos
  imports Paxos
begin

text \<open>
  \<open>log/local_paxos.{h,cc}\<close>: the log of the low-latency modes. Every replica orders its own sequences and
  those it gets from the other replicas in one global log; the sequences of a replica are forwarded to
  the others, which answer when they are ready for more; for a sequence of replica 0 the transactions
  that span replicas are generated anew at the others. \<open>RunLeader\<close>, \<open>RunLeaderStrong\<close> and
  \<open>RunFollower\<close> are modelled one iteration at a time.

  The fields \<open>lp_polls\<close>, \<open>lp_acks\<close> and \<open>lp_sent\<close> are the connection as this object sees it: the
  messages each further call of \<open>ReceiveMessage\<close> will find, those that will come on \<open>paxos_ack_\<close>, and
  those it has sent. A loop that waits gives \<open>None\<close> when its input is used up: it is still waiting.
\<close>

section \<open>State\<close>

record 'b local_paxos =
  lp_config :: cluster_config
  lp_participants :: "uint64 list"
  lp_type :: uint32
  lp_sequence :: sequence
  lp_local_count :: uint64
  lp_local_log :: "'b mem_log"
  lp_global_log :: "'b mem_log"
  lp_mr_txn_batches :: "uint64 \<rightharpoonup> 'b message_proto"
  lp_sequences_other :: "(sequence \<times> uint32) list"
  lp_readers :: "uint32 \<rightharpoonup> 'b log_reader"
  lp_new_sequence_todo :: "uint32 list"
  lp_local_next_version :: uint64
  lp_global_next_version :: uint64
  lp_machines_per_replica :: uint64
  lp_local_replica :: uint32
  lp_received_synchronize_ack :: bool
  lp_is_first :: bool
  lp_alternate :: nat
  lp_polls :: "'b message_proto list list"
  lp_acks :: "'b message_proto list"
  lp_sent :: "'b message_proto list"

text \<open>The loop over \<open>i < 3\<close> of the constructor.\<close>

definition local_participants :: "cluster_config \<Rightarrow> uint64 list" where
  "local_participants c =
     (let base = ucast (cc_local_replica c) * nodes_per_replica c;
          limit = ucast (cc_local_replica c + 1) * nodes_per_replica c
      in filter (\<lambda>id. id < limit) (map (\<lambda>i. base + of_nat i) [0..<3]))"

definition LocalPaxos_new :: "cluster_config \<Rightarrow> uint32 \<Rightarrow> 'b local_paxos" where
  "LocalPaxos_new c type =
     \<lparr>lp_config = c, lp_participants = local_participants c, lp_type = type, lp_sequence = [],
      lp_local_count = 0, lp_local_log = LocalMemLog_new, lp_global_log = LocalMemLog_new,
      lp_mr_txn_batches = Map.empty, lp_sequences_other = [], lp_readers = Map.empty,
      lp_new_sequence_todo = [], lp_local_next_version = 0, lp_global_next_version = 0,
      lp_machines_per_replica = nodes_per_replica c, lp_local_replica = cc_local_replica c,
      lp_received_synchronize_ack = False, lp_is_first = True, lp_alternate = 0,
      lp_polls = [], lp_acks = [], lp_sent = []\<rparr>"

definition LocalPaxos_IsLeader :: "'b local_paxos \<Rightarrow> bool outcome" where
  "LocalPaxos_IsLeader lp = bindE (rep_get (lp_participants lp) 0) (\<lambda>d. Inr (cc_local_node_id (lp_config lp) = d))"

definition LocalPaxos_Append :: "uint64 \<Rightarrow> 'b local_paxos \<Rightarrow> 'b local_paxos" where
  "LocalPaxos_Append blockid lp =
     lp\<lparr>lp_sequence := lp_sequence lp @ [blockid], lp_local_count := lp_local_count lp + 1\<rparr>"

definition send :: "'b message_proto list \<Rightarrow> 'b local_paxos \<Rightarrow> 'b local_paxos" where
  "send ms lp = lp\<lparr>lp_sent := lp_sent lp @ ms\<rparr>"

text \<open>The start of both leader loops: a reader of the local log per replica.\<close>

definition start_leader :: "'b local_paxos \<Rightarrow> 'b local_paxos" where
  "start_leader lp = lp\<lparr>lp_local_next_version := 0, lp_global_next_version := 0,
     lp_readers := fold (\<lambda>i m. m(of_nat i \<mapsto> LocalMemLogReader_new))
       [0..<unat (cc_replicas_size (lp_config lp))] (lp_readers lp)\<rparr>"

section \<open>Waiting\<close>

definition bindW :: "'a option outcome \<Rightarrow> ('a \<Rightarrow> 'b option outcome) \<Rightarrow> 'b option outcome" where
  "bindW m f = bindE m (\<lambda>r. case r of None \<Rightarrow> Inr None | Some a \<Rightarrow> f a)"

lemma bindW_simps [simp]:
  "bindW (Inr (Some a)) f = f a" "bindW (Inr None) f = Inr None" "bindW (Inl e) f = Inl e"
  by (simp_all add: bindW_def)

lemma bindW_Some_iff:
  "bindW m f = Inr (Some b) \<longleftrightarrow> (\<exists>a. m = Inr (Some a) \<and> f a = Inr (Some b))"
  by (auto simp: bindW_def bindE_Inr_iff split: option.splits)

section \<open>Messages from the other machines\<close>

text \<open>The loop over a reader: the sequences that are new, the last version, the reader after it.\<close>

definition drain_reader ::
  "'b codec \<Rightarrow> 'b mem_log \<Rightarrow> uint64 \<Rightarrow> 'b log_reader \<Rightarrow> (sequence_batch \<times> uint64 \<times> 'b log_reader) outcome" where
  "drain_reader cd log latest r =
     bindE (read_loop (Reader_Next log) reader_entry (ml_size log) r) (\<lambda>(es, r').
       Inr (map (\<lambda>e. dec_seq cd (snd (the e))) es, if es = [] then latest else fst (the (last es)), r'))"

definition new_sequence_message ::
  "'b codec \<Rightarrow> 'b local_paxos \<Rightarrow> uint32 \<Rightarrow> sequence_batch \<Rightarrow> uint64 \<Rightarrow> 'b message_proto" where
  "new_sequence_message cd lp replica batch latest = MessageProto_new
     \<lparr>msg_data := [enc_seq_batch cd batch], msg_destination_channel := ''paxos_log_'',
      msg_destination_node := ucast replica * lp_machines_per_replica lp, msg_type := NEW_SEQUENCE,
      msg_misc_int := [ucast (lp_local_replica lp), latest]\<rparr>"

definition receive_new_sequence :: "'b codec \<Rightarrow> 'b message_proto \<Rightarrow> 'b local_paxos \<Rightarrow> 'b local_paxos outcome" where
  "receive_new_sequence cd m lp =
     bindE (rep_get (msg_misc_int m) 0) (\<lambda>from. bindE (rep_get (msg_misc_int m) 1) (\<lambda>latest.
     bindE (rep_get (msg_data m) 0) (\<lambda>d.
       let from_replica = ucast from :: uint32
       in Inr (send [MessageProto_new
            \<lparr>msg_destination_channel := ''paxos_log_'',
             msg_destination_node := ucast from_replica * lp_machines_per_replica lp,
             msg_type := NEW_SEQUENCE_ACK, msg_misc_int := [ucast (lp_local_replica lp), latest]\<rparr>]
           (lp\<lparr>lp_sequences_other := lp_sequences_other lp
                @ map (\<lambda>s. (s, from_replica)) (dec_seq_batch cd d)\<rparr>)))))"

definition receive_new_sequence_ack :: "'b codec \<Rightarrow> 'b message_proto \<Rightarrow> 'b local_paxos \<Rightarrow> 'b local_paxos outcome" where
  "receive_new_sequence_ack cd m lp =
     bindE (rep_get (msg_misc_int m) 0) (\<lambda>from.
     let from_replica = ucast from :: uint32
     in case lp_readers lp from_replica of None \<Rightarrow> Inl Undefined_behaviour
        | Some r \<Rightarrow>
          bindE (rep_get (msg_misc_int m) 1) (\<lambda>known.
          bindE (drain_reader cd (lp_local_log lp) known r) (\<lambda>(batch, latest, r').
            let lp1 = lp\<lparr>lp_readers := (lp_readers lp)(from_replica \<mapsto> r')\<rparr>
            in if latest = known
               then Inr (lp1\<lparr>lp_new_sequence_todo := os_insert from_replica (lp_new_sequence_todo lp1)\<rparr>)
               else Inr (send [new_sequence_message cd lp1 from_replica batch latest] lp1))))"

definition receive_one :: "'b codec \<Rightarrow> 'b message_proto \<Rightarrow> 'b local_paxos \<Rightarrow> 'b local_paxos outcome" where
  "receive_one cd m lp =
     (if msg_type m = MR_TXNS_BATCH
      then bindE (rep_get (msg_misc_int m) 0) (\<lambda>b.
             Inr (lp\<lparr>lp_mr_txn_batches := (lp_mr_txn_batches lp)(b \<mapsto> m)\<rparr>))
      else if msg_type m = NEW_SEQUENCE then receive_new_sequence cd m lp
      else if msg_type m = NEW_SEQUENCE_ACK then receive_new_sequence_ack cd m lp
      else if msg_type m = SYNCHRONIZE
      then bindE (rep_get (msg_misc_int m) 0) (\<lambda>from. bindE (rep_get (msg_data m) 0) (\<lambda>d.
             let from_replica = ucast from :: uint32
             in Inr (send [MessageProto_new
                  \<lparr>msg_destination_channel := ''paxos_log_'',
                   msg_destination_node := ucast from_replica * lp_machines_per_replica lp,
                   msg_type := SYNCHRONIZE_ACK\<rparr>]
                 (lp\<lparr>lp_sequences_other := lp_sequences_other lp @ [(dec_seq cd d, from_replica)]\<rparr>))))
      else if msg_type m = SYNCHRONIZE_ACK then Inr (lp\<lparr>lp_received_synchronize_ack := True\<rparr>)
      else Inr lp)"

text \<open>One call: everything that is waiting. With nothing left to find the call does nothing.\<close>

definition ReceiveMessage :: "'b codec \<Rightarrow> 'b local_paxos \<Rightarrow> 'b local_paxos outcome" where
  "ReceiveMessage cd lp =
     (case lp_polls lp of [] \<Rightarrow> Inr lp
      | ms # polls \<Rightarrow> foldE (receive_one cd) ms (lp\<lparr>lp_polls := polls\<rparr>))"

text \<open>\<open>while (...) ReceiveMessage()\<close>, for at most \<open>n\<close> rounds; \<open>n\<close> is the number of polls.\<close>

fun receive_while :: "'b codec \<Rightarrow> ('b local_paxos \<Rightarrow> bool) \<Rightarrow> nat \<Rightarrow> 'b local_paxos \<Rightarrow> 'b local_paxos option outcome" where
  "receive_while cd waiting n lp =
     (if \<not> waiting lp then Inr (Some lp)
      else case n of 0 \<Rightarrow> Inr None | Suc k \<Rightarrow> bindE (ReceiveMessage cd lp) (receive_while cd waiting k))"

declare receive_while.simps [simp del]

definition await_requests :: "'b codec \<Rightarrow> 'b local_paxos \<Rightarrow> 'b local_paxos option outcome" where
  "await_requests cd lp =
     receive_while cd (\<lambda>lp. lp_local_count lp = 0 \<and> lp_sequences_other lp = []) (length (lp_polls lp)) lp"

section \<open>Proposals\<close>

definition propose_local :: "'b codec \<Rightarrow> 'b local_paxos \<Rightarrow> 'b \<times> 'b local_paxos" where
  "propose_local cd lp =
     (enc_seq cd (lp_sequence lp),
      lp\<lparr>lp_local_next_version := lp_local_next_version lp + 1,
         lp_global_next_version := lp_global_next_version lp + 1, lp_sequence := [], lp_local_count := 0\<rparr>)"

text \<open>A transaction of another replica's batch, generated anew with this replica as its origin.\<close>

definition generate_txn :: "uint32 \<Rightarrow> txn_proto \<Rightarrow> txn_proto" where
  "generate_txn local_replica txn0 =
     (let txn = (if tx_fake_txn txn0 then txn0\<lparr>tx_fake_txn := False\<rparr> else txn0)
      in txn\<lparr>tx_new_generated := True, tx_origin_replica := local_replica\<rparr>)"

definition generated_batch ::
  "'b codec \<Rightarrow> 'b local_paxos \<Rightarrow> 'b message_proto \<Rightarrow> uint64 \<Rightarrow> 'b message_proto" where
  "generated_batch cd lp mr batch_number = MessageProto_new
     \<lparr>msg_destination_channel := ''sequencer_'', msg_type := TXN_BATCH,
      msg_source_node := cc_local_node_id (lp_config lp), msg_misc_bool := [False],
      msg_data := map (\<lambda>d. enc_txn cd (generate_txn (lp_local_replica lp) (dec_txn cd d))) (msg_data mr),
      msg_batch_number := batch_number\<rparr>"

definition generate_batch :: "'b codec \<Rightarrow> uint64 \<Rightarrow> 'b local_paxos \<Rightarrow> 'b local_paxos option outcome" where
  "generate_batch cd batch_id lp0 =
     bindW (receive_while cd (\<lambda>lp. lp_mr_txn_batches lp batch_id = None) (length (lp_polls lp0)) lp0) (\<lambda>lp.
       let mr = the (lp_mr_txn_batches lp batch_id)
       in if msg_data mr = [] then Inr (Some lp)
          else let (batch_number, c) = GetGUID (lp_config lp);
                   msg = generated_batch cd lp mr batch_number
               in Inr (Some (send
                    (map (\<lambda>i. msg\<lparr>msg_destination_node := LookupMachineID c (HashBatchID c batch_number) (of_nat i)\<rparr>)
                       [0..<unat (cc_replicas_size c)])
                    (LocalPaxos_Append batch_number (lp\<lparr>lp_config := c\<rparr>)))))"

fun generate_batches :: "'b codec \<Rightarrow> sequence \<Rightarrow> 'b local_paxos \<Rightarrow> 'b local_paxos option outcome" where
  "generate_batches cd [] lp = Inr (Some lp)"
| "generate_batches cd (b # bs) lp = bindW (generate_batch cd b lp) (generate_batches cd bs)"

text \<open>The next sequence of another replica; only called when there is one.\<close>

definition propose_remote :: "'b codec \<Rightarrow> 'b local_paxos \<Rightarrow> ('b \<times> 'b local_paxos) option outcome" where
  "propose_remote cd lp =
     (case lp_sequences_other lp of [] \<Rightarrow> Inl Undefined_behaviour
      | (remote_sequence, remote_replica) # rest \<Rightarrow>
          let lp1 = lp\<lparr>lp_global_next_version := lp_global_next_version lp + 1, lp_sequences_other := rest\<rparr>
          in bindW (if lp_local_replica lp \<noteq> 0 \<and> remote_replica = 0
                    then generate_batches cd remote_sequence lp1 else Inr (Some lp1))
               (\<lambda>lp2. Inr (Some (enc_seq cd remote_sequence, lp2))))"

section \<open>Replication inside the replica\<close>

definition local_quorum :: "'b local_paxos \<Rightarrow> uint64" where
  "local_quorum lp = of_nat (length (lp_participants lp) div 2 + 1)"

text \<open>The loop that counts acks of version \<open>v\<close>.\<close>

fun collect_acks :: "uint64 \<Rightarrow> uint64 \<Rightarrow> uint64 \<Rightarrow> 'b message_proto list \<Rightarrow> 'b message_proto list option outcome" where
  "collect_acks v needed acks ms =
     (if \<not> acks < needed then Inr (Some ms)
      else case ms of [] \<Rightarrow> Inr None
        | m # ms' \<Rightarrow> CHECK (msg_type m = PAXOS_DATA_ACK) (bindE (rep_get (msg_misc_int m) 0) (\<lambda>i.
            collect_acks v needed (if i = v then acks + 1 else acks) ms')))"

declare collect_acks.simps [simp del]

definition to_local_followers :: "'b local_paxos \<Rightarrow> 'b message_proto \<Rightarrow> 'b message_proto list" where
  "to_local_followers lp m = map (\<lambda>d. m\<lparr>msg_destination_node := d\<rparr>) (tl (lp_participants lp))"

text \<open>Proposal, acks, order and commit of \<open>encoded\<close>; \<open>ints\<close> are the numbers the message carries.\<close>

definition replicate_sequence :: "'b \<Rightarrow> uint64 list \<Rightarrow> 'b local_paxos \<Rightarrow> 'b local_paxos option outcome" where
  "replicate_sequence encoded ints lp =
     (let m = MessageProto_new\<lparr>msg_data := [encoded], msg_misc_int := ints\<rparr>;
          lp1 = send (to_local_followers lp (m\<lparr>msg_type := PAXOS_DATA, msg_destination_channel := ''paxos_ack_''\<rparr>)) lp
      in bindW (collect_acks (lp_global_next_version lp) (local_quorum lp) 1 (lp_acks lp1)) (\<lambda>acks.
           Inr (Some (send (order_messages (lp_config lp) m
                @ to_local_followers lp (m\<lparr>msg_data := [], msg_type := PAXOS_COMMIT,
                    msg_destination_channel := ''paxos_log_''\<rparr>))
              (lp1\<lparr>lp_acks := acks\<rparr>)))))"

definition append_local :: "'b \<Rightarrow> 'b local_paxos \<Rightarrow> 'b local_paxos outcome" where
  "append_local encoded lp = bindE (LocalMemLog_Append (lp_local_next_version lp) encoded (lp_local_log lp)) (\<lambda>log.
     Inr (lp\<lparr>lp_local_log := log\<rparr>))"

definition append_global :: "'b \<Rightarrow> 'b local_paxos \<Rightarrow> 'b local_paxos outcome" where
  "append_global encoded lp = bindE (LocalMemLog_Append (lp_global_next_version lp) encoded (lp_global_log lp)) (\<lambda>log.
     Inr (lp\<lparr>lp_global_log := log\<rparr>))"

section \<open>Forwarding the local sequences\<close>

text \<open>What one replica has not been sent yet; \<open>need\<close> is the check of the code that there is something.\<close>

definition forward_to :: "'b codec \<Rightarrow> bool \<Rightarrow> uint32 \<Rightarrow> 'b local_paxos \<Rightarrow> 'b local_paxos outcome" where
  "forward_to cd need replica lp =
     (case lp_readers lp replica of None \<Rightarrow> Inl Undefined_behaviour
      | Some r \<Rightarrow> bindE (drain_reader cd (lp_local_log lp) 0 r) (\<lambda>(batch, latest, r').
          CHECK (need \<longrightarrow> latest \<noteq> 0)
            (Inr (send [new_sequence_message cd lp replica batch latest]
              (lp\<lparr>lp_readers := (lp_readers lp)(replica \<mapsto> r')\<rparr>)))))"

definition first_forward :: "'b codec \<Rightarrow> uint32 list \<Rightarrow> 'b local_paxos \<Rightarrow> 'b local_paxos outcome" where
  "first_forward cd skip lp =
     bindE (foldE (forward_to cd False) (filter (\<lambda>i. i \<notin> set skip)
              (map of_nat [0..<unat (cc_replicas_size (lp_config lp))])) lp)
       (\<lambda>lp1. Inr (lp1\<lparr>lp_is_first := False\<rparr>))"

definition pending_forward :: "'b codec \<Rightarrow> 'b local_paxos \<Rightarrow> 'b local_paxos outcome" where
  "pending_forward cd lp =
     bindE (foldE (forward_to cd True) (lp_new_sequence_todo lp) lp) (\<lambda>lp1. Inr (lp1\<lparr>lp_new_sequence_todo := []\<rparr>))"

section \<open>The leaders\<close>

text \<open>What both leaders do at the end of an iteration.\<close>

definition finish_iteration :: "'b codec \<Rightarrow> uint32 list \<Rightarrow> bool \<Rightarrow> 'b \<Rightarrow> 'b local_paxos \<Rightarrow> 'b local_paxos outcome" where
  "finish_iteration cd skip isLocal encoded lp =
     bindE (if isLocal then append_local encoded lp else Inr lp) (\<lambda>lp1.
     bindE (append_global encoded lp1) (\<lambda>lp2.
     bindE (if isLocal \<and> lp_is_first lp2 then first_forward cd skip lp2
            else if isLocal then pending_forward cd lp2 else Inr lp2) (\<lambda>lp3.
     ReceiveMessage cd lp3)))"

definition RunLeader_iteration :: "'b codec \<Rightarrow> 'b local_paxos \<Rightarrow> 'b local_paxos option outcome" where
  "RunLeader_iteration cd lp0 =
     bindW (await_requests cd lp0) (\<lambda>lp1.
     let lp = lp1\<lparr>lp_alternate := (lp_alternate lp1 + 1) mod 10\<rparr>;
         isLocal = ((lp_alternate lp < 1 \<and> lp_local_count lp > 0) \<or> lp_sequences_other lp = [])
     in bindW (if isLocal then Inr (Some (propose_local cd lp)) else propose_remote cd lp) (\<lambda>(encoded, lp2).
        bindW (replicate_sequence encoded
                 (if isLocal then [lp_global_next_version lp2, lp_local_next_version lp2]
                  else [lp_global_next_version lp2]) lp2) (\<lambda>lp3.
        bindE (finish_iteration cd [lp_local_replica lp3] isLocal encoded lp3) (\<lambda>lp4. Inr (Some lp4)))))"

definition HandleRemoteBatch :: "'b codec \<Rightarrow> 'b local_paxos \<Rightarrow> 'b local_paxos option outcome" where
  "HandleRemoteBatch cd lp =
     bindW (propose_remote cd lp) (\<lambda>(encoded, lp1).
     bindW (replicate_sequence encoded [lp_global_next_version lp1] lp1) (\<lambda>lp2.
     bindE (append_global encoded lp2) (\<lambda>lp3. Inr (Some lp3))))"

definition closed_replica :: "'b local_paxos \<Rightarrow> uint32" where
  "closed_replica lp = (if lp_local_replica lp < 3 then lp_local_replica lp + 3 else lp_local_replica lp - 3)"

text \<open>The loop that waits for the synchronisation; \<open>n\<close> is the number of polls.\<close>

fun await_synchronize :: "'b codec \<Rightarrow> nat \<Rightarrow> 'b local_paxos \<Rightarrow> 'b local_paxos option outcome" where
  "await_synchronize cd n lp =
     (if lp_received_synchronize_ack lp then Inr (Some (lp\<lparr>lp_received_synchronize_ack := False\<rparr>))
      else case n of 0 \<Rightarrow> Inr None
        | Suc k \<Rightarrow> bindE (ReceiveMessage cd lp) (\<lambda>lp1.
            if lp_sequences_other lp1 \<noteq> [] then bindW (HandleRemoteBatch cd lp1) (await_synchronize cd k)
            else await_synchronize cd k lp1))"

declare await_synchronize.simps [simp del]

definition synchronize :: "'b codec \<Rightarrow> 'b \<Rightarrow> 'b local_paxos \<Rightarrow> 'b local_paxos option outcome" where
  "synchronize cd encoded lp =
     (let lp1 = send [MessageProto_new
            \<lparr>msg_data := [encoded], msg_type := SYNCHRONIZE, msg_destination_channel := ''paxos_log_'',
             msg_destination_node := lp_machines_per_replica lp * ucast (closed_replica lp),
             msg_misc_int := [ucast (lp_local_replica lp)]\<rparr>] lp
      in await_synchronize cd (length (lp_polls lp1)) lp1)"

definition RunLeaderStrong_iteration :: "'b codec \<Rightarrow> 'b local_paxos \<Rightarrow> 'b local_paxos option outcome" where
  "RunLeaderStrong_iteration cd lp0 =
     bindW (await_requests cd lp0) (\<lambda>lp.
       if lp_sequences_other lp \<noteq> [] then HandleRemoteBatch cd lp
       else let (encoded, lp1) = propose_local cd lp
            in bindW (replicate_sequence encoded [lp_global_next_version lp1, lp_local_next_version lp1] lp1) (\<lambda>lp2.
               bindW (synchronize cd encoded lp2) (\<lambda>lp3.
               bindE (finish_iteration cd [lp_local_replica lp3, closed_replica lp3] True encoded lp3) (\<lambda>lp4.
               Inr (Some lp4)))))"

section \<open>The followers\<close>

record 'b local_follower =
  lf_paxos :: "'b local_paxos"
  lf_uncommitted :: "'b message_proto list"

text \<open>The message is cleared before the number of its integers is asked for.\<close>

definition RunFollower_message ::
  "'b message_proto \<Rightarrow> 'b local_follower \<Rightarrow> ('b local_follower \<times> 'b message_proto list) outcome" where
  "RunFollower_message m f =
     (if msg_type m = PAXOS_DATA
      then bindE (rep_get (lp_participants (lf_paxos f)) 0) (\<lambda>leader. bindE (rep_get (msg_misc_int m) 0) (\<lambda>v.
             Inr (f\<lparr>lf_uncommitted := lf_uncommitted f @ [m]\<rparr>,
               [MessageProto_new\<lparr>msg_destination_node := leader, msg_type := PAXOS_DATA_ACK,
                  msg_destination_channel := ''paxos_ack_'', msg_misc_int := [v]\<rparr>])))
      else if msg_type m = PAXOS_COMMIT
      then CHECK (lf_uncommitted f \<noteq> [])
        (let front = hd (lf_uncommitted f)
         in bindE (rep_get (msg_misc_int front) 0) (\<lambda>global_version.
            bindE (rep_get (msg_data front) 0) (\<lambda>data.
            bindE (LocalMemLog_Append global_version data (lp_global_log (lf_paxos f))) (\<lambda>glog.
            let cleared = (MessageProto_new :: 'b message_proto);
                f1 = f\<lparr>lf_uncommitted := tl (lf_uncommitted f), lf_paxos := (lf_paxos f)\<lparr>lp_global_log := glog\<rparr>\<rparr>
            in if length (msg_misc_int cleared) > 1
               then bindE (rep_get (msg_misc_int cleared) 1) (\<lambda>local_version.
                    bindE (LocalMemLog_Append local_version data (lp_local_log (lf_paxos f1))) (\<lambda>llog.
                    Inr (f1\<lparr>lf_paxos := (lf_paxos f1)\<lparr>lp_local_log := llog\<rparr>\<rparr>, [])))
               else Inr (f1, [])))))
      else Inr (f, []))"

section \<open>Operations that do not order anything\<close>

definition on_channel :: "string \<Rightarrow> 'b message_proto list \<Rightarrow> 'b message_proto list" where
  "on_channel ch ms = filter (\<lambda>m. msg_destination_channel m = ch) ms"

lemma on_channel_append [simp]: "on_channel ch (xs @ ys) = on_channel ch xs @ on_channel ch ys"
  by (simp add: on_channel_def)

lemma on_channel_Nil [simp]: "on_channel ch [] = []"
  by (simp add: on_channel_def)

lemma on_channel_other: "\<forall>m \<in> set ms. msg_destination_channel m \<noteq> ch \<Longrightarrow> on_channel ch ms = []"
  by (simp add: on_channel_def filter_empty_conv)

text \<open>The same global log, numbers and machines, and nothing sent to schedulers or local followers.\<close>

definition quiet :: "'b local_paxos \<Rightarrow> 'b local_paxos \<Rightarrow> bool" where
  "quiet lp lp' \<longleftrightarrow> lp_global_log lp' = lp_global_log lp
     \<and> lp_global_next_version lp' = lp_global_next_version lp \<and> lp_participants lp' = lp_participants lp
     \<and> local_machines (lp_config lp') = local_machines (lp_config lp)
     \<and> on_channel ''scheduler_'' (lp_sent lp') = on_channel ''scheduler_'' (lp_sent lp)
     \<and> on_channel ''paxos_ack_'' (lp_sent lp') = on_channel ''paxos_ack_'' (lp_sent lp)"

lemma quiet_refl [simp, intro]: "quiet lp lp"
  by (simp add: quiet_def)

lemma quiet_trans [trans]: "quiet a b \<Longrightarrow> quiet b c \<Longrightarrow> quiet a c"
  by (simp add: quiet_def)

lemma quiet_foldE:
  assumes "\<And>x a b. f x a = Inr b \<Longrightarrow> quiet a b" and "foldE f xs lp = Inr lp'"
  shows "quiet lp lp'"
  using assms(2) by (rule foldE_invariant) (use assms(1) quiet_trans in \<open>blast+\<close>)

lemma quiet_receive_one: "receive_one cd m lp = Inr lp' \<Longrightarrow> quiet lp lp'"
  unfolding receive_one_def receive_new_sequence_def receive_new_sequence_ack_def
  by (auto simp: outcome_simps quiet_def send_def new_sequence_message_def on_channel_def Let_def
      split: if_splits option.splits prod.splits)

lemma quiet_ReceiveMessage: "ReceiveMessage cd lp = Inr lp' \<Longrightarrow> quiet lp lp'"
proof (cases "lp_polls lp")
  case (Cons ms polls)
  assume "ReceiveMessage cd lp = Inr lp'"
  with Cons have "quiet (lp\<lparr>lp_polls := polls\<rparr>) lp'"
    using quiet_foldE [OF quiet_receive_one] by (auto simp: ReceiveMessage_def)
  moreover have "quiet lp (lp\<lparr>lp_polls := polls\<rparr>)" by (simp add: quiet_def)
  ultimately show ?thesis by (rule quiet_trans [rotated])
qed (simp add: ReceiveMessage_def)

lemma quiet_receive_while: "receive_while cd w n lp = Inr (Some lp') \<Longrightarrow> quiet lp lp' \<and> \<not> w lp'"
proof (induction n arbitrary: lp)
  case 0
  then show ?case by (simp add: receive_while.simps split: if_splits)
next
  case (Suc n)
  show ?case
  proof (cases "w lp")
    case True
    with Suc.prems obtain lp1 where "ReceiveMessage cd lp = Inr lp1" "receive_while cd w n lp1 = Inr (Some lp')"
      by (auto simp: receive_while.simps [of _ _ "Suc n"] bindE_Inr_iff)
    with Suc.IH quiet_ReceiveMessage quiet_trans show ?thesis by blast
  next
    case False
    with Suc.prems show ?thesis by (simp add: receive_while.simps [of _ _ "Suc n"])
  qed
qed

lemma local_machines_GetGUID [simp]: "local_machines (snd (GetGUID c)) = local_machines c"
  by (simp add: local_machines_def GetGUID_def nodes_per_replica_def all_nodes_size_def)

lemma quiet_generate_batch: "generate_batch cd b lp = Inr (Some lp') \<Longrightarrow> quiet lp lp'"
proof -
  assume "generate_batch cd b lp = Inr (Some lp')"
  then obtain lp1 where 1: "receive_while cd (\<lambda>lp. lp_mr_txn_batches lp b = None) (length (lp_polls lp)) lp = Inr (Some lp1)"
    and 2: "quiet lp1 lp'"
    unfolding generate_batch_def bindW_Some_iff
    by (auto simp: Let_def case_prod_unfold quiet_def send_def LocalPaxos_Append_def generated_batch_def on_channel_def
        split: if_splits)
  show ?thesis using quiet_receive_while [OF 1] 2 quiet_trans by blast
qed

lemma quiet_generate_batches: "generate_batches cd bs lp = Inr (Some lp') \<Longrightarrow> quiet lp lp'"
  by (induction bs arbitrary: lp) (auto simp: bindW_Some_iff dest!: quiet_generate_batch intro: quiet_trans)

lemma quiet_append_local: "append_local e lp = Inr lp' \<Longrightarrow> quiet lp lp'"
  by (auto simp: append_local_def bindE_Inr_iff quiet_def)

lemma quiet_forward_to: "forward_to cd need i lp = Inr lp' \<Longrightarrow> quiet lp lp'"
  by (auto simp: forward_to_def outcome_simps quiet_def send_def new_sequence_message_def on_channel_def
      split: option.splits)

lemma quiet_first_forward: "first_forward cd skip lp = Inr lp' \<Longrightarrow> quiet lp lp'"
  using quiet_foldE [OF quiet_forward_to] by (fastforce simp: first_forward_def bindE_Inr_iff quiet_def)

lemma quiet_pending_forward: "pending_forward cd lp = Inr lp' \<Longrightarrow> quiet lp lp'"
  using quiet_foldE [OF quiet_forward_to] by (fastforce simp: pending_forward_def bindE_Inr_iff quiet_def)

lemmas quiet_intros = quiet_ReceiveMessage quiet_append_local quiet_first_forward quiet_pending_forward

section \<open>What an iteration orders\<close>

text \<open>The order of \<open>e\<close> as version \<open>v\<close>, as far as the schedulers read it.\<close>

definition order_view :: "'b message_proto \<Rightarrow> uint64 \<times> 'b \<times> uint64" where
  "order_view m = (hd (msg_misc_int m), hd (msg_data m), msg_destination_node m)"

definition order_views :: "uint64 list \<Rightarrow> (uint64 \<times> 'b) list \<Rightarrow> (uint64 \<times> 'b \<times> uint64) list" where
  "order_views ds es = concat (map (\<lambda>(v, e). map (\<lambda>d. (v, e, d)) ds) es)"

definition orders_sent :: "'b local_paxos \<Rightarrow> (uint64 \<times> 'b \<times> uint64) list" where
  "orders_sent lp = map order_view (on_channel ''scheduler_'' (lp_sent lp))"

lemma orders_sent_quiet: "quiet lp lp' \<Longrightarrow> orders_sent lp' = orders_sent lp"
  by (simp add: quiet_def orders_sent_def)

text \<open>Proposal and replication: one order to every local machine, data only to the followers.\<close>

definition ordered :: "'b \<Rightarrow> 'b local_paxos \<Rightarrow> 'b local_paxos \<Rightarrow> bool" where
  "ordered e lp lp' \<longleftrightarrow> lp_global_next_version lp' = lp_global_next_version lp + 1
     \<and> lp_participants lp' = lp_participants lp \<and> local_machines (lp_config lp') = local_machines (lp_config lp)
     \<and> orders_sent lp' = orders_sent lp @ order_views (local_machines (lp_config lp)) [(lp_global_next_version lp + 1, e)]
     \<and> (\<exists>data. on_channel ''paxos_ack_'' (lp_sent lp') = on_channel ''paxos_ack_'' (lp_sent lp) @ data
          \<and> (\<forall>m \<in> set data. msg_type m = PAXOS_DATA \<and> hd (msg_misc_int m) = lp_global_next_version lp + 1
               \<and> msg_misc_int m \<noteq> []))"

lemma replicate_sequence_ordered:
  assumes "replicate_sequence e (v # vs) lp = Inr (Some lp')"
  shows "lp_global_next_version lp' = lp_global_next_version lp" "lp_participants lp' = lp_participants lp"
    "lp_config lp' = lp_config lp" "lp_global_log lp' = lp_global_log lp" "lp_local_log lp' = lp_local_log lp"
    "lp_local_next_version lp' = lp_local_next_version lp" "lp_readers lp' = lp_readers lp"
    "orders_sent lp' = orders_sent lp @ order_views (local_machines (lp_config lp)) [(v, e)]"
    "\<exists>data. on_channel ''paxos_ack_'' (lp_sent lp') = on_channel ''paxos_ack_'' (lp_sent lp) @ data
       \<and> (\<forall>m \<in> set data. msg_type m = PAXOS_DATA \<and> hd (msg_misc_int m) = v \<and> msg_misc_int m \<noteq> [])"
proof -
  let ?m = "MessageProto_new\<lparr>msg_data := [e], msg_misc_int := v # vs\<rparr>"
  let ?data = "to_local_followers lp (?m\<lparr>msg_type := PAXOS_DATA, msg_destination_channel := ''paxos_ack_''\<rparr>)"
  let ?commit = "to_local_followers lp (?m\<lparr>msg_data := [], msg_type := PAXOS_COMMIT, msg_destination_channel := ''paxos_log_''\<rparr>)"
  obtain acks where lp': "lp' = send (order_messages (lp_config lp) ?m @ ?commit) ((send ?data lp)\<lparr>lp_acks := acks\<rparr>)"
    using assms by (auto simp: replicate_sequence_def Let_def bindW_Some_iff)
  then show "lp_global_next_version lp' = lp_global_next_version lp" "lp_participants lp' = lp_participants lp"
    "lp_config lp' = lp_config lp" "lp_global_log lp' = lp_global_log lp" "lp_local_log lp' = lp_local_log lp"
    "lp_local_next_version lp' = lp_local_next_version lp" "lp_readers lp' = lp_readers lp"
    by (simp_all add: send_def)
  have sched: "on_channel ''scheduler_'' ?data = []" "on_channel ''scheduler_'' ?commit = []"
    "on_channel ''scheduler_'' (order_messages (lp_config lp) ?m) = order_messages (lp_config lp) ?m"
    by (auto simp: on_channel_def to_local_followers_def order_messages_def filter_empty_conv)
  have "map order_view (order_messages (lp_config lp) ?m) = order_views (local_machines (lp_config lp)) [(v, e)]"
    by (simp add: order_views_def order_messages_def order_view_def)
  then show "orders_sent lp' = orders_sent lp @ order_views (local_machines (lp_config lp)) [(v, e)]"
    using sched by (simp add: orders_sent_def lp' send_def)
  have "on_channel ''paxos_ack_'' ?data = ?data" "on_channel ''paxos_ack_'' ?commit = []"
    "on_channel ''paxos_ack_'' (order_messages (lp_config lp) ?m) = []"
    by (auto simp: on_channel_def to_local_followers_def order_messages_def filter_empty_conv)
  then show "\<exists>data. on_channel ''paxos_ack_'' (lp_sent lp') = on_channel ''paxos_ack_'' (lp_sent lp) @ data
       \<and> (\<forall>m \<in> set data. msg_type m = PAXOS_DATA \<and> hd (msg_misc_int m) = v \<and> msg_misc_int m \<noteq> [])"
    by (intro exI [of _ ?data]) (auto simp: lp' send_def to_local_followers_def)
qed

lemma propose_local_quiet:
  "propose_local cd lp = (e, lp') \<Longrightarrow> e = enc_seq cd (lp_sequence lp)
     \<and> lp_global_next_version lp' = lp_global_next_version lp + 1
     \<and> quiet (lp\<lparr>lp_global_next_version := lp_global_next_version lp + 1\<rparr>) lp'"
  by (auto simp: propose_local_def quiet_def)

lemma propose_remote_quiet:
  assumes "propose_remote cd lp = Inr (Some (e, lp'))"
  shows "quiet (lp\<lparr>lp_global_next_version := lp_global_next_version lp + 1\<rparr>) lp'"
    "lp_global_next_version lp' = lp_global_next_version lp + 1"
proof -
  obtain s r rest where o: "lp_sequences_other lp = (s, r) # rest"
    using assms by (cases "lp_sequences_other lp") (auto simp: propose_remote_def)
  let ?lp1 = "lp\<lparr>lp_global_next_version := lp_global_next_version lp + 1, lp_sequences_other := rest\<rparr>"
  have "quiet ?lp1 lp'"
    using assms by (auto simp: propose_remote_def o bindW_Some_iff Let_def dest!: quiet_generate_batches split: if_splits)
  moreover have "quiet (lp\<lparr>lp_global_next_version := lp_global_next_version lp + 1\<rparr>) ?lp1" by (simp add: quiet_def)
  ultimately show q: "quiet (lp\<lparr>lp_global_next_version := lp_global_next_version lp + 1\<rparr>) lp'"
    by (rule quiet_trans [rotated])
  show "lp_global_next_version lp' = lp_global_next_version lp + 1" using q by (simp add: quiet_def)
qed

lemma append_global_facts:
  "append_global e lp = Inr lp' \<Longrightarrow>
     ml_entries (lp_global_log lp') = ml_entries (lp_global_log lp) @ [(lp_global_next_version lp, e)]
     \<and> lp' = lp\<lparr>lp_global_log := lp_global_log lp'\<rparr>"
  by (auto simp: append_global_def bindE_Inr_iff Append_fields)

lemma finish_iteration_facts:
  assumes "finish_iteration cd skip isLocal e lp = Inr lp'"
  shows "ml_entries (lp_global_log lp') = ml_entries (lp_global_log lp) @ [(lp_global_next_version lp, e)]
    \<and> quiet (lp\<lparr>lp_global_log := lp_global_log lp'\<rparr>) lp'"
proof -
  obtain lp1 lp2 lp3 where 1: "(if isLocal then append_local e lp else Inr lp) = Inr lp1"
    and 2: "append_global e lp1 = Inr lp2"
    and 3: "(if isLocal \<and> lp_is_first lp2 then first_forward cd skip lp2
            else if isLocal then pending_forward cd lp2 else Inr lp2) = Inr lp3"
    and 4: "ReceiveMessage cd lp3 = Inr lp'"
    using assms by (auto simp: finish_iteration_def bindE_Inr_iff)
  have q1: "quiet lp lp1" using 1 by (auto split: if_splits intro: quiet_append_local)
  have q3: "quiet lp2 lp3" using 3 by (auto split: if_splits intro: quiet_first_forward quiet_pending_forward)
  have q: "quiet lp2 lp'" using q3 quiet_ReceiveMessage [OF 4] by (rule quiet_trans)
  note a = append_global_facts [OF 2]
  have "quiet (lp\<lparr>lp_global_log := lp_global_log lp2\<rparr>) lp2"
    by (subst (2) conjunct2 [OF a]) (use q1 in \<open>simp add: quiet_def\<close>)
  with a q q1 show ?thesis by (simp add: quiet_def)
qed

definition ordered_and_logged :: "'b \<Rightarrow> 'b local_paxos \<Rightarrow> 'b local_paxos \<Rightarrow> bool" where
  "ordered_and_logged e lp lp' \<longleftrightarrow> ordered e lp lp'
     \<and> ml_entries (lp_global_log lp') = ml_entries (lp_global_log lp) @ [(lp_global_next_version lp + 1, e)]"

lemma ordered_steps:
  assumes "quiet (lp\<lparr>lp_global_next_version := lp_global_next_version lp + 1\<rparr>) lp1"
    and "replicate_sequence e (lp_global_next_version lp1 # vs) lp1 = Inr (Some lp2)"
  shows "ordered e lp lp2" "lp_global_log lp2 = lp_global_log lp"
proof -
  note r = replicate_sequence_ordered [OF assms(2)]
  have v: "lp_global_next_version lp1 = lp_global_next_version lp + 1" using assms(1) by (simp add: quiet_def)
  have "orders_sent lp1 = orders_sent lp" using assms(1) by (simp add: quiet_def orders_sent_def)
  then show "ordered e lp lp2" unfolding ordered_def using assms(1) r v by (auto simp: quiet_def)
  show "lp_global_log lp2 = lp_global_log lp" using assms(1) r(4) by (simp add: quiet_def)
qed

lemma quiet_await_requests: "await_requests cd lp = Inr (Some lp') \<Longrightarrow> quiet lp lp'"
  unfolding await_requests_def using quiet_receive_while by blast

lemma ordered_cong:
  assumes "quiet lp lp1" and "ordered e lp1 lp2" and "quiet (lp2\<lparr>lp_global_log := g\<rparr>) lp3"
  shows "ordered e lp lp3"
  using assms by (auto simp: ordered_def quiet_def orders_sent_def)

lemma RunLeader_iteration_orders:
  assumes "RunLeader_iteration cd lp = Inr (Some lp')"
  shows "\<exists>e. ordered_and_logged e lp lp'"
proof -
  obtain lp1 where 1: "await_requests cd lp = Inr (Some lp1)"
    using assms by (auto simp: RunLeader_iteration_def bindW_Some_iff)
  define lpa where "lpa = lp1\<lparr>lp_alternate := (lp_alternate lp1 + 1) mod 10\<rparr>"
  define isLocal where "isLocal \<longleftrightarrow> (lp_alternate lpa < 1 \<and> lp_local_count lpa > 0) \<or> lp_sequences_other lpa = []"
  obtain e lp2 lp3 where 2: "(if isLocal then Inr (Some (propose_local cd lpa)) else propose_remote cd lpa) = Inr (Some (e, lp2))"
    and 3: "replicate_sequence e (if isLocal then [lp_global_next_version lp2, lp_local_next_version lp2]
        else [lp_global_next_version lp2]) lp2 = Inr (Some lp3)"
    and 4: "finish_iteration cd [lp_local_replica lp3] isLocal e lp3 = Inr lp'"
    using assms unfolding RunLeader_iteration_def 1 bindW_simps Let_def lpa_def [symmetric] isLocal_def [symmetric]
    by (auto simp: bindE_Inr_iff bindW_Some_iff)
  have qa: "quiet lp lpa"
    using quiet_await_requests [OF 1] by (auto simp: lpa_def quiet_def)
  have q2: "quiet (lpa\<lparr>lp_global_next_version := lp_global_next_version lpa + 1\<rparr>) lp2"
  proof (cases isLocal)
    case True
    with 2 have "propose_local cd lpa = (e, lp2)" by simp
    from propose_local_quiet [OF this] show ?thesis by simp
  next
    case False
    with 2 have "propose_remote cd lpa = Inr (Some (e, lp2))" by simp
    from propose_remote_quiet(1) [OF this] show ?thesis .
  qed
  obtain vs where vs: "(if isLocal then [lp_global_next_version lp2, lp_local_next_version lp2]
        else [lp_global_next_version lp2]) = lp_global_next_version lp2 # vs"
    using that by (cases isLocal) simp_all
  note o = ordered_steps [OF q2 3 [unfolded vs]] and f = finish_iteration_facts [OF 4]
  have "ordered e lp lp'" by (rule ordered_cong [OF qa o(1) conjunct2 [OF f]])
  moreover have "ml_entries (lp_global_log lp') = ml_entries (lp_global_log lp) @ [(lp_global_next_version lp + 1, e)]"
    using f o qa by (simp add: ordered_def quiet_def)
  ultimately show ?thesis by (auto simp: ordered_and_logged_def)
qed

section \<open>Runs of the leader\<close>

text \<open>Between the iterations the sequencer appends batches and the connection brings messages.\<close>

inductive leader_step :: "'b codec \<Rightarrow> 'b local_paxos \<Rightarrow> 'b local_paxos \<Rightarrow> bool" for cd :: "'b codec" where
  leader_append: "leader_step cd lp (LocalPaxos_Append b lp)"
| leader_input: "leader_step cd lp (lp\<lparr>lp_polls := lp_polls lp @ polls, lp_acks := lp_acks lp @ acks\<rparr>)"
| leader_iterate: "RunLeader_iteration cd lp = Inr (Some lp') \<Longrightarrow> leader_step cd lp lp'"

definition leader_reachable :: "'b codec \<Rightarrow> cluster_config \<Rightarrow> uint32 \<Rightarrow> 'b local_paxos \<Rightarrow> bool" where
  "leader_reachable cd c type lp \<longleftrightarrow> (leader_step cd)\<^sup>*\<^sup>* (start_leader (LocalPaxos_new c type)) lp"

definition orders_inv :: "cluster_config \<Rightarrow> 'b local_paxos \<Rightarrow> bool" where
  "orders_inv c lp \<longleftrightarrow> local_machines (lp_config lp) = local_machines c
     \<and> lp_global_next_version lp = of_nat (length (ml_entries (lp_global_log lp)))
     \<and> map fst (ml_entries (lp_global_log lp)) = map of_nat [1..<Suc (length (ml_entries (lp_global_log lp)))]
     \<and> orders_sent lp = order_views (local_machines c) (ml_entries (lp_global_log lp))
     \<and> (\<forall>m \<in> set (on_channel ''paxos_ack_'' (lp_sent lp)). msg_type m = PAXOS_DATA \<and> msg_misc_int m \<noteq> [])"

lemma order_views_snoc: "order_views ds (es @ [e]) = order_views ds es @ order_views ds [e]"
  by (simp add: order_views_def)

lemma leader_reachable_orders: "leader_reachable cd c type lp \<Longrightarrow> orders_inv c lp"
  unfolding leader_reachable_def
proof (induction rule: rtranclp_induct)
  case base
  show ?case
    by (simp add: orders_inv_def start_leader_def LocalPaxos_new_def orders_sent_def order_views_def)
next
  case (step lp lp')
  from step.hyps(2) show ?case
  proof cases
    case (leader_append b)
    then show ?thesis using step.IH by (simp add: orders_inv_def LocalPaxos_Append_def orders_sent_def)
  next
    case (leader_input polls acks)
    then show ?thesis using step.IH by (simp add: orders_inv_def orders_sent_def)
  next
    case leader_iterate
    then obtain e where o: "ordered e lp lp'"
      and l: "ml_entries (lp_global_log lp') = ml_entries (lp_global_log lp) @ [(lp_global_next_version lp + 1, e)]"
      using RunLeader_iteration_orders [OF leader_iterate] by (auto simp: ordered_and_logged_def)
    let ?es = "ml_entries (lp_global_log lp)"
    have v: "lp_global_next_version lp + 1 = of_nat (Suc (length ?es))"
      using step.IH by (simp add: orders_inv_def)
    have "lp_global_next_version lp' = of_nat (length (ml_entries (lp_global_log lp')))"
      using o v l by (simp add: ordered_def)
    moreover have "map fst (ml_entries (lp_global_log lp')) = map of_nat [1..<Suc (length (ml_entries (lp_global_log lp')))]"
      using step.IH v by (simp add: orders_inv_def l)
    moreover have "orders_sent lp' = order_views (local_machines c) (ml_entries (lp_global_log lp'))"
      unfolding l order_views_snoc using o step.IH by (simp add: ordered_def orders_inv_def)
    moreover have "\<forall>m \<in> set (on_channel ''paxos_ack_'' (lp_sent lp')). msg_type m = PAXOS_DATA \<and> msg_misc_int m \<noteq> []"
      using o step.IH by (auto simp: ordered_def orders_inv_def)
    ultimately show ?thesis using o step.IH by (simp add: orders_inv_def ordered_def)
  qed
qed

text \<open>
  C24: in every run of \<open>RunLeader\<close>, the leader of the types other than 2 (of
  \<open>RunLeaderStrong\<close>, the leader of type 2, it is not true, see
  \<open>strong_leader_logs_late_version\<close>), with any appends, messages and acks, the global log
  holds the versions 1, 2, 3, ... without gap or repetition, and every machine of the replica has been
  sent exactly the entries of the global log as orders, with the same version, in the same order.
\<close>

theorem local_paxos_orders_global_log:
  assumes "leader_reachable cd c type lp"
  shows "map fst (ml_entries (lp_global_log lp)) = map of_nat [1..<Suc (length (ml_entries (lp_global_log lp)))]
    \<and> orders_sent lp = order_views (local_machines c) (ml_entries (lp_global_log lp))"
  using leader_reachable_orders [OF assms] by (simp add: orders_inv_def)

text \<open>
  The followers of a local leader never apply anything: whatever the leader has sent them on the
  channel they read is handled without changing either log, and only adds to their uncommitted
  proposals. The commits go to another channel.
\<close>

theorem local_followers_never_apply:
  assumes "leader_reachable cd c type lp" and "lp_participants (lf_paxos f) \<noteq> []"
  shows "\<exists>f'. foldE (\<lambda>m f. bindE (RunFollower_message m f) (\<lambda>(f', _). Inr f'))
      (filter (\<lambda>m. msg_destination_node m = d) (on_channel ''paxos_ack_'' (lp_sent lp))) f = Inr f'
    \<and> lf_paxos f' = lf_paxos f
    \<and> lf_uncommitted f' = lf_uncommitted f @ filter (\<lambda>m. msg_destination_node m = d) (on_channel ''paxos_ack_'' (lp_sent lp))"
proof -
  have data: "msg_type m = PAXOS_DATA \<and> msg_misc_int m \<noteq> []"
    if "m \<in> set (filter (\<lambda>m. msg_destination_node m = d) (on_channel ''paxos_ack_'' (lp_sent lp)))" for m
    using leader_reachable_orders [OF assms(1)] that by (auto simp: orders_inv_def)
  have "\<exists>f'. foldE (\<lambda>m f. bindE (RunFollower_message m f) (\<lambda>(f', _). Inr f')) ms f = Inr f'
      \<and> lf_paxos f' = lf_paxos f \<and> lf_uncommitted f' = lf_uncommitted f @ ms"
    if "\<And>m. m \<in> set ms \<Longrightarrow> msg_type m = PAXOS_DATA \<and> msg_misc_int m \<noteq> []" "lp_participants (lf_paxos f) \<noteq> []"
    for ms :: "'a message_proto list" and f
    using that
  proof (induction ms arbitrary: f)
    case (Cons m ms)
    obtain sent where "RunFollower_message m f = Inr (f\<lparr>lf_uncommitted := lf_uncommitted f @ [m]\<rparr>, sent)"
      using Cons.prems by (auto simp: RunFollower_message_def rep_get_def)
    moreover obtain f' where
      "foldE (\<lambda>m f. bindE (RunFollower_message m f) (\<lambda>(f', _). Inr f')) ms (f\<lparr>lf_uncommitted := lf_uncommitted f @ [m]\<rparr>) = Inr f'"
      "lf_paxos f' = lf_paxos f" "lf_uncommitted f' = (lf_uncommitted f @ [m]) @ ms"
      using Cons.IH [of "f\<lparr>lf_uncommitted := lf_uncommitted f @ [m]\<rparr>"] Cons.prems by auto
    ultimately show ?case by simp
  qed simp
  from this [OF data assms(2)] show ?thesis by blast
qed

section \<open>The stronger availability mode\<close>

lemma HandleRemoteBatch_orders:
  assumes "HandleRemoteBatch cd lp = Inr (Some lp')"
  shows "\<exists>e. ordered_and_logged e lp lp'"
proof -
  obtain e lp1 lp2 where 1: "propose_remote cd lp = Inr (Some (e, lp1))"
    and 2: "replicate_sequence e [lp_global_next_version lp1] lp1 = Inr (Some lp2)" and 3: "append_global e lp2 = Inr lp'"
    using assms by (auto simp: HandleRemoteBatch_def bindW_Some_iff bindE_Inr_iff)
  note o = ordered_steps [OF propose_remote_quiet(1) [OF 1] 2] and a = append_global_facts [OF 3]
  have "quiet (lp2\<lparr>lp_global_log := lp_global_log lp'\<rparr>) lp'" by (subst (2) conjunct2 [OF a]) simp
  then have "ordered e lp lp'" by (rule ordered_cong [OF quiet_refl o(1)])
  then show ?thesis using a o by (auto simp: ordered_and_logged_def ordered_def)
qed

text \<open>Waiting for the synchronisation orders and logs a number \<open>n\<close> of sequences of other replicas.\<close>

definition ordered_many :: "(uint64 \<times> 'b) list \<Rightarrow> 'b local_paxos \<Rightarrow> 'b local_paxos \<Rightarrow> bool" where
  "ordered_many es lp lp' \<longleftrightarrow> lp_global_next_version lp' = lp_global_next_version lp + of_nat (length es)
     \<and> local_machines (lp_config lp') = local_machines (lp_config lp)
     \<and> orders_sent lp' = orders_sent lp @ order_views (local_machines (lp_config lp)) es
     \<and> ml_entries (lp_global_log lp') = ml_entries (lp_global_log lp) @ es"

lemma ordered_many_quiet: "quiet lp lp' \<Longrightarrow> ordered_many [] lp lp'"
  by (auto simp: ordered_many_def quiet_def orders_sent_def order_views_def)

lemma ordered_many_trans: "ordered_many es a b \<Longrightarrow> ordered_many es' b c \<Longrightarrow> ordered_many (es @ es') a c"
  by (auto simp: ordered_many_def order_views_def)

lemma ordered_many_one: "ordered_and_logged e a b \<Longrightarrow> \<exists>es. ordered_many es a b"
  by (intro exI [of _ "[(lp_global_next_version a + 1, e)]"])
    (simp add: ordered_many_def ordered_and_logged_def ordered_def)

lemma await_synchronize_orders:
  "await_synchronize cd n lp = Inr (Some lp') \<Longrightarrow> \<exists>es. ordered_many es lp lp'"
proof (induction n arbitrary: lp)
  case 0
  then have "lp' = lp\<lparr>lp_received_synchronize_ack := False\<rparr>"
    by (simp add: await_synchronize.simps split: if_splits)
  then have "quiet lp lp'" by (simp add: quiet_def)
  then show ?case using ordered_many_quiet by blast
next
  case (Suc n)
  show ?case
  proof (cases "lp_received_synchronize_ack lp")
    case True
    with Suc.prems have "lp' = lp\<lparr>lp_received_synchronize_ack := False\<rparr>"
      by (simp add: await_synchronize.simps [of _ "Suc n"])
    then have "quiet lp lp'" by (simp add: quiet_def)
    then show ?thesis using ordered_many_quiet by blast
  next
    case False
    with Suc.prems obtain lp1 where 1: "ReceiveMessage cd lp = Inr lp1"
      and 2: "(if lp_sequences_other lp1 \<noteq> [] then bindW (HandleRemoteBatch cd lp1) (await_synchronize cd n)
               else await_synchronize cd n lp1) = Inr (Some lp')"
      by (auto simp: await_synchronize.simps [of _ "Suc n"] bindE_Inr_iff)
    have "\<exists>es. ordered_many es lp1 lp'"
    proof (cases "lp_sequences_other lp1 = []")
      case True
      with 2 show ?thesis using Suc.IH by simp
    next
      case False
      with 2 obtain lp2 where "HandleRemoteBatch cd lp1 = Inr (Some lp2)" "await_synchronize cd n lp2 = Inr (Some lp')"
        by (auto simp: bindW_Some_iff)
      then show ?thesis using HandleRemoteBatch_orders ordered_many_one Suc.IH ordered_many_trans by meson
    qed
    then show ?thesis using ordered_many_trans [OF ordered_many_quiet [OF quiet_ReceiveMessage [OF 1]]] by blast
  qed
qed

text \<open>
  In the stronger availability mode a local sequence is ordered as version \<open>g + 1\<close>, where \<open>g\<close> is the
  number of the last one before, then the sequences \<open>es\<close> of other replicas that arrive during the
  synchronisation are ordered and logged, and only then is the local sequence appended to the global
  log, under the number \<open>g + 1 + length es\<close> the counter has reached meanwhile.
\<close>

theorem strong_leader_logs_late_version:
  assumes "RunLeaderStrong_iteration cd lp = Inr (Some lp')" and "lp_local_count lp \<noteq> 0" and "lp_sequences_other lp = []"
  shows "\<exists>es. orders_sent lp' = orders_sent lp @ order_views (local_machines (lp_config lp))
        ((lp_global_next_version lp + 1, enc_seq cd (lp_sequence lp)) # es)
    \<and> ml_entries (lp_global_log lp') = ml_entries (lp_global_log lp) @ es
        @ [(lp_global_next_version lp + 1 + of_nat (length es), enc_seq cd (lp_sequence lp))]"
proof -
  have 0: "await_requests cd lp = Inr (Some lp)"
    using assms(2,3) by (simp add: await_requests_def receive_while.simps)
  obtain e lp1 where 1: "propose_local cd lp = (e, lp1)" by (cases "propose_local cd lp")
  obtain lp2 lp3 where 2: "replicate_sequence e [lp_global_next_version lp1, lp_local_next_version lp1] lp1 = Inr (Some lp2)"
    and 3: "synchronize cd e lp2 = Inr (Some lp3)"
    and 4: "finish_iteration cd [lp_local_replica lp3, closed_replica lp3] True e lp3 = Inr lp'"
    using assms(1,3) by (auto simp: RunLeaderStrong_iteration_def 0 1 bindW_Some_iff bindE_Inr_iff)
  have e: "e = enc_seq cd (lp_sequence lp)" using propose_local_quiet [OF 1] by simp
  have q1: "quiet (lp\<lparr>lp_global_next_version := lp_global_next_version lp + 1\<rparr>) lp1"
    using propose_local_quiet [OF 1] by simp
  note o = ordered_steps [OF q1 2] and f = finish_iteration_facts [OF 4]
  let ?sync = "MessageProto_new\<lparr>msg_data := [e], msg_type := SYNCHRONIZE, msg_destination_channel := ''paxos_log_'',
     msg_destination_node := lp_machines_per_replica lp2 * ucast (closed_replica lp2),
     msg_misc_int := [ucast (lp_local_replica lp2)]\<rparr>"
  have "quiet lp2 (send [?sync] lp2)" by (simp add: quiet_def send_def on_channel_def)
  moreover obtain es where "ordered_many es (send [?sync] lp2) lp3"
    using await_synchronize_orders [OF 3 [unfolded synchronize_def Let_def]] by (elim exE) (rule that)
  ultimately have es: "ordered_many es lp2 lp3"
    using ordered_many_trans [OF ordered_many_quiet, of lp2 "send [?sync] lp2" es lp3] by simp
  have "orders_sent lp' = orders_sent lp3" using f by (simp add: quiet_def orders_sent_def)
  then show ?thesis using o es f
    by (intro exI [of _ es]) (simp add: ordered_def ordered_many_def e order_views_def)
qed

section \<open>The forwarding of local sequences\<close>

text \<open>The sequences that have been sent to replica \<open>i\<close>, in order.\<close>

definition new_sequences :: "'b codec \<Rightarrow> uint64 \<Rightarrow> 'b message_proto list \<Rightarrow> sequence_batch" where
  "new_sequences cd node ms = concat (map (\<lambda>m. dec_seq_batch cd (hd (msg_data m)))
     (filter (\<lambda>m. msg_type m = NEW_SEQUENCE \<and> msg_destination_node m = node) ms))"

lemma new_sequences_append [simp]:
  "new_sequences cd node (xs @ ys) = new_sequences cd node xs @ new_sequences cd node ys"
  by (simp add: new_sequences_def)

lemma new_sequences_other: "\<forall>m \<in> set ms. msg_type m \<noteq> NEW_SEQUENCE \<Longrightarrow> new_sequences cd node ms = []"
  by (simp add: new_sequences_def filter_empty_conv)

definition log_sequences :: "'b codec \<Rightarrow> 'b mem_log \<Rightarrow> sequence_batch" where
  "log_sequences cd log = map (\<lambda>e. dec_seq cd (snd e)) (ml_entries log)"

lemma length_log_sequences [simp]: "length (log_sequences cd log) = length (ml_entries log)"
  by (simp add: log_sequences_def)

lemma drain_reader_all:
  assumes "reader_ok log r"
  shows "\<exists>r'. drain_reader cd log latest r = Inr (drop (position r) (log_sequences cd log),
      if position r = length (ml_entries log) then latest else fst (last (ml_entries log)), r')
    \<and> reader_ok log r' \<and> position r' = length (ml_entries log)"
proof -
  obtain r' where r': "read_loop (Reader_Next log) reader_entry (ml_size log) r
      = Inr (map Some (drop (position r) (ml_entries log)), r')" "reader_ok log r'"
    "position r' = length (ml_entries log)"
    using ml.read_loop_all [OF assms, of "ml_size log"] by (auto simp: ml_size_def)
  have "position r \<le> length (ml_entries log)" using ml.pos_le [OF assms] .
  then have "drop (position r) (ml_entries log) = [] \<longleftrightarrow> position r = length (ml_entries log)"
    "position r \<noteq> length (ml_entries log) \<Longrightarrow>
       last (map Some (drop (position r) (ml_entries log))) = Some (last (ml_entries log))"
    by (auto simp: last_map)
  with r' show ?thesis by (simp add: drain_reader_def log_sequences_def drop_map o_def)
qed

text \<open>
  Every reader stands where its replica has been sent the log up to; the log has the versions 1, 2, ...;
  a message to a replica carries a version its reader has passed.
\<close>

definition forward_inv :: "'b codec \<Rightarrow> 'b local_paxos \<Rightarrow> bool" where
  "forward_inv cd lp \<longleftrightarrow>
     (\<forall>i r. lp_readers lp i = Some r \<longrightarrow> reader_ok (lp_local_log lp) r
        \<and> new_sequences cd (ucast i * lp_machines_per_replica lp) (lp_sent lp)
            = take (position r) (log_sequences cd (lp_local_log lp))
        \<and> (\<forall>m \<in> set (lp_sent lp). msg_type m = NEW_SEQUENCE
             \<longrightarrow> msg_destination_node m = ucast i * lp_machines_per_replica lp
             \<longrightarrow> (\<exists>k \<le> position r. msg_misc_int m ! 1 = of_nat k)))
     \<and> map fst (ml_entries (lp_local_log lp)) = map of_nat [1..<Suc (length (ml_entries (lp_local_log lp)))]
     \<and> length (ml_entries (lp_local_log lp)) < 2 ^ 64
     \<and> (\<forall>i j. lp_readers lp i \<noteq> None \<longrightarrow> lp_readers lp j \<noteq> None \<longrightarrow>
          ucast i * lp_machines_per_replica lp = (ucast j * lp_machines_per_replica lp :: uint64) \<longrightarrow> i = j)"

lemma forward_invD:
  assumes "forward_inv cd lp" and "lp_readers lp i = Some r"
  shows "reader_ok (lp_local_log lp) r"
    "new_sequences cd (ucast i * lp_machines_per_replica lp) (lp_sent lp)
       = take (position r) (log_sequences cd (lp_local_log lp))"
    "m \<in> set (lp_sent lp) \<Longrightarrow> msg_type m = NEW_SEQUENCE \<Longrightarrow>
       msg_destination_node m = ucast i * lp_machines_per_replica lp \<Longrightarrow> \<exists>k \<le> position r. msg_misc_int m ! 1 = of_nat k"
    "lp_readers lp j \<noteq> None \<Longrightarrow>
       ucast i * lp_machines_per_replica lp = (ucast j * lp_machines_per_replica lp :: uint64) \<Longrightarrow> i = j"
    "position r \<le> length (ml_entries (lp_local_log lp))"
    "ml_entries (lp_local_log lp) \<noteq> [] \<Longrightarrow>
       fst (last (ml_entries (lp_local_log lp))) = of_nat (length (ml_entries (lp_local_log lp)))"
    "length (ml_entries (lp_local_log lp)) < 2 ^ 64"
proof -
  have v: "map fst (ml_entries (lp_local_log lp)) = map of_nat [1..<Suc (length (ml_entries (lp_local_log lp)))]"
    using assms(1) unfolding forward_inv_def by blast
  show "fst (last (ml_entries (lp_local_log lp))) = of_nat (length (ml_entries (lp_local_log lp)))"
    if "ml_entries (lp_local_log lp) \<noteq> []"
    using arg_cong [OF v, of last] that by (simp add: last_map del: upt_Suc)
  show ok: "reader_ok (lp_local_log lp) r" using assms unfolding forward_inv_def by blast
  show "position r \<le> length (ml_entries (lp_local_log lp))" using ml.pos_le [OF ok] .
qed (use assms in \<open>unfold forward_inv_def, blast+\<close>)

lemma forward_inv_todo [simp]: "forward_inv cd (lp\<lparr>lp_new_sequence_todo := t\<rparr>) = forward_inv cd lp"
  by (simp add: forward_inv_def)

lemma send_Nil [simp]: "send [] lp = lp"
  by (simp add: send_def)

text \<open>An ack is genuine if it answers a message this leader has sent to that replica.\<close>

definition genuine_ack :: "'b local_paxos \<Rightarrow> 'b message_proto \<Rightarrow> bool" where
  "genuine_ack lp m \<longleftrightarrow> msg_type m = NEW_SEQUENCE_ACK \<longrightarrow>
     (\<exists>s \<in> set (lp_sent lp). msg_type s = NEW_SEQUENCE \<and> msg_misc_int s ! 1 = msg_misc_int m ! 1
        \<and> msg_destination_node s = ucast (ucast (msg_misc_int m ! 0) :: uint32) * lp_machines_per_replica lp)"

definition genuine_acks :: "'b local_paxos \<Rightarrow> bool" where
  "genuine_acks lp \<longleftrightarrow> (\<forall>m \<in> set (concat (lp_polls lp)). genuine_ack lp m)"

definition grows :: "'b local_paxos \<Rightarrow> 'b local_paxos \<Rightarrow> bool" where
  "grows lp lp' \<longleftrightarrow> lp_machines_per_replica lp' = lp_machines_per_replica lp
     \<and> lp_local_next_version lp' = lp_local_next_version lp \<and> lp_local_log lp' = lp_local_log lp
     \<and> dom (lp_readers lp') = dom (lp_readers lp) \<and> set (lp_sent lp) \<subseteq> set (lp_sent lp') \<and> set (concat (lp_polls lp')) \<subseteq> set (concat (lp_polls lp))"

lemma grows_refl [simp]: "grows lp lp"
  by (simp add: grows_def)

lemma grows_trans: "grows a b \<Longrightarrow> grows b c \<Longrightarrow> grows a c"
  unfolding grows_def by (metis (no_types, lifting) subset_trans)

lemma grows_genuine: "grows lp lp' \<Longrightarrow> genuine_ack lp m \<Longrightarrow> genuine_ack lp' m"
  by (auto simp: grows_def genuine_ack_def)

lemma grows_genuine_acks: "grows lp lp' \<Longrightarrow> genuine_acks lp \<Longrightarrow> genuine_acks lp'"
  using grows_genuine unfolding genuine_acks_def grows_def by blast

text \<open>Steps that keep the invariant, the local log and its number.\<close>

definition forwards_ok :: "'b codec \<Rightarrow> 'b local_paxos \<Rightarrow> 'b local_paxos \<Rightarrow> bool" where
  "forwards_ok cd lp lp' \<longleftrightarrow> grows lp lp' \<and> (forward_inv cd lp \<longrightarrow> forward_inv cd lp')"

lemma forwards_ok_refl [simp]: "forwards_ok cd lp lp"
  by (simp add: forwards_ok_def)

lemma forwards_ok_trans [trans]: "forwards_ok cd a b \<Longrightarrow> forwards_ok cd b c \<Longrightarrow> forwards_ok cd a c"
  using grows_trans by (auto simp: forwards_ok_def)

text \<open>An operation that changes neither the local log nor the readers and forwards nothing.\<close>

lemma no_forward_ok:
  assumes "lp_local_log lp' = lp_local_log lp" "lp_readers lp' = lp_readers lp"
    "lp_machines_per_replica lp' = lp_machines_per_replica lp" "lp_local_next_version lp' = lp_local_next_version lp"
    "set (concat (lp_polls lp')) \<subseteq> set (concat (lp_polls lp))"
    "\<exists>ms. lp_sent lp' = lp_sent lp @ ms \<and> (\<forall>m \<in> set ms. msg_type m \<noteq> NEW_SEQUENCE)"
  shows "forwards_ok cd lp lp'"
  using assms by (auto simp: forwards_ok_def grows_def forward_inv_def new_sequences_other)

text \<open>The reader of replica \<open>i\<close> is drained and what it found, if anything, is sent.\<close>

lemma drained_inv:
  assumes "codec_ok cd" and inv: "forward_inv cd lp" and r: "lp_readers lp i = Some r"
    and d: "drain_reader cd (lp_local_log lp) known r = Inr (batch, latest, r')"
    and sent: "ms = [new_sequence_message cd lp1 i batch latest] \<and> (batch = [] \<longrightarrow> latest = 0) \<or> ms = [] \<and> batch = []"
    and lp1: "lp1 = lp\<lparr>lp_readers := (lp_readers lp)(i \<mapsto> r')\<rparr>"
  shows "forward_inv cd (send ms lp1)"
proof -
  let ?log = "lp_local_log lp" and ?n = "length (ml_entries (lp_local_log lp))"
  let ?node = "\<lambda>i. ucast i * lp_machines_per_replica lp :: uint64"
  note I = forward_invD [OF inv r]
  from drain_reader_all [OF I(1), of cd known] d have b: "batch = drop (position r) (log_sequences cd ?log)"
    and l: "latest = (if position r = ?n then known else fst (last (ml_entries ?log)))"
    and r': "reader_ok ?log r'" "position r' = ?n" by auto
  have new: "new_sequences cd n ms = (if n = ?node i then batch else [])" for n
    using sent assms(1) by (auto simp: new_sequences_def new_sequence_message_def lp1)
  have carried: "\<exists>k \<le> ?n. msg_misc_int m ! 1 = of_nat k" if "m \<in> set ms" for m
  proof (cases "batch = []")
    case True
    with that sent show ?thesis by (auto simp: new_sequence_message_def intro: exI [of _ 0])
  next
    case False
    then have "position r \<noteq> ?n" "ml_entries ?log \<noteq> []" using b by auto
    then have "latest = of_nat ?n" using l I(6) by simp
    with that sent show ?thesis by (auto simp: new_sequence_message_def)
  qed
  have inj: "?node j = ?node i \<longleftrightarrow> j = i" if "lp_readers lp j \<noteq> None" for j
    using I(4) [OF that] by auto
  have "reader_ok ?log s \<and> new_sequences cd (?node j) (lp_sent lp @ ms) = take (position s) (log_sequences cd ?log)
      \<and> (\<forall>m \<in> set (lp_sent lp @ ms). msg_type m = NEW_SEQUENCE \<longrightarrow> msg_destination_node m = ?node j
           \<longrightarrow> (\<exists>k \<le> position s. msg_misc_int m ! 1 = of_nat k))"
    if "((lp_readers lp)(i \<mapsto> r')) j = Some s" for j s
  proof (cases "j = i")
    case True
    then have s: "s = r'" using that by simp
    have "take (position r) (log_sequences cd ?log) @ batch = log_sequences cd ?log" by (simp add: b)
    moreover have "\<exists>k \<le> ?n. msg_misc_int m ! 1 = of_nat k"
      if "m \<in> set (lp_sent lp @ ms)" "msg_type m = NEW_SEQUENCE" "msg_destination_node m = ?node i" for m
      using that carried [of m] I(3) [of m] I(5) le_trans by (metis Un_iff set_append)
    ultimately show ?thesis using r' I(2) True s by (simp add: new)
  next
    case False
    then have s: "lp_readers lp j = Some s" using that by simp
    then have other: "?node j \<noteq> ?node i" using inj [of j] False by auto
    have "msg_destination_node m = ?node i" if "m \<in> set ms" for m
      using that sent by (auto simp: new_sequence_message_def lp1)
    with other forward_invD [OF inv s] show ?thesis by (auto simp: new)
  qed
  moreover have "\<forall>j k. ((lp_readers lp)(i \<mapsto> r')) j \<noteq> None \<longrightarrow> ((lp_readers lp)(i \<mapsto> r')) k \<noteq> None \<longrightarrow>
      ?node j = ?node k \<longrightarrow> j = k"
    using inj inv r unfolding forward_inv_def by (metis fun_upd_apply option.distinct(1))
  moreover have "map fst (ml_entries ?log) = map of_nat [1..<Suc ?n]"
    using inv unfolding forward_inv_def by blast
  moreover have "lp_readers (send ms lp1) = (lp_readers lp)(i \<mapsto> r')" "lp_sent (send ms lp1) = lp_sent lp @ ms"
    "lp_local_log (send ms lp1) = ?log" "lp_machines_per_replica (send ms lp1) = lp_machines_per_replica lp"
    by (simp_all add: send_def lp1)
  ultimately show ?thesis using I(7) unfolding forward_inv_def by presburger
qed

lemma forward_to_ok:
  assumes "codec_ok cd" and "forward_to cd need i lp = Inr lp'"
  shows "forwards_ok cd lp lp'"
proof -
  obtain r batch latest r' where r: "lp_readers lp i = Some r"
    and d: "drain_reader cd (lp_local_log lp) 0 r = Inr (batch, latest, r')"
    and lp': "lp' = send [new_sequence_message cd lp i batch latest] (lp\<lparr>lp_readers := (lp_readers lp)(i \<mapsto> r')\<rparr>)"
    using assms(2) by (auto simp: forward_to_def outcome_simps split: option.splits)
  have "batch = [] \<longrightarrow> latest = 0" if "reader_ok (lp_local_log lp) r"
    using drain_reader_all [OF that, of cd 0] d ml.pos_le [OF that] by auto
  with drained_inv [OF assms(1) _ r d _ refl, of "[new_sequence_message cd lp i batch latest]"]
  have "forward_inv cd lp \<longrightarrow> forward_inv cd lp'"
    using forward_invD(1) [OF _ r] by (auto simp: lp' new_sequence_message_def)
  then show ?thesis by (auto simp: forwards_ok_def grows_def lp' send_def r)
qed

lemma of_nat_eq_below: "of_nat m = (of_nat n :: uint64) \<Longrightarrow> m < 2 ^ 64 \<Longrightarrow> n < 2 ^ 64 \<Longrightarrow> m = n"
  by (simp add: of_nat_word_eq)

lemma receive_new_sequence_ack_ok:
  assumes "codec_ok cd" and "receive_new_sequence_ack cd m lp = Inr lp'" and g: "genuine_ack lp m"
    and "msg_type m = NEW_SEQUENCE_ACK"
  shows "forwards_ok cd lp lp'"
proof -
  let ?i = "ucast (msg_misc_int m ! 0) :: uint32" and ?known = "msg_misc_int m ! 1"
  obtain r batch latest r' where r: "lp_readers lp ?i = Some r"
    and d: "drain_reader cd (lp_local_log lp) ?known r = Inr (batch, latest, r')"
    and lp': "lp' = (let lp1 = lp\<lparr>lp_readers := (lp_readers lp)(?i \<mapsto> r')\<rparr>
      in if latest = ?known then lp1\<lparr>lp_new_sequence_todo := os_insert ?i (lp_new_sequence_todo lp1)\<rparr>
         else send [new_sequence_message cd lp1 ?i batch latest] lp1)"
    using assms(2) by (auto simp: receive_new_sequence_ack_def outcome_simps Let_def rep_get_def
        split: option.splits if_splits)
  have "forward_inv cd lp'" if inv: "forward_inv cd lp"
  proof -
    note I = forward_invD [OF inv r]
    obtain s where "s \<in> set (lp_sent lp)" "msg_type s = NEW_SEQUENCE" "msg_misc_int s ! 1 = ?known"
      "msg_destination_node s = ucast ?i * lp_machines_per_replica lp"
      using g assms(4) unfolding genuine_ack_def by blast
    then obtain k where k: "k \<le> position r" "?known = of_nat k" using I(3) [of s] by auto
    from drain_reader_all [OF I(1), of cd ?known] d have b: "batch = drop (position r) (log_sequences cd (lp_local_log lp))"
      and l: "latest = (if position r = length (ml_entries (lp_local_log lp)) then ?known
         else fst (last (ml_entries (lp_local_log lp))))" by auto
    have eq: "latest = ?known \<longleftrightarrow> batch = []"
    proof (cases "position r = length (ml_entries (lp_local_log lp))")
      case False
      then have less: "position r < length (ml_entries (lp_local_log lp))" using I(5) by simp
      then have "ml_entries (lp_local_log lp) \<noteq> []" by auto
      then have "latest = of_nat (length (ml_entries (lp_local_log lp)))" using l I(6) less by simp
      then have "latest \<noteq> ?known" using k less of_nat_eq_below [of k "length (ml_entries (lp_local_log lp))"] I(7) by auto
      then show ?thesis using less b by auto
    qed (use l b in simp)
    show ?thesis
    proof (cases "latest = ?known")
      case True
      then have "forward_inv cd (send [] (lp\<lparr>lp_readers := (lp_readers lp)(?i \<mapsto> r')\<rparr>))"
        using drained_inv [OF assms(1) inv r d _ refl, of "[]"] eq by simp
      moreover have "lp' = lp\<lparr>lp_readers := (lp_readers lp)(?i \<mapsto> r')\<rparr>
          \<lparr>lp_new_sequence_todo := os_insert ?i (lp_new_sequence_todo lp)\<rparr>"
        using True by (simp add: lp')
      ultimately show ?thesis by (simp only: send_Nil forward_inv_todo)
    next
      case False
      then have s: "lp' = send [new_sequence_message cd (lp\<lparr>lp_readers := (lp_readers lp)(?i \<mapsto> r')\<rparr>) ?i batch latest]
          (lp\<lparr>lp_readers := (lp_readers lp)(?i \<mapsto> r')\<rparr>)"
        by (simp add: lp' Let_def)
      show ?thesis unfolding s
        by (rule drained_inv [OF assms(1) inv r d disjI1 refl]) (use eq False in simp)
    qed
  qed
  moreover have "grows lp lp'" by (auto simp: grows_def lp' send_def Let_def r)
  ultimately show ?thesis by (simp add: forwards_ok_def)
qed

lemma receive_one_ok:
  assumes "codec_ok cd" and "receive_one cd m lp = Inr lp'" and "genuine_ack lp m"
  shows "forwards_ok cd lp lp'"
proof (cases "msg_type m = NEW_SEQUENCE_ACK")
  case True
  with assms show ?thesis using receive_new_sequence_ack_ok by (simp add: receive_one_def)
next
  case False
  with assms(2) show ?thesis
    by (intro no_forward_ok)
      (auto simp: receive_one_def receive_new_sequence_def outcome_simps send_def Let_def rep_get_def split: if_splits)
qed

lemma foldE_forwards_ok:
  assumes step: "\<And>x a b. x \<in> set xs \<Longrightarrow> I x a \<Longrightarrow> f x a = Inr b \<Longrightarrow> forwards_ok cd a b"
    and mono: "\<And>x a b. I x a \<Longrightarrow> grows a b \<Longrightarrow> I x b"
    and "foldE f xs lp = Inr lp'" and "\<forall>x \<in> set xs. I x lp"
  shows "forwards_ok cd lp lp'"
proof -
  have "forwards_ok cd lp lp' \<and> (\<forall>x \<in> set xs. I x lp')"
    using assms(3)
  proof (rule foldE_invariant)
    show "forwards_ok cd lp v \<and> (\<forall>x \<in> set xs. I x v)"
      if "x \<in> set xs" "forwards_ok cd lp u \<and> (\<forall>x \<in> set xs. I x u)" "f x u = Inr v" for x u v
    proof -
      have uv: "forwards_ok cd u v" using step that by blast
      then have "\<forall>x \<in> set xs. I x v" using mono that(2) unfolding forwards_ok_def by blast
      with uv that(2) forwards_ok_trans show ?thesis by blast
    qed
  qed (use assms(4) in simp)
  then show ?thesis by blast
qed

lemma ReceiveMessage_ok:
  assumes "codec_ok cd" and "ReceiveMessage cd lp = Inr lp'" and "genuine_acks lp"
  shows "forwards_ok cd lp lp'"
proof (cases "lp_polls lp")
  case (Cons ms polls)
  let ?lp = "lp\<lparr>lp_polls := polls\<rparr>"
  have "forwards_ok cd ?lp lp'"
  proof (rule foldE_forwards_ok [where I = "\<lambda>m lp. genuine_ack lp m"])
    show "\<forall>m \<in> set ms. genuine_ack ?lp m"
      using assms(3) Cons by (auto simp: genuine_acks_def genuine_ack_def)
  qed (use assms Cons in \<open>auto simp: ReceiveMessage_def intro: receive_one_ok grows_genuine\<close>)
  moreover have "forwards_ok cd lp ?lp" by (rule no_forward_ok) (use Cons in auto)
  ultimately show ?thesis by (rule forwards_ok_trans [rotated])
qed (use assms(2) in \<open>simp add: ReceiveMessage_def\<close>)

lemma receive_while_ok:
  assumes "codec_ok cd"
  shows "receive_while cd w n lp = Inr (Some lp') \<Longrightarrow> genuine_acks lp \<Longrightarrow> forwards_ok cd lp lp'"
proof (induction n arbitrary: lp)
  case 0
  then show ?case by (simp add: receive_while.simps split: if_splits)
next
  case (Suc n)
  show ?case
  proof (cases "w lp")
    case True
    with Suc.prems obtain lp1 where 1: "ReceiveMessage cd lp = Inr lp1" "receive_while cd w n lp1 = Inr (Some lp')"
      by (auto simp: receive_while.simps [of _ _ "Suc n"] bindE_Inr_iff)
    have ok: "forwards_ok cd lp lp1" using ReceiveMessage_ok [OF assms 1(1) Suc.prems(2)] .
    then have "genuine_acks lp1" using Suc.prems(2) grows_genuine_acks by (auto simp: forwards_ok_def)
    from forwards_ok_trans [OF ok Suc.IH [OF 1(2) this]] show ?thesis .
  next
    case False
    with Suc.prems show ?thesis by (simp add: receive_while.simps [of _ _ "Suc n"])
  qed
qed

lemma generate_batch_ok:
  assumes "codec_ok cd" and "generate_batch cd b lp = Inr (Some lp')" and "genuine_acks lp"
  shows "forwards_ok cd lp lp'"
  using assms(2) unfolding generate_batch_def bindW_Some_iff
proof (elim exE conjE, goal_cases)
  case (1 lp1)
  have "forwards_ok cd lp1 lp'"
    using 1(2) by (auto simp: Let_def case_prod_unfold send_def LocalPaxos_Append_def generated_batch_def
        intro!: no_forward_ok split: if_splits)
  then show ?case using forwards_ok_trans [OF receive_while_ok [OF assms(1) 1(1) assms(3)]] by blast
qed

lemma generate_batches_ok:
  assumes "codec_ok cd"
  shows "generate_batches cd bs lp = Inr (Some lp') \<Longrightarrow> genuine_acks lp \<Longrightarrow> forwards_ok cd lp lp'"
proof (induction bs arbitrary: lp)
  case (Cons b bs)
  then obtain lp1 where 1: "generate_batch cd b lp = Inr (Some lp1)" "generate_batches cd bs lp1 = Inr (Some lp')"
    by (auto simp: bindW_Some_iff)
  have ok: "forwards_ok cd lp lp1" using generate_batch_ok [OF assms 1(1) Cons.prems(2)] .
  then have "genuine_acks lp1" using Cons.prems(2) grows_genuine_acks by (auto simp: forwards_ok_def)
  from forwards_ok_trans [OF ok Cons.IH [OF 1(2) this]] show ?case .
qed simp

lemma propose_remote_ok:
  assumes "codec_ok cd" and "propose_remote cd lp = Inr (Some (e, lp'))" and "genuine_acks lp"
  shows "forwards_ok cd lp lp'"
proof -
  obtain s r rest where o: "lp_sequences_other lp = (s, r) # rest"
    using assms(2) by (cases "lp_sequences_other lp") (auto simp: propose_remote_def)
  let ?lp1 = "lp\<lparr>lp_global_next_version := lp_global_next_version lp + 1, lp_sequences_other := rest\<rparr>"
  have 1: "forwards_ok cd lp ?lp1" by (rule no_forward_ok) auto
  then have "genuine_acks ?lp1" using assms(3) grows_genuine_acks by (auto simp: forwards_ok_def)
  then have "forwards_ok cd ?lp1 lp'"
    using assms(2) generate_batches_ok [OF assms(1), of s ?lp1 lp']
    by (auto simp: propose_remote_def o bindW_Some_iff Let_def split: if_splits)
  with 1 show ?thesis by (rule forwards_ok_trans)
qed

lemma replicate_sequence_ok: "replicate_sequence e vs lp = Inr (Some lp') \<Longrightarrow> forwards_ok cd lp lp'"
  by (rule no_forward_ok)
    (auto simp: replicate_sequence_def Let_def bindW_Some_iff send_def to_local_followers_def order_messages_def)

lemma append_global_ok: "append_global e lp = Inr lp' \<Longrightarrow> forwards_ok cd lp lp'"
  by (rule no_forward_ok) (auto simp: append_global_def bindE_Inr_iff)

lemma first_forward_ok:
  assumes "codec_ok cd" and "first_forward cd skip lp = Inr lp'"
  shows "forwards_ok cd lp lp'"
proof -
  obtain lp1 where 1: "foldE (forward_to cd False) (filter (\<lambda>i. i \<notin> set skip)
      (map of_nat [0..<unat (cc_replicas_size (lp_config lp))])) lp = Inr lp1" and lp': "lp' = lp1\<lparr>lp_is_first := False\<rparr>"
    using assms(2) by (auto simp: first_forward_def bindE_Inr_iff)
  have "forwards_ok cd lp lp1"
    by (rule foldE_forwards_ok [where I = "\<lambda>_ _. True", OF _ _ 1]) (auto intro: forward_to_ok [OF assms(1)])
  moreover have "forwards_ok cd lp1 lp'" by (rule no_forward_ok) (auto simp: lp')
  ultimately show ?thesis by (rule forwards_ok_trans)
qed

lemma pending_forward_ok:
  assumes "codec_ok cd" and "pending_forward cd lp = Inr lp'"
  shows "forwards_ok cd lp lp'"
proof -
  obtain lp1 where 1: "foldE (forward_to cd True) (lp_new_sequence_todo lp) lp = Inr lp1"
    and lp': "lp' = lp1\<lparr>lp_new_sequence_todo := []\<rparr>"
    using assms(2) by (auto simp: pending_forward_def bindE_Inr_iff)
  have "forwards_ok cd lp lp1"
    by (rule foldE_forwards_ok [where I = "\<lambda>_ _. True", OF _ _ 1]) (auto intro: forward_to_ok [OF assms(1)])
  moreover have "forwards_ok cd lp1 lp'" by (rule no_forward_ok) (auto simp: lp')
  ultimately show ?thesis by (rule forwards_ok_trans)
qed

text \<open>A local sequence is appended under the number the proposal has counted to.\<close>

lemma append_local_inv:
  assumes "append_local e lp = Inr lp'" and "forward_inv cd lp"
    and "lp_local_next_version lp = of_nat (Suc (length (ml_entries (lp_local_log lp))))"
    and "length (ml_entries (lp_local_log lp')) < 2 ^ 64"
  shows "forward_inv cd lp'" "ml_entries (lp_local_log lp') = ml_entries (lp_local_log lp) @ [(lp_local_next_version lp, e)]"
    "lp' = lp\<lparr>lp_local_log := lp_local_log lp'\<rparr>"
proof -
  let ?log = "lp_local_log lp" and ?log' = "lp_local_log lp'"
  have a: "LocalMemLog_Append (lp_local_next_version lp) e ?log = Inr ?log'"
    and lp': "lp' = lp\<lparr>lp_local_log := ?log'\<rparr>" using assms(1) by (auto simp: append_local_def bindE_Inr_iff)
  show es: "ml_entries ?log' = ml_entries ?log @ [(lp_local_next_version lp, e)]"
    using ml.append_entries [of "(lp_local_next_version lp, e)"] a by simp
  show "lp' = lp\<lparr>lp_local_log := lp_local_log lp'\<rparr>" by (rule lp')
  have "map fst (ml_entries ?log) = map of_nat [1..<Suc (length (ml_entries ?log))]"
    using assms(2) unfolding forward_inv_def by blast
  then have v: "map fst (ml_entries ?log') = map of_nat [1..<Suc (length (ml_entries ?log'))]"
    by (simp add: es assms(3))
  have rok: "reader_ok ?log' r" if "reader_ok ?log r" for r
    using ml.append_rok [of "(lp_local_next_version lp, e)"] a that by simp
  have seqs: "take (position r) (log_sequences cd ?log') = take (position r) (log_sequences cd ?log)"
    if "reader_ok ?log r" for r
    using ml.pos_le [OF that] by (simp add: log_sequences_def es)
  have f: "lp_readers lp' = lp_readers lp" "lp_sent lp' = lp_sent lp" 
    "lp_machines_per_replica lp' = lp_machines_per_replica lp"
    by (subst lp', simp)+
  show "forward_inv cd lp'"
    using assms(2) v rok seqs assms(4) unfolding forward_inv_def f by (metis (no_types, lifting))
qed

section \<open>Runs with genuine acks\<close>

text \<open>Every ack answers a message of this leader, and there are fewer than \<open>2 ^ 64\<close> local sequences.\<close>

inductive genuine_run :: "'b codec \<Rightarrow> cluster_config \<Rightarrow> uint32 \<Rightarrow> 'b local_paxos \<Rightarrow> bool" for cd c type where
  run_start: "genuine_run cd c type (start_leader (LocalPaxos_new c type))"
| run_step: "genuine_run cd c type lp \<Longrightarrow> leader_step cd lp lp' \<Longrightarrow> genuine_acks lp' \<Longrightarrow>
    length (ml_entries (lp_local_log lp')) < 2 ^ 64 \<Longrightarrow> genuine_run cd c type lp'"

definition readers_for :: "cluster_config \<Rightarrow> 'b local_paxos \<Rightarrow> bool" where
  "readers_for c lp \<longleftrightarrow> lp_machines_per_replica lp = nodes_per_replica c
     \<and> dom (lp_readers lp) = {i. unat i < unat (cc_replicas_size c)}"

lemma readers_for_ok: "forwards_ok cd lp lp' \<Longrightarrow> readers_for c lp \<Longrightarrow> readers_for c lp'"
  by (simp add: forwards_ok_def grows_def readers_for_def)

lemma readers_for_log [simp]: "readers_for c (lp\<lparr>lp_local_log := l\<rparr>) = readers_for c lp"
  by (simp add: readers_for_def)

definition forward_state :: "'b codec \<Rightarrow> cluster_config \<Rightarrow> 'b local_paxos \<Rightarrow> bool" where
  "forward_state cd c lp \<longleftrightarrow> forward_inv cd lp \<and> readers_for c lp \<and> genuine_acks lp
     \<and> lp_local_next_version lp = of_nat (length (ml_entries (lp_local_log lp)))"

lemma forward_state_ok: "forwards_ok cd lp lp' \<Longrightarrow> forward_state cd c lp \<Longrightarrow> forward_state cd c lp'"
  using grows_genuine_acks [of lp lp'] readers_for_ok [of cd lp lp' c]
  by (simp add: forwards_ok_def forward_state_def) (simp add: grows_def)

lemma finish_iteration_log:
  assumes "codec_ok cd" and "finish_iteration cd skip isLocal e lp = Inr lp'"
    and "genuine_acks lp" and "\<not> isLocal \<longrightarrow> forward_state cd c lp"
    and "isLocal \<longrightarrow> forward_inv cd lp \<and> readers_for c lp \<and> lp_local_next_version lp = of_nat (Suc (length (ml_entries (lp_local_log lp))))"
    and "length (ml_entries (lp_local_log lp')) < 2 ^ 64"
  shows "forward_state cd c lp'"
proof -
  obtain lp1 lp2 lp3 where 1: "(if isLocal then append_local e lp else Inr lp) = Inr lp1"
    and 2: "append_global e lp1 = Inr lp2"
    and 3: "(if isLocal \<and> lp_is_first lp2 then first_forward cd skip lp2
            else if isLocal then pending_forward cd lp2 else Inr lp2) = Inr lp3"
    and 4: "ReceiveMessage cd lp3 = Inr lp'"
    using assms(2) by (auto simp: finish_iteration_def bindE_Inr_iff)
  have 12: "forwards_ok cd lp1 lp2" using append_global_ok [OF 2] .
  have 23: "forwards_ok cd lp2 lp3"
    using 3 first_forward_ok [OF assms(1)] pending_forward_ok [OF assms(1)] by (auto split: if_splits)
  have 13: "forwards_ok cd lp1 lp3" using 12 23 by (rule forwards_ok_trans)
  have g1: "genuine_acks lp1"
    using 1 assms(3) by (auto simp: append_local_def bindE_Inr_iff genuine_acks_def genuine_ack_def split: if_splits)
  then have "genuine_acks lp3" using 13 grows_genuine_acks by (auto simp: forwards_ok_def)
  from forwards_ok_trans [OF 13 ReceiveMessage_ok [OF assms(1) 4 this]] have 14: "forwards_ok cd lp1 lp'" .
  have "forward_state cd c lp1"
  proof (cases isLocal)
    case True
    have "lp_local_log lp' = lp_local_log lp1" using 14 by (simp add: forwards_ok_def grows_def)
    with assms(5,6) True append_local_inv [of e lp lp1 cd] 1
    have "forward_inv cd lp1" "readers_for c lp1" "ml_entries (lp_local_log lp1) = ml_entries (lp_local_log lp) @ [(lp_local_next_version lp, e)]"
      "lp_local_next_version lp1 = lp_local_next_version lp"
      by (auto simp: append_local_def bindE_Inr_iff)
    then show ?thesis using assms(5) True g1 by (simp add: forward_state_def)
  qed (use 1 assms(4) in simp)
  with 14 show ?thesis by (rule forward_state_ok)
qed

lemma RunLeader_iteration_forwards:
  assumes "codec_ok cd" and "RunLeader_iteration cd lp = Inr (Some lp')" and "forward_state cd c lp"
    and "length (ml_entries (lp_local_log lp')) < 2 ^ 64"
  shows "forward_state cd c lp'"
proof -
  obtain lp1 where 1: "await_requests cd lp = Inr (Some lp1)"
    using assms(2) by (auto simp: RunLeader_iteration_def bindW_Some_iff)
  define lpa where "lpa = lp1\<lparr>lp_alternate := (lp_alternate lp1 + 1) mod 10\<rparr>"
  define isLocal where "isLocal \<longleftrightarrow> (lp_alternate lpa < 1 \<and> lp_local_count lpa > 0) \<or> lp_sequences_other lpa = []"
  obtain e lp2 lp3 where 2: "(if isLocal then Inr (Some (propose_local cd lpa)) else propose_remote cd lpa) = Inr (Some (e, lp2))"
    and 3: "replicate_sequence e (if isLocal then [lp_global_next_version lp2, lp_local_next_version lp2]
        else [lp_global_next_version lp2]) lp2 = Inr (Some lp3)"
    and 4: "finish_iteration cd [lp_local_replica lp3] isLocal e lp3 = Inr lp'"
    using assms(2) unfolding RunLeader_iteration_def 1 bindW_simps Let_def lpa_def [symmetric] isLocal_def [symmetric]
    by (auto simp: bindE_Inr_iff bindW_Some_iff)
  have "forwards_ok cd lp lp1"
    using receive_while_ok [OF assms(1)] 1 assms(3) by (auto simp: await_requests_def forward_state_def)
  moreover have "forwards_ok cd lp1 lpa" by (rule no_forward_ok) (auto simp: lpa_def)
  ultimately have a: "forward_state cd c lpa" using forward_state_ok assms(3) by blast
  note r = replicate_sequence_ok [OF 3, of cd]
  show ?thesis
  proof (rule finish_iteration_log [OF assms(1) 4 _ _ _ assms(4)])
    show "\<not> isLocal \<longrightarrow> forward_state cd c lp3"
    proof
      assume "\<not> isLocal"
      with 2 have "propose_remote cd lpa = Inr (Some (e, lp2))" by simp
      with a have "forwards_ok cd lpa lp2" by (auto simp: forward_state_def intro: propose_remote_ok [OF assms(1)])
      from forwards_ok_trans [OF this r] a show "forward_state cd c lp3" by (rule forward_state_ok)
    qed
    show local: "isLocal \<longrightarrow> forward_inv cd lp3 \<and> readers_for c lp3
        \<and> lp_local_next_version lp3 = of_nat (Suc (length (ml_entries (lp_local_log lp3))))"
    proof
      assume isLocal
      with 2 have lp2: "lp2 = snd (propose_local cd lpa)" by simp
      then have "forward_inv cd lp2" using a by (simp add: propose_local_def forward_state_def forward_inv_def)
      moreover have "readers_for c lp3"
        using a by (intro readers_for_ok [OF r]) (simp add: lp2 propose_local_def forward_state_def readers_for_def)
      moreover have "lp_local_next_version lp2 = of_nat (Suc (length (ml_entries (lp_local_log lp2))))"
        using a by (simp add: lp2 propose_local_def forward_state_def)
      ultimately show "forward_inv cd lp3 \<and> readers_for c lp3 \<and> lp_local_next_version lp3 = of_nat (Suc (length (ml_entries (lp_local_log lp3))))"
        using r by (simp add: forwards_ok_def grows_def)
    qed
    have "genuine_acks lp2"
    proof (cases isLocal)
      case True
      with 2 a show ?thesis by (auto simp: propose_local_def forward_state_def genuine_acks_def genuine_ack_def)
    next
      case False
      with 2 have "propose_remote cd lpa = Inr (Some (e, lp2))" by simp
      with a have "forwards_ok cd lpa lp2" by (auto simp: forward_state_def intro: propose_remote_ok [OF assms(1)])
      from forward_state_ok [OF this a] show ?thesis by (simp add: forward_state_def)
    qed
    then show "genuine_acks lp3" using r grows_genuine_acks by (auto simp: forwards_ok_def)
  qed
qed

lemma forward_input [simp]:
  "forward_inv cd (lp\<lparr>lp_polls := p, lp_acks := a\<rparr>) = forward_inv cd lp"
  "readers_for c (lp\<lparr>lp_polls := p, lp_acks := a\<rparr>) = readers_for c lp"
  by (simp_all add: forward_inv_def readers_for_def)

lemma fold_upd_dom: "fold (\<lambda>i m. m(f i \<mapsto> x)) is m j = (if j \<in> f ` set is then Some x else m j)"
  by (induction "is" arbitrary: m) auto

lemma start_leader_readers:
  "lp_readers (start_leader (LocalPaxos_new c type)) i
     = (if unat i < unat (cc_replicas_size c) then Some LocalMemLogReader_new else None)"
proof -
  have "i \<in> of_nat ` {0..<n} \<longleftrightarrow> unat i < n" if "n \<le> 2 ^ 32" for n
  proof
    assume "i \<in> of_nat ` {0..<n}"
    then obtain k where "i = of_nat k" "k < n" by auto
    with that show "unat i < n" by (simp add: unsigned_of_nat take_bit_nat_eq_self)
  qed (auto intro!: image_eqI [of i of_nat "unat i"])
  moreover have "unat (cc_replicas_size c) \<le> 2 ^ 32" using unsigned_less [of "cc_replicas_size c", where 'a = nat] by simp
  ultimately show ?thesis
    by (simp add: start_leader_def LocalPaxos_new_def fold_upd_dom)
qed

lemma genuine_run_forwards:
  assumes "codec_ok cd" and "paxos_cluster c N"
  shows "genuine_run cd c type lp \<Longrightarrow> forward_state cd c lp"
proof (induction rule: genuine_run.induct)
  case run_start
  let ?lp = "start_leader (LocalPaxos_new c type)"
  have f: "lp_sent ?lp = []" "lp_local_log ?lp = LocalMemLog_new" "lp_machines_per_replica ?lp = nodes_per_replica c"
    "lp_local_next_version ?lp = 0" "lp_polls ?lp = []"
    by (simp_all add: start_leader_def LocalPaxos_new_def)
  have d: "distinct (map (\<lambda>i. of_nat i * nodes_per_replica c) [0..<N])"
    using paxos_participants_distinct(1) [OF assms(2)] assms(2) by (simp add: participants_eq paxos_cluster_def)
  have "i = j" if "unat i < N" "unat j < N" "ucast i * nodes_per_replica c = (ucast j * nodes_per_replica c :: uint64)"
    for i j :: uint32
  proof -
    have inj: "inj_on (\<lambda>i. of_nat i * nodes_per_replica c) {0..<N}" using d by (simp add: distinct_map)
    have "of_nat (unat i) * nodes_per_replica c = of_nat (unat j) * nodes_per_replica c"
      using that(3) by (simp add: of_nat_unat)
    then have "unat i = unat j" by (rule inj_onD [OF inj]) (use that in auto)
    then show ?thesis by (simp add: word_unat_eq_iff)
  qed
  then show ?case
    using assms(2) unfolding forward_state_def readers_for_def forward_inv_def genuine_acks_def f
    by (auto simp: start_leader_readers dom_def paxos_cluster_def LocalMemLog_new_def new_sequences_def log_sequences_def reader_ok_def
        LocalMemLogReader_new_def position_def split: if_splits)
next
  case (run_step lp lp')
  from run_step.hyps(2) show ?case
  proof cases
    case (leader_append b)
    have "forwards_ok cd lp lp'" unfolding leader_append
      by (rule no_forward_ok) (simp_all add: LocalPaxos_Append_def)
    then show ?thesis using run_step.IH by (rule forward_state_ok)
  next
    case (leader_input polls acks)
    then show ?thesis using run_step.IH run_step.hyps(3) by (simp add: forward_state_def)
  next
    case leader_iterate
    from RunLeader_iteration_forwards [OF assms(1) this run_step.IH run_step.hyps(4)] show ?thesis .
  qed
qed

text \<open>
  C25: In every run of \<open>RunLeader\<close> in which the acks a replica sends answer messages it was
  sent, the sequences forwarded to any replica are a prefix of the local log: in order, none twice, none
  skipped, whether they went out at once, after an ack, or with a later sequence.
\<close>

theorem local_sequences_forwarded_once:
  assumes "genuine_run cd c type lp" and "codec_ok cd" and "paxos_cluster c N" and "unat (i :: uint32) < N"
  shows "\<exists>n \<le> length (ml_entries (lp_local_log lp)).
     new_sequences cd (ucast i * nodes_per_replica c) (lp_sent lp) = take n (log_sequences cd (lp_local_log lp))"
proof -
  have "forward_inv cd lp" "readers_for c lp"
    using genuine_run_forwards [OF assms(2,3,1)] by (simp_all add: forward_state_def)
  moreover from this(2) obtain r where "lp_readers lp i = Some r"
    using assms(3,4) by (auto simp: readers_for_def paxos_cluster_def dom_def)
  ultimately show ?thesis using forward_invD(2,5) [of cd lp i r] by (auto simp: readers_for_def)
qed

section \<open>A concrete run\<close>

definition example_data_ack :: "uint64 \<Rightarrow> payload message_proto" where
  "example_data_ack v = MessageProto_new\<lparr>msg_type := PAXOS_DATA_ACK, msg_misc_int := [v]\<rparr>"

definition example_synchronize :: "payload message_proto list list" where
  "example_synchronize =
     [[MessageProto_new\<lparr>msg_type := SYNCHRONIZE, msg_misc_int := [3], msg_data := [Seq_bytes [9]]\<rparr>],
      [MessageProto_new\<lparr>msg_type := SYNCHRONIZE_ACK\<rparr>]]"

definition example_local :: "payload message_proto list list \<Rightarrow> payload message_proto list \<Rightarrow> payload local_paxos" where
  "example_local polls acks = (LocalPaxos_Append 7 (start_leader (LocalPaxos_new (example_config 0) 0)))
     \<lparr>lp_polls := polls, lp_acks := acks\<rparr>"

lemma example_local_fields [simp]:
  "lp_local_count (example_local p a) = 1" "lp_sequences_other (example_local p a) = []"
  "lp_sequence (example_local p a) = [7]" "lp_participants (example_local p a) = [0, 1]"
  "lp_acks (example_local p a) = a" "lp_polls (example_local p a) = p" "lp_sent (example_local p a) = []"
  "lp_global_next_version (example_local p a) = 0" "lp_local_next_version (example_local p a) = 0"
  "lp_is_first (example_local p a)" "lp_new_sequence_todo (example_local p a) = []"
  "lp_readers (example_local p a) = Map.empty(0 \<mapsto> LocalMemLogReader_new, 1 \<mapsto> LocalMemLogReader_new)"
  "lp_config (example_local p a) = example_config 0" "lp_local_log (example_local p a) = LocalMemLog_new"
  "lp_global_log (example_local p a) = LocalMemLog_new" "lp_alternate (example_local p a) = 0"
  "lp_local_replica (example_local p a) = 0" "lp_machines_per_replica (example_local p a) = 2"
  "\<not> lp_received_synchronize_ack (example_local p a)"
  by (simp_all add: example_local_def LocalPaxos_Append_def start_leader_def LocalPaxos_new_def
    local_participants_def example_config_size) (simp_all add: example_config_def upt_rec)

lemma example_replicas: "cc_replicas_size (example_config n) = 2"
  by (simp add: example_config_def)

lemmas replication_defs = replicate_sequence_def Let_def collect_acks.simps local_quorum_def send_def
  to_local_followers_def example_data_ack_def rep_get_def
lemmas finish_defs = finish_iteration_def append_local_def append_global_def LocalMemLog_Append_def LocalMemLog_new_def
  ml_size_def first_forward_def example_replicas upt_rec ReceiveMessage_def forward_to_def drain_reader_def
  Reader_Next_def LocalMemLogReader_new_def payload_codec_def

lemma example_iteration:
  "\<exists>lp'. RunLeader_iteration payload_codec (example_local [] [example_data_ack 1]) = Inr (Some lp')
     \<and> ml_entries (lp_global_log lp') = [(1, Seq_bytes [7])] \<and> ml_entries (lp_local_log lp') = [(1, Seq_bytes [7])]
     \<and> lp_polls lp' = []"
  by (simp add: RunLeader_iteration_def await_requests_def receive_while.simps propose_local_def replication_defs finish_defs)

lemma example_strong_iteration:
  "\<exists>lp'. RunLeaderStrong_iteration payload_codec (example_local example_synchronize [example_data_ack 1, example_data_ack 2])
      = Inr (Some lp')
     \<and> map fst (ml_entries (lp_global_log lp')) = [2, 2]"
  by (simp add: RunLeaderStrong_iteration_def await_requests_def receive_while.simps propose_local_def synchronize_def
    example_synchronize_def closed_replica_def await_synchronize.simps HandleRemoteBatch_def propose_remote_def
    receive_one_def replication_defs finish_defs)

lemma example_genuine_run:
  assumes "RunLeader_iteration payload_codec (example_local [] [example_data_ack 1]) = Inr (Some lp')"
    and "ml_entries (lp_local_log lp') = [(1, Seq_bytes [7])]" "lp_polls lp' = []"
  shows "genuine_run payload_codec (example_config 0) 0 lp'" "leader_reachable payload_codec (example_config 0) 0 lp'"
proof -
  let ?s = "start_leader (LocalPaxos_new (example_config 0) 0) :: payload local_paxos"
  have e: "example_local [] [example_data_ack 1] = (LocalPaxos_Append 7 ?s)\<lparr>lp_polls := lp_polls (LocalPaxos_Append 7 ?s) @ [],
      lp_acks := lp_acks (LocalPaxos_Append 7 ?s) @ [example_data_ack 1]\<rparr>"
    by (simp add: example_local_def LocalPaxos_Append_def start_leader_def LocalPaxos_new_def)
  note step = leader_append [of payload_codec ?s 7]
    leader_input [where lp = "LocalPaxos_Append 7 ?s" and polls = "[]" and acks = "[example_data_ack 1]"
      and cd = payload_codec, folded e]
    leader_iterate [OF assms(1)]
  have "genuine_acks (LocalPaxos_Append 7 ?s)" "genuine_acks (example_local [] [example_data_ack 1])" "genuine_acks lp'"
    "length (ml_entries (lp_local_log (LocalPaxos_Append 7 ?s))) < 2 ^ 64"
    using assms(3) by (simp_all add: genuine_acks_def LocalPaxos_Append_def start_leader_def LocalPaxos_new_def LocalMemLog_new_def)
  then show "genuine_run payload_codec (example_config 0) 0 lp'"
    using run_step [OF run_step [OF run_step [OF run_start step(1)] step(2)] step(3)] assms(2)
    by (simp add: LocalMemLog_new_def)
  show "leader_reachable payload_codec (example_config 0) 0 lp'"
    unfolding leader_reachable_def using step by (meson rtranclp.rtrancl_into_rtrancl rtranclp.rtrancl_refl)
qed

lemma local_paxos_orders_global_log_witness:
  "\<exists>lp'. leader_reachable payload_codec (example_config 0) 0 lp' \<and> orders_sent lp' = [(1, Seq_bytes [7], 0), (1, Seq_bytes [7], 1)]"
proof -
  obtain lp' where lp': "RunLeader_iteration payload_codec (example_local [] [example_data_ack 1]) = Inr (Some lp')"
    "ml_entries (lp_global_log lp') = [(1, Seq_bytes [7])]" "ml_entries (lp_local_log lp') = [(1, Seq_bytes [7])]"
    "lp_polls lp' = []" using example_iteration by blast
  note r = example_genuine_run(2) [OF lp'(1,3,4)]
  have "local_machines (example_config 0) = [0, 1]"
    by (simp add: local_machines_def example_config_size) (simp add: example_config_def upt_rec)
  with local_paxos_orders_global_log [OF r] lp'(2) r show ?thesis by (auto simp: order_views_def)
qed

lemma local_followers_never_apply_witness:
  "\<exists>lp' f'. ml_entries (lp_global_log lp') = [(1, Seq_bytes [7])] \<and> leader_reachable payload_codec (example_config 0) 0 lp'
     \<and> foldE (\<lambda>m f. bindE (RunFollower_message m f) (\<lambda>(f', _). Inr f'))
         (filter (\<lambda>m. msg_destination_node m = 1) (on_channel ''paxos_ack_'' (lp_sent lp')))
         \<lparr>lf_paxos = LocalPaxos_new (example_config 1) 0, lf_uncommitted = []\<rparr> = Inr f'
     \<and> ml_entries (lp_global_log (lf_paxos f')) = []"
proof -
  obtain lp' where lp': "RunLeader_iteration payload_codec (example_local [] [example_data_ack 1]) = Inr (Some lp')"
    "ml_entries (lp_global_log lp') = [(1, Seq_bytes [7])]" "ml_entries (lp_local_log lp') = [(1, Seq_bytes [7])]"
    "lp_polls lp' = []" using example_iteration by blast
  note r = example_genuine_run(2) [OF lp'(1,3,4)]
  let ?f = "\<lparr>lf_paxos = LocalPaxos_new (example_config 1) 0, lf_uncommitted = []\<rparr> :: payload local_follower"
  have "lp_participants (lf_paxos ?f) \<noteq> []"
    by (simp add: LocalPaxos_new_def local_participants_def example_config_size) (simp add: example_config_def upt_rec)
  from local_followers_never_apply [OF r this, of 1] lp'(2) r show ?thesis
    by (elim exE conjE) (rule exI [of _ lp'], rule exI, intro conjI, assumption+, simp add: LocalPaxos_new_def LocalMemLog_new_def)
qed

lemma local_sequences_forwarded_once_witness:
  "\<exists>lp' :: payload local_paxos. log_sequences payload_codec (lp_local_log lp') = [[7]]
     \<and> (\<exists>n \<le> Suc 0. new_sequences payload_codec 2 (lp_sent lp') = take n [[7]])"
proof -
  obtain lp' where lp': "RunLeader_iteration payload_codec (example_local [] [example_data_ack 1]) = Inr (Some lp')"
    "ml_entries (lp_global_log lp') = [(1, Seq_bytes [7])]" "ml_entries (lp_local_log lp') = [(1, Seq_bytes [7])]"
    "lp_polls lp' = []" using example_iteration by blast
  have "paxos_cluster (example_config 0) 2"
    by (simp add: paxos_cluster_def example_config_size) (simp add: example_config_def example_entries_def)
  note f = local_sequences_forwarded_once [OF example_genuine_run(1) [OF lp'(1,3,4)] payload_codec_ok this, of 1]
  have u: "unat (1 :: uint32) < 2" "ucast (1 :: uint32) * nodes_per_replica (example_config 0) = 2"
    by (simp_all add: example_config_size)
  have "log_sequences payload_codec (lp_local_log lp') = [[7]]"
    by (simp add: log_sequences_def payload_codec_def lp'(3))
  moreover from this have "\<exists>n \<le> Suc 0. new_sequences payload_codec 2 (lp_sent lp') = take n [[7]]"
    using f [OF u(1)] lp'(3) unfolding u(2) by simp
  ultimately show ?thesis by blast
qed

lemma strong_leader_logs_late_version_witness:
  "\<exists>(lp' :: payload local_paxos) es. map fst (ml_entries (lp_global_log lp')) = [2, 2]
     \<and> ml_entries (lp_global_log lp') = es @ [(1 + of_nat (length es), Seq_bytes [7])]"
proof -
  let ?lp = "example_local example_synchronize [example_data_ack 1, example_data_ack 2]"
  obtain lp' where lp': "RunLeaderStrong_iteration payload_codec ?lp = Inr (Some lp')"
    "map fst (ml_entries (lp_global_log lp')) = [2, 2]" using example_strong_iteration by (elim exE conjE) (rule that)
  have "lp_local_count ?lp \<noteq> 0" "lp_sequences_other ?lp = []" by simp_all
  note strong_leader_logs_late_version [OF lp'(1) this]
  then obtain es where
    "ml_entries (lp_global_log lp') = ml_entries (lp_global_log ?lp) @ es
       @ [(lp_global_next_version ?lp + 1 + of_nat (length es), enc_seq payload_codec (lp_sequence ?lp))]"
    by (elim exE conjE) (rule that)
  then have "ml_entries (lp_global_log lp') = es @ [(1 + of_nat (length es), Seq_bytes [7])]"
    by (simp add: LocalMemLog_new_def payload_codec_def)
  note log = this
  show ?thesis by (rule exI [of _ lp'], rule exI [of _ es], rule conjI [OF lp'(2) log])
qed

end
