(* ===== verification/Lowlatency_Sequencer.thy ===== *)
theory Lowlatency_Sequencer
  imports Local_Paxos Sequencer Storage "HOL-Library.List_Lexorder" "HOL-Library.Char_ord"
begin

text \<open>
  \<open>machine/lowlatency_sequencer.cc\<close>: the sequencer of the low-latency modes. The writer looks up the
  master and counter of every key of a new transaction, at the machine that owns the key, and puts the
  transaction into the batch of the replica that masters all of them; transactions that span replicas
  belong to replica 0. The reader distributes batches, submits them to the log of the replica and
  answers the lookups.

  One round of the writer's inner loop has as inputs the message it finds, the value of
  \<open>latency_counter\<close> and the storage, which other threads change. \<open>GetTxn\<close> is the client, \<open>rnd\<close> the
  source of \<open>rand()\<close>.
\<close>

section \<open>The writer\<close>

record ('b, 'c, 'g) ll_writer =
  lw_config :: cluster_config
  lw_batch :: "'b message_proto"
  lw_offset :: uint32
  lw_expected :: "uint64 \<rightharpoonup> uint64 \<times> txn_proto"
  lw_involved :: "uint64 \<rightharpoonup> uint32 list"
  lw_lookups :: "(uint64, 'b message_proto) omap"
  lw_sent_lookup :: bool
  lw_client :: 'c
  lw_rand :: 'g

definition new_lookup_batch :: "cluster_config \<Rightarrow> uint64 \<Rightarrow> 'b message_proto" where
  "new_lookup_batch c i = MessageProto_new
     \<lparr>msg_destination_channel := ''sequencer_'',
      msg_destination_node := LookupMachineID c i (ucast (cc_local_replica c)),
      msg_type := MASTER_LOOKUP, msg_source_node := cc_local_node_id c\<rparr>"

definition LLWriter_new :: "cluster_config \<Rightarrow> 'c \<Rightarrow> 'g \<Rightarrow> ('b, 'c, 'g) ll_writer" where
  "LLWriter_new c client g =
     \<lparr>lw_config = c,
      lw_batch = MessageProto_new\<lparr>msg_destination_channel := ''sequencer_'', msg_type := TXN_BATCH,
        msg_source_node := cc_local_node_id c, msg_misc_bool := [True]\<rparr>,
      lw_offset = 0, lw_expected = Map.empty, lw_involved = Map.empty,
      lw_lookups = fold (\<lambda>i. om_insert (of_nat i) (new_lookup_batch c (of_nat i))) [0..<unat (nodes_per_replica c)] [],
      lw_sent_lookup = False, lw_client = client, lw_rand = g\<rparr>"

text \<open>\<open>involved_replicas[txn_id].insert(master)\<close>.\<close>

definition involve :: "uint64 \<Rightarrow> uint32 \<Rightarrow> (uint64 \<rightharpoonup> uint32 list) \<Rightarrow> (uint64 \<rightharpoonup> uint32 list)" where
  "involve txn_id master involved = involved(txn_id \<mapsto> os_insert master (get_or [] (involved txn_id)))"

definition add_txn :: "'b \<Rightarrow> ('b, 'c, 'g) ll_writer \<Rightarrow> ('b, 'c, 'g) ll_writer" where
  "add_txn d w = w\<lparr>lw_batch := (lw_batch w)\<lparr>msg_data := msg_data (lw_batch w) @ [d]\<rparr>\<rparr>"

definition forward_message :: "cluster_config \<Rightarrow> 'b \<Rightarrow> uint64 \<Rightarrow> 'b message_proto" where
  "forward_message c d machine_sent = MessageProto_new
     \<lparr>msg_destination_channel := ''sequencer_txn_receive_'', msg_type := TXN_FORWORD,
      msg_source_node := cc_local_node_id c, msg_data := [d], msg_destination_node := machine_sent\<rparr>"

text \<open>A transaction whose masters are all known: into the batch, or to the replica it belongs to.\<close>

definition route_txn ::
  "'b codec \<Rightarrow> ('g \<Rightarrow> uint64 \<times> 'g) \<Rightarrow> txn_proto \<Rightarrow> ('b, 'c, 'g) ll_writer
    \<Rightarrow> ('b, 'c, 'g) ll_writer \<times> 'b message_proto list" where
  "route_txn cd rnd txn w =
     (let c = lw_config w; local_replica = cc_local_replica c; reps = tx_involved_replicas txn;
          d = enc_txn cd txn
      in if length reps = 1 \<and> hd reps = local_replica then (add_txn d w, [])
         else if length reps = 1
         then let (r, g) = rnd (lw_rand w)
              in (w\<lparr>lw_rand := g\<rparr>, [forward_message c d (ucast (hd reps) * nodes_per_replica c + r mod nodes_per_replica c)])
         else if length reps > 1 \<and> local_replica = 0 then (add_txn d w, [])
         else let (r, g) = rnd (lw_rand w)
              in (w\<lparr>lw_rand := g\<rparr>, [forward_message c d (r mod nodes_per_replica c)]))"

text \<open>All masters are known: the set of replicas goes into the transaction.\<close>

definition finish_txn ::
  "'b codec \<Rightarrow> ('g \<Rightarrow> uint64 \<times> 'g) \<Rightarrow> uint64 \<Rightarrow> txn_proto \<Rightarrow> ('b, 'c, 'g) ll_writer
    \<Rightarrow> ('b, 'c, 'g) ll_writer \<times> 'b message_proto list" where
  "finish_txn cd rnd txn_id txn w =
     route_txn cd rnd (txn\<lparr>tx_involved_replicas := tx_involved_replicas txn @ get_or [] (lw_involved w txn_id)\<rparr>)
       (w\<lparr>lw_involved := (lw_involved w)(txn_id := None)\<rparr>)"

definition handle_forward ::
  "'b codec \<Rightarrow> 'b message_proto \<Rightarrow> ('b, 'c, 'g) ll_writer \<Rightarrow> ('b, 'c, 'g) ll_writer outcome" where
  "handle_forward cd m w = bindE (rep_get (msg_data m) 0) (\<lambda>d.
     Inr (add_txn (enc_txn cd ((dec_txn cd d)\<lparr>tx_origin_replica := cc_local_replica (lw_config w)\<rparr>)) w))"

subsection \<open>Results of lookups\<close>

text \<open>The entries of a result go into the entries of the transaction; \<open>n\<close> counts those still missing.\<close>

fun fill_entries ::
  "(string \<rightharpoonup> key_entry) \<Rightarrow> uint64 \<Rightarrow> key_entry list \<Rightarrow> uint32 \<Rightarrow> (uint64 \<rightharpoonup> uint32 list)
    \<Rightarrow> key_entry list \<times> uint32 \<times> (uint64 \<rightharpoonup> uint32 list)" where
  "fill_entries remote txn_id [] n involved = ([], n, involved)"
| "fill_entries remote txn_id (ke # kes) n involved =
     (case remote (ke_key ke) of
        None \<Rightarrow> (let (kes', n', involved') = fill_entries remote txn_id kes n involved in (ke # kes', n', involved'))
      | Some e \<Rightarrow>
          (let (kes', n', involved') = fill_entries remote txn_id kes (n - 1) (involve txn_id (ke_master e) involved)
           in (ke\<lparr>ke_master := ke_master e, ke_counter := ke_counter e\<rparr> # kes', n', involved')))"

definition handle_result ::
  "'b codec \<Rightarrow> ('g \<Rightarrow> uint64 \<times> 'g) \<Rightarrow> lookup_master_result_entry
    \<Rightarrow> ('b, 'c, 'g) ll_writer \<times> 'b message_proto list \<Rightarrow> (('b, 'c, 'g) ll_writer \<times> 'b message_proto list) outcome" where
  "handle_result cd rnd e st =
     (let (w, sent) = st; txn_id = lr_txn_id e
      in case lw_expected w txn_id of None \<Rightarrow> Inl Check_failed
      | Some (expected, txn) \<Rightarrow>
         let remote = fold (\<lambda>ke m. m(ke_key ke \<mapsto> ke)) (lr_key_entries e) Map.empty;
             (rs, n1, involved1) = fill_entries remote txn_id (tx_read_set txn) (ucast expected) (lw_involved w);
             (rws, n2, involved2) = fill_entries remote txn_id (tx_read_write_set txn) n1 involved1;
             txn' = txn\<lparr>tx_read_set := rs, tx_read_write_set := rws\<rparr>;
             w1 = w\<lparr>lw_involved := involved2\<rparr>
         in if n2 = 0
            then let (w2, out) = finish_txn cd rnd txn_id txn' (w1\<lparr>lw_expected := (lw_expected w1)(txn_id := None)\<rparr>)
                 in Inr (w2, sent @ out)
            else Inr (w1\<lparr>lw_expected := (lw_expected w1)(txn_id \<mapsto> (ucast n2, txn'))\<rparr>, sent))"

definition handle_results ::
  "'b codec \<Rightarrow> ('g \<Rightarrow> uint64 \<times> 'g) \<Rightarrow> 'b message_proto \<Rightarrow> ('b, 'c, 'g) ll_writer
    \<Rightarrow> (('b, 'c, 'g) ll_writer \<times> 'b message_proto list) outcome" where
  "handle_results cd rnd m w = foldE (\<lambda>d. handle_result cd rnd (dec_lookup_result cd d)) (msg_data m) (w, [])"

subsection \<open>New transactions\<close>

text \<open>The masters of the local keys; the others are counted and collected by machine.\<close>

fun lookup_entries ::
  "cluster_config \<Rightarrow> simple_storage \<Rightarrow> rec_heap \<Rightarrow> uint64 \<Rightarrow> key_entry list
    \<Rightarrow> (uint64 \<rightharpoonup> uint32 list) \<times> uint32 \<times> (uint64, string list) omap
    \<Rightarrow> (key_entry list \<times> (uint64 \<rightharpoonup> uint32 list) \<times> uint32 \<times> (uint64, string list) omap) outcome" where
  "lookup_entries c s h txn_id [] st = Inr ([], st)"
| "lookup_entries c s h txn_id (ke # kes) (involved, remote_expected, remote_keys) =
     (let mds = LookupPartition c (ke_key ke)
      in if mds = cc_relative_node_id c
         then bindE (GetMasterCounter s h (ke_key ke)) (\<lambda>(master, counter).
              bindE (lookup_entries c s h txn_id kes (involve txn_id master involved, remote_expected, remote_keys)) (\<lambda>(kes', st').
              Inr (ke\<lparr>ke_master := master, ke_counter := counter\<rparr> # kes', st')))
         else bindE (lookup_entries c s h txn_id kes (involved, remote_expected + 1,
                om_insert mds (os_insert (ke_key ke) (get_or [] (map_of remote_keys mds))) remote_keys)) (\<lambda>(kes', st').
              Inr (ke # kes', st')))"

text \<open>\<open>lookup_master_batch[remote_machineid].add_data(entry_string)\<close>.\<close>

definition add_lookup ::
  "'b codec \<Rightarrow> uint64 \<Rightarrow> uint64 \<times> string list \<Rightarrow> (uint64, 'b message_proto) omap \<Rightarrow> (uint64, 'b message_proto) omap" where
  "add_lookup cd txn_id mk = add_to_batch (enc_lookup cd \<lparr>lm_txn_id = txn_id, lm_keys = snd mk\<rparr>) (fst mk)"

definition stamp_txn :: "cluster_config \<Rightarrow> uint64 \<Rightarrow> txn_proto \<Rightarrow> txn_proto" where
  "stamp_txn c latency_counter txn0 =
     (let txn = txn0\<lparr>tx_origin_replica := cc_local_replica c, tx_client_replica := cc_local_replica c\<rparr>
      in if tx_txn_id txn mod SAMPLE_RATE = 0 \<and> latency_counter < SAMPLES
         then txn\<lparr>tx_generated_machine := cc_local_node_id c\<rparr> else txn)"

definition new_txn_round ::
  "'b codec \<Rightarrow> (int32 \<Rightarrow> 'c \<Rightarrow> txn_proto \<times> 'c) \<Rightarrow> ('g \<Rightarrow> uint64 \<times> 'g) \<Rightarrow> uint32 \<Rightarrow> uint64 \<Rightarrow> uint64
    \<Rightarrow> simple_storage \<Rightarrow> rec_heap \<Rightarrow> ('b, 'c, 'g) ll_writer \<Rightarrow> (('b, 'c, 'g) ll_writer \<times> 'b message_proto list) outcome" where
  "new_txn_round cd GetTxn rnd max_batch_size batch_number latency_counter s h w =
     (let c = lw_config w;
          (txn0, client) = GetTxn (ucast (batch_number * ucast max_batch_size + ucast (lw_offset w))) (lw_client w);
          txn = stamp_txn c latency_counter txn0;
          txn_id = tx_txn_id txn
      in bindE (lookup_entries c s h txn_id (tx_read_set txn) (lw_involved w, 0, [])) (\<lambda>(rs, st).
         bindE (lookup_entries c s h txn_id (tx_read_write_set txn) st) (\<lambda>(rws, involved, remote_expected, remote_keys).
         let txn' = txn\<lparr>tx_read_set := rs, tx_read_write_set := rws\<rparr>;
             w1 = w\<lparr>lw_client := client, lw_offset := lw_offset w + 1, lw_involved := involved\<rparr>
         in Inr (if remote_expected = 0 then finish_txn cd rnd txn_id txn' w1
              else (w1\<lparr>lw_expected := (lw_expected w1)(txn_id \<mapsto> (ucast remote_expected, txn')),
                       lw_lookups := fold (add_lookup cd txn_id) remote_keys (lw_lookups w1)\<rparr>, [])))))"

text \<open>The requests of the epoch are sent once, in a round that takes no transaction any more.\<close>

definition send_lookups :: "('b, 'c, 'g) ll_writer \<Rightarrow> ('b, 'c, 'g) ll_writer \<times> 'b message_proto list" where
  "send_lookups w =
     (if lw_sent_lookup w then (w, [])
      else (w\<lparr>lw_lookups := map (\<lambda>(n, m). (n, m\<lparr>msg_data := []\<rparr>)) (lw_lookups w), lw_sent_lookup := True\<rparr>,
            filter (\<lambda>m. msg_data m \<noteq> []) (map snd (lw_lookups w))))"

subsection \<open>Rounds and epochs\<close>

record 'b ll_input =
  li_message :: "'b message_proto option"
  li_latency_counter :: uint64
  li_storage :: simple_storage
  li_heap :: rec_heap

definition writer_round ::
  "'b codec \<Rightarrow> (int32 \<Rightarrow> 'c \<Rightarrow> txn_proto \<times> 'c) \<Rightarrow> ('g \<Rightarrow> uint64 \<times> 'g) \<Rightarrow> uint32 \<Rightarrow> uint64 \<Rightarrow> 'b ll_input
    \<Rightarrow> ('b, 'c, 'g) ll_writer \<Rightarrow> (('b, 'c, 'g) ll_writer \<times> 'b message_proto list) outcome" where
  "writer_round cd GetTxn rnd max_batch_size batch_number i w =
     (case li_message i of
        Some m \<Rightarrow>
          if msg_type m = TXN_FORWORD then bindE (handle_forward cd m w) (\<lambda>w'. Inr (w', []))
          else if msg_type m = MASTER_LOOKUP_RESULT then handle_results cd rnd m w
          else Inr (w, [])
      | None \<Rightarrow>
          if lw_offset w < max_batch_size
          then new_txn_round cd GetTxn rnd max_batch_size batch_number (li_latency_counter i) (li_storage i) (li_heap i) w
          else Inr (send_lookups w))"

definition begin_epoch :: "('b, 'c, 'g) ll_writer \<Rightarrow> uint64 \<times> ('b, 'c, 'g) ll_writer" where
  "begin_epoch w =
     (let (batch_number, c) = GetGUID (lw_config w)
      in (batch_number, w\<lparr>lw_config := c, lw_batch := (lw_batch w)\<lparr>msg_batch_number := batch_number, msg_data := []\<rparr>,
            lw_sent_lookup := False, lw_offset := 0\<rparr>))"

definition writer_rounds ::
  "'b codec \<Rightarrow> (int32 \<Rightarrow> 'c \<Rightarrow> txn_proto \<times> 'c) \<Rightarrow> ('g \<Rightarrow> uint64 \<times> 'g) \<Rightarrow> uint32 \<Rightarrow> uint64 \<Rightarrow> 'b ll_input list
    \<Rightarrow> ('b, 'c, 'g) ll_writer \<Rightarrow> (('b, 'c, 'g) ll_writer \<times> 'b message_proto list) outcome" where
  "writer_rounds cd GetTxn rnd max_batch_size batch_number is w =
     foldE (\<lambda>i (w, sent). bindE (writer_round cd GetTxn rnd max_batch_size batch_number i w)
       (\<lambda>(w', out). Inr (w', sent @ out))) is (w, [])"

definition end_epoch :: "('b, 'c, 'g) ll_writer \<Rightarrow> 'b message_proto list" where
  "end_epoch w =
     (let c = lw_config w; msg = lw_batch w
      in if msg_data msg = [] then []
         else map (\<lambda>i. msg\<lparr>msg_destination_node := LookupMachineID c (HashBatchID c (msg_batch_number msg)) (of_nat i)\<rparr>)
           [0..<unat (cc_replicas_size c)])"

definition LLWriter_epoch ::
  "'b codec \<Rightarrow> (int32 \<Rightarrow> 'c \<Rightarrow> txn_proto \<times> 'c) \<Rightarrow> ('g \<Rightarrow> uint64 \<times> 'g) \<Rightarrow> uint32 \<Rightarrow> 'b ll_input list
    \<Rightarrow> ('b, 'c, 'g) ll_writer \<Rightarrow> (('b, 'c, 'g) ll_writer \<times> 'b message_proto list) outcome" where
  "LLWriter_epoch cd GetTxn rnd max_batch_size is w =
     (let (batch_number, w0) = begin_epoch w
      in bindE (writer_rounds cd GetTxn rnd max_batch_size batch_number is w0) (\<lambda>(w1, sent).
           Inr (w1, sent @ end_epoch w1)))"

section \<open>The reader\<close>

record 'b ll_reader =
  lq_config :: cluster_config
  lq_batches :: "(uint64, 'b message_proto) omap"
  lq_paxos_log :: "'b local_paxos"

definition LLReader_new :: "cluster_config \<Rightarrow> 'b local_paxos \<Rightarrow> 'b ll_reader" where
  "LLReader_new c paxos =
     \<lparr>lq_config = c,
      lq_batches = fold (\<lambda>i. om_insert (of_nat i) (new_subbatch c (of_nat i))) [0..<unat (nodes_per_replica c)] [],
      lq_paxos_log = paxos\<rparr>"

definition local_paxos_leader :: "cluster_config \<Rightarrow> uint64" where
  "local_paxos_leader c = ucast (cc_local_replica c) * nodes_per_replica c"

text \<open>Only the keys whose master is the origin of the transaction count.\<close>

definition origin_entries :: "txn_proto \<Rightarrow> key_entry list \<Rightarrow> string list" where
  "origin_entries txn kes = map ke_key (filter (\<lambda>ke. ke_master ke = tx_origin_replica txn) kes)"

definition ll_mark_txn :: "cluster_config \<Rightarrow> txn_proto \<Rightarrow> txn_proto \<times> uint64 list" where
  "ll_mark_txn c txn =
     (let readers0 = participants (LookupPartition c) (origin_entries txn (tx_read_set txn)) [];
          writers = participants (LookupPartition c) (origin_entries txn (tx_read_write_set txn)) [];
          readers = participants (LookupPartition c) (origin_entries txn (tx_read_write_set txn)) readers0
      in (txn\<lparr>tx_readers := tx_readers txn @ readers, tx_writers := tx_writers txn @ writers\<rparr>,
          fold os_insert writers readers))"

definition ll_forward_txn ::
  "'b codec \<Rightarrow> cluster_config \<Rightarrow> 'b \<Rightarrow> (uint64, 'b message_proto) omap \<Rightarrow> (uint64, 'b message_proto) omap" where
  "ll_forward_txn cd c d bs =
     (let txn0 = dec_txn cd d
      in if tx_fake_txn txn0 then bs
         else let (txn, machines) = ll_mark_txn c txn0 in fold (add_to_batch (enc_txn cd txn)) machines bs)"

text \<open>The transactions of a batch of replica 0 that span replicas and involve this one.\<close>

definition mr_data :: "'b codec \<Rightarrow> cluster_config \<Rightarrow> 'b \<Rightarrow> 'b list" where
  "mr_data cd c d =
     (let txn = dec_txn cd d
      in if length (tx_involved_replicas txn) > 1 \<and> \<not> tx_new_generated txn
         then map (\<lambda>_. enc_txn cd txn) (filter (\<lambda>r. r = cc_local_replica c) (tx_involved_replicas txn)) else [])"

definition mr_message :: "'b codec \<Rightarrow> cluster_config \<Rightarrow> 'b message_proto \<Rightarrow> 'b message_proto" where
  "mr_message cd c m = MessageProto_new
     \<lparr>msg_data := concat (map (mr_data cd c) (msg_data m)), msg_destination_channel := ''paxos_log_'',
      msg_destination_node := local_paxos_leader c, msg_type := MR_TXNS_BATCH,
      msg_source_node := msg_source_node m, msg_misc_int := [msg_batch_number m]\<rparr>"

definition ll_handle_batch ::
  "'b codec \<Rightarrow> 'b message_proto \<Rightarrow> 'b ll_reader \<Rightarrow> ('b ll_reader \<times> 'b message_proto list) outcome" where
  "ll_handle_batch cd m q =
     (let c = lq_config q; from_replica = LookupReplica c (msg_source_node m);
          (bs, sent) = flush_batches (msg_batch_number m) (fold (ll_forward_txn cd c) (msg_data m) (lq_batches q));
          rest = sent @ (if from_replica = 0 \<and> cc_local_replica c \<noteq> 0 then [mr_message cd c m] else []);
          submit = MessageProto_new\<lparr>msg_destination_channel := ''sequencer_'',
            msg_destination_node := local_paxos_leader c, msg_type := BATCH_SUBMIT, msg_misc_int := [msg_batch_number m]\<rparr>
      in bindE (if from_replica = cc_local_replica c then rep_get (msg_misc_bool m) 0 else Inr False) (\<lambda>own.
           Inr (q\<lparr>lq_batches := bs\<rparr>, (if own then [submit] else []) @ rest)))"

fun answer_keys :: "simple_storage \<Rightarrow> rec_heap \<Rightarrow> string list \<Rightarrow> key_entry list outcome" where
  "answer_keys s h [] = Inr []"
| "answer_keys s h (k # ks) =
     bindE (GetMasterCounter s h k) (\<lambda>(master, counter).
     bindE (answer_keys s h ks) (\<lambda>kes. Inr (\<lparr>ke_key = k, ke_master = master, ke_counter = counter\<rparr> # kes)))"

definition answer_lookup ::
  "simple_storage \<Rightarrow> rec_heap \<Rightarrow> lookup_master_entry \<Rightarrow> lookup_master_result_entry outcome" where
  "answer_lookup s h e = bindE (answer_keys s h (lm_keys e)) (\<lambda>kes.
     Inr \<lparr>lr_txn_id = lm_txn_id e, lr_key_entries = kes\<rparr>)"

fun answer_lookups :: "'b codec \<Rightarrow> simple_storage \<Rightarrow> rec_heap \<Rightarrow> 'b list \<Rightarrow> 'b list outcome" where
  "answer_lookups cd s h [] = Inr []"
| "answer_lookups cd s h (d # ds) =
     bindE (answer_lookup s h (dec_lookup cd d)) (\<lambda>e.
     bindE (answer_lookups cd s h ds) (\<lambda>es. Inr (enc_lookup_result cd e # es)))"

definition LLReader_message ::
  "'b codec \<Rightarrow> simple_storage \<Rightarrow> rec_heap \<Rightarrow> 'b message_proto \<Rightarrow> 'b ll_reader
    \<Rightarrow> ('b ll_reader \<times> 'b message_proto list) outcome" where
  "LLReader_message cd s h m q =
     (if msg_type m = TXN_BATCH then ll_handle_batch cd m q
      else if msg_type m = BATCH_SUBMIT
      then bindE (rep_get (msg_misc_int m) 0) (\<lambda>b. Inr (q\<lparr>lq_paxos_log := LocalPaxos_Append b (lq_paxos_log q)\<rparr>, []))
      else if msg_type m = MASTER_LOOKUP
      then bindE (answer_lookups cd s h (msg_data m)) (\<lambda>ds.
             Inr (q, [MessageProto_new\<lparr>msg_destination_channel := ''sequencer_txn_receive_'',
               msg_type := MASTER_LOOKUP_RESULT, msg_destination_node := msg_source_node m, msg_data := ds\<rparr>]))
      else Inr (q, []))"

section \<open>The reader distributes a batch\<close>

definition origin_txn :: "txn_proto \<Rightarrow> txn_proto" where
  "origin_txn txn = txn\<lparr>tx_read_set := filter (\<lambda>ke. ke_master ke = tx_origin_replica txn) (tx_read_set txn),
     tx_read_write_set := filter (\<lambda>ke. ke_master ke = tx_origin_replica txn) (tx_read_write_set txn)\<rparr>"

text \<open>The machines of a transaction: the partitions of the keys its origin masters.\<close>

definition ll_machines :: "cluster_config \<Rightarrow> txn_proto \<Rightarrow> uint64 set" where
  "ll_machines c txn = LookupPartition c ` ke_key `
     {ke \<in> set (tx_read_set txn) \<union> set (tx_read_write_set txn). ke_master ke = tx_origin_replica txn}"

lemma ll_mark_txn_facts:
  "set (snd (ll_mark_txn c txn)) = ll_machines c txn" "distinct (snd (ll_mark_txn c txn))"
  "tx_readers (fst (ll_mark_txn c txn)) = tx_readers txn @ snd (ll_mark_txn c txn)"
proof -
  have m: "snd (ll_mark_txn c txn) = snd (mark_txn c (origin_txn txn))"
    "tx_readers (fst (ll_mark_txn c txn)) = tx_readers (fst (mark_txn c (origin_txn txn)))"
    by (simp_all add: ll_mark_txn_def mark_txn_def origin_txn_def origin_entries_def Let_def)
  have "txn_machines c (origin_txn txn) = ll_machines c txn"
    unfolding txn_machines_def ll_machines_def origin_txn_def by (auto intro!: image_eqI)
  then show "set (snd (ll_mark_txn c txn)) = ll_machines c txn" "distinct (snd (ll_mark_txn c txn))"
    "tx_readers (fst (ll_mark_txn c txn)) = tx_readers txn @ snd (ll_mark_txn c txn)"
    unfolding m mark_txn_facts(1,3) by (simp_all add: mark_txn_facts(2)) (simp add: origin_txn_def)
qed

text \<open>The data of machine \<open>i\<close>.\<close>

definition ll_data :: "'b codec \<Rightarrow> cluster_config \<Rightarrow> 'b list \<Rightarrow> uint64 \<Rightarrow> 'b list" where
  "ll_data cd c ds i = map (\<lambda>d. enc_txn cd (fst (ll_mark_txn c (dec_txn cd d))))
     (filter (\<lambda>d. \<not> tx_fake_txn (dec_txn cd d) \<and> i \<in> ll_machines c (dec_txn cd d)) ds)"

lemma fold_ll_forward_txn:
  assumes "config_ok c"
  shows "fold (ll_forward_txn cd c) ds (subbatches c bn D) = subbatches c bn (\<lambda>i. D i @ ll_data cd c ds i)"
proof (induction ds arbitrary: D)
  case (Cons d ds)
  let ?t = "dec_txn cd d"
  have bound: "\<forall>n \<in> set (snd (ll_mark_txn c ?t)). n < nodes_per_replica c"
    using LookupPartition_bound [OF assms] by (auto simp: ll_mark_txn_facts(1) ll_machines_def)
  have "ll_forward_txn cd c d (subbatches c bn D) = subbatches c bn (\<lambda>i. D i @ ll_data cd c [d] i)"
    unfolding ll_forward_txn_def case_prod_unfold Let_def fold_add_to_batch [OF bound ll_mark_txn_facts(2)] ll_mark_txn_facts(1)
    by (auto simp: ll_data_def intro!: arg_cong [where f = "subbatches c bn"])
  then show ?case using Cons.IH by (simp add: ll_data_def) (auto intro!: arg_cong [where f = "subbatches c bn"])
qed (simp add: ll_data_def)

lemma LLReader_new_batches: "lq_batches (LLReader_new c (paxos :: 'b local_paxos)) = subbatches c 0 (\<lambda>_. [])"
  using Sequencer_new_batches [of c "undefined :: 'b paxos"] by (simp add: LLReader_new_def Sequencer_new_def)

definition ll_subbatch_messages :: "'b codec \<Rightarrow> cluster_config \<Rightarrow> 'b message_proto \<Rightarrow> 'b message_proto list" where
  "ll_subbatch_messages cd c m = map (\<lambda>i. (new_subbatch c (of_nat i))
     \<lparr>msg_batch_number := msg_batch_number m, msg_data := ll_data cd c (msg_data m) (of_nat i)\<rparr>)
     [0..<unat (nodes_per_replica c)]"

lemma ll_handle_batch_eq:
  assumes "config_ok c" and "lq_batches q = subbatches c bn (\<lambda>_. [])" and "lq_config q = c" and "msg_misc_bool m \<noteq> []"
  shows "ll_handle_batch cd m q = Inr (q\<lparr>lq_batches := subbatches c (msg_batch_number m) (\<lambda>_. [])\<rparr>,
     (if LookupReplica c (msg_source_node m) = cc_local_replica c \<and> hd (msg_misc_bool m)
      then [MessageProto_new\<lparr>msg_destination_channel := ''sequencer_'', msg_destination_node := local_paxos_leader c,
              msg_type := BATCH_SUBMIT, msg_misc_int := [msg_batch_number m]\<rparr>] else [])
     @ ll_subbatch_messages cd c m
     @ (if LookupReplica c (msg_source_node m) = 0 \<and> cc_local_replica c \<noteq> 0 then [mr_message cd c m] else []))"
  using assms(4)
  by (simp add: ll_handle_batch_def Let_def case_prod_unfold assms(2,3) fold_ll_forward_txn [OF assms(1)] flush_subbatches)
    (auto simp: rep_get_def hd_conv_nth ll_subbatch_messages_def subbatches_def table_def o_def)

lemma mr_message_data:
  assumes "\<forall>d \<in> set ds. distinct (tx_involved_replicas (dec_txn cd d))"
  shows "concat (map (mr_data cd c) ds) = map (\<lambda>d. enc_txn cd (dec_txn cd d)) (filter (\<lambda>d.
      1 < length (tx_involved_replicas (dec_txn cd d)) \<and> \<not> tx_new_generated (dec_txn cd d)
      \<and> cc_local_replica c \<in> set (tx_involved_replicas (dec_txn cd d))) ds)"
proof -
  have one: "map (\<lambda>_. x) (filter (\<lambda>r. r = a) rs) = (if a \<in> set rs then [x] else [])" if "distinct rs" for rs a x
    using that by (induction rs) auto
  show ?thesis using assms
    by (induction ds) (auto simp: mr_data_def Let_def one)
qed

lemma ll_mark_txn_marked: "fst (ll_mark_txn c txn) = marked c (\<lambda>ke. ke_master ke = tx_origin_replica txn) txn"
proof -
  let ?o = "\<lambda>ke. ke_master ke = tx_origin_replica txn"
  let ?ws = "participants (LookupPartition c) (origin_entries txn (tx_read_write_set txn)) []"
  let ?rs = "participants (LookupPartition c) (origin_entries txn (tx_read_write_set txn))
     (participants (LookupPartition c) (origin_entries txn (tx_read_set txn)) [])"
  have "?ws = partition_list c {ke \<in> set (tx_read_write_set txn). ?o ke}"
    by (rule partition_listI) (auto simp: cp.participants_set origin_entries_def intro!: cp.participants_sorted cp.participants_distinct)
  moreover have "?rs = partition_list c {ke \<in> set (tx_read_set txn) \<union> set (tx_read_write_set txn). ?o ke}"
    by (rule partition_listI) (auto simp: cp.participants_set origin_entries_def intro!: cp.participants_sorted cp.participants_distinct)
  ultimately show ?thesis by (simp add: ll_mark_txn_def marked_def Let_def)
qed

text \<open>The keys of a transaction that its origin masters.\<close>

definition origin_keys :: "txn_proto \<Rightarrow> key_entry list \<Rightarrow> key_entry set" where
  "origin_keys txn kes = {ke \<in> set kes. ke_master ke = tx_origin_replica txn}"

lemma ll_subbatch_messages_eq:
  "ll_subbatch_messages cd c m = map (\<lambda>i. MessageProto_new\<lparr>msg_type := TXN_SUBBATCH, msg_destination_channel := ''scheduler_'',
        msg_destination_node := LookupMachineID c (of_nat i) (ucast (cc_local_replica c)), msg_batch_number := msg_batch_number m,
        msg_data := map (\<lambda>d. let txn = dec_txn cd d in enc_txn cd (txn
            \<lparr>tx_readers := tx_readers txn @ partition_list c (origin_keys txn (tx_read_set txn @ tx_read_write_set txn)),
             tx_writers := tx_writers txn @ partition_list c (origin_keys txn (tx_read_write_set txn))\<rparr>))
          (filter (\<lambda>d. \<not> tx_fake_txn (dec_txn cd d)
             \<and> (\<exists>ke \<in> origin_keys (dec_txn cd d) (tx_read_set (dec_txn cd d) @ tx_read_write_set (dec_txn cd d)). LookupPartition c (ke_key ke) = of_nat i))
           (msg_data m))\<rparr>) [0..<unat (nodes_per_replica c)]"
proof -
  have "i \<in> ll_machines c t \<longleftrightarrow> (\<exists>ke \<in> origin_keys t (tx_read_set t @ tx_read_write_set t). LookupPartition c (ke_key ke) = i)" for i t
    by (auto simp: ll_machines_def origin_keys_def)
  moreover have "marked c (\<lambda>ke. ke_master ke = tx_origin_replica t) t = t
      \<lparr>tx_readers := tx_readers t @ partition_list c (origin_keys t (tx_read_set t @ tx_read_write_set t)),
       tx_writers := tx_writers t @ partition_list c (origin_keys t (tx_read_write_set t))\<rparr>" for t
    by (simp add: marked_def origin_keys_def)
  ultimately show ?thesis
    by (simp add: ll_subbatch_messages_def ll_data_def ll_mark_txn_marked new_subbatch_def Let_def MessageProto_new_def)
qed

text \<open>
  C19: After any batches before it, a batch is distributed so that the scheduler of every machine of the
  replica is sent one sub-batch with the batch's number, with the transactions of the batch, in batch
  order, that are not fake and have a key on the machine that their origin masters, marked with the sorted
  partitions of such keys. If the batch comes from this replica and is marked for submission, its number
  is sent to the sequencer of the first machine of the replica, where the leader of the local Paxos is,
  before that; if it comes from replica 0 and this is another replica, that machine's Paxos is sent
  afterwards, with the source and number of the batch, exactly the transactions that span replicas,
  involve this one and are not generated, once each, in batch order. Nothing else is sent.
\<close>

theorem ll_reader_distributes_batch:
  assumes "config_ok c" and "\<forall>m \<in> set (before @ [m]). msg_type m = TXN_BATCH \<and> msg_misc_bool m \<noteq> []"
    and "\<forall>d \<in> set (msg_data m). distinct (tx_involved_replicas (dec_txn cd d))"
  shows "\<exists>q q' submit subs mr. foldE (\<lambda>m q. bindE (LLReader_message cd s h m q) (\<lambda>(q', _). Inr q')) before (LLReader_new c paxos) = Inr q
    \<and> LLReader_message cd s h m q = Inr (q', submit @ subs @ mr)
    \<and> submit = (if LookupReplica c (msg_source_node m) = cc_local_replica c \<and> hd (msg_misc_bool m)
        then [MessageProto_new\<lparr>msg_type := BATCH_SUBMIT, msg_destination_channel := ''sequencer_'',
          msg_destination_node := ucast (cc_local_replica c) * nodes_per_replica c, msg_misc_int := [msg_batch_number m]\<rparr>] else [])
    \<and> subs = map (\<lambda>i. MessageProto_new\<lparr>msg_type := TXN_SUBBATCH, msg_destination_channel := ''scheduler_'',
        msg_destination_node := LookupMachineID c (of_nat i) (ucast (cc_local_replica c)), msg_batch_number := msg_batch_number m,
        msg_data := map (\<lambda>d. let txn = dec_txn cd d in enc_txn cd (txn
            \<lparr>tx_readers := tx_readers txn @ partition_list c (origin_keys txn (tx_read_set txn @ tx_read_write_set txn)),
             tx_writers := tx_writers txn @ partition_list c (origin_keys txn (tx_read_write_set txn))\<rparr>))
          (filter (\<lambda>d. \<not> tx_fake_txn (dec_txn cd d)
             \<and> (\<exists>ke \<in> origin_keys (dec_txn cd d) (tx_read_set (dec_txn cd d) @ tx_read_write_set (dec_txn cd d)). LookupPartition c (ke_key ke) = of_nat i))
           (msg_data m))\<rparr>) [0..<unat (nodes_per_replica c)]
    \<and> mr = (if LookupReplica c (msg_source_node m) = 0 \<and> cc_local_replica c \<noteq> 0
        then [MessageProto_new\<lparr>msg_type := MR_TXNS_BATCH, msg_destination_channel := ''paxos_log_'',
          msg_destination_node := ucast (cc_local_replica c) * nodes_per_replica c, msg_source_node := msg_source_node m,
          msg_misc_int := [msg_batch_number m],
          msg_data := map (\<lambda>d. enc_txn cd (dec_txn cd d)) (filter (\<lambda>d.
            1 < length (tx_involved_replicas (dec_txn cd d)) \<and> \<not> tx_new_generated (dec_txn cd d)
            \<and> cc_local_replica c \<in> set (tx_involved_replicas (dec_txn cd d))) (msg_data m))\<rparr>] else [])"
proof -
  have "\<exists>q bn. foldE (\<lambda>m q. bindE (LLReader_message cd s h m q) (\<lambda>(q', _). Inr q')) ms q0 = Inr q
      \<and> lq_batches q = subbatches c bn (\<lambda>_. []) \<and> lq_config q = c"
    if "\<forall>m \<in> set ms. msg_type m = TXN_BATCH \<and> msg_misc_bool m \<noteq> []" "lq_batches q0 = subbatches c bn (\<lambda>_. [])"
      "lq_config q0 = c" for ms q0 bn
    using that
  proof (induction ms arbitrary: q0 bn)
    case (Cons m ms)
    then show ?case by (simp add: LLReader_message_def ll_handle_batch_eq [OF assms(1) Cons.prems(2,3)])
  qed auto
  from this [of before "LLReader_new c paxos" 0] obtain q bn where
    q: "foldE (\<lambda>m q. bindE (LLReader_message cd s h m q) (\<lambda>(q', _). Inr q')) before (LLReader_new c paxos) = Inr q"
      "lq_batches q = subbatches c bn (\<lambda>_. [])" "lq_config q = c"
    using assms(2) by (auto simp: LLReader_new_batches) (auto simp: LLReader_new_def)
  have m: "msg_type m = TXN_BATCH" "msg_misc_bool m \<noteq> []" using assms(2) by simp_all
  have run: "LLReader_message cd s h m q = Inr (q\<lparr>lq_batches := subbatches c (msg_batch_number m) (\<lambda>_. [])\<rparr>,
      (if LookupReplica c (msg_source_node m) = cc_local_replica c \<and> hd (msg_misc_bool m)
       then [MessageProto_new\<lparr>msg_destination_channel := ''sequencer_'', msg_destination_node := local_paxos_leader c,
              msg_type := BATCH_SUBMIT, msg_misc_int := [msg_batch_number m]\<rparr>] else [])
      @ ll_subbatch_messages cd c m
      @ (if LookupReplica c (msg_source_node m) = 0 \<and> cc_local_replica c \<noteq> 0 then [mr_message cd c m] else []))"
    by (simp only: LLReader_message_def m(1) simp_thms if_True ll_handle_batch_eq [OF assms(1) q(2,3) m(2)])
  show ?thesis
    by (intro exI conjI, rule q(1), rule run)
      (simp_all only: ll_subbatch_messages_eq mr_message_def mr_message_data [OF assms(3)] local_paxos_leader_def,
       simp_all add: MessageProto_new_def)
qed

section \<open>Every transaction goes to its home replica\<close>

definition home_replica :: "txn_proto \<Rightarrow> uint32" where
  "home_replica txn = (if length (tx_involved_replicas txn) = 1 then hd (tx_involved_replicas txn) else 0)"

text \<open>
  C20: A transaction whose masters are known goes to the replica that masters all its keys, or to replica
  0 if there are several: into the batch if that is the local replica, and otherwise, the batch
  unchanged, in one message to a machine of that replica, where the writer puts it into its batch with
  the new origin.
\<close>

theorem txn_routed_home:
  assumes "config_ok c" and "lw_config w = c" and "tx_involved_replicas txn \<noteq> []" and "codec_ok cd"
    and "unat (home_replica txn) * unat (nodes_per_replica c) + unat (nodes_per_replica c) \<le> 2 ^ 64"
    and "route_txn cd rnd txn w = (w', sent)"
  shows "if home_replica txn = cc_local_replica c then w' = add_txn (enc_txn cd txn) w \<and> sent = []
    else lw_batch w' = lw_batch w \<and> (\<exists>m. sent = [m] \<and> msg_type m = TXN_FORWORD
      \<and> LookupReplica c (msg_destination_node m) = home_replica txn
      \<and> (\<forall>v :: ('b, 'd, 'e) ll_writer. handle_forward cd m v
            = Inr (add_txn (enc_txn cd (txn\<lparr>tx_origin_replica := cc_local_replica (lw_config v)\<rparr>)) v)))"
proof -
  let ?n = "nodes_per_replica c"
  have "?n \<noteq> 0" using assms(1) by (simp add: config_ok_def)
  then have home: "LookupReplica c (ucast (home_replica txn) * ?n + r mod ?n) = home_replica txn" for r
    using assms(5) by (simp add: LookupReplica_def word_div_mult_add ucast_down_eq word_mod_less)
  have zero: "LookupReplica c (r mod ?n) = home_replica txn" if "home_replica txn = 0" for r
    using home [of r] that by simp
  have len: "length (tx_involved_replicas txn) = 1 \<or> length (tx_involved_replicas txn) > 1"
    using assms(3) by (cases "tx_involved_replicas txn") auto
  have fwd: "handle_forward cd (forward_message c (enc_txn cd txn) machine) v
      = Inr (add_txn (enc_txn cd (txn\<lparr>tx_origin_replica := cc_local_replica (lw_config v)\<rparr>)) v)"
    for machine and v :: "('b, 'd, 'e) ll_writer"
    using assms(4) by (simp add: handle_forward_def forward_message_def)
  have fields: "msg_type (forward_message c d machine) = TXN_FORWORD"
    "msg_destination_node (forward_message c d machine) = machine" for d :: 'b and machine
    by (simp_all add: forward_message_def)
  show ?thesis
  proof (cases "length (tx_involved_replicas txn) = 1")
    case True
    then have h: "home_replica txn = hd (tx_involved_replicas txn)" by (simp add: home_replica_def)
    show ?thesis
      using assms(2,6) True home fwd fields
      by (auto simp: route_txn_def Let_def case_prod_unfold h)
  next
    case False
    then have h: "home_replica txn = 0" and l: "length (tx_involved_replicas txn) > 1"
      using len by (auto simp: home_replica_def)
    show ?thesis
      using assms(2,6) False l zero [OF h] fwd fields
      by (auto simp: route_txn_def Let_def case_prod_unfold h)
  qed
qed

section \<open>When lookups are sent\<close>

lemma route_txn_types: "route_txn cd rnd txn w = (w', sent) \<Longrightarrow> lw_offset w' = lw_offset w
    \<and> (\<forall>m \<in> set sent. msg_type m = TXN_FORWORD)"
  by (auto simp: route_txn_def Let_def case_prod_unfold add_txn_def forward_message_def split: if_splits)

lemma finish_txn_types:
  "lw_offset (fst (finish_txn cd rnd t txn w)) = lw_offset w"
  "m \<in> set (snd (finish_txn cd rnd t txn w)) \<Longrightarrow> msg_type m = TXN_FORWORD"
proof -
  note r = route_txn_types [OF prod.collapse [symmetric]]
  show "lw_offset (fst (finish_txn cd rnd t txn w)) = lw_offset w"
    unfolding finish_txn_def by (simp add: conjunct1 [OF r])
  show "m \<in> set (snd (finish_txn cd rnd t txn w)) \<Longrightarrow> msg_type m = TXN_FORWORD"
    unfolding finish_txn_def using conjunct2 [OF r] by blast
qed

lemma handle_result_types:
  "handle_result cd rnd e (w, sent) = Inr (w', sent') \<Longrightarrow> lw_offset w' = lw_offset w
    \<and> (\<forall>m \<in> set sent'. m \<in> set sent \<or> msg_type m = TXN_FORWORD)"
  by (auto simp: handle_result_def Let_def case_prod_unfold finish_txn_types split: option.splits if_splits)

lemma handle_results_types:
  assumes "handle_results cd rnd m w = Inr (w', out)"
  shows "lw_offset w' = lw_offset w \<and> (\<forall>m \<in> set out. msg_type m = TXN_FORWORD)"
proof -
  have "lw_offset (fst (w', out)) = lw_offset w \<and> (\<forall>m \<in> set (snd (w', out)). msg_type m = TXN_FORWORD)"
    using assms unfolding handle_results_def
    by (rule foldE_invariant) (use handle_result_types in fastforce)+
  then show ?thesis by simp
qed

text \<open>
  The lookups of an epoch are sent only when its batch is full: as long as the writer finds no more
  than \<open>max_batch_size\<close> rounds without a message, it sends nothing but forwarded transactions, so
  every transaction that waits for a lookup keeps waiting, in this epoch and in later ones like it.
\<close>

theorem lookups_wait_for_full_batch:
  assumes "begin_epoch w = (bn, w0)" and "writer_rounds cd GetTxn rnd max_batch_size bn is w0 = Inr (w', sent)"
    and "length (filter (\<lambda>i. li_message i = None) is) \<le> unat max_batch_size"
  shows "\<forall>m \<in> set sent. msg_type m \<noteq> MASTER_LOOKUP"
proof -
  let ?free = "\<lambda>is. length (filter (\<lambda>i. li_message i = None) is)"
  let ?f = "\<lambda>i (w, sent). bindE (writer_round cd GetTxn rnd max_batch_size bn i w) (\<lambda>(w', out). Inr (w', sent @ out))"
  have round: "(\<forall>m \<in> set out. msg_type m = TXN_FORWORD)
      \<and> unat (lw_offset w') \<le> unat (lw_offset w) + (if li_message i = None then 1 else 0)"
    if "writer_round cd GetTxn rnd max_batch_size bn i w = Inr (w', out)"
      "li_message i = None \<longrightarrow> lw_offset w < max_batch_size" for i w w' and out :: "'a message_proto list"
  proof (cases "li_message i")
    case None
    have "unat (lw_offset w + 1) = unat (lw_offset w) + 1"
      using that(2) None unsigned_less [of max_batch_size, where 'a = nat]
      by (subst unat_add_small) (simp_all add: word_less_nat_alt)
    with None that show ?thesis
      by (auto simp: writer_round_def new_txn_round_def Let_def case_prod_unfold bindE_Inr_iff
          finish_txn_types prod_eq_iff split: if_splits)
  next
    case (Some m)
    with that show ?thesis
      by (auto simp: writer_round_def handle_forward_def add_txn_def outcome_simps split: if_splits
          dest: handle_results_types)
  qed
  have "(\<forall>m \<in> set sent'. m \<in> set sent \<or> msg_type m = TXN_FORWORD)"
    if "foldE ?f is (w, sent) = Inr (w', sent')" "unat (lw_offset w) + ?free is \<le> unat max_batch_size" for "is" w sent w' sent'
    using that
  proof (induction "is" arbitrary: w sent)
    case (Cons i "is")
    obtain w1 out where 1: "writer_round cd GetTxn rnd max_batch_size bn i w = Inr (w1, out)"
      "foldE ?f is (w1, sent @ out) = Inr (w', sent')"
      using Cons.prems(1) by (auto simp: bindE_Inr_iff)
    have "li_message i = None \<longrightarrow> lw_offset w < max_batch_size"
      using Cons.prems(2) by (auto simp: word_less_nat_alt)
    note r = round [OF 1(1) this]
    have "unat (lw_offset w1) + ?free is \<le> unat max_batch_size"
      using r Cons.prems(2) by (auto split: if_splits)
    from Cons.IH [OF 1(2) this] r show ?case by auto
  qed auto
  from this [of "is" w0 "[]" w' sent] assms show ?thesis
    by (auto simp: writer_rounds_def begin_epoch_def Let_def case_prod_unfold)
qed

section \<open>The lookup of masters\<close>

definition entries_of_txn :: "txn_proto \<Rightarrow> key_entry list" where
  "entries_of_txn txn = tx_read_set txn @ tx_read_write_set txn"

definition partition_of :: "cluster_config \<Rightarrow> key_entry \<Rightarrow> uint64" where
  "partition_of c ke = LookupPartition c (ke_key ke)"

text \<open>An entry with the master and counter \<open>f\<close> has for its key, for the keys of the partitions \<open>P\<close>.\<close>

definition looked_up :: "(string \<Rightarrow> uint32 \<times> uint64) \<Rightarrow> key_entry \<Rightarrow> key_entry" where
  "looked_up f ke = ke\<lparr>ke_master := fst (f (ke_key ke)), ke_counter := snd (f (ke_key ke))\<rparr>"

definition fill :: "cluster_config \<Rightarrow> (string \<Rightarrow> uint32 \<times> uint64) \<Rightarrow> uint64 set \<Rightarrow> key_entry \<Rightarrow> key_entry" where
  "fill c f P ke = (if partition_of c ke \<in> P then looked_up f ke else ke)"

definition fill_txn :: "cluster_config \<Rightarrow> (string \<Rightarrow> uint32 \<times> uint64) \<Rightarrow> uint64 set \<Rightarrow> txn_proto \<Rightarrow> txn_proto" where
  "fill_txn c f P txn = txn\<lparr>tx_read_set := map (fill c f P) (tx_read_set txn),
     tx_read_write_set := map (fill c f P) (tx_read_write_set txn)\<rparr>"

definition known_masters :: "cluster_config \<Rightarrow> (string \<Rightarrow> uint32 \<times> uint64) \<Rightarrow> uint64 set \<Rightarrow> key_entry list \<Rightarrow> uint32 set" where
  "known_masters c f P kes = {fst (f (ke_key ke)) |ke. ke \<in> set kes \<and> partition_of c ke \<in> P}"

definition missing :: "cluster_config \<Rightarrow> uint64 set \<Rightarrow> key_entry list \<Rightarrow> nat" where
  "missing c P kes = length (filter (\<lambda>ke. partition_of c ke \<notin> P) kes)"

lemma fill_key [simp]: "ke_key (fill c f P ke) = ke_key ke"
  by (simp add: fill_def looked_up_def)

lemma known_masters_append [simp]:
  "known_masters c f P (xs @ ys) = known_masters c f P xs \<union> known_masters c f P ys"
  by (auto simp: known_masters_def)

lemma missing_append [simp]: "missing c P (xs @ ys) = missing c P xs + missing c P ys"
  by (simp add: missing_def)

lemma missing_0: "missing c P kes = 0 \<longleftrightarrow> (\<forall>ke \<in> set kes. partition_of c ke \<in> P)"
  by (simp add: missing_def filter_empty_conv)

text \<open>A set of replicas as the map \<open>involved_replicas\<close> holds it.\<close>

definition replica_set :: "uint32 set \<Rightarrow> uint32 list option" where
  "replica_set M = (if M = {} then None else Some (sorted_list_of_set M))"

lemma os_insert_sorted_list_of_set: "finite M \<Longrightarrow> os_insert x (sorted_list_of_set M) = sorted_list_of_set (insert x M)"
  by (rule sorted_distinct_set_unique) (auto simp del: sorted_list_of_set.sorted_key_list_of_set_insert_remove)

lemma involve_replica_set:
  "finite M \<Longrightarrow> involve t x (involved(t := replica_set M)) = involved(t := replica_set (insert x M))"
  by (auto simp: involve_def replica_set_def get_or_def os_insert_sorted_list_of_set fun_eq_iff)

lemma get_or_replica_set: "finite M \<Longrightarrow> get_or [] (replica_set M) = sorted_list_of_set M"
  by (simp add: replica_set_def get_or_def)

lemma finite_known_masters [simp]: "finite (known_masters c f P kes)"
  by (auto simp: known_masters_def intro: finite_subset [of _ "(\<lambda>ke. fst (f (ke_key ke))) ` set kes"])

lemma known_masters_Cons:
  "known_masters c f P (ke # kes)
     = (if partition_of c ke \<in> P then insert (fst (f (ke_key ke))) (known_masters c f P kes) else known_masters c f P kes)"
  by (auto simp: known_masters_def)

text \<open>The keys of the entries that belong to partition \<open>p\<close>, as a request has them.\<close>

definition request_keys :: "cluster_config \<Rightarrow> key_entry list \<Rightarrow> uint64 \<Rightarrow> string list" where
  "request_keys c kes p = sorted_list_of_set {ke_key ke |ke. ke \<in> set kes \<and> partition_of c ke = p}"

definition remote_partitions :: "cluster_config \<Rightarrow> key_entry list \<Rightarrow> uint64 set" where
  "remote_partitions c kes = partition_of c ` set kes - {cc_relative_node_id c}"

definition requests :: "cluster_config \<Rightarrow> key_entry list \<Rightarrow> (uint64, string list) omap" where
  "requests c kes = map (\<lambda>p. (p, request_keys c kes p)) (sorted_list_of_set (remote_partitions c kes))"

lemma requests_ok: "om_ok (requests c kes)"
  by (simp add: om_ok_def om_keys_def requests_def o_def remote_partitions_def)

lemma requests_lookup: "map_of (requests c kes) p = (if p \<in> remote_partitions c kes then Some (request_keys c kes p) else None)"
  by (simp add: requests_def map_of_map_restrict restrict_map_def remote_partitions_def)

lemma requests_snoc:
  assumes "partition_of c ke \<noteq> cc_relative_node_id c"
  shows "om_insert (partition_of c ke) (os_insert (ke_key ke) (get_or [] (map_of (requests c kes) (partition_of c ke)))) (requests c kes)
    = requests c (kes @ [ke])"
proof (rule om_eq)
  let ?p = "partition_of c ke"
  have fin: "finite {ke_key k |k. k \<in> set kes \<and> partition_of c k = p}" for p by simp
  have keys: "{ke_key k |k. k \<in> set (kes @ [ke]) \<and> partition_of c k = ?p}
      = insert (ke_key ke) {ke_key k |k. k \<in> set kes \<and> partition_of c k = ?p}" by auto
  have "os_insert (ke_key ke) (get_or [] (map_of (requests c kes) ?p)) = request_keys c (kes @ [ke]) ?p"
  proof (cases "?p \<in> remote_partitions c kes")
    case True
    then show ?thesis
      unfolding requests_lookup request_keys_def keys by (simp add: get_or_def os_insert_sorted_list_of_set)
  next
    case False
    then have none: "{ke_key k |k. k \<in> set kes \<and> partition_of c k = ?p} = {}" using assms by (auto simp: remote_partitions_def) (metis imageI)
    show ?thesis using False unfolding requests_lookup request_keys_def keys none by (simp add: get_or_def)
  qed
  moreover have "request_keys c (kes @ [ke]) p = request_keys c kes p" if "p \<noteq> ?p" for p
    using that unfolding request_keys_def by (auto intro!: arg_cong [where f = sorted_list_of_set])
  ultimately show "map_of (om_insert ?p (os_insert (ke_key ke) (get_or [] (map_of (requests c kes) ?p))) (requests c kes))
      = map_of (requests c (kes @ [ke]))"
    using assms by (auto simp: fun_eq_iff requests_lookup) (auto simp: remote_partitions_def)
qed (simp_all add: requests_ok om_insert_ok)

lemma requests_local: "partition_of c ke = cc_relative_node_id c \<Longrightarrow> requests c (kes @ [ke]) = requests c kes"
  by (rule om_eq) (auto simp: requests_ok fun_eq_iff requests_lookup remote_partitions_def request_keys_def
      intro!: arg_cong [where f = sorted_list_of_set])


text \<open>The requests of two lists, collected one entry after the other.\<close>

lemma lookup_entries_eq:
  assumes "\<forall>ke \<in> set kes. partition_of c ke = cc_relative_node_id c \<longrightarrow> GetMasterCounter s h (ke_key ke) = Inr (f (ke_key ke))"
  shows "lookup_entries c s h t kes
      (involved(t := replica_set (known_masters c f {cc_relative_node_id c} before)), n, requests c before)
    = Inr (map (fill c f {cc_relative_node_id c}) kes,
        involved(t := replica_set (known_masters c f {cc_relative_node_id c} (before @ kes))),
        n + of_nat (missing c {cc_relative_node_id c} kes), requests c (before @ kes))"
  using assms
proof (induction kes arbitrary: before n)
  case (Cons ke kes)
  let ?rel = "cc_relative_node_id c"
  have IH: "lookup_entries c s h t kes
      (involved(t := replica_set (known_masters c f {?rel} (before @ [ke]))), m, requests c (before @ [ke]))
    = Inr (map (fill c f {?rel}) kes, involved(t := replica_set (known_masters c f {?rel} (before @ ke # kes))),
        m + of_nat (missing c {?rel} kes), requests c (before @ ke # kes))" for m
  proof -
    have "\<forall>ke \<in> set kes. partition_of c ke = ?rel \<longrightarrow> GetMasterCounter s h (ke_key ke) = Inr (f (ke_key ke))"
      using Cons.prems by simp
    from Cons.IH [OF this, of "before @ [ke]" m] show ?thesis by (simp only: append_assoc append_Cons append_Nil)
  qed
  show ?case
  proof (cases "partition_of c ke = ?rel")
    case True
    have g: "GetMasterCounter s h (ke_key ke) = Inr (f (ke_key ke))" using Cons.prems True by simp
    have i: "involve t (fst (f (ke_key ke))) (involved(t := replica_set (known_masters c f {?rel} before)))
        = involved(t := replica_set (known_masters c f {?rel} (before @ [ke])))"
      using True by (simp add: involve_replica_set known_masters_Cons known_masters_def [of _ _ _ "[]"])
    have step: "lookup_entries c s h t (ke # kes)
        (involved(t := replica_set (known_masters c f {?rel} before)), n, requests c before)
      = bindE (lookup_entries c s h t kes
          (involved(t := replica_set (known_masters c f {?rel} (before @ [ke]))), n, requests c (before @ [ke])))
          (\<lambda>(kes', st'). Inr (looked_up f ke # kes', st'))"
      using True g by (simp add: partition_of_def Let_def case_prod_unfold i requests_local looked_up_def)
    show ?thesis unfolding step IH using True by (simp add: fill_def missing_def fun_upd_def del: lookup_entries.simps)
  next
    case False
    have m: "known_masters c f {?rel} (before @ [ke]) = known_masters c f {?rel} before"
      using False by (auto simp: known_masters_def)
    have step: "lookup_entries c s h t (ke # kes)
        (involved(t := replica_set (known_masters c f {?rel} before)), n, requests c before)
      = bindE (lookup_entries c s h t kes
          (involved(t := replica_set (known_masters c f {?rel} (before @ [ke]))), n + 1, requests c (before @ [ke])))
          (\<lambda>(kes', st'). Inr (ke # kes', st'))"
      using False requests_snoc [OF False, of before] by (simp add: partition_of_def Let_def m del: known_masters_append)
    show ?thesis unfolding step IH using False by (simp add: fill_def missing_def fun_upd_def del: lookup_entries.simps)
  qed
qed (simp add: missing_def)

text \<open>The answer of partition \<open>p\<close>.\<close>

definition answer_entry :: "(string \<Rightarrow> uint32 \<times> uint64) \<Rightarrow> string \<Rightarrow> key_entry" where
  "answer_entry f k = \<lparr>ke_key = k, ke_master = fst (f k), ke_counter = snd (f k)\<rparr>"

definition answer_of :: "cluster_config \<Rightarrow> (string \<Rightarrow> uint32 \<times> uint64) \<Rightarrow> uint64 \<Rightarrow> key_entry list \<Rightarrow> uint64 \<Rightarrow> lookup_master_result_entry" where
  "answer_of c f t kes p = \<lparr>lr_txn_id = t, lr_key_entries = map (answer_entry f) (request_keys c kes p)\<rparr>"

lemma answer_keys_eq:
  "\<forall>k \<in> set ks. GetMasterCounter s h k = Inr (f k) \<Longrightarrow> answer_keys s h ks = Inr (map (answer_entry f) ks)"
  by (induction ks) (simp_all add: answer_entry_def case_prod_unfold)

lemma remote_map: "fold (\<lambda>ke m. m(ke_key ke \<mapsto> ke)) (map (answer_entry f) ks) m0
    = (\<lambda>k. if k \<in> set ks then Some (answer_entry f k) else m0 k)"
  by (induction ks arbitrary: m0) (auto simp: answer_entry_def fun_eq_iff)

lemma fill_entries_eq:
  assumes "p \<notin> P" and "\<forall>ke \<in> set kes. remote (ke_key ke) = (if partition_of c ke = p then Some (answer_entry f (ke_key ke)) else None)"
    and "finite M"
  shows "fill_entries remote t (map (fill c f P) kes) n (involved(t := replica_set M))
    = (map (fill c f (insert p P)) kes, n - of_nat (length (filter (\<lambda>ke. partition_of c ke = p) kes)),
       involved(t := replica_set (M \<union> known_masters c f {p} kes)))"
  using assms(2,3)
proof (induction kes arbitrary: n M)
  case (Cons ke kes)
  have "\<forall>ke \<in> set kes. remote (ke_key ke) = (if partition_of c ke = p then Some (answer_entry f (ke_key ke)) else None)"
    using Cons.prems by simp
  note IH = Cons.IH [OF this]
  show ?case
  proof (cases "partition_of c ke = p")
    case True
    then have r: "remote (ke_key (fill c f P ke)) = Some (answer_entry f (ke_key ke))" using Cons.prems(1) by simp
    have k: "known_masters c f {p} (ke # kes) = insert (fst (f (ke_key ke))) (known_masters c f {p} kes)"
      using True by (simp add: known_masters_Cons)
    have i: "involve t (fst (f (ke_key ke))) (involved(t := replica_set M))
        = involved(t := replica_set (insert (fst (f (ke_key ke))) M))"
      using Cons.prems(2) by (rule involve_replica_set)
    have "fill_entries remote t (map (fill c f P) (ke # kes)) n (involved(t := replica_set M))
      = (let (kes', n', involved') = fill_entries remote t (map (fill c f P) kes) (n - 1)
           (involved(t := replica_set (insert (fst (f (ke_key ke))) M)))
         in (looked_up f ke # kes', n', involved'))"
      using True assms(1) by (simp only: list.map fill_entries.simps r option.case answer_entry_def key_entry.simps i)
        (simp add: fill_def looked_up_def)
    also have "\<dots> = (looked_up f ke # map (fill c f (insert p P)) kes,
        n - 1 - of_nat (length (filter (\<lambda>ke. partition_of c ke = p) kes)),
        involved(t := replica_set (insert (fst (f (ke_key ke))) M \<union> known_masters c f {p} kes)))"
      by (subst IH) (use Cons.prems(2) in simp_all)
    also have "looked_up f ke # map (fill c f (insert p P)) kes = map (fill c f (insert p P)) (ke # kes)"
      using True by (simp add: fill_def)
    also have "n - 1 - of_nat (length (filter (\<lambda>ke. partition_of c ke = p) kes))
        = n - of_nat (length (filter (\<lambda>ke. partition_of c ke = p) (ke # kes)))"
      using True by simp
    also have "insert (fst (f (ke_key ke))) M \<union> known_masters c f {p} kes = M \<union> known_masters c f {p} (ke # kes)"
      by (simp add: k)
    finally show ?thesis .
  next
    case False
    then have r: "remote (ke_key (fill c f P ke)) = None" using Cons.prems(1) by simp
    show ?thesis
      using False Cons.prems
      by (simp only: list.map fill_entries.simps r option.case) (subst IH, simp_all add: fill_def known_masters_Cons)
  qed
qed (simp add: known_masters_def)

text \<open>The writer while transaction \<open>txn\<close> waits: the partitions \<open>P\<close> are known.\<close>

definition waiting_writer ::
  "cluster_config \<Rightarrow> (string \<Rightarrow> uint32 \<times> uint64) \<Rightarrow> txn_proto \<Rightarrow> uint64 set \<Rightarrow> ('b, 'c, 'g) ll_writer \<Rightarrow> ('b, 'c, 'g) ll_writer" where
  "waiting_writer c f txn P w =
     w\<lparr>lw_expected := (lw_expected w)(tx_txn_id txn \<mapsto> (of_nat (missing c P (entries_of_txn txn)), fill_txn c f P txn)),
       lw_involved := (lw_involved w)(tx_txn_id txn := replica_set (known_masters c f P (entries_of_txn txn)))\<rparr>"

text \<open>The transaction with every master and counter, and the replicas it involves.\<close>

definition complete_txn :: "(string \<Rightarrow> uint32 \<times> uint64) \<Rightarrow> txn_proto \<Rightarrow> txn_proto" where
  "complete_txn f txn = txn\<lparr>tx_read_set := map (looked_up f) (tx_read_set txn),
     tx_read_write_set := map (looked_up f) (tx_read_write_set txn),
     tx_involved_replicas := tx_involved_replicas txn
       @ sorted_list_of_set ((\<lambda>ke. fst (f (ke_key ke))) ` set (entries_of_txn txn))\<rparr>"

lemma finish_complete:
  assumes "\<forall>ke \<in> set (entries_of_txn txn). partition_of c ke \<in> P"
    and "lw_involved w = involved(t := replica_set (known_masters c f P (entries_of_txn txn)))" and "involved t = None"
  shows "finish_txn cd rnd t (fill_txn c f P txn) w = route_txn cd rnd (complete_txn f txn) (w\<lparr>lw_involved := involved\<rparr>)"
proof -
  have k: "known_masters c f P (entries_of_txn txn) = (\<lambda>ke. fst (f (ke_key ke))) ` set (entries_of_txn txn)"
    using assms(1) by (auto simp: known_masters_def)
  have "fill_txn c f P txn\<lparr>tx_involved_replicas := tx_involved_replicas txn
      @ sorted_list_of_set ((\<lambda>ke. fst (f (ke_key ke))) ` set (entries_of_txn txn))\<rparr> = complete_txn f txn"
    using assms(1) by (simp add: fill_txn_def complete_txn_def fill_def entries_of_txn_def)
  moreover have "tx_involved_replicas (fill_txn c f P txn) = tx_involved_replicas txn" by (simp add: fill_txn_def)
  moreover have "(lw_involved w)(t := None) = involved" using assms(2,3) by (auto simp: fun_eq_iff)
  ultimately show ?thesis
    using assms(2) by (simp add: finish_txn_def k get_or_replica_set)
qed

lemma of_nat32_eq_0: "n < 2 ^ 32 \<Longrightarrow> (of_nat n :: uint32) = 0 \<longleftrightarrow> n = 0"
  by (simp add: word_unat_eq_iff unsigned_of_nat take_bit_nat_eq_self)

lemma ucast_of_nat32: "n < 2 ^ 32 \<Longrightarrow> ucast (of_nat n :: uint64) = (of_nat n :: uint32)"
  by (simp add: word_unat_eq_iff unsigned_ucast_eq unsigned_of_nat take_bit_nat_eq_self)

lemma missing_insert:
  "p \<notin> P \<Longrightarrow> missing c P kes = missing c (insert p P) kes + length (filter (\<lambda>ke. partition_of c ke = p) kes)"
  by (induction kes) (auto simp: missing_def)

lemma known_masters_insert: "known_masters c f (insert p P) kes = known_masters c f P kes \<union> known_masters c f {p} kes"
  by (auto simp: known_masters_def)

lemma missing_words:
  assumes "length kes < 2 ^ 32"
  shows "(of_nat (missing c P kes) :: uint32) = 0 \<longleftrightarrow> missing c P kes = 0"
    and "ucast (of_nat (missing c P kes) :: uint32) = (of_nat (missing c P kes) :: uint64)"
    and "ucast (of_nat (missing c P kes) :: uint64) = (of_nat (missing c P kes) :: uint32)"
proof -
  have "missing c P kes \<le> length kes" by (simp add: missing_def)
  with assms have le: "missing c P kes < 2 ^ 32" by linarith
  show "(of_nat (missing c P kes) :: uint32) = 0 \<longleftrightarrow> missing c P kes = 0" using le by (rule of_nat32_eq_0)
  show "ucast (of_nat (missing c P kes) :: uint32) = (of_nat (missing c P kes) :: uint64)"
    using le by (simp add: unsigned_ucast_eq word_unat_eq_iff unsigned_of_nat take_bit_nat_eq_self)
  show "ucast (of_nat (missing c P kes) :: uint64) = (of_nat (missing c P kes) :: uint32)" using le by (rule ucast_of_nat32)
qed

lemma missing_answered:
  assumes "p \<notin> P" and "length (entries_of_txn txn) < 2 ^ 32"
  shows "ucast (of_nat (missing c P (entries_of_txn txn)) :: uint64)
      - of_nat (length (filter (\<lambda>ke. partition_of c ke = p) (tx_read_set txn)))
      - of_nat (length (filter (\<lambda>ke. partition_of c ke = p) (tx_read_write_set txn)))
    = (of_nat (missing c (insert p P) (entries_of_txn txn)) :: uint32)"
proof -
  have "missing c P (entries_of_txn txn) = missing c (insert p P) (entries_of_txn txn)
      + length (filter (\<lambda>ke. partition_of c ke = p) (tx_read_set txn)) + length (filter (\<lambda>ke. partition_of c ke = p) (tx_read_write_set txn))"
    using missing_insert [OF assms(1), of c "entries_of_txn txn"] by (simp add: entries_of_txn_def)
  with missing_words(3) [OF assms(2), of c P] show ?thesis by simp
qed

text \<open>The entries that an answer fills, and the masters it adds.\<close>

lemma fill_answer:
  assumes "p \<notin> P" "set kes \<subseteq> set (entries_of_txn txn)" "finite M"
  shows "fill_entries (fold (\<lambda>ke m. m(ke_key ke \<mapsto> ke)) (lr_key_entries (answer_of c f t (entries_of_txn txn) p)) Map.empty) t
      (map (fill c f P) kes) n (reps(t := replica_set M))
    = (map (fill c f (insert p P)) kes, n - of_nat (length (filter (\<lambda>ke. partition_of c ke = p) kes)),
       reps(t := replica_set (M \<union> known_masters c f {p} kes)))"
proof -
  let ?remote = "fold (\<lambda>ke m. m(ke_key ke \<mapsto> ke)) (lr_key_entries (answer_of c f t (entries_of_txn txn) p)) Map.empty"
  have "?remote (ke_key ke) = (if partition_of c ke = p then Some (answer_entry f (ke_key ke)) else None)"
    if "ke \<in> set (entries_of_txn txn)" for ke
    using that by (auto simp: answer_of_def remote_map request_keys_def partition_of_def)
  with assms(2,3) show ?thesis by (intro fill_entries_eq [OF assms(1)]) auto
qed

lemma handle_answer_result:
  assumes "p \<notin> P" and "length (entries_of_txn txn) < 2 ^ 32" and "lw_expected w (tx_txn_id txn) = None"
    and involved: "involved = (lw_involved w)(tx_txn_id txn := replica_set (known_masters c f (insert p P) (entries_of_txn txn)))"
    and left: "left = missing c (insert p P) (entries_of_txn txn)"
  shows "handle_result cd rnd (answer_of c f (tx_txn_id txn) (entries_of_txn txn) p) (waiting_writer c f txn P w, sent)
    = (if (of_nat left :: uint32) = 0
       then let (w2, out) = finish_txn cd rnd (tx_txn_id txn) (fill_txn c f (insert p P) txn)
              (w\<lparr>lw_expected := lw_expected w, lw_involved := involved\<rparr>) in Inr (w2, sent @ out)
       else Inr (w\<lparr>lw_expected := (lw_expected w)(tx_txn_id txn \<mapsto> (ucast (of_nat left :: uint32), fill_txn c f (insert p P) txn)),
                   lw_involved := involved\<rparr>, sent))"
proof -
  let ?t = "tx_txn_id txn" and ?kes = "entries_of_txn txn" and ?ww = "waiting_writer c f txn P w"
  have ww: "lw_expected ?ww ?t = Some (of_nat (missing c P ?kes), fill_txn c f P txn)"
    "lw_involved ?ww = (lw_involved w)(?t := replica_set (known_masters c f P ?kes))"
    by (simp_all add: waiting_writer_def)
  have sets: "tx_read_set (fill_txn c f P txn) = map (fill c f P) (tx_read_set txn)"
    "tx_read_write_set (fill_txn c f P txn) = map (fill c f P) (tx_read_write_set txn)"
    "fill_txn c f P txn\<lparr>tx_read_set := map (fill c f (insert p P)) (tx_read_set txn),
       tx_read_write_set := map (fill c f (insert p P)) (tx_read_write_set txn)\<rparr> = fill_txn c f (insert p P) txn"
    by (simp_all add: fill_txn_def)
  have involved1: "(lw_involved w)(?t := replica_set (known_masters c f P ?kes \<union> known_masters c f {p} (tx_read_set txn)
      \<union> known_masters c f {p} (tx_read_write_set txn))) = involved"
    by (simp add: involved known_masters_insert [of c f p P] entries_of_txn_def Un_ac)
  have id: "lr_txn_id (answer_of c f ?t ?kes p) = ?t" by (simp add: answer_of_def)
  have sub: "set (tx_read_set txn) \<subseteq> set ?kes" "set (tx_read_write_set txn) \<subseteq> set ?kes"
    by (auto simp: entries_of_txn_def)
  have w1: "?ww\<lparr>lw_involved := involved\<rparr>\<lparr>lw_expected := (lw_expected (?ww\<lparr>lw_involved := involved\<rparr>))(?t := None)\<rparr>
      = w\<lparr>lw_expected := lw_expected w, lw_involved := involved\<rparr>"
    using assms(3) by (simp add: waiting_writer_def fun_upd_idem)
  have w2: "?ww\<lparr>lw_involved := involved\<rparr>\<lparr>lw_expected := (lw_expected (?ww\<lparr>lw_involved := involved\<rparr>))(?t \<mapsto> x)\<rparr>
      = w\<lparr>lw_expected := (lw_expected w)(?t \<mapsto> x), lw_involved := involved\<rparr>" for x
    by (simp add: waiting_writer_def)
  show ?thesis
    unfolding handle_result_def Let_def prod.case id ww option.case sets
    by (simp only: fill_answer [OF assms(1) sub(1) finite_known_masters] fill_answer [OF assms(1) sub(2)] finite_UnI finite_known_masters
        prod.case missing_answered [OF assms(1,2)] sets involved1 w1 w2 left)
qed

lemma handle_answer:
  assumes "p \<notin> P" and "length (entries_of_txn txn) < 2 ^ 32"
    and "lw_expected w (tx_txn_id txn) = None" "lw_involved w (tx_txn_id txn) = None"
  shows "handle_result cd rnd (answer_of c f (tx_txn_id txn) (entries_of_txn txn) p) (waiting_writer c f txn P w, sent)
    = Inr (if missing c (insert p P) (entries_of_txn txn) = 0
           then (fst (route_txn cd rnd (complete_txn f txn) w), sent @ snd (route_txn cd rnd (complete_txn f txn) w))
           else (waiting_writer c f txn (insert p P) w, sent))"
proof (cases "missing c (insert p P) (entries_of_txn txn) = 0")
  case True
  let ?w = "w\<lparr>lw_expected := lw_expected w, lw_involved := (lw_involved w)(tx_txn_id txn := replica_set (known_masters c f (insert p P) (entries_of_txn txn)))\<rparr>"
  have "finish_txn cd rnd (tx_txn_id txn) (fill_txn c f (insert p P) txn) ?w
      = route_txn cd rnd (complete_txn f txn) (?w\<lparr>lw_involved := lw_involved w\<rparr>)"
    using True assms(4) by (intro finish_complete) (simp_all add: missing_0)
  then show ?thesis using True handle_answer_result [OF assms(1-3) refl refl]
    by (simp add: case_prod_unfold Let_def)
next
  case False
  with handle_answer_result [OF assms(1-3) refl refl, where c = c and f = f and sent = sent]
  show ?thesis by (simp add: missing_words [OF assms(2)] waiting_writer_def)
qed

lemma handle_answers:
  assumes "length (entries_of_txn txn) < 2 ^ 32"
    and "lw_expected w (tx_txn_id txn) = None" "lw_involved w (tx_txn_id txn) = None"
    and "distinct ps" and "set ps \<inter> P = {}" and "remote_partitions c (entries_of_txn txn) \<subseteq> P \<union> set ps"
    and "set ps \<subseteq> remote_partitions c (entries_of_txn txn)" and "cc_relative_node_id c \<in> P" and "ps \<noteq> []"
  shows "foldE (handle_result cd rnd) (map (answer_of c f (tx_txn_id txn) (entries_of_txn txn)) ps) (waiting_writer c f txn P w, [])
      = Inr (route_txn cd rnd (complete_txn f txn) w)
    \<and> (\<forall>k < length ps. foldE (handle_result cd rnd) (map (answer_of c f (tx_txn_id txn) (entries_of_txn txn)) (take k ps))
         (waiting_writer c f txn P w, []) = Inr (waiting_writer c f txn (P \<union> set (take k ps)) w, []))"
  using assms(4-9)
proof (induction ps arbitrary: P)
  case (Cons p ps)
  have p: "p \<notin> P" using Cons.prems by auto
  note step = handle_answer [OF p assms(1-3), of cd rnd c f "[]"]
  show ?case
  proof (cases "ps = []")
    case True
    have "partition_of c ke \<in> insert p P" if "ke \<in> set (entries_of_txn txn)" for ke
      using that Cons.prems(3,5) True by (auto simp: remote_partitions_def)
    then have "missing c (insert p P) (entries_of_txn txn) = 0" by (simp add: missing_0)
    then show ?thesis using True step by simp
  next
    case False
    then obtain q where q: "q \<in> set ps" by (cases ps) auto
    then have "q \<in> remote_partitions c (entries_of_txn txn)" "q \<notin> insert p P" using Cons.prems by auto
    then have "missing c (insert p P) (entries_of_txn txn) \<noteq> 0" by (auto simp: missing_0 remote_partitions_def)
    then have step': "handle_result cd rnd (answer_of c f (tx_txn_id txn) (entries_of_txn txn) p) (waiting_writer c f txn P w, [])
        = Inr (waiting_writer c f txn (insert p P) w, [])" using step by simp
    have IH: "foldE (handle_result cd rnd) (map (answer_of c f (tx_txn_id txn) (entries_of_txn txn)) ps)
          (waiting_writer c f txn (insert p P) w, []) = Inr (route_txn cd rnd (complete_txn f txn) w)
      \<and> (\<forall>k < length ps. foldE (handle_result cd rnd) (map (answer_of c f (tx_txn_id txn) (entries_of_txn txn)) (take k ps))
         (waiting_writer c f txn (insert p P) w, []) = Inr (waiting_writer c f txn (insert p P \<union> set (take k ps)) w, []))"
      using Cons.prems False by (intro Cons.IH) auto
    show ?thesis
    proof (intro conjI allI impI)
      show "foldE (handle_result cd rnd) (map (answer_of c f (tx_txn_id txn) (entries_of_txn txn)) (p # ps))
          (waiting_writer c f txn P w, []) = Inr (route_txn cd rnd (complete_txn f txn) w)"
        using IH step' by simp
      fix k assume "k < length (p # ps)"
      then show "foldE (handle_result cd rnd) (map (answer_of c f (tx_txn_id txn) (entries_of_txn txn)) (take k (p # ps)))
          (waiting_writer c f txn P w, []) = Inr (waiting_writer c f txn (P \<union> set (take k (p # ps))) w, [])"
        using IH step' by (cases k) simp_all
    qed
  qed
qed simp

lemma new_txn_round_eq:
  assumes g: "GetTxn (ucast (bn * ucast mx + ucast (lw_offset w))) (lw_client w) = (txn0, client)"
    and "lw_config w = c" and txn: "txn = stamp_txn c lc txn0"
    and known: "\<forall>ke \<in> set (entries_of_txn txn). partition_of c ke = cc_relative_node_id c
      \<longrightarrow> GetMasterCounter s h (ke_key ke) = Inr (f (ke_key ke))"
    and fresh: "lw_involved w (tx_txn_id txn) = None" and small: "length (entries_of_txn txn) < 2 ^ 32"
    and w1: "w1 = w\<lparr>lw_client := client, lw_offset := lw_offset w + 1\<rparr>"
  shows "new_txn_round cd GetTxn rnd mx bn lc s h w = Inr (
     if remote_partitions c (entries_of_txn txn) = {} then route_txn cd rnd (complete_txn f txn) w1
     else (waiting_writer c f txn {cc_relative_node_id c}
             (w1\<lparr>lw_lookups := fold (add_lookup cd (tx_txn_id txn)) (requests c (entries_of_txn txn)) (lw_lookups w)\<rparr>), []))"
proof -
  let ?t = "tx_txn_id txn" and ?kes = "entries_of_txn txn" and ?rel = "cc_relative_node_id c"
  let ?inv = "\<lambda>kes. (lw_involved w)(?t := replica_set (known_masters c f {?rel} kes))"
  have start: "(lw_involved w, 0, []) = (?inv [], 0 :: uint32, requests c [])"
    using fresh by (simp add: replica_set_def known_masters_def requests_def remote_partitions_def fun_upd_idem)
  have e1: "lookup_entries c s h ?t (tx_read_set txn) (lw_involved w, 0, [])
      = Inr (map (fill c f {?rel}) (tx_read_set txn), ?inv (tx_read_set txn),
          of_nat (missing c {?rel} (tx_read_set txn)), requests c (tx_read_set txn))"
    unfolding start by (subst lookup_entries_eq) (use known in \<open>auto simp: entries_of_txn_def\<close>)
  have e2: "lookup_entries c s h ?t (tx_read_write_set txn)
        (?inv (tx_read_set txn), of_nat (missing c {?rel} (tx_read_set txn)), requests c (tx_read_set txn))
      = Inr (map (fill c f {?rel}) (tx_read_write_set txn), ?inv ?kes, of_nat (missing c {?rel} ?kes), requests c ?kes)"
    by (subst lookup_entries_eq) (use known in \<open>auto simp: entries_of_txn_def\<close>)
  have le: "missing c {?rel} ?kes < 2 ^ 32" 
    unfolding missing_def by (rule le_less_trans [OF length_filter_le small])
  have zero: "(of_nat (missing c {?rel} ?kes) :: uint32) = 0 \<longleftrightarrow> remote_partitions c ?kes = {}"
    using of_nat32_eq_0 [OF le] by (auto simp: missing_0 remote_partitions_def)
  have widen: "ucast (of_nat (missing c {?rel} ?kes) :: uint32) = (of_nat (missing c {?rel} ?kes) :: uint64)"
    using le by (simp add: unsigned_ucast_eq word_unat_eq_iff unsigned_of_nat take_bit_nat_eq_self)
  have sets: "txn\<lparr>tx_read_set := map (fill c f {?rel}) (tx_read_set txn),
      tx_read_write_set := map (fill c f {?rel}) (tx_read_write_set txn)\<rparr> = fill_txn c f {?rel} txn"
    by (simp add: fill_txn_def)
  let ?w = "w\<lparr>lw_client := client, lw_offset := lw_offset w + 1, lw_involved := ?inv ?kes\<rparr>"
  have "new_txn_round cd GetTxn rnd mx bn lc s h w = Inr (if (of_nat (missing c {?rel} ?kes) :: uint32) = 0
      then finish_txn cd rnd ?t (fill_txn c f {?rel} txn) ?w
      else (?w\<lparr>lw_expected := (lw_expected ?w)(?t \<mapsto> (ucast (of_nat (missing c {?rel} ?kes) :: uint32), fill_txn c f {?rel} txn)),
               lw_lookups := fold (add_lookup cd ?t) (requests c ?kes) (lw_lookups ?w)\<rparr>, []))"
    unfolding new_txn_round_def Let_def assms(2) g prod.case txn [symmetric]
    by (simp only: e1 e2 bindE_simps prod.case sets)
  also have "\<dots> = Inr (if remote_partitions c ?kes = {} then route_txn cd rnd (complete_txn f txn) w1
     else (waiting_writer c f txn {?rel} (w1\<lparr>lw_lookups := fold (add_lookup cd ?t) (requests c ?kes) (lw_lookups w)\<rparr>), []))"
  proof (cases "remote_partitions c ?kes = {}")
    case True
    then have "\<forall>ke \<in> set ?kes. partition_of c ke \<in> {?rel}" by (auto simp: remote_partitions_def)
    then have "finish_txn cd rnd ?t (fill_txn c f {?rel} txn) ?w
        = route_txn cd rnd (complete_txn f txn) (?w\<lparr>lw_involved := lw_involved w\<rparr>)"
      by (rule finish_complete) (use fresh in simp_all)
    then show ?thesis using True by (simp add: zero w1)
  next
    case False
    then show ?thesis by (simp add: zero widen waiting_writer_def w1)
  qed
  finally show ?thesis .
qed

lemma answer_lookups:
  assumes "\<forall>ke \<in> set kes. GetMasterCounter (fst (own (partition_of c ke))) (snd (own (partition_of c ke))) (ke_key ke) = Inr (f (ke_key ke))"
  shows "answer_lookup (fst (own p)) (snd (own p)) \<lparr>lm_txn_id = t, lm_keys = request_keys c kes p\<rparr> = Inr (answer_of c f t kes p)"
proof -
  have "\<forall>k \<in> set (request_keys c kes p). GetMasterCounter (fst (own p)) (snd (own p)) k = Inr (f k)"
    using assms by (auto simp: request_keys_def)
  from answer_keys_eq [OF this] show ?thesis by (simp add: answer_lookup_def answer_of_def)
qed


section \<open>Instances\<close>

definition example_ll_client :: "int32 \<Rightarrow> unit \<Rightarrow> txn_proto \<times> unit" where
  "example_ll_client n u = (TxnProto_new\<lparr>tx_txn_id := 7, tx_read_set := [\<lparr>ke_key = ''1'', ke_master = 0, ke_counter = 0\<rparr>]\<rparr>, u)"

definition example_rand :: "uint64 \<Rightarrow> uint64 \<times> uint64" where "example_rand g = (g, g + 1)"

definition example_writer :: "(payload, unit, uint64) ll_writer" where
  "example_writer = LLWriter_new (example_config 0) () 5"

lemma example_writer_fields [simp]:
  "lw_config example_writer = example_config 0" "lw_expected example_writer = Map.empty"
  "lw_involved example_writer = Map.empty" "lw_offset example_writer = 0" "lw_client example_writer = ()"
  by (simp_all add: example_writer_def LLWriter_new_def)

lemma stamp_txn_fields [simp]:
  "entries_of_txn (stamp_txn c lc txn) = entries_of_txn txn" "tx_txn_id (stamp_txn c lc txn) = tx_txn_id txn"
  by (simp_all add: stamp_txn_def Let_def entries_of_txn_def)

lemma example_ll_client_fields [simp]:
  "entries_of_txn (fst (example_ll_client n u)) = [\<lparr>ke_key = ''1'', ke_master = 0, ke_counter = 0\<rparr>]"
  "tx_txn_id (fst (example_ll_client n u)) = 7"
  by (simp_all add: entries_of_txn_def example_ll_client_def TxnProto_new_def)

lemma example_partitions:
  "LookupPartition (example_config n) ''1'' = 1" "cc_relative_node_id (example_config 0) = 0"
  by (simp_all add: LookupPartition_def example_StringToInt example_config_size) (simp add: example_config_def)

lemma example_remote: "remote_partitions (example_config 0) (entries_of_txn (fst (example_ll_client n ()))) = {1}"
  by (simp add: remote_partitions_def partition_of_def example_partitions)

lemma ll_reader_distributes_batch_witness:
  "\<exists>q q' subs. LLReader_message payload_codec Map.empty [] (MessageProto_new\<lparr>msg_type := TXN_BATCH, msg_misc_bool := [True],
        msg_batch_number := 3, msg_data := [Txn_bytes (fst (example_ll_client 0 ()))]\<rparr>) q
      = Inr (q', MessageProto_new\<lparr>msg_type := BATCH_SUBMIT, msg_destination_channel := ''sequencer_'',
          msg_destination_node := 0, msg_misc_int := [3]\<rparr> # subs)
    \<and> map msg_type subs = [TXN_SUBBATCH, TXN_SUBBATCH] \<and> map msg_batch_number subs = [3, 3]"
proof -
  let ?m = "MessageProto_new\<lparr>msg_type := TXN_BATCH, msg_misc_bool := [True],
     msg_batch_number := 3, msg_data := [Txn_bytes (fst (example_ll_client 0 ()))]\<rparr>"
  let ?c = "example_config 0"
  have "\<forall>m \<in> set ([] @ [?m]). msg_type m = TXN_BATCH \<and> msg_misc_bool m \<noteq> []"
    "\<forall>d \<in> set (msg_data ?m). distinct (tx_involved_replicas (dec_txn payload_codec d))"
    by (simp_all add: payload_codec_def example_ll_client_def TxnProto_new_def)
  note r = ll_reader_distributes_batch [OF example_config_ok [of 0] this, of Map.empty "[]" "LocalPaxos_new ?c 0"]
  have own: "LookupReplica ?c (msg_source_node ?m) = cc_local_replica ?c" "cc_local_replica ?c = 0" "unat (nodes_per_replica ?c) = 2"
    by (simp_all add: LookupReplica_def example_config_size MessageProto_new_def) (simp_all add: example_config_def)
  have two: "[0..<2] = [0, 1::nat]" by (simp add: upt_rec)
  from r obtain q q' submit subs mr where run: "LLReader_message payload_codec Map.empty [] ?m q = Inr (q', submit @ subs @ mr)"
    and submit: "submit = (if LookupReplica ?c (msg_source_node ?m) = cc_local_replica ?c \<and> hd (msg_misc_bool ?m)
        then [MessageProto_new\<lparr>msg_type := BATCH_SUBMIT, msg_destination_channel := ''sequencer_'',
          msg_destination_node := ucast (cc_local_replica ?c) * nodes_per_replica ?c, msg_misc_int := [msg_batch_number ?m]\<rparr>] else [])"
    and subs: "map msg_type subs = map (\<lambda>_. TXN_SUBBATCH) [0..<unat (nodes_per_replica ?c)]"
      "map msg_batch_number subs = map (\<lambda>_. msg_batch_number ?m) [0..<unat (nodes_per_replica ?c)]"
    and mr: "cc_local_replica ?c = 0 \<longrightarrow> mr = []"
    by (elim exE conjE) (rule that, assumption, assumption, simp_all)
  have "submit = [MessageProto_new\<lparr>msg_type := BATCH_SUBMIT, msg_destination_channel := ''sequencer_'',
      msg_destination_node := 0, msg_misc_int := [3]\<rparr>]"
    unfolding submit using own by simp
  with run mr own have "LLReader_message payload_codec Map.empty [] ?m q = Inr (q',
      MessageProto_new\<lparr>msg_type := BATCH_SUBMIT, msg_destination_channel := ''sequencer_'',
        msg_destination_node := 0, msg_misc_int := [3]\<rparr> # subs)" by simp
  moreover have "map msg_type subs = [TXN_SUBBATCH, TXN_SUBBATCH]" "map msg_batch_number subs = [3, 3]"
    using subs unfolding own two by simp_all
  ultimately show ?thesis by (intro exI conjI)
qed

lemma txn_routed_home_witness:
  "\<exists>w' m. route_txn payload_codec example_rand (TxnProto_new\<lparr>tx_involved_replicas := [1]\<rparr>) example_writer = (w', [m])
     \<and> LookupReplica (example_config 0) (msg_destination_node m) = 1"
proof -
  let ?txn = "TxnProto_new\<lparr>tx_involved_replicas := [1]\<rparr>"
  obtain w' sent where r: "route_txn payload_codec example_rand ?txn example_writer = (w', sent)" by (metis surj_pair)
  have home: "home_replica ?txn = 1" "home_replica ?txn \<noteq> cc_local_replica (example_config 0)"
    by (simp_all add: home_replica_def example_config_def)
  have "\<exists>m. sent = [m] \<and> msg_type m = TXN_FORWORD \<and> LookupReplica (example_config 0) (msg_destination_node m) = home_replica ?txn"
    using txn_routed_home [OF example_config_ok example_writer_fields(1) _ payload_codec_ok _ r] home
    by (auto simp: example_config_size)
  with r home show ?thesis by (intro exI [of _ w']) auto
qed

lemma lookups_wait_for_full_batch_witness:
  "\<exists>w' sent. writer_rounds payload_codec example_ll_client example_rand 1 (fst (begin_epoch example_writer))
      [\<lparr>li_message = None, li_latency_counter = 0, li_storage = Map.empty, li_heap = []\<rparr>] (snd (begin_epoch example_writer))
      = Inr (w', sent) \<and> lw_expected w' 7 \<noteq> None \<and> (\<forall>m \<in> set sent. msg_type m \<noteq> MASTER_LOOKUP)"
proof -
  let ?i = "\<lparr>li_message = None, li_latency_counter = 0, li_storage = Map.empty, li_heap = []\<rparr> :: payload ll_input"
  let ?bn = "fst (begin_epoch example_writer)" and ?w0 = "snd (begin_epoch example_writer)"
  let ?c = "snd (GetGUID (example_config 0))" and ?txn = "stamp_txn (snd (GetGUID (example_config 0))) 0 (fst (example_ll_client 0 ()))"
  have w0: "lw_config ?w0 = ?c" "lw_offset ?w0 = 0" "lw_client ?w0 = ()" "lw_involved ?w0 = Map.empty"
    by (simp_all add: begin_epoch_def Let_def case_prod_unfold)
  have part: "LookupPartition ?c ''1'' = 1" "cc_relative_node_id ?c = 0"
    using example_partitions by (simp_all add: LookupPartition_def GetGUID_def nodes_per_replica_def all_nodes_size_def)
  have e: "entries_of_txn ?txn = [\<lparr>ke_key = ''1'', ke_master = 0, ke_counter = 0\<rparr>]" "tx_txn_id ?txn = 7"
    by simp_all
  have "new_txn_round payload_codec example_ll_client example_rand 1 ?bn 0 Map.empty [] ?w0 = Inr (
      if remote_partitions ?c (entries_of_txn ?txn) = {} then route_txn payload_codec example_rand (complete_txn (\<lambda>_. (0, 0)) ?txn)
        (?w0\<lparr>lw_client := (), lw_offset := lw_offset ?w0 + 1\<rparr>)
      else (waiting_writer ?c (\<lambda>_. (0, 0)) ?txn {cc_relative_node_id ?c} (?w0\<lparr>lw_client := (), lw_offset := lw_offset ?w0 + 1\<rparr>
             \<lparr>lw_lookups := fold (add_lookup payload_codec (tx_txn_id ?txn)) (requests ?c (entries_of_txn ?txn)) (lw_lookups ?w0)\<rparr>), []))"
    by (rule new_txn_round_eq [OF _ w0(1) refl])
      (simp_all add: w0 e part partition_of_def, simp_all add: example_ll_client_def)
  then obtain w' where w': "new_txn_round payload_codec example_ll_client example_rand 1 ?bn 0 Map.empty [] ?w0 = Inr (w', [])"
    "lw_expected w' 7 \<noteq> None"
    by (simp add: e part partition_of_def remote_partitions_def waiting_writer_def)
  have r: "writer_rounds payload_codec example_ll_client example_rand 1 ?bn [?i] ?w0 = Inr (w', [])"
    by (simp add: writer_rounds_def writer_round_def w0(2) w'(1))
  have "\<forall>m \<in> set ([] :: payload message_proto list). msg_type m \<noteq> MASTER_LOOKUP"
    by (rule lookups_wait_for_full_batch [OF prod.collapse [symmetric] r]) simp
  with r w'(2) show ?thesis by blast
qed

definition example_owner :: "uint64 \<Rightarrow> simple_storage \<times> rec_heap" where
  "example_owner p = ([''1'' \<mapsto> 0], [Record_new_counter ''v'' 1 5])"


end
