(* ===== verification/Client.thy ===== *)
theory Client
  imports Tpcc
begin

text \<open>
  \<open>machine/client.h\<close>: the four clients that hand transactions to the sequencers, two for each
  application. What they return is stated with the shapes of \<open>Microbenchmark\<close> and \<open>Tpcc\<close>. A client
  draws another node or another replica until it differs from its own, which never ends when there
  is only one.
\<close>

section \<open>State\<close>

record mclient =
  mc_microbenchmark :: microbenchmark
  mc_percent_mp :: uint32
  mc_nodes_per_replica :: uint64
  mc_relative_node_id :: uint64

record tclient =
  tc_tpcc :: tpcc
  tc_percent_mp :: uint32
  tc_nodes_per_replica :: uint64
  tc_relative_node_id :: uint64

record lowlatency_mclient = mclient +
  mc_percent_mr :: uint32
  mc_local_replica :: uint32
  mc_num_replicas :: uint32

record lowlatency_tclient = tclient +
  tc_percent_mr :: uint32
  tc_local_replica :: uint32
  tc_num_replicas :: uint32

definition MClient_new :: "cluster_config \<Rightarrow> uint32 \<Rightarrow> uint32 \<Rightarrow> mclient" where
  "MClient_new config mp hot_records =
     \<lparr>mc_microbenchmark = Microbenchmark_new config hot_records, mc_percent_mp = mp,
      mc_nodes_per_replica = nodes_per_replica config, mc_relative_node_id = cc_relative_node_id config\<rparr>"

definition TClient_new :: "cluster_config \<Rightarrow> uint32 \<Rightarrow> uint32 \<Rightarrow> tclient" where
  "TClient_new config mp hot_records =
     \<lparr>tc_tpcc = Tpcc_new config hot_records, tc_percent_mp = mp,
      tc_nodes_per_replica = nodes_per_replica config, tc_relative_node_id = cc_relative_node_id config\<rparr>"

definition Lowlatency_MClient_new :: "cluster_config \<Rightarrow> uint32 \<Rightarrow> uint32 \<Rightarrow> uint32 \<Rightarrow> lowlatency_mclient" where
  "Lowlatency_MClient_new config mp mr hot_records =
     \<lparr>mc_microbenchmark = Microbenchmark_new config hot_records, mc_percent_mp = mp,
      mc_nodes_per_replica = nodes_per_replica config, mc_relative_node_id = cc_relative_node_id config,
      mc_percent_mr = mr, mc_local_replica = cc_local_replica config, mc_num_replicas = cc_replicas_size config\<rparr>"

definition Lowlatency_TClient_new :: "cluster_config \<Rightarrow> uint32 \<Rightarrow> uint32 \<Rightarrow> uint32 \<Rightarrow> lowlatency_tclient" where
  "Lowlatency_TClient_new config mp mr hot_records =
     \<lparr>tc_tpcc = Tpcc_new config hot_records, tc_percent_mp = mp,
      tc_nodes_per_replica = nodes_per_replica config, tc_relative_node_id = cc_relative_node_id config,
      tc_percent_mr = mr, tc_local_replica = cc_local_replica config, tc_num_replicas = cc_replicas_size config\<rparr>"

section \<open>Choices\<close>

text \<open>
  \<open>b && (uint32)(rand() % 100) < percent\<close>, which draws only if \<open>b\<close> holds, and the loop for another
  node or replica.
\<close>

definition chance :: "bool \<Rightarrow> uint32 \<Rightarrow> bool gen" where
  "chance b percent = (if b then mapG (\<lambda>x. x < percent) (rand_mod 100) else returnG False)"

definition draw_other :: "'w::len word \<Rightarrow> 'w word \<Rightarrow> 'w word gen" where
  "draw_other n own = repeat_until (rand_mod n) (\<lambda>other. other \<noteq> own)"

section \<open>GetTxn\<close>

text \<open>The \<open>int txn_id\<close> is converted to \<open>int64\<close>, extending its sign.\<close>

definition MClient_GetTxn :: "mclient \<Rightarrow> int32 \<Rightarrow> txn_proto gen" where
  "MClient_GetTxn mc txn_id =
     bindG (chance (1 < mc_nodes_per_replica mc) (mc_percent_mp mc)) (\<lambda>mp.
       if mp
       then bindG (draw_other (mc_nodes_per_replica mc) (mc_relative_node_id mc)) (\<lambda>other.
              MicroTxnMP (mc_microbenchmark mc) (scast txn_id) (mc_relative_node_id mc) other)
       else MicroTxnSP (mc_microbenchmark mc) (scast txn_id) (mc_relative_node_id mc))"

definition TClient_GetTxn :: "tclient \<Rightarrow> int32 \<Rightarrow> txn_proto gen" where
  "TClient_GetTxn tc txn_id =
     bindG (chance (1 < tc_nodes_per_replica tc) (tc_percent_mp tc)) (\<lambda>mp.
       if mp
       then bindG (draw_other (tc_nodes_per_replica tc) (tc_relative_node_id tc)) (\<lambda>other.
              TpccTxnMP (tc_tpcc tc) (scast txn_id) (tc_relative_node_id tc) other)
       else TpccTxnSP (tc_tpcc tc) (scast txn_id) (tc_relative_node_id tc))"

definition Lowlatency_MClient_GetTxn :: "lowlatency_mclient \<Rightarrow> int32 \<Rightarrow> txn_proto gen" where
  "Lowlatency_MClient_GetTxn mc txn_id =
     (let mb = mc_microbenchmark mc; i = scast txn_id; n = mc_nodes_per_replica mc;
          rel = mc_relative_node_id mc; local = mc_local_replica mc
      in bindG (chance True (mc_percent_mr mc)) (\<lambda>mr.
           if mr
           then bindG (draw_other (mc_num_replicas mc) local) (\<lambda>other_replica.
                bindG (chance (1 < n) (mc_percent_mp mc)) (\<lambda>mp.
                  if mp
                  then bindG (draw_other n rel) (\<lambda>other_node. MicroTxnMRMP mb i rel other_node local other_replica)
                  else MicroTxnMRSP mb i rel local other_replica))
           else bindG (chance (1 < n) (mc_percent_mp mc)) (\<lambda>mp.
                  if mp
                  then bindG (draw_other n rel) (\<lambda>other_node. MicroTxnSRMP mb i rel other_node local)
                  else MicroTxnSRSP mb i rel local)))"

text \<open>This client has no test for more than one node.\<close>

definition Lowlatency_TClient_GetTxn :: "lowlatency_tclient \<Rightarrow> int32 \<Rightarrow> txn_proto gen" where
  "Lowlatency_TClient_GetTxn tc txn_id =
     (let tp = tc_tpcc tc; i = scast txn_id; n = tc_nodes_per_replica tc;
          rel = tc_relative_node_id tc; local = tc_local_replica tc
      in bindG (chance True (tc_percent_mp tc)) (\<lambda>mp.
           if mp
           then bindG (chance True (tc_percent_mr tc)) (\<lambda>mr.
                  if mr
                  then bindG (draw_other (tc_num_replicas tc) local) (\<lambda>other_replica.
                       bindG (draw_other n rel) (\<lambda>other_node. TpccTxnMRMP tp i rel other_node local other_replica))
                  else bindG (draw_other n rel) (\<lambda>other_node. TpccTxnSRMP tp i rel other_node local))
           else TpccTxnSRSP tp i rel local))"

section \<open>The choices are total when there is a choice\<close>

lemma chance_gen_ok: "gen_ok (chance b p) (\<lambda>x. x \<longrightarrow> b \<and> 0 < p)"
proof (cases b)
  case True
  have "(100::uint32) \<noteq> 0" by simp
  with True show ?thesis
    by (auto simp: chance_def rand_mod_drawG word_less_nat_alt intro!: gen_ok_drawG)
next
  case False
  then show ?thesis by (auto simp: chance_def intro: gen_ok_returnG)
qed

lemma draw_other_gen_ok:
  assumes n: "1 < unat n"
  shows "gen_ok (draw_other n own) (\<lambda>x. x < n \<and> x \<noteq> own)"
proof -
  have n0: "n \<noteq> 0" using n by auto
  let ?f = "\<lambda>v::rand_value. ucast v mod n"
  have "?f 0 = 0" "unat (?f 1) = 1" using n by (auto simp: unat_mod_distrib)
  then have "?f 0 \<noteq> ?f 1" by auto
  then obtain v where "?f v \<noteq> own" by metis
  moreover have "gen_ok (drawG ?f) (\<lambda>x. x < n)" using n0 by (simp add: gen_ok_drawG word_mod_less)
  ultimately have "gen_ok (repeat_until (drawG ?f) (\<lambda>x. x \<noteq> own)) (\<lambda>x. x \<noteq> own \<and> x < n)"
    by (rule gen_ok_retry [rotated])
  then show ?thesis by (simp add: draw_other_def rand_mod_drawG [OF n0] conj_commute)
qed

lemma draw_other_diverges: "draw_other 1 0 r = None"
proof -
  have "(ucast (r !! n) mod 1 :: 'a word) = 0" for n by simp
  then show ?thesis
    using repeat_until_terminates_iff [of "\<lambda>v. ucast v mod 1" "\<lambda>x. x \<noteq> 0" r] by (simp add: draw_other_def rand_mod_drawG)
qed

section \<open>What the clients return\<close>

text \<open>
  The Calvin clients ask for the own partition and at most one other, which is another one only if the
  percentage is positive. In the low-latency mode the same holds for the homes.
\<close>

definition client_partitions :: "cluster_config \<Rightarrow> uint32 \<Rightarrow> uint64 set \<Rightarrow> bool" where
  "client_partitions c mp P \<longleftrightarrow> (\<exists>p < nodes_per_replica c. P = {cc_relative_node_id c, p}
     \<and> (p \<noteq> cc_relative_node_id c \<longrightarrow> 0 < mp))"

definition client_homes :: "cluster_config \<Rightarrow> uint32 \<Rightarrow> uint32 \<Rightarrow> (uint64 \<times> uint32) set \<Rightarrow> bool" where
  "client_homes c mp mr H \<longleftrightarrow> (\<exists>p < nodes_per_replica c. \<exists>q < cc_replicas_size c.
     H = {(cc_relative_node_id c, cc_local_replica c), (p, q)}
     \<and> (p \<noteq> cc_relative_node_id c \<longrightarrow> 0 < mp) \<and> (q \<noteq> cc_local_replica c \<longrightarrow> 0 < mr))"

text \<open>The machine is one of the cluster.\<close>

definition member_ok :: "cluster_config \<Rightarrow> bool" where
  "member_ok c \<longleftrightarrow> cc_relative_node_id c < nodes_per_replica c \<and> cc_local_replica c < cc_replicas_size c"

text \<open>A choice between the own node (or replica) and another one.\<close>

lemma choice_gen_ok:
  assumes "gen_ok g R" and "\<And>x. 1 < n \<Longrightarrow> 0 < mp \<Longrightarrow> x < n \<Longrightarrow> x \<noteq> own \<Longrightarrow> gen_ok (f x) R"
    and "b \<Longrightarrow> 0 < mp \<Longrightarrow> 1 < n"
  shows "gen_ok (bindG (chance b mp) (\<lambda>c. if c then bindG (draw_other n own) f else g)) R"
proof (rule gen_ok_bindG [OF chance_gen_ok])
  fix c assume c: "c \<longrightarrow> b \<and> 0 < mp"
  show "gen_ok (if c then bindG (draw_other n own) f else g) R"
  proof (cases c)
    case True
    with c assms(3) have n: "1 < n" and "0 < mp" by auto
    then have "gen_ok (bindG (draw_other n own) f) R"
      by (intro gen_ok_bindG [OF draw_other_gen_ok] assms(2)) (auto simp: word_less_nat_alt)
    with True show ?thesis by simp
  qed (use assms(1) in simp)
qed

lemma client_partitionsI:
  "cc_relative_node_id c < nodes_per_replica c \<Longrightarrow> client_partitions c mp {cc_relative_node_id c}"
  "p < nodes_per_replica c \<Longrightarrow> 0 < mp \<Longrightarrow> client_partitions c mp {cc_relative_node_id c, p}"
  by (auto simp: client_partitions_def)

lemma MClient_gen_ok:
  assumes m: "micro_ok c hot"
  shows "gen_ok (MClient_GetTxn (MClient_new c mp hot) i) (\<lambda>t. \<exists>P. client_partitions c mp P \<and> calvin_txn c (scast i) P t)"
proof -
  have rel: "cc_relative_node_id c < nodes_per_replica c" using m by (simp add: micro_ok_def relative_node_bound)
  show ?thesis
    unfolding MClient_GetTxn_def MClient_new_def mclient.simps
    by (rule choice_gen_ok) (use rel in \<open>blast intro: gen_ok_mono [OF MicroTxnSP_gen_ok [OF m rel]]
        gen_ok_mono [OF MicroTxnMP_gen_ok [OF m rel]] client_partitionsI\<close>)+
qed

lemma TClient_gen_ok:
  assumes t: "tpcc_sizes c w"
  shows "gen_ok (TClient_GetTxn (TClient_new c mp w) i)
    (\<lambda>t. \<exists>P r. client_partitions c mp P \<and> tpcc_calvin_txn c w r (scast i) P t)"
proof -
  have rel: "cc_relative_node_id c < nodes_per_replica c" using t by (simp add: tpcc_sizes_def relative_node_bound)
  show ?thesis
    unfolding TClient_GetTxn_def TClient_new_def tclient.simps
    by (rule choice_gen_ok) (use rel in \<open>blast intro: gen_ok_mono [OF TpccTxnSP_gen_ok [OF t rel]]
        gen_ok_mono [OF TpccTxnMP_gen_ok [OF t rel]] client_partitionsI\<close>)+
qed

text \<open>The homes, by whether the node and the replica are others.\<close>

lemma client_homesI:
  assumes "member_ok c"
  shows "client_homes c mp mr {(cc_relative_node_id c, cc_local_replica c)}"
    "p < nodes_per_replica c \<Longrightarrow> 0 < mp \<Longrightarrow>
      client_homes c mp mr {(cc_relative_node_id c, cc_local_replica c), (p, cc_local_replica c)}"
    "q < cc_replicas_size c \<Longrightarrow> 0 < mr \<Longrightarrow>
      client_homes c mp mr {(cc_relative_node_id c, cc_local_replica c), (cc_relative_node_id c, q)}"
    "p < nodes_per_replica c \<Longrightarrow> 0 < mp \<Longrightarrow> q < cc_replicas_size c \<Longrightarrow> 0 < mr \<Longrightarrow>
      client_homes c mp mr {(cc_relative_node_id c, cc_local_replica c), (p, q)}"
  using assms unfolding client_homes_def member_ok_def by (metis insert_absorb2)+

lemma Lowlatency_MClient_gen_ok:
  assumes m: "micro_ok c hot" and mem: "member_ok c" and mr: "0 < mr \<Longrightarrow> 1 < cc_replicas_size c"
  shows "gen_ok (Lowlatency_MClient_GetTxn (Lowlatency_MClient_new c mp mr hot) i)
    (\<lambda>t. \<exists>H. client_homes c mp mr H \<and> low_latency_txn c (scast i) H t)"
proof -
  have rel: "cc_relative_node_id c < nodes_per_replica c" and l: "cc_local_replica c < cc_replicas_size c"
    using mem by (simp_all add: member_ok_def)
  note homes = client_homesI [OF mem]
  note generators = gen_ok_mono [OF MicroTxnSRSP_gen_ok [OF m rel l]] gen_ok_mono [OF MicroTxnSRMP_gen_ok [OF m rel _ _ l]]
    gen_ok_mono [OF MicroTxnMRSP_gen_ok [OF m rel l]] gen_ok_mono [OF MicroTxnMRMP_gen_ok [OF m rel _ _ l]]
  show ?thesis
    unfolding Lowlatency_MClient_GetTxn_def Lowlatency_MClient_new_def lowlatency_mclient.simps mclient.simps Let_def
    by (rule choice_gen_ok, rule choice_gen_ok)
      (blast intro: generators homes choice_gen_ok mr)+
qed

lemma Lowlatency_TClient_gen_ok:
  assumes t: "tpcc_ok c w" and mem: "member_ok c" and mp: "0 < mp \<Longrightarrow> 1 < nodes_per_replica c"
    and mr: "0 < mr \<Longrightarrow> 1 < cc_replicas_size c"
  shows "gen_ok (Lowlatency_TClient_GetTxn (Lowlatency_TClient_new c mp mr w) i)
    (\<lambda>t. \<exists>H r. client_homes c mp mr H \<and> tpcc_low_latency_txn c w r (scast i) H t)"
proof -
  have rel: "cc_relative_node_id c < nodes_per_replica c" and l: "cc_local_replica c < cc_replicas_size c"
    using mem by (simp_all add: member_ok_def)
  note homes = client_homesI [OF mem]
  note generators = gen_ok_mono [OF TpccTxnSRSP_gen_ok [OF t rel l]] gen_ok_mono [OF TpccTxnSRMP_gen_ok [OF t rel _ _ l]]
    gen_ok_mono [OF TpccTxnMRMP_gen_ok [OF t rel _ _ l]]
  have other: "gen_ok (bindG (draw_other (nodes_per_replica c) (cc_relative_node_id c)) f) R"
    if "0 < mp" "\<And>p. p < nodes_per_replica c \<Longrightarrow> p \<noteq> cc_relative_node_id c \<Longrightarrow> gen_ok (f p) R" for f and R :: "txn_proto \<Rightarrow> bool"
    using that mp by (intro gen_ok_bindG [OF draw_other_gen_ok]) (auto simp: word_less_nat_alt)
  show ?thesis
    unfolding Lowlatency_TClient_GetTxn_def Lowlatency_TClient_new_def lowlatency_tclient.simps tclient.simps Let_def
  proof (rule gen_ok_bindG [OF chance_gen_ok], split if_split, intro conjI impI)
    fix b assume "b" and "b \<longrightarrow> True \<and> 0 < mp"
    then have "0 < mp" by blast
    then show "gen_ok (bindG (chance True mr) (\<lambda>mr. if mr
        then bindG (draw_other (cc_replicas_size c) (cc_local_replica c)) (\<lambda>other_replica.
             bindG (draw_other (nodes_per_replica c) (cc_relative_node_id c)) (\<lambda>other_node.
             TpccTxnMRMP (Tpcc_new c w) (scast i) (cc_relative_node_id c) other_node (cc_local_replica c) other_replica))
        else bindG (draw_other (nodes_per_replica c) (cc_relative_node_id c)) (\<lambda>other_node.
             TpccTxnSRMP (Tpcc_new c w) (scast i) (cc_relative_node_id c) other_node (cc_local_replica c))))
      (\<lambda>t. \<exists>H r. client_homes c mp mr H \<and> tpcc_low_latency_txn c w r (scast i) H t)"
      by (intro choice_gen_ok other mr) (blast intro: generators homes)+
  next
    show "gen_ok (TpccTxnSRSP (Tpcc_new c w) (scast i) (cc_relative_node_id c) (cc_local_replica c))
      (\<lambda>t. \<exists>H r. client_homes c mp mr H \<and> tpcc_low_latency_txn c w r (scast i) H t)"
      by (blast intro: generators homes)
  qed
qed

section \<open>Properties\<close>

text \<open>
  C23: whatever \<open>rand()\<close> returns, the low-latency client of the microbenchmark never fails, and a
  transaction it returns has ten distinct keys of the database, at the own home and at most one other,
  every entry with the master that the configuration assigns and counter 0, and is marked fake exactly
  if it spans replicas other than 0; and it does return if every value of \<open>rand()\<close> keeps coming.
\<close>

theorem Lowlatency_MClient_GetTxn_correct:
  assumes "micro_ok c hot" and "member_ok c" and "0 < mr \<Longrightarrow> 1 < cc_replicas_size c"
  shows "case Lowlatency_MClient_GetTxn (Lowlatency_MClient_new c mp mr hot) i r of
      None \<Rightarrow> \<not> fair_rand r
    | Some (Inl e) \<Rightarrow> False
    | Some (Inr (t, r')) \<Rightarrow> \<exists>H. client_homes c mp mr H \<and> low_latency_txn c (scast i) H t"
  using gen_okD [OF Lowlatency_MClient_gen_ok [OF assms, where mp = mp and i = i], where r = r]
  by (fastforce split: option.splits sum.splits)

text \<open>
  The same for the low-latency client of TPC-C, for a number of warehouses that the replicas divide
  and, as this client does not test for it, more than one node: eleven keys to write, a warehouse or
  two and a customer to read.
\<close>

theorem Lowlatency_TClient_GetTxn_correct:
  assumes "tpcc_ok c w" and "member_ok c" and "0 < mp \<Longrightarrow> 1 < nodes_per_replica c"
    and "0 < mr \<Longrightarrow> 1 < cc_replicas_size c"
  shows "case Lowlatency_TClient_GetTxn (Lowlatency_TClient_new c mp mr w) i r of
      None \<Rightarrow> \<not> fair_rand r
    | Some (Inl e) \<Rightarrow> False
    | Some (Inr (t, r')) \<Rightarrow> \<exists>H n. client_homes c mp mr H \<and> tpcc_low_latency_txn c w n (scast i) H t"
  using gen_okD [OF Lowlatency_TClient_gen_ok [OF assms, where i = i], where r = r]
  by (fastforce split: option.splits sum.splits)

text \<open>
  With one node per replica that client never returns once it decides on several partitions: it
  draws another node for ever, whatever \<open>rand()\<close> returns.
\<close>

theorem Lowlatency_TClient_one_node_diverges:
  assumes "nodes_per_replica c = 1" and "cc_relative_node_id c = 0" and "cc_replicas_size c \<noteq> 0"
    and "(ucast (shd r) :: uint32) mod 100 < mp"
  shows "Lowlatency_TClient_GetTxn (Lowlatency_TClient_new c mp mr w) i r = None"
proof -
  have other: "bindG (draw_other (nodes_per_replica c) (cc_relative_node_id c)) f s = None" for f :: "uint64 \<Rightarrow> txn_proto gen" and s
    unfolding assms(1,2) by (simp add: bindG_def draw_other_diverges)
  have draw: "draw_other (cc_replicas_size c) l s \<noteq> Some (Inl e)" for l s e
    using assms(3) repeat_until_result by (fastforce simp: draw_other_def rand_mod_drawG)
  have replica: "bindG (draw_other (cc_replicas_size c) l) (\<lambda>x.
      bindG (draw_other (nodes_per_replica c) (cc_relative_node_id c)) (f x)) s = None" for l s and f :: "uint32 \<Rightarrow> uint64 \<Rightarrow> txn_proto gen"
    using draw other by (auto simp: bindG_def [of "draw_other (cc_replicas_size c) l"] split: option.splits sum.splits)
  have coin: "rand_mod (100::uint32) = drawG (\<lambda>v. ucast v mod 100)" by (rule rand_mod_drawG) simp
  show ?thesis
    unfolding Lowlatency_TClient_GetTxn_def Lowlatency_TClient_new_def lowlatency_tclient.simps tclient.simps Let_def
      chance_def if_True coin mapG_drawG
    using assms(4) replica other by (simp add: bindG_def [of "drawG _"] drawG_def)
qed

text \<open>
  The low-latency client of the application that a cluster was started for, and the load of a machine:
  the argument says whether that is TPC-C (with \<open>hot\<close> warehouses per node) or the microbenchmark.
\<close>

definition lowlatency_client :: "bool \<Rightarrow> cluster_config \<Rightarrow> uint32 \<Rightarrow> uint32 \<Rightarrow> uint32 \<Rightarrow> int32 \<Rightarrow> txn_proto gen" where
  "lowlatency_client tpcc c mp mr hot i = (if tpcc then Lowlatency_TClient_GetTxn (Lowlatency_TClient_new c mp mr hot) i
     else Lowlatency_MClient_GetTxn (Lowlatency_MClient_new c mp mr hot) i)"

definition initial_load :: "bool \<Rightarrow> cluster_config \<Rightarrow> uint32 \<Rightarrow> (simple_storage \<times> rec_heap) gen" where
  "initial_load tpcc d hot = (if tpcc then Tpcc_InitializeStorage (Tpcc_new d hot) d (\<lambda>_. None, [])
     else InitializeStorage (Microbenchmark_new d hot) d (\<lambda>_. None, []))"

definition client_ok :: "bool \<Rightarrow> cluster_config \<Rightarrow> uint32 \<Rightarrow> uint32 \<Rightarrow> uint32 \<Rightarrow> bool" where
  "client_ok tpcc c mp mr hot \<longleftrightarrow> member_ok c \<and> (0 < mr \<longrightarrow> 1 < cc_replicas_size c)
     \<and> (if tpcc then tpcc_ok c hot \<and> (0 < mp \<longrightarrow> 1 < nodes_per_replica c) else micro_ok c hot)"

text \<open>Both have one key space in common.\<close>

lemma lowlatency_client_gen_ok:
  assumes "client_ok tpcc c mp mr hot"
  shows "gen_ok (lowlatency_client tpcc c mp mr hot i)
    (\<lambda>t. masters_known c t \<and> in_database (if tpcc then tp_item_end (Tpcc_new c hot) else db_end c) t)"
proof (cases tpcc)
  case True
  with assms have "gen_ok (Lowlatency_TClient_GetTxn (Lowlatency_TClient_new c mp mr hot) i)
      (\<lambda>t. \<exists>H r. client_homes c mp mr H \<and> tpcc_low_latency_txn c hot r (scast i) H t)"
    by (intro Lowlatency_TClient_gen_ok) (simp_all add: client_ok_def)
  with True show ?thesis by (auto simp: lowlatency_client_def tpcc_low_latency_txn_def elim!: gen_ok_mono)
next
  case False
  with assms have "gen_ok (Lowlatency_MClient_GetTxn (Lowlatency_MClient_new c mp mr hot) i)
      (\<lambda>t. \<exists>H. client_homes c mp mr H \<and> low_latency_txn c (scast i) H t)"
    by (intro Lowlatency_MClient_gen_ok) (simp_all add: client_ok_def)
  with False show ?thesis by (auto simp: lowlatency_client_def low_latency_txn_def elim!: gen_ok_mono)
qed

lemma initial_load_gen_ok:
  "tpcc \<or> micro_ok d hot \<Longrightarrow> gen_ok (initial_load tpcc d hot)
    (\<lambda>sh. \<exists>v. loaded d (if tpcc then tp_item_end (Tpcc_new d hot) else db_end d) v sh)"
  unfolding initial_load_def
  by (auto intro: gen_ok_mono [OF InitializeStorage_gen_ok] gen_ok_mono [OF Tpcc_InitializeStorage_gen_ok])

text \<open>
  C21: on a freshly loaded cluster a machine that takes part in a transaction of a low-latency client (of
  the microbenchmark or of TPC-C, for a cluster that the client accepts: \<open>client_ok\<close>) finds
  every record that is its to read, with the master and counter the transaction names: its storage manager
  is built without a failed lookup, and its vote is to commit. The machine has as many nodes per replica
  and replicas in its configuration as the client, and has loaded the same application.
\<close>

theorem fresh_cluster_serves_client:
  assumes "client_ok tpcc c mp mr hot" and "tpcc \<or> micro_ok d hot"
    and "nodes_per_replica d = nodes_per_replica c" and "cc_replicas_size d = cc_replicas_size c"
    and "lowlatency_client tpcc c mp mr hot i r = Some (Inr (t, r1))"
    and "initial_load tpcc d hot r2 = Some (Inr ((s, h), r3))"
    and "tx_read_set t' = tx_read_set t" and "tx_read_write_set t' = tx_read_write_set t"
    and "cc_relative_node_id d \<in> set (tx_readers t')"
  shows "\<exists>sm sent. StorageManager u64 u32 cd d s h t' mode = Inr (sm, sent) \<and> sm_local_commit sm"
proof -
  let ?limit = "\<lambda>c. if tpcc then tp_item_end (Tpcc_new c hot) else db_end c"
  have t: "masters_known c t \<and> in_database (?limit c) t"
    using gen_okD(2) [OF lowlatency_client_gen_ok [OF assms(1)] assms(5)] by simp
  obtain v where l: "loaded d (?limit d) v (s, h)"
    using gen_okD(2) [OF initial_load_gen_ok [OF assms(2)] assms(6)] by auto
  have entries: "txn_entries t' = txn_entries t" using assms(7,8) by (simp add: txn_entries_def)
  have "LookupMaster d = LookupMaster c" "?limit d = ?limit c"
    using assms(3,4) by (simp_all add: LookupMaster_def db_end_def Tpcc_new_def Let_def fun_eq_iff)
  with t have "masters_known d t" "in_database (?limit d) t" by (simp_all add: masters_known_def)
  with loaded_current [OF l] have cur: "current s h e" if "e \<in> set (txn_entries t')" "reads_here d t' mode e" for e
    using that entries by (simp add: reads_here_def)
  then have "\<forall>e \<in> set (txn_entries t'). reads_here d t' mode e \<longrightarrow> record_of (s, h) (ke_key e) \<noteq> None"
    by (auto simp: current_def)
  then obtain sm sent where run: "StorageManager u64 u32 cd d s h t' mode = Inr (sm, sent)"
    unfolding StorageManager_reader_iff [OF assms(9)] Let_def by blast
  with StorageManager_fields(7) [OF run assms(9)] cur show ?thesis by blast
qed

section \<open>Instances\<close>

lemma example_micro_ok: "micro_ok (example_config n) 100"
  by (simp add: micro_ok_def example_config_ok example_config_size, simp add: example_config_def)

lemma example_member_ok: "member_ok (example_config 1)"
  by (simp add: member_ok_def example_config_size, simp add: example_config_def)

lemma example_replicas_size: "cc_replicas_size (example_config n) = 2"
  by (simp add: example_config_def)

lemma Lowlatency_MClient_GetTxn_correct_witness:
  "\<exists>t r' H. Lowlatency_MClient_GetTxn (Lowlatency_MClient_new (example_config 1) 50 50 100) 3 counting_rand = Some (Inr (t, r'))
     \<and> client_homes (example_config 1) 50 50 H \<and> low_latency_txn (example_config 1) 3 H t"
proof -
  have "0 < (50::uint32) \<Longrightarrow> 1 < cc_replicas_size (example_config 1)" by (simp add: example_replicas_size)
  then show ?thesis
    using Lowlatency_MClient_GetTxn_correct [where c = "example_config 1" and hot = 100 and mp = 50 and mr = 50 and i = 3 and r = counting_rand]
      example_micro_ok example_member_ok fair_counting_rand
    by (auto split: option.splits sum.splits)
qed

lemma Lowlatency_TClient_GetTxn_correct_witness:
  "\<exists>t r' H n. Lowlatency_TClient_GetTxn (Lowlatency_TClient_new (example_config 1) 50 50 4) 3 counting_rand = Some (Inr (t, r'))
     \<and> client_homes (example_config 1) 50 50 H \<and> tpcc_low_latency_txn (example_config 1) 4 n 3 H t"
proof -
  have "tpcc_ok (example_config 1) 4"
    by (simp add: tpcc_ok_def tpcc_sizes_def example_config_ok example_config_size example_replicas_size)
  moreover have "0 < (50::uint32) \<Longrightarrow> 1 < nodes_per_replica (example_config 1)" by (simp add: example_config_size)
  moreover have "0 < (50::uint32) \<Longrightarrow> 1 < cc_replicas_size (example_config 1)" by (simp add: example_replicas_size)
  ultimately show ?thesis
    using Lowlatency_TClient_GetTxn_correct [where c = "example_config 1" and w = 4 and mp = 50 and mr = 50 and i = 3 and r = counting_rand] example_member_ok fair_counting_rand
    by (auto split: option.splits sum.splits)
qed

definition one_node_config :: cluster_config where
  "one_node_config = (example_config 0)\<lparr>cc_machines := take 2 (cc_machines (example_config 0)), cc_relative_node_id := 0\<rparr>"

lemma Lowlatency_TClient_one_node_diverges_witness:
  "Lowlatency_TClient_GetTxn (Lowlatency_TClient_new one_node_config 50 50 4) 3 counting_rand = None"
  by (rule Lowlatency_TClient_one_node_diverges)
    (simp_all add: one_node_config_def nodes_per_replica_def all_nodes_size_def example_config_def example_entries_def
      counting_rand_def)

text \<open>Machine 1 generates a transaction, of TPC-C; machine 1 itself has just been loaded.\<close>

lemma fresh_cluster_serves_client_witness:
  "\<exists>t r1 s h r3 sm sent.
     Lowlatency_TClient_GetTxn (Lowlatency_TClient_new (example_config 1) 50 50 4) 3 counting_rand = Some (Inr (t, r1))
     \<and> Tpcc_InitializeStorage (Tpcc_new (example_config 1) 4) (example_config 1) (\<lambda>_. None, []) counting_rand
         = Some (Inr ((s, h), r3))
     \<and> StorageManager 0 0 payload_codec (example_config 1) s h
         (t\<lparr>tx_readers := [cc_relative_node_id (example_config 1)]\<rparr>) 2 = Inr (sm, sent) \<and> sm_local_commit sm"
proof -
  have "tpcc_ok (example_config 1) 4"
    by (simp add: tpcc_ok_def tpcc_sizes_def example_config_ok example_config_size example_replicas_size)
  then have ok: "client_ok True (example_config 1) 50 50 4"
    by (simp add: client_ok_def example_member_ok example_replicas_size example_config_size)
  obtain t r1 where t: "lowlatency_client True (example_config 1) 50 50 4 3 counting_rand = Some (Inr (t, r1))"
    using gen_okD(1) [OF lowlatency_client_gen_ok [OF ok] fair_counting_rand] by blast
  obtain s h r3 where i: "initial_load True (example_config 1) 4 counting_rand = Some (Inr ((s, h), r3))"
    using gen_okD(1) [OF initial_load_gen_ok [of True "example_config 1" 4, simplified] fair_counting_rand] by fast
  let ?t = "t\<lparr>tx_readers := [cc_relative_node_id (example_config 1)]\<rparr>"
  have "\<exists>sm sent. StorageManager 0 0 payload_codec (example_config 1) s h ?t 2 = Inr (sm, sent) \<and> sm_local_commit sm"
    by (rule fresh_cluster_serves_client [OF ok _ refl refl t i]) simp_all
  with t i show ?thesis unfolding lowlatency_client_def initial_load_def by (simp only: if_True) blast
qed

end
