(* ===== verification/Server.thy ===== *)
theory Server
  imports Cluster_Manager Agreed_Order Sequencer Lowlatency_Sequencer Client
begin

text \<open>
  \<open>scripts/calvindb_server.cc\<close> and \<open>scripts/lowlatency_calvindb_server.cc\<close>: how a server puts its parts
  together, from its flags and the text of the configuration file. The threads that the constructors
  start are the steps of the other theories.
\<close>

section \<open>State\<close>

record server_flags =
  sf_calvin_version :: bool
  sf_binary :: string
  sf_machine_id :: int32
  sf_mode :: int32
  sf_type :: int32
  sf_experiment :: int32
  sf_percent_mp :: int32
  sf_percent_mr :: int32
  sf_hot_records :: int32
  sf_max_batch_size :: int32

text \<open>What both servers build first: the configuration, the multiplexer, the application and its records.\<close>

record 'b server_base =
  sb_config :: cluster_config
  sb_multiplexer :: "'b multiplexer"
  sb_application :: "microbenchmark + tpcc"
  sb_storage :: simple_storage
  sb_records :: rec_heap

record 'b calvindb_server =
  sv_base :: "'b server_base"
  sv_client :: "mclient + tclient"
  sv_paxos :: "'b paxos option"
  sv_machine :: "'b machine"

record 'b lowlatency_server =
  lv_base :: "'b server_base"
  lv_client :: "lowlatency_mclient + lowlatency_tclient"
  lv_paxos :: "'b local_paxos option"
  lv_machine :: "'b machine"

definition liftG :: "'a outcome \<Rightarrow> 'a gen" where
  "liftG m r = Some (case m of Inl e \<Rightarrow> Inl e | Inr a \<Rightarrow> Inr (a, r))"

section \<open>Starting a server\<close>

definition start_application ::
  "cluster_config \<Rightarrow> int32 \<Rightarrow> int32 \<Rightarrow> ((microbenchmark + tpcc) \<times> simple_storage \<times> rec_heap) gen" where
  "start_application c experiment hot_records =
     (if experiment = 0
      then let app = Microbenchmark_new c hot_records
        in mapG (\<lambda>sh. (Inl app, sh)) (InitializeStorage app c (\<lambda>_. None, []))
      else let app = Tpcc_new c hot_records
        in mapG (\<lambda>sh. (Inr app, sh)) (Tpcc_InitializeStorage app c (\<lambda>_. None, [])))"

definition start_base ::
  "uint32 \<Rightarrow> uint32 \<Rightarrow> uint64 \<Rightarrow> string \<Rightarrow> server_flags \<Rightarrow> 'b server_base gen" where
  "start_base u32 u32' u64 content f =
     bindG (liftG (FromString content (ClusterConfig_new u32 u32' u64 (scast (sf_machine_id f))))) (\<lambda>c.
       bindG (liftG (ConnectionMultiplexer_new c)) (\<lambda>mx.
         bindG (start_application c (sf_experiment f) (sf_hot_records f)) (\<lambda>(app, s, h).
           returnG \<lparr>sb_config = c, sb_multiplexer = mx, sb_application = app, sb_storage = s, sb_records = h\<rparr>)))"

text \<open>\<open>machine_id % nodes_per_replica\<close>: the flag is an \<open>int\<close>, the divisor a \<open>uint64\<close>.\<close>

definition machine_index :: "server_flags \<Rightarrow> cluster_config \<Rightarrow> uint64" where
  "machine_index f c = scast (sf_machine_id f) mod nodes_per_replica c"

definition start_calvindb ::
  "uint32 \<Rightarrow> uint32 \<Rightarrow> uint64 \<Rightarrow> string \<Rightarrow> server_flags \<Rightarrow> 'b calvindb_server gen" where
  "start_calvindb u32 u32' u64 content f =
     mapG (\<lambda>b.
       let c = sb_config b;
           client = (if sf_experiment f = 0 then Inl (MClient_new c (sf_percent_mp f) (sf_hot_records f))
                     else Inr (TClient_new c (sf_percent_mp f) (sf_hot_records f)));
           (paxos, mx) = (if machine_index f c = 0 then (Some (Paxos_new c), NewChannel ''paxos_log_'' (sb_multiplexer b))
                          else (None, sb_multiplexer b))
       in \<lparr>sv_base = b, sv_client = client, sv_paxos = paxos,
           sv_machine = machine_new c (sf_mode f) (sb_storage b) (sb_records b) (NewChannel ''sequencer_'' mx)\<rparr>)
       (start_base u32 u32' u64 content f)"

definition start_lowlatency ::
  "uint32 \<Rightarrow> uint32 \<Rightarrow> uint64 \<Rightarrow> string \<Rightarrow> server_flags \<Rightarrow> 'b lowlatency_server gen" where
  "start_lowlatency u32 u32' u64 content f =
     mapG (\<lambda>b.
       let c = sb_config b;
           client = (if sf_experiment f = 0
                     then Inl (Lowlatency_MClient_new c (sf_percent_mp f) (sf_percent_mr f) (sf_hot_records f))
                     else Inr (Lowlatency_TClient_new c (sf_percent_mp f) (sf_percent_mr f) (sf_hot_records f)));
           (paxos, mx) = (if machine_index f c < 3
                          then (Some (LocalPaxos_new c (sf_type f)),
                                fold NewChannel [''paxos_log_'', ''paxos_ack_''] (sb_multiplexer b))
                          else (None, sb_multiplexer b))
       in \<lparr>lv_base = b, lv_client = client, lv_paxos = paxos,
           lv_machine = machine_new c (sf_mode f) (sb_storage b) (sb_records b)
             (fold NewChannel [''sequencer_'', ''sequencer_txn_receive_''] mx)\<rparr>)
       (start_base u32 u32' u64 content f)"

text \<open>
  \<open>main\<close>: asked for the version, it only says, by its exit code, whether a server is running already;
  otherwise it starts the server.
\<close>

definition server_main ::
  "(server_flags \<Rightarrow> 'v gen) \<Rightarrow> (string \<times> string option) list option \<Rightarrow> server_flags \<Rightarrow> (int32 + 'v) gen" where
  "server_main start proc f =
     (if sf_calvin_version f then returnG (Inl (calvin_version_exit (sf_binary f) proc)) else mapG Inr (start f))"

definition application_of :: "'b codec \<Rightarrow> 'b server_base \<Rightarrow> 'b app" where
  "application_of cd b = (case sb_application b of Inl mb \<Rightarrow> Execute cd mb | Inr tp \<Rightarrow> tpcc_app)"

section \<open>A server starts\<close>

lemma bindG_liftG: "m = Inr a \<Longrightarrow> bindG (liftG m) g = g a"
  by (simp add: fun_eq_iff bindG_def liftG_def)

lemma gen_ok_mapG: "gen_ok g Q \<Longrightarrow> (\<And>a. Q a \<Longrightarrow> R (f a)) \<Longrightarrow> gen_ok (mapG f g) R"
  unfolding mapG_def by (rule gen_ok_bindG [where Q = Q]) (auto intro!: gen_ok_returnG)

text \<open>The records of the machine, as the application loads them.\<close>

definition database_loaded :: "cluster_config \<Rightarrow> 'b server_base \<Rightarrow> bool" where
  "database_loaded c b \<longleftrightarrow> (\<exists>v. letters v \<and> length v = 99
     \<and> loaded c (case sb_application b of Inl mb \<Rightarrow> db_end c | Inr tp \<Rightarrow> tp_item_end tp) v (sb_storage b, sb_records b))"

definition chosen_application :: "cluster_config \<Rightarrow> server_flags \<Rightarrow> microbenchmark + tpcc" where
  "chosen_application c f = (if sf_experiment f = 0 then Inl (Microbenchmark_new c (sf_hot_records f)) else Inr (Tpcc_new c (sf_hot_records f)))"

lemma start_application_ok:
  assumes "sf_experiment f = 0 \<longrightarrow> micro_ok c (sf_hot_records f)"
  shows "gen_ok (start_application c (sf_experiment f) (sf_hot_records f)) (\<lambda>(app, sh). app = chosen_application c f
    \<and> (\<exists>v. letters v \<and> length v = 99 \<and> loaded c (case app of Inl mb \<Rightarrow> db_end c | Inr tp \<Rightarrow> tp_item_end tp) v sh))"
  unfolding start_application_def Let_def chosen_application_def using assms
  by (auto intro!: gen_ok_mapG [OF InitializeStorage_gen_ok] gen_ok_mapG [OF Tpcc_InitializeStorage_gen_ok])

lemma start_base_ok:
  assumes c: "FromString content (ClusterConfig_new u32 u32' u64 (scast (sf_machine_id f))) = Inr c"
    and m: "lookup_machine c (scast (sf_machine_id f)) \<noteq> None" and app: "sf_experiment f = 0 \<longrightarrow> micro_ok c (sf_hot_records f)"
  shows "gen_ok (start_base u32 u32' u64 content f :: 'b server_base gen) (\<lambda>b. sb_config b = c \<and> sb_application b = chosen_application c f \<and> database_loaded c b)"
proof -
  have "cc_local_node_id c = scast (sf_machine_id f)" using FromString_config_ok [OF c] by (simp add: ClusterConfig_new_def)
  with m obtain mx :: "'b multiplexer" where mx: "ConnectionMultiplexer_new c = Inr mx"
    by (auto simp: ConnectionMultiplexer_new_def)
  have "gen_ok (bindG (start_application c (sf_experiment f) (sf_hot_records f)) (\<lambda>(app, s, h).
      returnG \<lparr>sb_config = c, sb_multiplexer = mx, sb_application = app, sb_storage = s, sb_records = h\<rparr>))
    (\<lambda>b. sb_config b = c \<and> sb_application b = chosen_application c f \<and> database_loaded c b)"
    by (rule gen_ok_bindG [OF start_application_ok [OF app]]) (auto simp: database_loaded_def intro!: gen_ok_returnG)
  then show ?thesis unfolding start_base_def bindG_liftG [OF c] bindG_liftG [OF mx] .
qed

text \<open>A machine is one of the participants that \<open>Paxos\<close> computes exactly if it has a \<open>Paxos\<close> of its own.\<close>

lemma Paxos_participants:
  assumes size: "unat (cc_replicas_size c) * unat (nodes_per_replica c) < 2 ^ 64" "nodes_per_replica c \<noteq> 0" "cc_replicas_size c \<noteq> 0"
    and i: "unat i < unat (cc_replicas_size c) * unat (nodes_per_replica c)"
  shows "i \<in> set (px_participants (Paxos_new c)) \<longleftrightarrow> i mod nodes_per_replica c = 0"
proof -
  let ?p = "unat (nodes_per_replica c)" and ?r = "unat (cc_replicas_size c)"
  have p: "0 < ?p" and r: "0 < ?r" using size(2,3) by (simp_all add: unat_gt_0)
  have num: "unat (of_nat k * nodes_per_replica c) = k * ?p" if "k < ?r" for k
  proof -
    have "k * ?p < 2 ^ 64" using that size(1) by (meson le_less_trans less_imp_le mult_le_mono1)
    moreover have "k < 2 ^ 64" using \<open>k * ?p < 2 ^ 64\<close> p by (metis le_less_trans mult_le_mono2 nat_mult_1_right Suc_leI One_nat_def)
    ultimately show ?thesis by (simp add: unat_word_ariths(2) unat_of_nat)
  qed
  have "i mod nodes_per_replica c = 0 \<longleftrightarrow> ?p dvd unat i"
    by (simp add: word_unat_eq_iff unat_mod_distrib dvd_eq_mod_eq_0)
  also have "\<dots> \<longleftrightarrow> (\<exists>k < ?r. unat i = k * ?p)"
    using i p by (auto simp: dvd_def mult.commute)
  also have "\<dots> \<longleftrightarrow> (\<exists>k < ?r. i = of_nat k * nodes_per_replica c)"
    using num by (metis word_unat_eq_iff)
  also have "\<dots> \<longleftrightarrow> i \<in> set (px_participants (Paxos_new c))"
  proof -
    have "(\<exists>k < ?r. P k) \<longleftrightarrow> P 0 \<or> (\<exists>k. 1 \<le> k \<and> k < ?r \<and> P k)" for P :: "nat \<Rightarrow> bool" using r by (metis less_one not_le)
    then show ?thesis by (auto simp: Paxos_new_def)
  qed
  finally show ?thesis by (rule sym)
qed

lemma application_of_calvin: "calvin_app cd (application_of cd b)"
  by (auto simp: calvin_app_def application_of_def split: sum.split)

text \<open>The same for the participants of a \<open>LocalPaxos\<close>, where the file numbers the machines replica by replica.\<close>

lemma local_participants_iff:
  assumes size: "unat (cc_replicas_size c) * unat (nodes_per_replica c) < 2 ^ 64" "nodes_per_replica c \<noteq> 0"
    and i: "unat i < unat (cc_replicas_size c) * unat (nodes_per_replica c)"
    and layout: "ucast (cc_local_replica c) = i div nodes_per_replica c"
  shows "i \<in> set (local_participants c) \<longleftrightarrow> i mod nodes_per_replica c < 3"
proof -
  let ?N = "nodes_per_replica c"
  let ?b = "i div ?N * ?N"
  have split: "?b + i mod ?N = i" by (rule word_mod_div_equality)
  have "unat i div unat ?N < unat (cc_replicas_size c)" using i by (simp add: less_mult_imp_div_less)
  then have "Suc (unat i div unat ?N) * unat ?N \<le> unat (cc_replicas_size c) * unat ?N" by (intro mult_le_mono1) simp
  with size(1) have b: "unat i div unat ?N * unat ?N + unat ?N < 2 ^ 64" by simp
  have lr: "unat (cc_local_replica c) = unat i div unat ?N"
    using arg_cong [OF layout, of unat] by (simp add: unat_ucast_up unat_div_distrib)
  have "unat (cc_replicas_size c) < 2 ^ 32" using unsigned_less [of "cc_replicas_size c"] by simp
  then have "unat (cc_local_replica c + 1) = Suc (unat i div unat ?N)"
    using unat_add_small [of "cc_local_replica c" 1] lr \<open>unat i div unat ?N < _\<close> by simp
  then have "unat (ucast (cc_local_replica c + 1) :: uint64) = Suc (unat i div unat ?N)" by (simp add: unat_ucast_up)
  with b have limit: "unat (ucast (cc_local_replica c + 1) * ?N) = unat i div unat ?N * unat ?N + unat ?N"
    by (simp add: unat_word_ariths(2))
  have "unat i < unat i div unat ?N * unat ?N + unat ?N"
    using size(2) by (simp add: unat_gt_0 dividend_less_div_times add.commute)
  then have "i < ucast (cc_local_replica c + 1) * ?N" by (simp add: word_less_nat_alt limit)
  then have "i \<in> set (local_participants c) \<longleftrightarrow> (\<exists>k < 3. i = ?b + of_nat k)"
    by (auto simp: local_participants_def layout Let_def)
  also have "\<dots> \<longleftrightarrow> (\<exists>k < 3. of_nat k = i mod ?N)" using split by (metis add_left_imp_eq)
  also have "\<dots> \<longleftrightarrow> i mod ?N < 3"
  proof
    assume "i mod ?N < 3"
    then have "unat (i mod ?N) < 3" by (simp add: word_less_nat_alt)
    then show "\<exists>k < 3. of_nat k = i mod ?N" by (intro exI [of _ "unat (i mod ?N)"]) simp
  qed (auto simp: less_Suc_eq numeral_3_eq_3)
  finally show ?thesis .
qed

text \<open>What a started server has, and how it runs.\<close>

definition serving ::
  "'b codec \<Rightarrow> ('b message_proto \<Rightarrow> bool) \<Rightarrow> cluster_config \<Rightarrow> int32 \<Rightarrow> 'b server_base \<Rightarrow> 'b machine \<Rightarrow> bool" where
  "serving cd G c mode b mc \<longleftrightarrow> database_loaded c b \<and> calvin_app cd (application_of cd b) \<and> machine_run cd (application_of cd b) G mode mc"

lemma serving_new: "database_loaded c b \<Longrightarrow> serving cd G c mode b (machine_new c mode (sb_storage b) (sb_records b) mx)"
  by (simp add: serving_def application_of_calvin machine_run_start)

lemma gen_ok_server_main:
  "\<not> sf_calvin_version f \<Longrightarrow> gen_ok (start f) R \<Longrightarrow> gen_ok (server_main start proc f) (\<lambda>r. \<exists>v. r = Inr v \<and> R v)"
  by (auto simp: server_main_def intro: gen_ok_mapG)

text \<open>
  C39: a server starts. If it is not asked for its version, the configuration file is accepted, names the machine and
  numbers the machines replica by replica, and (for the microbenchmark) every machine has enough keys for the hot
  records and the ten keys of a transaction (\<open>micro_ok\<close>), then both servers finish their start-up whatever \<open>rand()\<close>
  returns: the application is the one that the flag \<open>experiment\<close> names, the records that belong to the machine are
  loaded, and what runs then is a machine in the sense of the determinism properties. The original server runs a new
  \<open>Paxos\<close> exactly if its machine is one of the participants that every \<open>Paxos\<close> computes, and the low-latency server
  a new \<open>LocalPaxos\<close> of the type of the flag exactly if its machine is one of the participants that every
  \<open>LocalPaxos\<close> of the replica computes.
\<close>

theorem server_starts:
  fixes cd :: "'b codec"
  assumes c: "FromString content (ClusterConfig_new u32 u32' u64 (scast (sf_machine_id f))) = Inr c"
    and m: "lookup_machine c (scast (sf_machine_id f)) \<noteq> None" and app: "sf_experiment f = 0 \<longrightarrow> micro_ok c (sf_hot_records f)"
    and size: "unat (cc_replicas_size c) * unat (nodes_per_replica c) < 2 ^ 64"
      "unat (scast (sf_machine_id f) :: uint64) < unat (cc_replicas_size c) * unat (nodes_per_replica c)"
    and layout: "ucast (cc_local_replica c) = (scast (sf_machine_id f) :: uint64) div nodes_per_replica c"
    and run: "\<not> sf_calvin_version f"
  shows "gen_ok (server_main (start_calvindb u32 u32' u64 content) proc f) (\<lambda>r. \<exists>sv. r = Inr sv
        \<and> sb_application (sv_base sv) = chosen_application c f
        \<and> serving cd G c (sf_mode f) (sv_base sv) (sv_machine sv)
        \<and> sv_paxos sv = (if scast (sf_machine_id f) \<in> set (px_participants (Paxos_new c :: 'b paxos)) then Some (Paxos_new c) else None))
    \<and> gen_ok (server_main (start_lowlatency u32 u32' u64 content) proc f) (\<lambda>r. \<exists>lv. r = Inr lv
        \<and> sb_application (lv_base lv) = chosen_application c f
        \<and> serving cd G c (sf_mode f) (lv_base lv) (lv_machine lv)
        \<and> lv_paxos lv = (if scast (sf_machine_id f) \<in> set (lp_participants (LocalPaxos_new c (sf_type f) :: 'b local_paxos))
            then Some (LocalPaxos_new c (sf_type f)) else None))"
proof -
  have "config_ok c" using FromString_config_ok [OF c] by blast
  then have nz: "nodes_per_replica c \<noteq> 0" "cc_replicas_size c \<noteq> 0" by (simp_all add: config_ok_def)
  note base = start_base_ok [OF c m app]
  have paxos: "scast (sf_machine_id f) \<in> set (px_participants (Paxos_new c :: 'b paxos)) \<longleftrightarrow> machine_index f c = 0"
    using Paxos_participants [OF size(1) nz size(2)] unfolding machine_index_def .
  have lpaxos: "scast (sf_machine_id f) \<in> set (lp_participants (LocalPaxos_new c (sf_type f) :: 'b local_paxos)) \<longleftrightarrow> machine_index f c < 3"
    using local_participants_iff [OF size(1) nz(1) size(2) layout] by (simp add: LocalPaxos_new_def machine_index_def)
  have "gen_ok (start_calvindb u32 u32' u64 content f) (\<lambda>sv. sb_application (sv_base sv) = chosen_application c f
      \<and> serving cd G c (sf_mode f) (sv_base sv) (sv_machine sv)
      \<and> sv_paxos sv = (if scast (sf_machine_id f) \<in> set (px_participants (Paxos_new c :: 'b paxos)) then Some (Paxos_new c) else None))"
    unfolding start_calvindb_def paxos
    by (rule gen_ok_mapG [OF base]) (cases "machine_index f c = 0"; simp add: serving_new Let_def)
  moreover have "gen_ok (start_lowlatency u32 u32' u64 content f) (\<lambda>lv. sb_application (lv_base lv) = chosen_application c f
      \<and> serving cd G c (sf_mode f) (lv_base lv) (lv_machine lv)
      \<and> lv_paxos lv = (if scast (sf_machine_id f) \<in> set (lp_participants (LocalPaxos_new c (sf_type f) :: 'b local_paxos))
          then Some (LocalPaxos_new c (sf_type f)) else None))"
    unfolding start_lowlatency_def lpaxos
    by (rule gen_ok_mapG [OF base]) (cases "machine_index f c < 3"; simp add: serving_new Let_def)
  ultimately show ?thesis by (intro conjI gen_ok_server_main [OF run])
qed

section \<open>A concrete server\<close>

text \<open>A cluster of one machine.\<close>

definition example_flags :: server_flags where
  "example_flags = \<lparr>sf_calvin_version = False, sf_binary = ''calvindb_server'', sf_machine_id = 0, sf_mode = 0, sf_type = 0,
     sf_experiment = 1, sf_percent_mp = 0, sf_percent_mr = 0, sf_hot_records = 10, sf_max_batch_size = 100\<rparr>"

lemma example_single:
  "\<exists>c. FromString ''0:0:h:1'' (ClusterConfig_new 0 0 0 0) = Inr c \<and> lookup_machine c 0 \<noteq> None \<and> cc_replicas_size c = 1 \<and> nodes_per_replica c = 1
    \<and> cc_local_replica c = 0"
  by (simp add: FromString_def CheckString_def CheckString_line_def FromString_line_def SplitString_def
      example_StringToInt CHECK_def finish_config_def nodes_per_replica_def all_nodes_size_def lookup_machine_def
      ClusterConfig_new_def Let_def)

lemma server_starts_witness:
  "\<exists>c. FromString ''0:0:h:1'' (ClusterConfig_new 0 0 0 0) = Inr c
    \<and> gen_ok (server_main (start_calvindb 0 0 0 ''0:0:h:1'') None example_flags) (\<lambda>r. \<exists>sv. r = Inr sv
        \<and> serving payload_codec (\<lambda>_. True) c 0 (sv_base sv) (sv_machine sv) \<and> sv_paxos sv = Some (Paxos_new c))
    \<and> gen_ok (server_main (start_lowlatency 0 0 0 ''0:0:h:1'') None example_flags) (\<lambda>r. \<exists>lv. r = Inr lv
        \<and> sb_application (lv_base lv) = Inr (Tpcc_new c 10) \<and> lv_paxos lv = Some (LocalPaxos_new c 0 :: payload local_paxos))"
proof -
  obtain c where c: "FromString ''0:0:h:1'' (ClusterConfig_new 0 0 0 0) = Inr c" "lookup_machine c 0 \<noteq> None"
    "cc_replicas_size c = 1" "nodes_per_replica c = 1" "cc_local_replica c = 0" using example_single by blast
  have f: "sf_machine_id example_flags = 0" "sf_experiment example_flags = 1" "sf_mode example_flags = 0" "sf_type example_flags = 0"
    "\<not> sf_calvin_version example_flags" by (simp_all add: example_flags_def)
  have app: "chosen_application c example_flags = Inr (Tpcc_new c 10)" by (simp add: chosen_application_def example_flags_def)
  have "0 \<in> set (px_participants (Paxos_new c :: payload paxos))" "0 \<in> set (lp_participants (LocalPaxos_new c 0 :: payload local_paxos))"
    using local_participants_iff [of c 0] c by (simp_all add: Paxos_new_def LocalPaxos_new_def)
  note p = this [THEN eqTrueI]
  note r = server_starts [of "''0:0:h:1''" 0 0 0 example_flags c None payload_codec "\<lambda>_. True", unfolded f app]
  have "gen_ok (server_main (start_calvindb 0 0 0 ''0:0:h:1'') None example_flags) (\<lambda>r. \<exists>sv. r = Inr sv
        \<and> serving payload_codec (\<lambda>_. True) c 0 (sv_base sv) (sv_machine sv) \<and> sv_paxos sv = Some (Paxos_new c))"
    by (rule gen_ok_mono [OF conjunct1 [OF r]]) (use c f p in auto)
  moreover have "gen_ok (server_main (start_lowlatency 0 0 0 ''0:0:h:1'') None example_flags) (\<lambda>r. \<exists>lv. r = Inr lv
        \<and> sb_application (lv_base lv) = Inr (Tpcc_new c 10) \<and> lv_paxos lv = Some (LocalPaxos_new c 0 :: payload local_paxos))"
    by (rule gen_ok_mono [OF conjunct2 [OF r]]) (use c f p in auto)
  ultimately show ?thesis by (intro exI [of _ c] conjI c(1))
qed

end
