(* ===== verification/Startup.thy ===== *)
theory Startup
  imports "HOL-Library.Multiset" Connection
begin

text \<open>
  The start-up synchronisation, which \<open>Sequencer::RunWriter\<close>, \<open>LowlatencySequencer::RunWriter\<close> and
  \<open>DeterministicScheduler::RunLockManagerThread\<close> go through in the same way, each on a channel of its
  own: a machine sends an empty message to every other one and waits until it has got as many messages
  as there are other machines. The network may deliver the messages in any order.
\<close>

section \<open>One machine\<close>

definition sync_message :: "string \<Rightarrow> uint64 \<Rightarrow> 'b message_proto" where
  "sync_message channel i = MessageProto_new
     \<lparr>msg_type := EMPTY, msg_destination_channel := channel, msg_destination_node := i\<rparr>"

text \<open>The messages of the first loop.\<close>

definition sync_messages :: "string \<Rightarrow> cluster_config \<Rightarrow> 'b message_proto list" where
  "sync_messages channel c = map (sync_message channel)
     (filter (\<lambda>i. i \<noteq> cc_local_node_id c) (map of_nat [0..<unat (all_nodes_size c)]))"

text \<open>The test of the second loop, and its body for a message that has come.\<close>

definition sync_waits :: "cluster_config \<Rightarrow> uint32 \<Rightarrow> bool" where
  "sync_waits c counter \<longleftrightarrow> ucast counter < all_nodes_size c"

definition sync_receive :: "'b message_proto \<Rightarrow> uint32 \<Rightarrow> uint32 outcome" where
  "sync_receive m counter = CHECK (msg_type m = EMPTY) (Inr (counter + 1))"

section \<open>The three threads\<close>

text \<open>
  With the multiplexer: the channel and the messages are asked for; then each round of the loop polls the
  channel, until the thread deletes the channel and sets \<open>start_working_\<close>, the first component of the
  result. The code is that of three threads, on two channels.
\<close>

definition synchronize_start :: "string \<Rightarrow> cluster_config \<Rightarrow> 'b multiplexer \<Rightarrow> 'b multiplexer" where
  "synchronize_start channel c mx = fold Send (sync_messages channel c) (NewChannel channel mx)"

definition synchronize_poll ::
  "string \<Rightarrow> cluster_config \<Rightarrow> uint32 \<times> 'b multiplexer \<Rightarrow> (bool \<times> uint32 \<times> 'b multiplexer) outcome" where
  "synchronize_poll channel c st =
     (let (counter, mx) = st
      in if sync_waits c counter
         then bindE (GotMessage channel mx) (\<lambda>(got, mx').
                case got of
                  None \<Rightarrow> Inr (False, counter, mx')
                | Some m \<Rightarrow> bindE (sync_receive m counter) (\<lambda>counter'. Inr (False, counter', mx')))
         else Inr (True, counter, DeleteChannel channel mx))"

definition Sequencer_start :: "cluster_config \<Rightarrow> 'b multiplexer \<Rightarrow> 'b multiplexer" where
  "Sequencer_start = synchronize_start ''synchronization_sequencer_channel''"

definition Sequencer_poll :: "cluster_config \<Rightarrow> uint32 \<times> 'b multiplexer \<Rightarrow> (bool \<times> uint32 \<times> 'b multiplexer) outcome" where
  "Sequencer_poll = synchronize_poll ''synchronization_sequencer_channel''"

definition LowlatencySequencer_start :: "cluster_config \<Rightarrow> 'b multiplexer \<Rightarrow> 'b multiplexer" where
  "LowlatencySequencer_start = synchronize_start ''synchronization_sequencer_channel''"

definition LowlatencySequencer_poll :: "cluster_config \<Rightarrow> uint32 \<times> 'b multiplexer \<Rightarrow> (bool \<times> uint32 \<times> 'b multiplexer) outcome" where
  "LowlatencySequencer_poll = synchronize_poll ''synchronization_sequencer_channel''"

definition LockManagerThread_start :: "cluster_config \<Rightarrow> 'b multiplexer \<Rightarrow> 'b multiplexer" where
  "LockManagerThread_start = synchronize_start ''synchronization_scheduler_channel''"

definition LockManagerThread_poll :: "cluster_config \<Rightarrow> uint32 \<times> 'b multiplexer \<Rightarrow> (bool \<times> uint32 \<times> 'b multiplexer) outcome" where
  "LockManagerThread_poll = synchronize_poll ''synchronization_scheduler_channel''"

lemma fold_Send: "fold Send ms mx = mx\<lparr>mx_send := mx_send mx @ ms\<rparr>"
  by (induction ms arbitrary: mx) (simp_all add: Send_def)

lemma synchronize_start_eq:
  "synchronize_start channel c mx = mx\<lparr>mx_new_channel := mx_new_channel mx @ [channel], mx_send := mx_send mx @ sync_messages channel c\<rparr>"
  by (simp add: synchronize_start_def fold_Send NewChannel_def)

section \<open>The cluster\<close>

text \<open>
  What the machines have done, and the messages on their way. A machine that is in the loop has a
  counter; it works when it has left the loop.
\<close>

record 'b startup =
  su_counter :: "uint64 \<Rightarrow> uint32 option"    \<comment> \<open>\<open>None\<close> before the messages are sent\<close>
  su_network :: "'b message_proto multiset"

definition works :: "(uint64 \<Rightarrow> cluster_config) \<Rightarrow> 'b startup \<Rightarrow> uint64 \<Rightarrow> bool" where
  "works cfg s i \<longleftrightarrow> (\<exists>n. su_counter s i = Some n \<and> \<not> sync_waits (cfg i) n)"

inductive startup_run :: "string \<Rightarrow> (uint64 \<Rightarrow> cluster_config) \<Rightarrow> nat \<Rightarrow> 'b startup \<Rightarrow> bool" for channel cfg N where
  start: "startup_run channel cfg N \<lparr>su_counter = (\<lambda>_. None), su_network = {#}\<rparr>"
| enter: "startup_run channel cfg N s \<Longrightarrow> unat i < N \<Longrightarrow> su_counter s i = None \<Longrightarrow>
    startup_run channel cfg N (s\<lparr>su_counter := (su_counter s)(i \<mapsto> 1),
      su_network := su_network s + mset (sync_messages channel (cfg i))\<rparr>)"
| receive: "startup_run channel cfg N s \<Longrightarrow> su_counter s i = Some n \<Longrightarrow> sync_waits (cfg i) n \<Longrightarrow> m \<in># su_network s \<Longrightarrow>
    msg_destination_node m = i \<Longrightarrow> sync_receive m n = Inr n' \<Longrightarrow>
    startup_run channel cfg N (s\<lparr>su_counter := (su_counter s)(i \<mapsto> n'), su_network := su_network s - {#m#}\<rparr>)"

text \<open>The machines are numbered from 0, know their number, and fit the counter.\<close>

definition cluster_ok :: "(uint64 \<Rightarrow> cluster_config) \<Rightarrow> nat \<Rightarrow> bool" where
  "cluster_ok cfg N \<longleftrightarrow> N < 2 ^ 32 \<and> (\<forall>i. unat i < N \<longrightarrow> cc_local_node_id (cfg i) = i \<and> unat (all_nodes_size (cfg i)) = N)"

definition entered :: "'b startup \<Rightarrow> uint64 set" where
  "entered s = {j. su_counter s j \<noteq> None}"

definition underway :: "'b startup \<Rightarrow> uint64 \<Rightarrow> nat" where
  "underway s i = size (filter_mset (\<lambda>m. msg_destination_node m = i) (su_network s))"

text \<open>
  The invariant: every message is one of these, and a machine has counted one for each machine that
  has entered, itself included, but for the messages that are still on their way to it.
\<close>

definition startup_inv :: "nat \<Rightarrow> 'b startup \<Rightarrow> bool" where
  "startup_inv N s \<longleftrightarrow> (\<forall>m \<in># su_network s. msg_type m = EMPTY) \<and> (\<forall>j \<in> entered s. unat j < N)
     \<and> (\<forall>i. unat i < N \<longrightarrow> (case su_counter s i of None \<Rightarrow> 0 | Some n \<Rightarrow> unat n - 1) + underway s i = card (entered s - {i})
          \<and> su_counter s i \<noteq> Some 0)"

section \<open>The invariant holds\<close>

lemma unat_of_nat_below [simp]: "n < 2 ^ 32 \<Longrightarrow> unat (of_nat n :: uint64) = n"
  by (simp add: unat_of_nat take_bit_eq_mod)

lemma of_nat_inj_below: "N < 2 ^ 32 \<Longrightarrow> inj_on (of_nat :: nat \<Rightarrow> uint64) {0..<N}"
  by (rule inj_on_inverseI [where g = unat]) simp

lemma machines_set: "N < 2 ^ 32 \<Longrightarrow> {j :: uint64. unat j < N} = of_nat ` {0..<N}"
  by (auto simp: image_iff intro!: bexI [of _ "unat j" for j :: uint64])

lemma machines_card: "N < 2 ^ 32 \<Longrightarrow> card {j :: uint64. unat j < N} = N"
  using card_image [OF of_nat_inj_below] by (simp add: machines_set)

text \<open>A machine sends exactly one message to every other one.\<close>

lemma sync_messages_to:
  assumes "cluster_ok cfg N" "unat k < N" "unat i < N"
  shows "size (filter_mset (\<lambda>m. msg_destination_node m = i) (mset (sync_messages channel (cfg k) :: 'b message_proto list)))
    = (if i = k then 0 else 1)"
proof -
  let ?is = "map of_nat [0..<N] :: uint64 list"
  have N: "N < 2 ^ 32" and c: "cc_local_node_id (cfg k) = k" "unat (all_nodes_size (cfg k)) = N"
    using assms(1,2) by (auto simp: cluster_ok_def)
  have "distinct ?is" using of_nat_inj_below [OF N] by (simp add: distinct_map)
  moreover have "i \<in> set ?is" using machines_set [OF N] assms(3) by auto
  ultimately have one: "filter (\<lambda>j. j = i) ?is = [i]" by (rule filter_eq_in_distinct)
  have count: "size (filter_mset P (mset xs)) = length (filter P xs)" for P and xs :: "'b message_proto list"
    by (metis mset_filter size_mset)
  have "size (filter_mset (\<lambda>m. msg_destination_node m = i) (mset (sync_messages channel (cfg k) :: 'b message_proto list)))
      = length (filter (\<lambda>j. j = i) (filter (\<lambda>j. j \<noteq> k) ?is))"
    by (simp only: count) (simp add: sync_messages_def c sync_message_def filter_map o_def)
  also have "filter (\<lambda>j. j = i) (filter (\<lambda>j. j \<noteq> k) ?is) = filter (\<lambda>j. j \<noteq> k) (filter (\<lambda>j. j = i) ?is)"
    by (simp add: conj_commute)
  finally show ?thesis by (simp add: one)
qed

lemma startup_inv_enter:
  assumes cl: "cluster_ok cfg N" and inv: "startup_inv N s" and i: "unat i < N" "su_counter s i = None"
  shows "startup_inv N (s\<lparr>su_counter := (su_counter s)(i \<mapsto> 1), su_network := su_network s + mset (sync_messages channel (cfg i))\<rparr>)"
    (is "startup_inv N ?s")
proof -
  have ent: "entered ?s = insert i (entered s)" "i \<notin> entered s" using i(2) by (auto simp: entered_def)
  have under: "underway ?s k = underway s k + (if k = i then 0 else 1)" if "unat k < N" for k
    using sync_messages_to [OF cl i(1) that, of channel] by (simp add: underway_def)
  have "(case su_counter ?s k of None \<Rightarrow> 0 | Some n \<Rightarrow> unat n - 1) + underway ?s k = card (entered ?s - {k}) \<and> su_counter ?s k \<noteq> Some 0"
    if k: "unat k < N" for k
  proof (cases "k = i")
    case True
    then show ?thesis using inv i k under [OF k] ent by (auto simp: startup_inv_def)
  next
    case False
    then have "card (entered ?s - {k}) = Suc (card (entered s - {k}))" using ent by (simp add: insert_Diff_if)
    then show ?thesis using False inv k under [OF k] by (simp add: startup_inv_def)
  qed
  moreover have "\<forall>m \<in># su_network ?s. msg_type m = EMPTY"
    using inv by (auto simp: startup_inv_def sync_messages_def sync_message_def)
  ultimately show ?thesis using inv i ent by (simp add: startup_inv_def)
qed

lemma startup_inv_receive:
  assumes cl: "cluster_ok cfg N" and inv: "startup_inv N s" and n: "su_counter s i = Some n" "sync_waits (cfg i) n"
    and m: "m \<in># su_network s" "msg_destination_node m = i" and n': "sync_receive m n = Inr n'"
  shows "startup_inv N (s\<lparr>su_counter := (su_counter s)(i \<mapsto> n'), su_network := su_network s - {#m#}\<rparr>)" (is "startup_inv N ?s")
proof -
  have i: "unat i < N" using inv n(1) by (auto simp: startup_inv_def entered_def)
  have "unat n < N" using n(2) cl i by (simp add: sync_waits_def cluster_ok_def word_less_nat_alt)
  then have "unat (n + 1) = unat n + 1" using cl by (simp add: cluster_ok_def unat_word_ariths)
  moreover have "n' = n + 1" using n' by (simp add: sync_receive_def outcome_simps)
  ultimately have un: "unat n' = unat n + 1" by simp
  have pos: "0 < unat n" using inv n(1) i by (auto simp: startup_inv_def unat_gt_0)
  have ent: "entered ?s = entered s" using n(1) by (auto simp: entered_def)
  obtain M where M: "su_network s = add_mset m M" using m(1) by (metis mset_add)
  have under: "underway s k = underway ?s k + (if k = i then 1 else 0)" for k
    using m(2) by (simp add: underway_def M)
  have "(case su_counter ?s k of None \<Rightarrow> 0 | Some n \<Rightarrow> unat n - 1) + underway ?s k = card (entered ?s - {k}) \<and> su_counter ?s k \<noteq> Some 0"
    if k: "unat k < N" for k
  proof (cases "k = i")
    case True
    moreover have "unat n - 1 + underway s i = card (entered s - {i})" using inv i n(1) by (auto simp: startup_inv_def)
    moreover have "n' \<noteq> 0" using un by auto
    ultimately show ?thesis using un pos under [of i] ent by simp
  next
    case False
    then show ?thesis using inv k under [of k] ent by (auto simp: startup_inv_def)
  qed
  moreover have "\<forall>m \<in># su_network ?s. msg_type m = EMPTY" using inv by (auto simp: startup_inv_def dest: in_diffD)
  ultimately show ?thesis using inv ent by (simp add: startup_inv_def)
qed

lemma startup_run_inv: "startup_run channel cfg N s \<Longrightarrow> cluster_ok cfg N \<Longrightarrow> startup_inv N s"
proof (induction rule: startup_run.induct)
  case start
  show ?case by (simp add: startup_inv_def underway_def entered_def)
qed (simp_all add: startup_inv_enter startup_inv_receive)

text \<open>
  A poll is a step of the run: taking a message of the network, doing nothing, or leaving the loop. So a
  thread goes on to work exactly when its machine does in the run.
\<close>

lemma synchronize_poll_run:
  fixes s :: "'b startup" and mx :: "'b multiplexer"
  assumes run: "startup_run channel cfg N s" and n: "su_counter s i = Some n"
    and poll: "synchronize_poll channel (cfg i) (n, mx) = Inr (works', n', mx')"
    and net: "\<And>m mx'. GotMessage channel mx = Inr (Some m, mx') \<Longrightarrow> m \<in># su_network s \<and> msg_destination_node m = i"
  shows "if works' then works cfg s i \<and> n' = n
    else \<exists>s' :: 'b startup. startup_run channel cfg N s' \<and> su_counter s' = (su_counter s)(i \<mapsto> n')"
proof (cases "sync_waits (cfg i) n")
  case False
  with poll n show ?thesis by (auto simp: synchronize_poll_def works_def)
next
  case True
  with poll obtain got where got: "GotMessage channel mx = Inr (got, mx')" "\<not> works'"
    and n': "case got of None \<Rightarrow> n' = n | Some m \<Rightarrow> sync_receive m n = Inr n'"
    by (auto simp: synchronize_poll_def outcome_simps split: option.splits)
  show ?thesis
  proof (cases got)
    case None
    with n' n got(2) run show ?thesis by (simp add: fun_upd_idem) blast
  next
    case (Some m)
    with got(1) net have m: "m \<in># su_network s" "msg_destination_node m = i" by blast+
    from startup_run.receive [OF run n True m] n' Some got(2) show ?thesis by auto
  qed
qed

text \<open>What the invariant says of a machine in the loop.\<close>

lemma startup_inv_counter:
  assumes inv: "startup_inv N s" and cl: "cluster_ok cfg N" and i: "unat i < N" "su_counter s i = Some n"
  shows "sync_waits (cfg i) n \<longleftrightarrow> unat n < N"
    and "N \<le> unat n \<Longrightarrow> entered s = {j. unat j < N}"
    and "unat n < N \<Longrightarrow> entered s = {j. unat j < N} \<Longrightarrow> \<exists>m. m \<in># su_network s \<and> msg_destination_node m = i"
proof -
  let ?all = "{j :: uint64. unat j < N}"
  have size: "unat (all_nodes_size (cfg i)) = N" and card: "card ?all = N"
    using cl i(1) machines_card by (auto simp: cluster_ok_def)
  show "sync_waits (cfg i) n \<longleftrightarrow> unat n < N" by (simp add: sync_waits_def word_less_nat_alt size)
  have sub: "entered s \<subseteq> ?all" using inv by (auto simp: startup_inv_def)
  have others: "card (?all - {i}) = N - 1" using card i(1) by (simp add: card_Diff_singleton)
  have cnt: "unat n - 1 + underway s i = card (entered s - {i})" "0 < unat n"
    using inv i by (auto simp: startup_inv_def unat_gt_0)
  show "entered s = ?all" if "N \<le> unat n"
  proof -
    have "card (entered s - {i}) \<le> N - 1"
      using card_mono [of "?all - {i}" "entered s - {i}"] sub others by auto
    then have "card (entered s - {i}) = N - 1" using cnt that by linarith
    then have "entered s - {i} = ?all - {i}"
      using card_subset_eq [of "?all - {i}" "entered s - {i}"] sub others by auto
    then show ?thesis using i by (auto simp: entered_def)
  qed
  show "\<exists>m. m \<in># su_network s \<and> msg_destination_node m = i" if "unat n < N" "entered s = ?all"
  proof -
    have "0 < underway s i" using cnt others that by simp
    then show ?thesis
      unfolding underway_def by (auto simp: nonempty_has_size [symmetric] filter_mset_eq_conv multiset_eq_iff split: if_splits)
  qed
qed

section \<open>Properties\<close>

text \<open>
  C16: The start-up synchronisation is a barrier, and opens. A machine that has left the loop has waited
  until every machine of the cluster had come to it, in whatever order the network delivers. As long as
  some machine has not left the loop, either one has not come to it yet, or a machine in the loop has a
  message on its way to it and takes it, without failing its check.
\<close>

theorem startup_barrier:
  assumes "startup_run channel cfg N s" and "cluster_ok cfg N" and "unat i < N"
  shows "(works cfg s i \<longrightarrow> (\<forall>j. unat j < N \<longrightarrow> su_counter s j \<noteq> None))
    \<and> (\<not> works cfg s i \<longrightarrow> (\<exists>j. unat j < N \<and> su_counter s j = None)
        \<or> (\<exists>n m. su_counter s i = Some n \<and> sync_waits (cfg i) n \<and> m \<in># su_network s \<and> msg_destination_node m = i
             \<and> sync_receive m n = Inr (n + 1)))"
proof (cases "su_counter s i")
  case None
  then show ?thesis using assms(3) by (auto simp: works_def)
next
  case (Some n)
  note inv = startup_run_inv [OF assms(1,2)]
  note c = startup_inv_counter [OF inv assms(2,3) Some]
  have receive: "sync_receive m n = Inr (n + 1)" if "m \<in># su_network s" for m
    using inv that by (simp add: startup_inv_def sync_receive_def)
  show ?thesis
  proof (cases "unat n < N")
    case False
    with c(1,2) Some show ?thesis by (auto simp: works_def entered_def)
  next
    case True
    then have "\<not> works cfg s i" using c(1) Some by (simp add: works_def)
    moreover have "entered s = {j. unat j < N} \<or> (\<exists>j. unat j < N \<and> su_counter s j = None)"
      using inv by (auto simp: startup_inv_def entered_def)
    ultimately show ?thesis using c(1,3) True Some receive by blast
  qed
qed

section \<open>A concrete start\<close>

text \<open>Two machines; machine 0 has come, and then machine 1, and has taken its message.\<close>

definition pair_config :: "uint64 \<Rightarrow> cluster_config" where
  "pair_config i = \<lparr>cc_machines = map (\<lambda>e. (scast (ce_id e), entry_info e)) (take 2 example_entries),
     cc_machines_replica = map (\<lambda>e. (scast (ce_id e), ce_replica e)) (take 2 example_entries),
     cc_replicas_size = 1, cc_local_node_id = i, cc_local_replica = 0, cc_relative_node_id = i, cc_next_guid = 1000, cc_stop = False\<rparr>"

lemma pair_config_size: "all_nodes_size (pair_config i) = 2"
  by (simp add: all_nodes_size_def pair_config_def example_entries_def)

lemma pair_cluster_ok: "cluster_ok pair_config 2"
  by (simp add: cluster_ok_def pair_config_size) (simp add: pair_config_def)

lemma example_startup:
  "\<exists>(s :: unit startup). startup_run ''c'' pair_config 2 s \<and> works pair_config s 1 \<and> su_counter s 0 = Some 1"
proof -
  let ?m = "\<lambda>i. sync_message ''c'' i :: unit message_proto"
  have msgs: "sync_messages ''c'' (pair_config 0) = [?m 1]" "sync_messages ''c'' (pair_config 1) = [?m 0]"
    by (simp_all add: sync_messages_def pair_config_size) (simp_all add: pair_config_def upt_rec numeral_2_eq_2)
  let ?s0 = "\<lparr>su_counter = (\<lambda>_. None), su_network = {#}\<rparr> :: unit startup"
  let ?s1 = "\<lparr>su_counter = [0 \<mapsto> 1], su_network = {#?m 1#}\<rparr> :: unit startup"
  let ?s2 = "\<lparr>su_counter = [0 \<mapsto> 1, 1 \<mapsto> 1], su_network = {#?m 1, ?m 0#}\<rparr> :: unit startup"
  have "startup_run ''c'' pair_config 2 ?s1"
    using startup_run.enter [of "''c''" pair_config 2 ?s0 0] startup_run.start [of "''c''" pair_config 2] by (simp add: msgs)
  then have "startup_run ''c'' pair_config 2 ?s2"
    using startup_run.enter [of "''c''" pair_config 2 ?s1 1] by (simp add: msgs add_mset_commute)
  then have "startup_run ''c'' pair_config 2 \<lparr>su_counter = [0 \<mapsto> 1, 1 \<mapsto> 2], su_network = {#?m 0#}\<rparr>"
    using startup_run.receive [of "''c''" pair_config 2 ?s2 1 1 "?m 1" 2]
    by (simp add: sync_waits_def pair_config_size sync_message_def sync_receive_def)
  then show ?thesis
    by (intro exI conjI) (assumption, simp_all add: works_def sync_waits_def pair_config_size)
qed

lemma startup_barrier_witness:
  "\<exists>(s :: unit startup). startup_run ''c'' pair_config 2 s \<and> works pair_config s 1 \<and> (\<forall>j. unat j < 2 \<longrightarrow> su_counter s j \<noteq> None)"
proof -
  obtain s :: "unit startup" where "startup_run ''c'' pair_config 2 s" "works pair_config s 1" using example_startup by blast
  with startup_barrier [OF this(1) pair_cluster_ok, of 1] show ?thesis by auto
qed

end
