(* ===== verification/Applied_Log.thy ===== *)
theory Applied_Log
  imports Agreed_Order
begin

text \<open>
  What the agreed log does to the database. A machine that only gets transactions on its own keys
  implements the abstract machine that applies the log, one transaction after the other, to a map from
  keys to values: no write is lost and none is made twice, whatever the workers do at the same time.
\<close>

section \<open>What an application writes\<close>

text \<open>The values of the records on the heap when the one of key \<open>k\<close> is advanced through the manager.\<close>

definition advance_at :: "'b storage_manager \<Rightarrow> string \<Rightarrow> string list \<Rightarrow> string list" where
  "advance_at sm k vs =
     (case map_of (sm_objects sm) k of Some (Some p) \<Rightarrow> vs[p := advanced (vs ! p)] | _ \<Rightarrow> vs)"

locale writing_application = application +
  fixes written :: "txn_proto \<Rightarrow> string list"
  assumes writes: "execute txn (sm, h, c, sent) = Inr (sm', h', c', sent') \<Longrightarrow>
      map rec_value h' = fold (advance_at sm) (written txn) (map rec_value h)"
    and written_status: "written (txn\<lparr>tx_status := st\<rparr>) = written txn"
    and written_keys: "execute txn (sm, h, c, sent) = Inr (sm', h', c', sent') \<Longrightarrow>
      set (written txn) \<subseteq> ke_key ` set (tx_read_write_set txn)"

text \<open>The keys that the two applications write: none for a remaster request.\<close>

definition micro_written :: "txn_proto \<Rightarrow> string list" where
  "micro_written txn =
     (if tx_remaster_txn txn then [] else map (\<lambda>i. ke_key (tx_read_write_set txn ! i)) [0..<unat kRWSetSize])"

definition tpcc_written :: "txn_proto \<Rightarrow> string list" where
  "tpcc_written txn = map ke_key (tx_read_write_set txn)"

lemma advance_value_advanced: "advance_value v = Inr v' \<Longrightarrow> v' = advanced v"
  by (simp add: advance_value_def advanced_def require_defined_def split: if_splits)

lemma touch_value: "touch local client r = Inr (r', b) \<Longrightarrow> rec_value r' = rec_value r"
  by (auto simp: touch_def require_defined_def Let_def split: if_splits)

lemma SM_ReadObject_Some: "SM_ReadObject k sm = (Some p, sm') \<longleftrightarrow> map_of (sm_objects sm) k = Some (Some p) \<and> sm' = sm"
  by (auto simp: SM_ReadObject_def split: option.splits)

lemma deref_Inr: "deref po = Inr p \<longleftrightarrow> po = Some p"
  by (simp add: deref_def split: option.split)

lemma heap_Inr:
  "heap_get h p = Inr r \<longleftrightarrow> p < length h \<and> r = h ! p"
  "heap_modify p f h = Inr h' \<longleftrightarrow> p < length h \<and> h' = h[p := f (h ! p)]"
  "rep_get xs i = Inr x \<longleftrightarrow> i < length xs \<and> x = xs ! i"
  by (auto simp: heap_get_def heap_modify_def rep_get_def)

lemmas access_simps = SM_ReadObject_Some deref_Inr heap_Inr outcome_simps

text \<open>A step that advances one key, seen through the manager and the values.\<close>

lemma foldE_advances:
  assumes "\<And>i st st'. step i st = Inr st' \<Longrightarrow> i < n \<and> view st' = (fst (view st), advance_at (fst (view st)) (key i) (snd (view st)))"
  shows "foldE step js st = Inr st' \<Longrightarrow> set js \<subseteq> {..<n} \<and> view st' = (fst (view st), fold (advance_at (fst (view st))) (map key js) (snd (view st)))"
proof (induction js arbitrary: st)
  case (Cons i js)
  then obtain st1 where st1: "step i st = Inr st1" "foldE step js st1 = Inr st'" by (auto simp: outcome_simps)
  with Cons.IH [OF st1(2)] assms [OF st1(1)] show ?case by simp
qed simp

lemma execute_entry_view:
  fixes st :: "'b exec_state"
  defines "view \<equiv> \<lambda>(sm, h, c, sent). (sm, map rec_value h)"
  assumes "execute_entry cd mb txn i st = Inr st'"
  shows "i < length (tx_read_write_set txn)
    \<and> view st' = (fst (view st), advance_at (fst (view st)) (ke_key (tx_read_write_set txn ! i)) (snd (view st)))"
proof -
  obtain sm h c sent where st: "st = (sm, h, c, sent)" by (cases st)
  from assms(2) show ?thesis
    by (auto simp: st view_def execute_entry_def access_simps advance_at_def map_update Let_def
        dest!: advance_value_advanced split: prod.splits if_splits dest: touch_value)
qed

lemma Tpcc_execute_entry_view:
  fixes st :: "'b storage_manager \<times> rec_heap"
  defines "view \<equiv> \<lambda>(sm, h). (sm, map rec_value h)"
  assumes "Tpcc_execute_entry txn i st = Inr st'"
  shows "i < length (tx_read_write_set txn)
    \<and> view st' = (fst (view st), advance_at (fst (view st)) (ke_key (tx_read_write_set txn ! i)) (snd (view st)))"
proof -
  obtain sm h where st: "st = (sm, h)" by (cases st)
  from assms(2) show ?thesis
    by (auto simp: st view_def Tpcc_execute_entry_def access_simps advance_at_def map_update Let_def
        dest!: advance_value_advanced split: prod.splits)
qed

lemma Execute_writes:
  fixes sm :: "'b storage_manager"
  assumes "Execute cd mb txn (sm, h, c, sent) = Inr (sm', h', c', sent')"
  shows "map rec_value h' = fold (advance_at sm) (micro_written txn) (map rec_value h)"
    and "set (micro_written txn) \<subseteq> ke_key ` set (tx_read_write_set txn)"
proof -
  have "map rec_value h' = fold (advance_at sm) (micro_written txn) (map rec_value h)
    \<and> set (micro_written txn) \<subseteq> ke_key ` set (tx_read_write_set txn)"
  proof (cases "tx_remaster_txn txn")
    case True
    with assms show ?thesis
      by (auto simp: Execute_def execute_remaster_def micro_written_def access_simps map_update Let_def split: prod.splits)
        (metis (no_types, lifting) length_map list_update_id nth_map)
  next
    case False
    then have "foldE (execute_entry cd mb txn) [0..<unat kRWSetSize] (sm, h, c, sent) = Inr (sm', h', c', sent')"
      using assms by (simp add: Execute_def)
    from foldE_advances [where view = "\<lambda>(sm, h, c, sent). (sm, map rec_value h)", OF execute_entry_view this] False show ?thesis
      by (auto simp: micro_written_def subset_iff)
  qed
  then show "map rec_value h' = fold (advance_at sm) (micro_written txn) (map rec_value h)"
    "set (micro_written txn) \<subseteq> ke_key ` set (tx_read_write_set txn)" by blast+
qed

interpretation micro_writes: writing_application "Execute cd mb" micro_written for cd mb
proof unfold_locales
  show "micro_written (txn\<lparr>tx_status := st\<rparr>) = micro_written txn" for txn st by (simp add: micro_written_def)
qed (rule Execute_writes; assumption)+

lemma tpcc_app_writes:
  fixes sm :: "'b storage_manager"
  assumes "tpcc_app txn (sm, h, c, sent) = Inr (sm', h', c', sent')"
  shows "map rec_value h' = fold (advance_at sm) (tpcc_written txn) (map rec_value h)"
proof -
  from assms have "foldE (Tpcc_execute_entry txn) [0..<length (tx_read_write_set txn)] (sm, h) = Inr (sm', h')"
    by (auto simp: tpcc_app_def Tpcc_Execute_def outcome_simps)
  from foldE_advances [where view = "\<lambda>(sm, h). (sm, map rec_value h)", OF Tpcc_execute_entry_view this]
  have "map rec_value h' = fold (advance_at sm) (map (\<lambda>i. ke_key (tx_read_write_set txn ! i)) [0..<length (tx_read_write_set txn)]) (map rec_value h)"
    by simp
  also have "map (\<lambda>i. ke_key (tx_read_write_set txn ! i)) [0..<length (tx_read_write_set txn)] = tpcc_written txn"
    by (rule nth_equalityI) (simp_all add: tpcc_written_def)
  finally show ?thesis .
qed

interpretation tpcc_writes: writing_application tpcc_app tpcc_written
  by unfold_locales (auto simp: tpcc_written_def dest: tpcc_app_writes [unfolded tpcc_written_def])

section \<open>The database as a map\<close>

definition value_of :: "simple_storage \<times> rec_heap \<Rightarrow> string \<Rightarrow> string option" where
  "value_of sh k = map_option rec_value (record_of sh k)"

text \<open>The abstract machine: a transaction advances the value of every key that it writes.\<close>

definition apply_txn :: "(txn_proto \<Rightarrow> string list) \<Rightarrow> txn_proto \<Rightarrow> (string \<Rightarrow> string option) \<Rightarrow> string \<Rightarrow> string option" where
  "apply_txn written txn db = fold (\<lambda>k db. db(k := map_option advanced (db k))) (written txn) db"

definition apply_log :: "(txn_proto \<Rightarrow> string list) \<Rightarrow> txn_proto list \<Rightarrow> (string \<Rightarrow> string option) \<Rightarrow> string \<Rightarrow> string option" where
  "apply_log written txns db = fold (apply_txn written) txns db"

lemma apply_log_simps [simp]:
  "apply_log written [] db = db" "apply_log written (txns @ [txn]) db = apply_txn written txn (apply_log written txns db)"
  by (simp_all add: apply_log_def)

definition stored :: "simple_storage \<Rightarrow> string list \<Rightarrow> string \<Rightarrow> string option" where
  "stored st vs k = (case st k of None \<Rightarrow> None | Some p \<Rightarrow> if p < length vs then Some (vs ! p) else None)"

lemma value_of_stored: "value_of (st, h) = stored st (map rec_value h)"
  by (auto simp: value_of_def stored_def record_of_def fun_eq_iff split: option.splits)

text \<open>No two keys share a record.\<close>

lemma stored_advance:
  assumes inj: "inj_on st (dom st)" and k: "map_of (sm_objects sm) k = Some (st k)" "st k \<noteq> None"
  shows "stored st (advance_at sm k vs) = (stored st vs)(k := map_option advanced (stored st vs k))"
proof
  fix j
  obtain p where p: "st k = Some p" using k(2) by blast
  have "st j = Some p \<longleftrightarrow> j = k" using inj p by (auto simp: inj_on_def dom_def)
  then show "stored st (advance_at sm k vs) j = ((stored st vs)(k := map_option advanced (stored st vs k))) j"
    using k(1) p by (auto simp: stored_def advance_at_def nth_list_update split: option.split)
qed

lemma stored_advances:
  assumes inj: "inj_on st (dom st)"
  shows "\<forall>k \<in> set ks. map_of (sm_objects sm) k = Some (st k) \<and> st k \<noteq> None \<Longrightarrow>
    stored st (fold (advance_at sm) ks vs) = fold (\<lambda>k db. db(k := map_option advanced (db k))) ks (stored st vs)"
  by (induction ks arbitrary: vs) (simp_all add: stored_advance [OF inj])

section \<open>A worker applies a local transaction\<close>

text \<open>All keys of a local transaction are this machine's; none is named twice.\<close>

definition local_txn :: "cluster_config \<Rightarrow> uint32 \<Rightarrow> txn_proto \<Rightarrow> bool" where
  "local_txn c m txn \<longleftrightarrow> cc_relative_node_id c \<in> set (tx_readers txn) \<and> distinct_keys txn
     \<and> (\<forall>ke \<in> set (txn_entries txn). reads_here c txn m ke)"

lemma local_txn_simps [simp]:
  "local_txn c m (txn\<lparr>tx_status := st\<rparr>) = local_txn c m txn"
  "local_txn (c\<lparr>cc_next_guid := g\<rparr>) m txn = local_txn c m txn"
  by (simp_all add: local_txn_def distinct_keys_def txn_entries_def reads_here_def LookupPartition_def nodes_per_replica_def
      all_nodes_size_def)

lemma local_manager:
  assumes "local_txn c m txn" and "StorageManager u64 u32 cd c st h txn m = Inr (sm, sent)"
  shows "ReadyToExecute sm" and "sm_txn sm = txn"
    and "\<forall>k \<in> ke_key ` set (txn_entries txn). map_of (sm_objects sm) k = Some (st k) \<and> st k \<noteq> None"
proof -
  have reader: "cc_relative_node_id c \<in> set (tx_readers txn)" and keys: "local_keys c txn m = ke_key ` set (txn_entries txn)"
    using assms(1) by (auto simp: local_txn_def local_keys_def)
  note f = StorageManager_fields [OF assms(2) reader] and obj = StorageManager_objects [OF assms(2) reader]
  show txn: "sm_txn sm = txn" by (rule f(1))
  have "map_of (sm_objects sm) k = (if k \<in> local_keys c txn m then Some (st k) else None)" for k
    unfolding f(6) by (auto simp: map_of_fold_update local_keys_def)
  moreover have "st k \<noteq> None" if "k \<in> local_keys c txn m" for k
    using obj(3) [OF that] by (auto simp: record_of_def split: option.splits)
  ultimately show "\<forall>k \<in> ke_key ` set (txn_entries txn). map_of (sm_objects sm) k = Some (st k) \<and> st k \<noteq> None"
    by (simp add: keys)
  show "ReadyToExecute sm"
    using ReadyToExecute_iff [OF obj(1)] assms(1) by (simp add: txn obj(2) keys local_txn_def distinct_keys_def)
qed

context writing_application
begin

lemma run_ready_applies:
  assumes m: "dlm_mode (ls_lm s) \<noteq> 2" and run: "run_ready cd execute rnd t sm (s, mx) = Inr (s', mx')"
    and inj: "inj_on st (dom st)" and txn: "sm_txn sm = txn"
    and keys: "\<forall>k \<in> ke_key ` set (txn_entries txn). map_of (sm_objects sm) k = Some (st k) \<and> st k \<noteq> None"
  shows "ls_storage s' = ls_storage s \<and> value_of (st, ls_recs s') = apply_txn written txn (value_of (st, ls_recs s))"
proof -
  from m run obtain sm1 recs c sent where ex: "execute txn (sm, ls_recs s, dlm_config (ls_lm s), []) = Inr (sm1, recs, c, sent)"
    and s': "s' = push_done t (txn\<lparr>tx_status := COMMITTED\<rparr>) (set_config c (s\<lparr>ls_recs := recs\<rparr>))"
    using txn by (auto simp: run_ready_def commit_check_def execute_txn_def outcome_simps)
  have "set (written txn) \<subseteq> ke_key ` set (txn_entries txn)" using written_keys [OF ex] by (auto simp: txn_entries_def)
  with keys have "\<forall>k \<in> set (written txn). map_of (sm_objects sm) k = Some (st k) \<and> st k \<noteq> None" by blast
  from stored_advances [OF inj this] writes [OF ex] show ?thesis
    by (simp add: s' push_done_def set_config_def value_of_stored apply_txn_def)
qed

text \<open>A worker that waits for nothing does nothing, or executes the next transaction as a whole.\<close>

lemma worker_applies:
  assumes m: "dlm_mode (ls_lm s) \<noteq> 2" and idle: "wk_active w = []" and inj: "inj_on (ls_storage s) (dom (ls_storage s))"
    and loc: "\<forall>t \<in> set (ls_txns_queue s). local_txn (dlm_config (ls_lm s)) (dlm_mode (ls_lm s)) (ls_heap s t)"
    and run: "RunWorkerThread_iteration u64 u32 cd execute r (w, s, mx) = Inr (w', s', mx')"
  shows "wk_active w' = [] \<and> (s' = s \<or> (\<exists>t q. ls_txns_queue s = t # q \<and> ls_done_queue s' = ls_done_queue s @ [t] \<and> same_locks s s'
    \<and> ls_storage s' = ls_storage s
    \<and> value_of (ls_storage s, ls_recs s') = apply_txn written (ls_heap s t) (value_of (ls_storage s, ls_recs s))))"
proof -
  from run obtain got mx1 where "(case got of Some msg \<Rightarrow> handle_message cd execute r msg (w, s, mx1)
      | None \<Rightarrow> start_txn u64 u32 cd execute r (w, s, mx1)) = Inr (w', s', mx')"
    by (auto simp: RunWorkerThread_iteration_def outcome_simps)
  then consider "w' = w" "s' = s" | "start_txn u64 u32 cd execute r (w, s, mx1) = Inr (w', s', mx')"
    by (auto simp: handle_message_def idle Let_def split: option.splits if_splits)
  then show ?thesis
  proof cases
    case 2
    show ?thesis
    proof (cases "ls_txns_queue s")
      case Nil
      with 2 idle show ?thesis by (simp add: start_txn_def)
    next
      case (Cons t q)
      let ?s = "s\<lparr>ls_txns_queue := q\<rparr>"
      from 2 Cons obtain sm sent where sm: "StorageManager u64 u32 cd (dlm_config (ls_lm s)) (ls_storage s) (ls_recs s) (ls_heap s t)
          (dlm_mode (ls_lm s)) = Inr (sm, sent)"
        by (auto simp: start_txn_def outcome_simps)
      have "local_txn (dlm_config (ls_lm s)) (dlm_mode (ls_lm s)) (ls_heap s t)" using loc Cons by simp
      note man = local_manager [OF this sm]
      from 2 Cons sm man(1) have ready: "run_ready cd execute r t sm (?s, fold Send sent mx1) = Inr (s', mx')" and w': "w' = w"
        by (auto simp: start_txn_def outcome_simps Let_def)
      have m': "dlm_mode (ls_lm ?s) \<noteq> 2" using m by simp
      from run_ready_applies [OF m' ready inj man(2,3)] run_ready_effect [OF m' ready] idle Cons show ?thesis
        by (simp add: w')
    qed
  qed (use idle in simp)
qed

end

section \<open>The lock manager thread leaves the database alone\<close>

text \<open>It moves transactions from the done queue to those deleted, in order.\<close>

definition same_database :: "'b lm_thread \<Rightarrow> 'b lm_thread \<Rightarrow> bool" where
  "same_database s s' \<longleftrightarrow> ls_storage s' = ls_storage s \<and> ls_recs s' = ls_recs s
     \<and> dlm_config (ls_lm s') = dlm_config (ls_lm s) \<and> dlm_mode (ls_lm s') = dlm_mode (ls_lm s)"

lemma same_database_trans: "same_database s s1 \<Longrightarrow> same_database s1 s2 \<Longrightarrow> same_database s s2"
  by (simp add: same_database_def)

lemma handle_done_database:
  assumes "dlm_mode (ls_lm s) \<noteq> 2" "handle_done rnd t s = Inr s'"
  shows "same_database s s' \<and> ls_freed s' = ls_freed s @ [t] \<and> ls_done_queue s' = ls_done_queue s"
proof -
  from assms obtain s1 where 1: "done_release t s = Inr s1"
    and "\<exists>s2. done_count rnd t (s1\<lparr>ls_executing := ls_executing s1 - 1\<rparr>) = Inr s2 \<and> s' = s2\<lparr>ls_freed := ls_freed s2 @ [t]\<rparr>"
    by (auto simp: handle_done_def done_remaster_def outcome_simps)
  then obtain r n where s': "s' = s1\<lparr>ls_executing := ls_executing s1 - 1, ls_rand := r, ls_txns := n, ls_freed := ls_freed s1 @ [t]\<rparr>"
    using done_count_counters by fastforce
  have "same_database s s1 \<and> ls_freed s1 = ls_freed s \<and> ls_done_queue s1 = ls_done_queue s"
    using 1 Release_config by (auto simp: done_release_def same_database_def outcome_simps split: if_splits)
  then show ?thesis by (simp add: s' same_database_def)
qed

lemma drain_done_database:
  "dlm_mode (ls_lm s) \<noteq> 2 \<Longrightarrow> foldE (handle_done rnd) ts s = Inr s' \<Longrightarrow>
     same_database s s' \<and> ls_freed s' = ls_freed s @ ts \<and> ls_done_queue s' = ls_done_queue s"
proof (induction ts arbitrary: s)
  case (Cons t ts)
  then obtain s1 where s1: "handle_done rnd t s = Inr s1" "foldE (handle_done rnd) ts s1 = Inr s'" by (auto simp: outcome_simps)
  note d = handle_done_database [OF Cons.prems(1) s1(1)]
  then have "dlm_mode (ls_lm s1) \<noteq> 2" using Cons.prems(1) by (simp add: same_database_def)
  from Cons.IH [OF this s1(2)] d show ?case using same_database_trans by fastforce
qed (simp add: same_database_def)

lemma admit_txn_database:
  "dlm_mode (ls_lm s) \<noteq> 2 \<Longrightarrow> admit_txn txn s = Inr s' \<Longrightarrow> same_database s s' \<and> ls_freed s' = ls_freed s"
  by (auto simp: admit_txn_def lock_txn_def same_database_def Lock_config Let_def)

lemma take_txns_database:
  "dlm_mode (ls_lm s) \<noteq> 2 \<Longrightarrow> take_txns cd b n s = Inr s' \<Longrightarrow> same_database s s' \<and> ls_freed s' = ls_freed s"
proof (induction n arbitrary: s)
  case (Suc n)
  show ?case
  proof (cases "length (msg_data b) \<le> ls_batch_offset s")
    case False
    with Suc.prems(2) obtain s1 where s1: "admit_txn (dec_txn cd (msg_data b ! ls_batch_offset s)) (s\<lparr>ls_batch_offset := ls_batch_offset s + 1\<rparr>) = Inr s1"
      "take_txns cd b n s1 = Inr s'" by (auto simp: outcome_simps)
    have "same_database s s1 \<and> ls_freed s1 = ls_freed s"
      using admit_txn_database [OF _ s1(1)] Suc.prems(1) by (simp add: same_database_def)
    moreover from this Suc.prems(1) have "dlm_mode (ls_lm s1) \<noteq> 2" by (simp add: same_database_def)
    ultimately show ?thesis using Suc.IH [OF _ s1(2)] same_database_trans by fastforce
  qed (use Suc.prems in \<open>simp add: same_database_def\<close>)
qed (simp add: same_database_def)

lemma new_txns_database:
  assumes "dlm_mode (ls_lm s) \<noteq> 2" "new_txns cd s = Inr s'"
  shows "same_database s s' \<and> ls_freed s' = ls_freed s"
proof -
  have nxt: "same_database u u' \<and> ls_freed u' = ls_freed u" if "next_batch cd u = Inr u'" for u u'
    using that by (auto simp: next_batch_def same_database_def outcome_simps)
  show ?thesis
  proof (cases "ls_batch s")
    case None
    with assms(2) nxt show ?thesis by (simp add: new_txns_def)
  next
    case (Some b)
    with assms(2) have "next_batch cd (s\<lparr>ls_batch_offset := 0\<rparr>) = Inr s' \<or> take_txns cd b num_txns_once s = Inr s' \<or> s' = s"
      by (auto simp: new_txns_def split: if_splits)
    then consider "next_batch cd (s\<lparr>ls_batch_offset := 0\<rparr>) = Inr s'" | "take_txns cd b num_txns_once s = Inr s'" | "s' = s" by blast
    then show ?thesis
    proof cases
      case 1
      from nxt [OF this] show ?thesis by (simp add: same_database_def)
    next
      case 2
      from take_txns_database [OF assms(1) this] show ?thesis .
    qed (simp add: same_database_def)
  qed
qed

lemma iteration_database:
  assumes m: "dlm_mode (ls_lm s) \<noteq> 2" and run: "RunLockManagerThread_iteration cd rnd s = Inr s'"
  shows "same_database s s' \<and> ls_freed s' = ls_freed s @ ls_done_queue s"
proof -
  from run obtain s1 s2 where 1: "foldE (handle_done rnd) (ls_done_queue s) (s\<lparr>ls_done_queue := []\<rparr>) = Inr s1"
    and 2: "new_txns cd s1 = Inr s2" and s': "s' = drain_ready s2"
    by (auto simp: RunLockManagerThread_iteration_def drain_done_def outcome_simps)
  have d: "same_database s s1" "ls_freed s1 = ls_freed s @ ls_done_queue s" "dlm_mode (ls_lm s1) \<noteq> 2"
    using drain_done_database [OF _ 1] m by (auto simp: same_database_def)
  from new_txns_database [OF d(3) 2] d(1,2) show ?thesis by (auto simp: s' drain_ready_eq same_database_def)
qed

section \<open>The database is the log applied\<close>

text \<open>
  The invariant: from the database \<open>db\<close>, with the configuration \<open>c\<close>, the transactions executed so far
  were applied in the order in which they were done, and no worker waits.
\<close>

definition applied_inv ::
  "(txn_proto \<Rightarrow> string list) \<Rightarrow> txn_proto list \<Rightarrow> cluster_config \<Rightarrow> uint32 \<Rightarrow> simple_storage \<times> rec_heap \<Rightarrow> 'b machine \<Rightarrow> bool" where
  "applied_inv written log c m db mc \<longleftrightarrow>
     (let s = mc_lock mc in
      guid_only c (dlm_config (ls_lm s)) \<and> dlm_mode (ls_lm s) = m \<and> ls_storage s = fst db
      \<and> (\<forall>w \<in> set (mc_workers mc). wk_active w = [])
      \<and> value_of (fst db, ls_recs s) = apply_log written (map ((!) log) (ls_freed s @ ls_done_queue s)) (value_of db))"

lemma applied_inv_new: "applied_inv written log c m (st, recs) (machine_new c m st recs mx)"
  by (auto simp: applied_inv_def machine_new_def DeterministicScheduler_new_def DeterministicLockManager_new_def worker_new_def
      Let_def)

lemma from_log_local:
  assumes "from_log log s" "\<forall>txn \<in> set log. local_txn c m txn" "guid_only c c'" "t < ls_next s"
  shows "local_txn c' m (ls_heap s t)"
proof -
  have "local_txn c m (committed (log ! t)) = local_txn c m (log ! t)" "local_txn c m (committed (ls_heap s t)) = local_txn c m (ls_heap s t)"
    by (simp_all add: committed_def)
  moreover have "committed (ls_heap s t) = committed (log ! t)" "log ! t \<in> set log" using assms(1,4) by (auto simp: from_log_def)
  ultimately have "local_txn c m (ls_heap s t)" using assms(2) by metis
  with assms(3) show ?thesis by (auto simp: guid_only_def)
qed

context writing_application
begin

lemma apply_from_log:
  assumes "from_log log s" "t < ls_next s"
  shows "apply_txn written (ls_heap s t) = apply_txn written (log ! t)"
proof -
  have "written (committed (ls_heap s t)) = written (committed (log ! t))" using assms by (simp add: from_log_def)
  then show ?thesis by (simp add: committed_def written_status apply_txn_def fun_eq_iff)
qed

lemma applied_inv_lock_manager:
  assumes inv: "machine_inv active mc" and ok: "batch_ok cd (mc_lock mc)" and m: "m \<noteq> 2"
    and run: "RunLockManagerThread_iteration cd rnd (mc_lock mc) = Inr s" and app: "applied_inv written log c m db mc"
  shows "applied_inv written log c m db (mc\<lparr>mc_lock := s\<rparr>)"
proof -
  let ?ws = "concat (map worker_txns (mc_workers mc))"
  have "lm_inv active ((ls_txns_queue (mc_lock mc) @ ?ws) @ ls_done_queue (mc_lock mc)) (mc_lock mc)"
    "\<forall>t \<in> set (ls_done_queue (mc_lock mc)). tx_status (ls_heap (mc_lock mc) t) = COMMITTED"
    using inv by (simp_all add: machine_inv_def held_def)
  from lm_inv_iteration [OF this ok run] have "ls_done_queue s = []" by blast
  moreover have "dlm_mode (ls_lm (mc_lock mc)) \<noteq> 2" using app m by (simp add: applied_inv_def Let_def)
  note iteration_database [OF this run]
  ultimately show ?thesis using app by (simp add: applied_inv_def same_database_def Let_def)
qed

lemma applied_inv_worker:
  assumes inv: "machine_inv active mc" and log: "from_log log (mc_lock mc)" and loc: "\<forall>txn \<in> set log. local_txn c m txn"
    and inj: "inj_on (fst db) (dom (fst db))" and m: "m \<noteq> 2" and i: "i < length (mc_workers mc)"
    and run: "RunWorkerThread_iteration u64 u32 cd execute r (mc_workers mc ! i, mc_lock mc, mc_connection mc) = Inr (w, s, mx)"
    and app: "applied_inv written log c m db mc"
  shows "applied_inv written log c m db (mc\<lparr>mc_workers := (mc_workers mc)[i := w], mc_lock := s, mc_connection := mx\<rparr>)"
proof -
  let ?s = "mc_lock mc"
  have a: "guid_only c (dlm_config (ls_lm ?s))" "dlm_mode (ls_lm ?s) = m" "ls_storage ?s = fst db"
    "value_of (fst db, ls_recs ?s) = apply_log written (map ((!) log) (ls_freed ?s @ ls_done_queue ?s)) (value_of db)"
    and idle: "\<forall>w \<in> set (mc_workers mc). wk_active w = []" using app unfolding applied_inv_def Let_def by blast+
  have queue: "t < ls_next ?s" if "t \<in> set (ls_txns_queue ?s)" for t
    using lm_inv_run(3) [of active "held mc" ?s] inv that by (simp add: machine_inv_def held_def)
  have loc': "\<forall>t \<in> set (ls_txns_queue ?s). local_txn (dlm_config (ls_lm ?s)) (dlm_mode (ls_lm ?s)) (ls_heap ?s t)"
    using from_log_local [OF log loc a(1) queue] a(2) by simp
  have pre: "dlm_mode (ls_lm ?s) \<noteq> 2" "wk_active (mc_workers mc ! i) = []" "inj_on (ls_storage ?s) (dom (ls_storage ?s))"
    using a(2,3) m idle i inj by simp_all
  have w: "\<forall>v \<in> set ((mc_workers mc)[i := w]). wk_active v = []"
    using idle worker_applies [OF pre loc' run] by (auto dest!: set_update_subset_insert [THEN subsetD])
  from worker_applies [OF pre loc' run] consider "s = ?s" | t q where "ls_txns_queue ?s = t # q"
      "ls_done_queue s = ls_done_queue ?s @ [t]" "same_locks ?s s" "ls_storage s = ls_storage ?s"
      "value_of (ls_storage ?s, ls_recs s) = apply_txn written (ls_heap ?s t) (value_of (ls_storage ?s, ls_recs ?s))" by blast
  then show ?thesis
  proof cases
    case 1
    with app w show ?thesis by (simp add: applied_inv_def Let_def)
  next
    case (2 t q)
    have "guid_only c (dlm_config (ls_lm s))" using guid_only_trans [OF a(1)] 2(3) by (auto simp: same_locks_def guid_only_def)
    moreover have "value_of (fst db, ls_recs s) = apply_txn written (log ! t) (value_of (fst db, ls_recs ?s))"
      using 2(5) apply_from_log [OF log queue] 2(1) a(3) by simp
    ultimately show ?thesis using 2(2,3,4) a w
      by (simp add: applied_inv_def same_locks_def Let_def flip: append_assoc)
  qed
qed

lemma machine_applies:
  assumes "m \<noteq> 2" and "seqs_ok seqs" and inj: "inj_on st (dom st)"
    and loc: "\<forall>txn \<in> set (txn_log cd data (concat seqs)). local_txn c m txn"
  shows "machine_from cd execute (genuine cd seqs data) (machine_new c m st recs mx) mc \<Longrightarrow>
    applied_inv written (txn_log cd data (concat seqs)) c m (st, recs) mc"
proof (induction rule: machine_from.induct)
  case (lock_manager mc rnd s)
  then obtain a where "machine_inv a mc" using machine_from_inv [OF _ machine_inv_start [OF assms(1)]] by blast
  from applied_inv_lock_manager [OF this lock_manager(2) assms(1) lock_manager(3,4)] show ?case .
next
  case (worker mc i u64 u32 r w s mx')
  then obtain a where inv: "machine_inv a mc" using machine_from_inv [OF _ machine_inv_start [OF assms(1)]] by blast
  have "follows cd seqs data (mc_lock mc)"
    using machine_run_follows [OF _ assms(1,2)] worker(1) unfolding machine_run_def by blast
  then have "from_log (txn_log cd data (concat seqs)) (mc_lock mc)" by (simp add: follows_def)
  from applied_inv_worker [OF inv this loc _ assms(1) worker(2,4,5)] inj show ?case by simp
next
  case (others mc ms mx')
  then show ?case by (simp add: applied_inv_def batches_arrive_def Let_def)
qed (rule applied_inv_new)

end

text \<open>Either application, with the keys that it writes.\<close>

definition app_writes :: "'b codec \<Rightarrow> 'b app \<Rightarrow> (txn_proto \<Rightarrow> string list) \<Rightarrow> bool" where
  "app_writes cd app written \<longleftrightarrow>
     (\<exists>mb. app = Execute cd mb \<and> written = micro_written) \<or> (app = tpcc_app \<and> written = tpcc_written)"

lemma app_writes_calvin: "app_writes cd app written \<Longrightarrow> calvin_app cd app"
  by (auto simp: app_writes_def calvin_app_def)

lemma calvin_applies:
  assumes "machine_from cd app (genuine cd seqs data) (machine_new c m st recs mx) mc" and "m \<noteq> 2" and "app_writes cd app written"
    and "seqs_ok seqs" and "inj_on st (dom st)" and "\<forall>txn \<in> set (txn_log cd data (concat seqs)). local_txn c m txn"
  shows "applied_inv written (txn_log cd data (concat seqs)) c m (st, recs) mc"
  using assms(1,3) micro_writes.machine_applies [OF assms(2,4,5,6)] tpcc_writes.machine_applies [OF assms(2,4,5,6)]
  unfolding app_writes_def by blast

lemma apply_txn_count: "apply_txn written txn db k = map_option (advanced ^^ count_list (written txn) k) (db k)"
proof -
  have "fold (\<lambda>k db. db(k := map_option advanced (db k))) ks db k = map_option (advanced ^^ count_list ks k) (db k)" for ks and db :: "string \<Rightarrow> string option"
    by (induction ks arbitrary: db) (auto simp: option.map_comp option.map_ident funpow_Suc_right simp del: funpow.simps(2) cong: option.map_cong)
  then show ?thesis by (simp add: apply_txn_def)
qed

lemma apply_txn_commute: "apply_txn written t \<circ> apply_txn written u = apply_txn written u \<circ> apply_txn written t"
  by (simp add: fun_eq_iff apply_txn_count option.map_comp add.commute flip: funpow_add)

lemma apply_log_permuted: "mset txns = mset txns' \<Longrightarrow> apply_log written txns = apply_log written txns'"
  by (rule ext) (simp add: apply_log_def fold_multiset_equiv [OF apply_txn_commute, of txns txns'])

text \<open>When all transactions are done, those deleted are the first ones of the log.\<close>

lemma machine_inv_finished:
  assumes inv: "machine_inv active mc" and all: "length (ls_freed (mc_lock mc)) = ls_next (mc_lock mc)"
  shows "ls_done_queue (mc_lock mc) = []" and "mset (ls_freed (mc_lock mc)) = mset [0..<ls_next (mc_lock mc)]"
proof -
  let ?s = "mc_lock mc"
  have lm: "lm_inv active (held mc) ?s" using inv by (simp add: machine_inv_def)
  then have d: "distinct (active @ ls_freed ?s)" and s: "set (active @ ls_freed ?s) = {..<ls_next ?s}" unfolding lm_inv_def by blast+
  have "length active + length (ls_freed ?s) = ls_next ?s" using distinct_card [OF d] unfolding s by simp
  then have "active = []" using all by simp
  with lm_inv_run(2) [OF lm] show "ls_done_queue ?s = []" by (simp add: held_def)
  have "set (ls_freed ?s) = set [0..<ls_next ?s]" using s unfolding \<open>active = []\<close> by (simp add: atLeast0LessThan)
  with set_eq_iff_mset_eq_distinct [OF lm_inv_freed(1) [OF lm] distinct_upt]
  show "mset (ls_freed ?s) = mset [0..<ls_next ?s]" by blast
qed

lemma map_nth_take: "n \<le> length xs \<Longrightarrow> map ((!) xs) [0..<n] = take n xs"
  by (rule nth_equalityI) simp_all

lemma applied_finished:
  assumes inv: "machine_inv active mc" and log: "from_log log (mc_lock mc)" and all: "length (ls_freed (mc_lock mc)) = ls_next (mc_lock mc)"
  shows "apply_log written (map ((!) log) (ls_freed (mc_lock mc) @ ls_done_queue (mc_lock mc))) = apply_log written (take (ls_next (mc_lock mc)) log)"
proof (rule apply_log_permuted)
  note fin = machine_inv_finished [OF inv all]
  have "mset (map ((!) log) (ls_freed (mc_lock mc))) = mset (map ((!) log) [0..<ls_next (mc_lock mc)])" unfolding mset_map fin(2) ..
  with fin(1) log show "mset (map ((!) log) (ls_freed (mc_lock mc) @ ls_done_queue (mc_lock mc))) = mset (take (ls_next (mc_lock mc)) log)"
    by (simp add: from_log_def map_nth_take)
qed

text \<open>
  C4: in the modes 0 and 1, for a log without distributed transactions, the database is the log applied.
  Take a machine in the original or the low-latency mode (not the background-remaster mode 2, in which the
  workers abort transactions), with either application, whose agreed log has only transactions on its own
  keys, each key in a record of its own. In every state that it can reach, whatever the interleaving of
  its threads, the value of every key is the loaded one advanced by the transactions executed so far, each
  applied exactly once and in the order in which they were done; and when it is done with all that it has
  admitted, the values are those of applying the first transactions of the log one after the other.
\<close>

theorem database_applies_log:
  assumes "machine_from cd app (genuine cd seqs data) (machine_new c m st recs mx) mc" and "m \<noteq> 2" and "app_writes cd app written"
    and "seqs_ok seqs" and "inj_on st (dom st)" and "\<forall>txn \<in> set (txn_log cd data (concat seqs)). local_txn c m txn"
  shows "let s = mc_lock mc; log = txn_log cd data (concat seqs); db = value_of (ls_storage s, ls_recs s) in
    db = apply_log written (map ((!) log) (ls_freed s @ ls_done_queue s)) (value_of (st, recs))
    \<and> (length (ls_freed s) = ls_next s \<longrightarrow> db = apply_log written (take (ls_next s) log) (value_of (st, recs)))"
proof -
  have run: "machine_run cd app (genuine cd seqs data) m mc" using assms(1) unfolding machine_run_def by blast
  obtain active where inv: "machine_inv active mc" using calvin_machine_inv [OF run assms(2) app_writes_calvin [OF assms(3)]] by blast
  have log: "from_log (txn_log cd data (concat seqs)) (mc_lock mc)"
    using calvin_follows [OF run assms(2) app_writes_calvin [OF assms(3)] assms(4)] by (simp add: follows_def)
  from calvin_applies [OF assms] have
    "value_of (ls_storage (mc_lock mc), ls_recs (mc_lock mc)) = apply_log written
      (map ((!) (txn_log cd data (concat seqs))) (ls_freed (mc_lock mc) @ ls_done_queue (mc_lock mc))) (value_of (st, recs))"
    by (simp add: applied_inv_def Let_def)
  with applied_finished [OF inv log, of written] show ?thesis by (auto simp: Let_def)
qed


text \<open>The initial load gives each key a record of its own.\<close>

lemma load_entry_separate:
  assumes "store_ok st h" "inj_on st (dom st)" "load_entry kr (st, h) = (st', h')"
  shows "store_ok st' h' \<and> inj_on st' (dom st')"
proof -
  from assms(3) have st': "st' = st(fst kr \<mapsto> length h)" by (auto simp: load_entry_def heap_new_def PutObject_def)
  have "st k \<noteq> Some (length h)" for k using assms(1) by (auto simp: store_ok_def)
  with assms(2) have "inj_on st' (dom st')" unfolding st' inj_on_def by (metis domIff fun_upd_apply)
  with load_entry_ok [OF assms(1,3)] show ?thesis by blast
qed

lemma load_separate: "store_ok st h \<Longrightarrow> inj_on st (dom st) \<Longrightarrow> inj_on (fst (fold load_entry krs (st, h))) (dom (fst (fold load_entry krs (st, h))))"
proof (induction krs arbitrary: st h)
  case (Cons kr krs)
  obtain st' h' where l: "load_entry kr (st, h) = (st', h')" by (cases "load_entry kr (st, h)")
  with load_entry_separate [OF Cons.prems l] Cons.IH [of st' h'] show ?case by simp
qed simp

section \<open>A concrete run\<close>

definition two_writes_data :: "uint64 \<Rightarrow> payload message_proto" where
  "two_writes_data = example_data(7 := two_writes)"

lemma two_writes_log: "txn_log payload_codec two_writes_data (concat example_sequences) = [write_txn 1, write_txn 2]"
  by (simp add: example_sequences_def two_writes_data_def two_writes_def example_data_def new_subbatch_def example_subbatch_def MessageProto_new_def payload_codec_def)

lemma two_writes_local: "\<forall>txn \<in> set (txn_log payload_codec two_writes_data (concat example_sequences)). local_txn (example_config 0) 0 txn"
  unfolding two_writes_log
  by (simp add: local_txn_def distinct_keys_def txn_entries_def write_txn_def TxnProto_new_def reads_here_def example_IsLocal [unfolded IsLocal_def])

definition letters_A :: string where "letters_A = replicate 8 (CHR ''A'')"

lemma two_writes_finished:
  assumes G: "G example_order" "G two_writes"
  shows "\<exists>mc. machine_from payload_codec tpcc_app G
       (machine_new (example_config 0) 0 [''0'' \<mapsto> length pad] (pad @ [Record_new letters_A 0]) example_connection) mc
     \<and> ls_freed (mc_lock mc) = [0, 1] \<and> ls_next (mc_lock mc) = 2 \<and> ls_storage (mc_lock mc) ''0'' = Some (length pad)"
proof -
  have v: "advance_value letters_A = Inr (advanced letters_A)" "advance_value (advanced letters_A) = Inr (advanced (advanced letters_A))"
    by (simp_all add: advance_value_def advanced_def require_defined_def letters_A_def)
  obtain lm g where "machine_from payload_codec tpcc_app G (two_writes_new pad letters_A)
      (two_writes_machine (two_writes_state 2 lm [] [] [0, 1] g pad (advanced (advanced letters_A))))"
    using two_writes_run [OF G v] by blast
  then show ?thesis unfolding two_writes_new_def
    by (intro exI conjI, assumption) (simp_all add: two_writes_machine_def two_writes_state_def)
qed

lemma two_writes_value: "value_of ([''0'' \<mapsto> length pad], pad @ [Record_new v 0]) = [''0'' \<mapsto> v]"
  by (simp add: value_of_def record_of_def Record_new_def Record_new_counter_def fun_eq_iff)

lemma two_writes_hypotheses:
  "(0 :: uint32) \<noteq> 2" "app_writes payload_codec tpcc_app tpcc_written" "seqs_ok example_sequences"
  "inj_on [''0'' \<mapsto> p :: rec_ptr] (dom [''0'' \<mapsto> p])"
  by (simp_all add: app_writes_def example_sequences_def example_seqs_ok)

lemma database_applies_log_witness:
  "\<exists>mc :: payload machine. ls_freed (mc_lock mc) = [0, 1]
     \<and> value_of (ls_storage (mc_lock mc), ls_recs (mc_lock mc)) = [''0'' \<mapsto> advanced (advanced letters_A)]"
proof -
  obtain mc where mc: "machine_from payload_codec tpcc_app (genuine payload_codec example_sequences two_writes_data)
       (machine_new (example_config 0) 0 [''0'' \<mapsto> 0] [Record_new letters_A 0] example_connection) mc"
     "ls_freed (mc_lock mc) = [0, 1]" "ls_next (mc_lock mc) = 2" using two_writes_finished [OF two_writes_genuine [folded two_writes_data_def], of "[]"] by auto
  have "length (ls_freed (mc_lock mc)) = ls_next (mc_lock mc)" using mc(2,3) by simp
  with database_applies_log [OF mc(1) two_writes_hypotheses two_writes_local]
  have "value_of (ls_storage (mc_lock mc), ls_recs (mc_lock mc))
      = apply_log tpcc_written (take (ls_next (mc_lock mc)) [write_txn 1, write_txn 2]) (value_of ([''0'' \<mapsto> 0], [Record_new letters_A 0]))"
    unfolding Let_def two_writes_log by blast
  then have "value_of (ls_storage (mc_lock mc), ls_recs (mc_lock mc)) = [''0'' \<mapsto> advanced (advanced letters_A)]"
    using two_writes_value [of "[]" letters_A] mc(3)
    by (simp add: apply_log_def apply_txn_def tpcc_written_def write_txn_def TxnProto_new_def)
  with mc(2) show ?thesis by (intro exI [of _ mc]) simp
qed


end
