(* ===== verification/Spec2Isabelle.thy ===== *)
theory Spec2Isabelle
  imports Server Startup Applied_Log
begin

text \<open>
  This library models the deterministic distributed database of this repository (an implementation of
  Calvin with low-latency modes and remastering) and proves what makes its parts correct. Every
  definition that models code is a translation of the C++ under \<open>src/\<close>; paths below are relative to it.

  \<^bold>\<open>The program.\<close> A cluster is a number of replicas, each with the same number of machines, and every
  machine of a replica stores one partition of the keys. A transaction names the keys it reads and writes.
  On each machine

  \<^item> a client (\<open>machine/client.h\<close>) makes transactions for one of two applications
    (\<open>applications/microbenchmark.cc\<close>, \<open>applications/tpcc.cc\<close>);

  \<^item> a sequencer (\<open>machine/sequencer.cc\<close>, or \<open>machine/lowlatency_sequencer.cc\<close> in the modes 1 and 2)
    collects them in epochs to batches, sends the batches to the replicas, has the number of a batch put
    into the agreed log once a majority has it, and hands the scheduler of every machine the part of
    the batch that has keys there;

  \<^item> a Paxos thread on the first machine of a replica (\<open>log/paxos.cc\<close>, \<open>log/local_paxos.cc\<close>, over the
    log of \<open>log/local_mem_log.cc\<close>) agrees on the order of the batches and tells the schedulers;

  \<^item> the scheduler (\<open>scheduler/deterministic_scheduler.cc\<close>) is a lock manager thread, which puts the
    batches into the agreed order and locks the keys of each transaction in that order
    (\<open>scheduler/deterministic_lock_manager.cc\<close>), and worker threads, which execute transactions that
    have all their locks, with a storage manager for each (\<open>backend/storage_manager.cc\<close>) that reads
    the local records (\<open>backend/simple_storage.cc\<close>), sends them to the other machines of the
    transaction and waits for theirs;

  \<^item> a multiplexer (\<open>machine/connection.cc\<close>) carries all messages by named channels.

  In mode 2 a record has a master replica and a counter of its moves; a transaction ordered with an old
  master waits or is aborted and submitted again.

  \<^bold>\<open>Theories and code.\<close>

  \<^item> \<open>Calvin_Prelude\<close>: integers of \<open>common/types.h\<close>, outcomes (\<open>Inl\<close> a failed \<open>CHECK\<close> or undefined
    behaviour, \<open>Inr\<close> a result), \<open>bindE\<close> and \<open>foldE\<close>, ordered containers.

  \<^item> \<open>Utils\<close>: \<open>common/utils.cc\<close>, \<open>common/utils.h\<close>. \<open>Messages\<close>: \<open>proto/\<close>; the bytes of a message are a
    type parameter, the protobuf calls are the functions of a \<open>codec\<close>, of which \<open>codec_ok\<close> assumes that
    parsing inverts serialising; \<open>payload_codec\<close> is an instance. \<open>Cluster_Config\<close>:
    \<open>machine/cluster_config.cc\<close>.

  \<^item> \<open>Mem_Log\<close>, \<open>Paxos\<close>, \<open>Local_Paxos\<close>: \<open>log/\<close>. \<open>Sequencer\<close>, \<open>Lowlatency_Sequencer\<close>,
    \<open>Connection\<close>, \<open>Client\<close>: the files of \<open>machine/\<close> with these names. \<open>Startup\<close>: the synchronisation
    at the start of both sequencers and of the scheduler.

  \<^item> \<open>Storage\<close>: \<open>backend/storage.h\<close>, \<open>backend/simple_storage.cc\<close>, with records on an explicit heap because
    they are shared by pointers. \<open>Storage_Manager\<close>, \<open>Commit_Abort\<close>: \<open>backend/storage_manager.cc\<close>.

  \<^item> \<open>Lock_Manager\<close>, \<open>Scheduler\<close>, \<open>Worker\<close>: \<open>scheduler/\<close>. \<open>Worker\<close> also composes the lock manager
    thread and the workers to a machine, \<open>Agreed_Order\<close> relates the machine to the agreed log, and
    \<open>Applied_Log\<close> its database.

  \<^item> \<open>Random_Keys\<close>, \<open>Microbenchmark\<close>, \<open>Tpcc\<close>: \<open>applications/\<close>.

  \<^item> \<open>Cluster_Manager\<close>: \<open>machine/cluster_manager.cc\<close>, \<open>scripts/cluster.cc\<close>, \<open>scripts/script_utils.cc\<close>.
    \<open>Server\<close>: \<open>scripts/calvindb_server.cc\<close>, \<open>scripts/lowlatency_calvindb_server.cc\<close>.

  Classes are records with a prefix for their members (\<open>bs_\<close>, \<open>dlm_\<close>, \<open>ls_\<close>, \<open>wk_\<close>, \<open>sm_\<close>, \<open>mx_\<close>, ...),
  enumerations are datatypes, integers are words of their width. A \<open>unordered_map\<close> or \<open>map\<close> whose order
  matters is an association list, others are maps; sets that are iterated are sorted lists
  (\<open>os_insert\<close>). Methods have the name of the C++ method, perhaps with a prefix.

  \<^bold>\<open>Concurrency.\<close> One iteration of the loop of a thread is one step, or one message where a loop handles
  one at a time; a run is a sequence of steps of the threads in any order (\<open>lock_step\<close>, \<open>paxos_step\<close>,
  \<open>leader_step\<close>, \<open>mux_run\<close>, \<open>startup_run\<close>, \<open>machine_from\<close>). Methods under a mutex are one function. What
  the rest of the system may do in between is a step of its own: in \<open>machine_from\<close> the connection may
  change in any way and messages may arrive at any time.
\<close>

text \<open>
  \<^bold>\<open>What is shown.\<close>

  \<^item> Determinism. The lock manager refines a list of active transactions in the order in which they came:
    \<open>Lock\<close> appends, \<open>Release\<close> deletes, the lock queues, wait counts and ready transactions are what the list
    says. So no two conflicting transactions run together, later ones wait for earlier ones, and the
    first one can always run. \<open>GetBatch\<close> returns the batches of the agreed sequences in order, whatever
    the order of arrival, and all of them. Composed, for the modes 0 and 1: a machine admits the agreed log in
    order and finishes conflicting transactions in that order; two machines with the same log do the same; the
    database of a machine whose transactions are local is the log applied one by one, and replicas
    that are done with it have the same values; and in mode 0, where no transaction is distributed, that
    log is what the sequencer makes of the agreed batches (\<open>partition_executes_batches\<close>). The runs are
    those of \<open>machine_from\<close>: no step fails, no transaction of a batch names a key twice, and a worker starts
    no transaction whose id and origin it has under way. In mode 2 none of this holds as it stands: what waits
    for a remaster leaves the order, and \<open>aborted_waiting_txn_leaks_locks\<close> shows a transaction that is lost.

  \<^item> Agreement. The logs of the Paxos machines are prefixes of each other, hold only what a majority holds,
    and no step fails a check; the leader of a low-latency replica (\<open>RunLeader\<close>, for the types other than 2) numbers
    its global log consecutively, tells its machines exactly that order, and forwards each local sequence once.

  \<^item> Sequencing. Batches are submitted once, when a majority has them; an epoch is bounded and its ids are
    consecutive; every scheduler gets exactly the transactions with keys of its machine, in order, marked with
    the partitions that read and write, and the leaders what they have to order; in the low-latency modes the masters are looked up at the owners of the keys and a transaction goes to
    the replica that masters it, or to replica 0.

  \<^item> Execution. The managers of a transaction exchange their reads so that each writer has every value; a
    worker of a machine that writes runs a distributed transaction of mode 0 once, whatever the order of the
    messages; in mode 2 it commits exactly if it has not been aborted before and every key has the master and
    counter it was ordered with, and of all its parts at most one is submitted again. A remaster wakes exactly
    the transactions that wait for nothing else, in order, if their ids are different.

  \<^item> Applications. The generators return well-formed transactions on keys of the database for every
    \<open>rand()\<close>, and return if \<open>rand()\<close> is fair; executing a transaction advances its records once; in the
    microbenchmark it keeps their access statistics from overflowing and asks for a remaster at the threshold, and
    in TPC-C it changes nothing else; on a fresh cluster a transaction of a low-latency client finds its records.

  \<^item> Infrastructure. The queue of \<open>common/utils.h\<close> and a channel of the multiplexer are FIFO queues, a log reader
    delivers what was appended, the configuration text round trips, the start-up is a barrier, both servers
    start, with a Paxos on exactly the participants, and the status report of the cluster tool says which
    machines run a server under its default name.

  \<^item> Where the code does otherwise than it means to, a lemma shows it: leaked locks and lost wake-ups of
    transactions that wait for a remaster, followers of a local Paxos that never apply, a log entry
    with the wrong version, a reader-only machine that waits for ever, generators that fail or loop
    for some configurations, a status report that is shifted or misses a renamed server, and others, beside the code they are about.

  \<^bold>\<open>Interfaces.\<close> What a component relies on is a locale, with the lemmas of its clients inside, interpreted on
  the model: \<open>fifo_queue\<close>, \<open>append_log\<close>, \<open>record_store\<close>, \<open>partitioning\<close>, \<open>request_table\<close> (the hashed lock
  table), \<open>lock_service\<close> (acquire and release over a list of active transactions) and \<open>application\<close>
  with its extension \<open>writing_application\<close>, which both applications are.

  \<^bold>\<open>Bounds and fuel.\<close> Words wrap as in the code. Where a statement needs that none does, it says so:
  \<open>seqs_ok\<close> bounds the sequences by their 32-bit indices, \<open>micro_ok\<close> and \<open>tpcc_ok\<close> keep the keys below
  \<open>2^31\<close>, beyond which printing them as \<open>int\<close> would change them, \<open>config_ok\<close> says what an accepted
  configuration has. Loops over a container are structural. Loops that draw random numbers until one is
  new are \<open>partial_function (option)\<close> over a stream of values: \<open>None\<close> is a loop that never ends, and
  \<open>fair_rand\<close>, under which it ends, says that every value comes again. A log is drained with its
  length as the fuel, which is enough because each step passes an entry. Waiting for a message takes a
  list of polls, so a wait that is never answered is a run that uses them up.

  \<^bold>\<open>Parameters.\<close> The codec, \<open>rand()\<close>, the clock (as the transactions an epoch or round gets), the bytes at
  the sockets with their encoding, the results of \<open>system()\<close>, the entries of \<open>/proc\<close>, the text of the
  configuration file, and members that the code leaves uninitialised (\<open>u64\<close>, \<open>u32\<close>) are arguments, for
  which the statements hold in general.

  \<^bold>\<open>Not modelled.\<close> The generated protobuf code and \<open>machine/zmq.hpp\<close>, a binding of ZeroMQ, are third-party.
  \<open>common/mutex.h\<close> wraps pthread locks, and its effect is the atomicity of the steps above; hence data
  races outside a lock are not in the models. Sleeping, the busy waits that simulate work, reading the
  clock, log and latency output have no effect on the state. Destructors and the deletion of objects are
  left out, except where a pointer is used after it. The random text of \<open>common/utils.cc\<close>, its
  floating-point helpers, \<open>AtomicMap::Destroy\<close> (which takes its lock twice, see the findings) and the lookup of host names
  have no caller in the modelled parts. A crash of a machine or the loss of a message is not modelled:
  the code has no recovery, and its channels are reliable streams.
\<close>

section \<open>From the sequencer to the database\<close>

text \<open>
  A machine of relative id \<open>i\<close> has the sub-batches that the sequencer of its replica makes: \<open>data\<close> has for
  the number of each agreed batch what the reader sends to \<open>i\<close>, after whatever batches came before.
\<close>

definition distributed ::
  "'b codec \<Rightarrow> cluster_config \<Rightarrow> uint64 \<Rightarrow> (uint64 \<Rightarrow> 'b message_proto) \<Rightarrow> (uint64 \<Rightarrow> 'b message_proto) \<Rightarrow> uint64 \<Rightarrow> bool" where
  "distributed cd c i batch data b \<longleftrightarrow>
     msg_type (batch b) = TXN_BATCH \<and> msg_batch_number (batch b) = b
     \<and> (\<exists>before paxos s s' sent. (\<forall>m \<in> set before. msg_type m = TXN_BATCH)
          \<and> reader_after cd before (Sequencer_new c paxos) = Inr s
          \<and> RunReader_message cd (batch b) s = Inr (s', sent) \<and> data b = sent ! unat i)"

text \<open>The transactions of the batches that have a key on machine \<open>i\<close>, as the clients made them.\<close>

definition partition_log ::
  "'b codec \<Rightarrow> cluster_config \<Rightarrow> uint64 \<Rightarrow> (uint64 \<Rightarrow> 'b message_proto) \<Rightarrow> uint64 list \<Rightarrow> txn_proto list" where
  "partition_log cd c i batch bs = filter (\<lambda>txn. i \<in> txn_machines c txn) (txn_log cd batch bs)"

text \<open>A transaction of one partition that names no key twice.\<close>

definition one_partition :: "cluster_config \<Rightarrow> txn_proto \<Rightarrow> bool" where
  "one_partition c txn \<longleftrightarrow> distinct_keys txn \<and> (\<exists>p. \<forall>ke \<in> set (txn_entries txn). LookupPartition c (ke_key ke) = p)"

lemma distributed_sub_batch:
  assumes "config_ok c" "i < nodes_per_replica c" "distributed cd c i batch data b"
  shows "data b = sub_batch cd c i (batch b)"
proof -
  from assms(3) obtain before paxos s s' sent where b: "msg_type (batch b) = TXN_BATCH" "\<forall>m \<in> set before. msg_type m = TXN_BATCH"
    "reader_after cd before (Sequencer_new c paxos) = Inr s" "RunReader_message cd (batch b) s = Inr (s', sent)" "data b = sent ! unat i"
    unfolding distributed_def by blast
  have "unat i < unat (nodes_per_replica c)" using assms(2) by (simp add: word_less_nat_alt)
  with reader_sends [OF assms(1), of before "batch b" cd paxos] b show ?thesis by (auto simp: nth_append)
qed

text \<open>So the log of the machine is that of its partition, with the readers and writers marked.\<close>

lemma sub_batch_log:
  assumes "codec_ok cd" "\<forall>b \<in> set bs. data b = sub_batch cd c i (batch b)"
  shows "txn_log cd data bs = map (\<lambda>txn. fst (mark_txn c txn)) (partition_log cd c i batch bs)"
  using assms(2)
proof (induction bs)
  case (Cons b bs)
  have "map (dec_txn cd) (msg_data (sub_batch cd c i (batch b)))
      = map (\<lambda>txn. fst (mark_txn c txn)) (filter (\<lambda>txn. i \<in> txn_machines c txn) (map (dec_txn cd) (msg_data (batch b))))"
    using assms(1) by (simp add: sub_batch_def filter_map o_def)
  with Cons show ?case by (simp add: partition_log_def)
qed (simp add: partition_log_def)

lemma marked_local:
  assumes "one_partition c txn" "i \<in> txn_machines c txn" "nodes_per_replica c' = nodes_per_replica c" "cc_relative_node_id c' = i"
  shows "local_txn c' 0 (fst (mark_txn c txn))"
proof -
  have same: "LookupPartition c' k = LookupPartition c k" for k using assms(3) by (simp add: LookupPartition_def)
  have entries: "txn_entries (fst (mark_txn c txn)) = txn_entries txn"
    by (subst mark_txn_facts(5)) (simp add: txn_entries_def)
  have "LookupPartition c (ke_key ke) = i" if "ke \<in> set (txn_entries txn)" for ke
    using assms(1,2) that by (auto simp: one_partition_def txn_machines_def txn_entries_def)
  moreover have "i \<in> set (tx_readers (fst (mark_txn c txn)))" using assms(2) by (simp add: mark_txn_facts(1,3))
  ultimately show ?thesis
    using assms(1,4) by (simp add: local_txn_def entries distinct_keys_def reads_here_def same one_partition_def)
qed

lemma written_marked: "app_writes cd app written \<Longrightarrow> written (fst (mark_txn c txn)) = written txn"
  by (auto simp: app_writes_def micro_written_def tpcc_written_def mark_txn_def Let_def)

lemma apply_log_marked:
  assumes "app_writes cd app written"
  shows "apply_log written (map (\<lambda>txn. fst (mark_txn c txn)) txns) = apply_log written txns"
  by (rule ext, induction txns rule: rev_induct) (simp_all add: apply_txn_def written_marked [OF assms])

text \<open>
  C3: the components together, for one-partition transactions. Take a machine of the original mode (0)
  with either application, fed with the sub-batches that the sequencer of its replica makes of the agreed
  batches, in any order of arrival, where no transaction of these batches is distributed: each has all its
  keys on one partition. In every state in which the machine is done with what it has admitted, its
  database is the loaded one with the first transactions of the batches that have keys on this machine
  applied one after the other, in the agreed order of the batches and in batch order.
\<close>

theorem partition_executes_batches:
  assumes "codec_ok cd" and "config_ok c" and "i < nodes_per_replica c"
    and "nodes_per_replica c' = nodes_per_replica c" and "cc_relative_node_id c' = i"
    and "seqs_ok seqs" and "\<forall>b \<in> set (concat seqs). distributed cd c i batch data b"
    and "\<forall>txn \<in> set (txn_log cd batch (concat seqs)). one_partition c txn"
    and "machine_from cd app (genuine cd seqs data) (machine_new c' 0 st recs mx) mc" and "app_writes cd app written"
    and "inj_on st (dom st)" and "length (ls_freed (mc_lock mc)) = ls_next (mc_lock mc)"
  shows "value_of (ls_storage (mc_lock mc), ls_recs (mc_lock mc))
    = apply_log written (take (ls_next (mc_lock mc)) (partition_log cd c i batch (concat seqs))) (value_of (st, recs))"
proof -
  let ?log = "txn_log cd data (concat seqs)"
  have "\<forall>b \<in> set (concat seqs). data b = sub_batch cd c i (batch b)"
    using distributed_sub_batch [OF assms(2,3)] assms(7) by blast
  note log = sub_batch_log [OF assms(1) this]
  have "\<forall>txn \<in> set ?log. local_txn c' 0 txn"
    using assms(8) marked_local [OF _ _ assms(4,5)] by (auto simp: log partition_log_def)
  note applied = calvin_applies [OF assms(9) _ assms(10,6,11) this]
  have run: "machine_run cd app (genuine cd seqs data) 0 mc" using assms(9) unfolding machine_run_def by blast
  obtain active where inv: "machine_inv active mc" using calvin_machine_inv [OF run _ app_writes_calvin [OF assms(10)]] by auto
  have "from_log ?log (mc_lock mc)"
    using calvin_follows [OF run _ app_writes_calvin [OF assms(10)] assms(6)] by (simp add: follows_def)
  from applied_finished [OF inv this assms(12), of written] applied have
    "value_of (ls_storage (mc_lock mc), ls_recs (mc_lock mc)) = apply_log written (take (ls_next (mc_lock mc)) ?log) (value_of (st, recs))"
    by (simp add: applied_inv_def Let_def)
  then show ?thesis by (simp add: log take_map apply_log_marked [OF assms(10)])
qed

section \<open>A concrete run\<close>

text \<open>The two transactions of \<open>two_writes\<close> as a client makes them, in the batch 7; the batch 8 is empty.\<close>

definition two_writes_batch :: "uint64 \<Rightarrow> payload message_proto" where
  "two_writes_batch b = MessageProto_new\<lparr>msg_type := TXN_BATCH, msg_batch_number := b,
     msg_data := if b = 7 then map (\<lambda>j. Txn_bytes ((write_txn j)\<lparr>tx_readers := [], tx_writers := []\<rparr>)) [1, 2] else []\<rparr>"

definition two_writes_parts :: "uint64 \<Rightarrow> payload message_proto" where
  "two_writes_parts b = sub_batch payload_codec (example_config 0) 0 (two_writes_batch b)"

lemma example_relative_id: "cc_relative_node_id (example_config 0) = 0" "0 < nodes_per_replica (example_config 0)"
  by (simp add: example_config_def, simp add: example_config_size)

lemma two_writes_parts_7: "two_writes_parts 7 = two_writes"
  using example_IsLocal(1) example_relative_id(1)
  by (simp add: two_writes_parts_def two_writes_batch_def sub_batch_def two_writes_def payload_codec_def txn_machines_def
      mark_txn_def write_txn_def TxnProto_new_def IsLocal_def participants_def os_insert_def insort_insert_key_def MessageProto_new_def Let_def)

lemma two_writes_distributed: "distributed payload_codec (example_config 0) 0 two_writes_batch two_writes_parts b"
proof -
  have "\<forall>m \<in> set ([] @ [two_writes_batch b]). msg_type m = TXN_BATCH" by (simp add: two_writes_batch_def MessageProto_new_def)
  from reader_sends [OF example_config_ok this, where cd = payload_codec and paxos = "Paxos_new (example_config 0)"] obtain s s' where
    "reader_after payload_codec [] (Sequencer_new (example_config 0) (Paxos_new (example_config 0))) = Inr s"
    "RunReader_message payload_codec (two_writes_batch b) s = Inr (s', map (\<lambda>i. sub_batch payload_codec (example_config 0) (of_nat i) (two_writes_batch b))
      [0..<unat (nodes_per_replica (example_config 0))] @ [MessageProto_new\<lparr>msg_destination_channel := ''sequencer_'', msg_destination_node := 0,
        msg_type := BATCH_VOTE, msg_misc_int := [msg_batch_number (two_writes_batch b)]\<rparr>])"
    by blast
  moreover have "0 < unat (nodes_per_replica (example_config 0))" using example_relative_id(2) by (simp add: word_less_nat_alt)
  ultimately show ?thesis unfolding distributed_def two_writes_parts_def
    by (intro conjI exI [of _ "[]"] exI) (auto simp: two_writes_batch_def MessageProto_new_def nth_append)
qed

lemma two_writes_partition_log:
  "partition_log payload_codec (example_config 0) 0 two_writes_batch (concat example_sequences)
     = map (\<lambda>j. (write_txn j)\<lparr>tx_readers := [], tx_writers := []\<rparr>) [1, 2]"
  "\<forall>txn \<in> set (txn_log payload_codec two_writes_batch (concat example_sequences)). one_partition (example_config 0) txn"
  using example_IsLocal(1) example_relative_id(1)
  by (simp_all add: partition_log_def example_sequences_def two_writes_batch_def MessageProto_new_def payload_codec_def one_partition_def
      distinct_keys_def txn_entries_def write_txn_def TxnProto_new_def txn_machines_def IsLocal_def)

lemma partition_executes_batches_witness:
  "\<exists>mc :: payload machine. ls_freed (mc_lock mc) = [0, 1]
     \<and> value_of (ls_storage (mc_lock mc), ls_recs (mc_lock mc)) = [''0'' \<mapsto> advanced (advanced letters_A)]"
proof -
  have no: "msg_batch_number two_writes = 7" by (simp add: two_writes_def)
  have "genuine payload_codec example_sequences two_writes_parts example_order"
    by (simp add: genuine_def example_sequences_def example_order_def MessageProto_new_def payload_codec_def)
  moreover have "genuine payload_codec example_sequences two_writes_parts two_writes"
    by (simp add: genuine_def no two_writes_parts_7) (simp add: two_writes_def new_subbatch_def)
  ultimately obtain mc where
    run: "machine_from payload_codec tpcc_app (genuine payload_codec example_sequences two_writes_parts)
       (machine_new (example_config 0) 0 [''0'' \<mapsto> 0] [Record_new letters_A 0] example_connection) mc"
    and mc: "ls_freed (mc_lock mc) = [0, 1]" "ls_next (mc_lock mc) = 2"
    using two_writes_finished [of _ "[]"] by auto
  have "length (ls_freed (mc_lock mc)) = ls_next (mc_lock mc)" by (simp add: mc)
  from partition_executes_batches [OF payload_codec_ok example_config_ok example_relative_id(2) refl example_relative_id(1)
      two_writes_hypotheses(3) _ two_writes_partition_log(2) run two_writes_hypotheses(2,4) this] two_writes_distributed
  have "value_of (ls_storage (mc_lock mc), ls_recs (mc_lock mc))
      = apply_log tpcc_written (map (\<lambda>j. (write_txn j)\<lparr>tx_readers := [], tx_writers := []\<rparr>) [1, 2]) (value_of ([''0'' \<mapsto> 0], [Record_new letters_A 0]))"
    by (simp add: two_writes_partition_log(1) mc(2))
  then have "value_of (ls_storage (mc_lock mc), ls_recs (mc_lock mc)) = [''0'' \<mapsto> advanced (advanced letters_A)]"
    using two_writes_value [of "[]" letters_A]
    by (simp add: apply_log_def apply_txn_def tpcc_written_def write_txn_def TxnProto_new_def)
  with mc(1) show ?thesis by (intro exI [of _ mc]) simp
qed

end
